(* ===== verification/Prelude.thy ===== *)
theory Prelude
  imports Main "HOL-Library.Word" "HOL-Library.Monad_Syntax"
begin

text \<open>
  The shared layer of the development: byte strings, little-endian integers as the code writes
  them with \<^verbatim>\<open>str.append(reinterpret_cast<const char *>(&n), sizeof(n))\<close>, two's complement
  views of machine integers, the growing \<^verbatim>\<open>std::vector<char>\<close> buffer that the objects serialise
  into, and the interface (a locale) of a self-delimiting binary format together with the facts
  that every format of the program inherits from it.

  A \<^verbatim>\<open>char\<close> of HOL is a byte, so a byte string is a \<^typ>\<open>string\<close>.  A read past the end of a
  buffer is undefined behaviour in the source; every reader below returns \<^term>\<open>None\<close> there.
\<close>

named_theorems codec_simps \<open>equations that run the binary readers on what the writers wrote\<close>
named_theorems size_simps \<open>equations of the size bookkeeping\<close>

type_synonym bytes = string
type_synonym u64 = "64 word"
type_synonym 'a reader = "bytes \<Rightarrow> ('a \<times> bytes) option"

section \<open>Two's complement views\<close>

text \<open>The conversion of a value to a signed integer type of \<open>w\<close> bits.\<close>

definition to_signed :: "nat \<Rightarrow> int \<Rightarrow> int" where
  "to_signed w x = (let r = x mod 2 ^ w in if 2 * r < 2 ^ w then r else r - 2 ^ w)"

text \<open>The values of \<^verbatim>\<open>int64_t\<close>.\<close>

definition is_i64 :: "int \<Rightarrow> bool" where
  "is_i64 x \<longleftrightarrow> - (2 ^ 63) \<le> x \<and> x < 2 ^ 63"

definition is_i32 :: "int \<Rightarrow> bool" where
  "is_i32 x \<longleftrightarrow> - (2 ^ 31) \<le> x \<and> x < 2 ^ 31"

text \<open>\<^verbatim>\<open>static_cast<size_t>\<close> of a signed 64-bit value.\<close>

definition size_of_i64 :: "int \<Rightarrow> nat" where
  "size_of_i64 x = nat (x mod 2 ^ 64)"

lemma size_of_i64_nonneg [simp]: "0 \<le> x \<Longrightarrow> is_i64 x \<Longrightarrow> size_of_i64 x = nat x"
  by (simp add: size_of_i64_def is_i64_def)

lemma to_signed_64 [simp]: "is_i64 x \<Longrightarrow> to_signed 64 x = x"
proof (cases "0 \<le> x")
  case True
  assume "is_i64 x"
  with True show ?thesis by (simp add: to_signed_def is_i64_def Let_def)
next
  case False
  assume i: "is_i64 x"
  have "x mod 2 ^ 64 = (x + 2 ^ 64) mod 2 ^ 64" by simp
  also have "\<dots> = x + 2 ^ 64" using False i by (intro mod_pos_pos_trivial) (auto simp: is_i64_def)
  finally show ?thesis using False i by (simp add: to_signed_def is_i64_def Let_def)
qed

lemma to_signed_32 [simp]: "is_i32 x \<Longrightarrow> to_signed 32 x = x"
proof (cases "0 \<le> x")
  case True
  assume "is_i32 x"
  with True show ?thesis by (simp add: to_signed_def is_i32_def Let_def)
next
  case False
  assume i: "is_i32 x"
  have "x mod 2 ^ 32 = (x + 2 ^ 32) mod 2 ^ 32" by simp
  also have "\<dots> = x + 2 ^ 32" using False i by (intro mod_pos_pos_trivial) (auto simp: is_i32_def)
  finally show ?thesis using False i by (simp add: to_signed_def is_i32_def Let_def)
qed

lemma to_signed_mod [simp]: "to_signed w (x mod 2 ^ w) = to_signed w x"
  by (simp add: to_signed_def)

section \<open>Little-endian integers\<close>

primrec le_bytes :: "nat \<Rightarrow> nat \<Rightarrow> bytes" where
  "le_bytes 0 n = []"
| "le_bytes (Suc k) n = char_of n # le_bytes k (n div 256)"

primrec le_nat :: "bytes \<Rightarrow> nat" where
  "le_nat [] = 0"
| "le_nat (c # cs) = of_char c + 256 * le_nat cs"

lemma length_le_bytes [simp]: "length (le_bytes k n) = k"
  by (induction k arbitrary: n) auto

lemma le_nat_le_bytes [simp]: "le_nat (le_bytes k n) = n mod 256 ^ k"
proof (induction k arbitrary: n)
  case 0
  show ?case by simp
next
  case (Suc k)
  have "n mod (256 * 256 ^ k) = 256 * (n div 256 mod 256 ^ k) + n mod 256"
    by (rule mod_mult2_eq)
  with Suc show ?case by simp
qed

text \<open>A fixed-width read: \<^verbatim>\<open>*reinterpret_cast<const T *>(ptr); ptr += sizeof(T)\<close>.\<close>

definition get_le :: "nat \<Rightarrow> nat reader" where
  "get_le k bs = (if length bs < k then None else Some (le_nat (take k bs), drop k bs))"

definition put_u8 :: "nat \<Rightarrow> bytes" where "put_u8 n = le_bytes 1 n"
definition put_u32 :: "nat \<Rightarrow> bytes" where "put_u32 n = le_bytes 4 n"
definition put_u64 :: "nat \<Rightarrow> bytes" where "put_u64 n = le_bytes 8 n"
definition put_i32 :: "int \<Rightarrow> bytes" where "put_i32 i = le_bytes 4 (nat (i mod 2 ^ 32))"
definition put_i64 :: "int \<Rightarrow> bytes" where "put_i64 i = le_bytes 8 (nat (i mod 2 ^ 64))"
definition put_bool :: "bool \<Rightarrow> bytes" where "put_bool b = put_u8 (if b then 1 else 0)"

definition get_u8 :: "nat reader" where "get_u8 = get_le 1"
definition get_u32 :: "nat reader" where "get_u32 = get_le 4"
definition get_u64 :: "nat reader" where "get_u64 = get_le 8"

definition get_i32 :: "int reader" where
  "get_i32 bs = map_option (\<lambda>(n, r). (to_signed 32 (int n), r)) (get_le 4 bs)"

definition get_i64 :: "int reader" where
  "get_i64 bs = map_option (\<lambda>(n, r). (to_signed 64 (int n), r)) (get_le 8 bs)"

definition get_bool :: "bool reader" where
  "get_bool bs = map_option (\<lambda>(n, r). (n \<noteq> 0, r)) (get_u8 bs)"

text \<open>A block of raw bytes of a known length: \<^verbatim>\<open>EloqString(ptr, len); ptr += len\<close>.\<close>

definition get_raw :: "nat \<Rightarrow> bytes reader" where
  "get_raw n bs = (if length bs < n then None else Some (take n bs, drop n bs))"

lemma length_put [simp]:
  "length (put_u8 n) = 1" "length (put_u32 n) = 4" "length (put_u64 n) = 8"
  "length (put_i32 i) = 4" "length (put_i64 i) = 8" "length (put_bool b) = 1"
  by (simp_all add: put_u8_def put_u32_def put_u64_def put_i32_def put_i64_def put_bool_def)

lemma get_le_put: "get_le k (le_bytes k n @ rest) = Some (n mod 256 ^ k, rest)"
  by (simp add: get_le_def)

lemma get_put_u8 [codec_simps, simp]: "get_u8 (put_u8 n @ rest) = Some (n mod 256, rest)"
  using get_le_put [of 1 n rest] by (simp add: get_u8_def put_u8_def)

lemma get_put_u32 [codec_simps, simp]: "get_u32 (put_u32 n @ rest) = Some (n mod 2 ^ 32, rest)"
  using get_le_put [of 4 n rest] by (simp add: get_u32_def put_u32_def)

lemma get_put_u64 [codec_simps, simp]: "get_u64 (put_u64 n @ rest) = Some (n mod 2 ^ 64, rest)"
  using get_le_put [of 8 n rest] by (simp add: get_u64_def put_u64_def)

lemma get_put_i64 [codec_simps, simp]: "is_i64 i \<Longrightarrow> get_i64 (put_i64 i @ rest) = Some (i, rest)"
  using get_le_put [of 8 "nat (i mod 2 ^ 64)" rest]
  by (simp add: get_i64_def put_i64_def zmod_int to_signed_mod [of 64, simplified])

lemma get_put_i32 [codec_simps, simp]: "is_i32 i \<Longrightarrow> get_i32 (put_i32 i @ rest) = Some (i, rest)"
  using get_le_put [of 4 "nat (i mod 2 ^ 32)" rest]
  by (simp add: get_i32_def put_i32_def zmod_int to_signed_mod [of 32, simplified])

lemma get_put_bool [codec_simps, simp]: "get_bool (put_bool b @ rest) = Some (b, rest)"
  by (simp add: get_bool_def put_bool_def)

lemma get_raw_append [codec_simps, simp]: "n = length xs \<Longrightarrow> get_raw n (xs @ rest) = Some (xs, rest)"
  by (simp add: get_raw_def)

text \<open>The same equations for a value at the very end of an image.\<close>

lemmas get_put_end [simp] =
  get_put_u8 [where rest = "[]", simplified] get_put_u32 [where rest = "[]", simplified]
  get_put_u64 [where rest = "[]", simplified] get_put_i64 [where rest = "[]", simplified]
  get_put_i32 [where rest = "[]", simplified] get_put_bool [where rest = "[]", simplified]
  get_raw_append [where rest = "[]", simplified]

section \<open>The vector buffer\<close>

text \<open>
  \<^verbatim>\<open>buf.resize(n)\<close> keeps a prefix and zero-fills; \<^verbatim>\<open>std::copy(p, p + k, buf.begin() + offset);
  offset += k\<close> overwrites in place.  A copy past the end is undefined behaviour: \<^term>\<open>None\<close>.
\<close>

definition vec_resize :: "nat \<Rightarrow> bytes \<Rightarrow> bytes" where
  "vec_resize n buf = take n buf @ replicate (n - length buf) (CHR 0x00)"

fun vec_put :: "bytes \<Rightarrow> bytes \<times> nat \<Rightarrow> (bytes \<times> nat) option" where
  "vec_put bs (buf, off) =
     (if off + length bs \<le> length buf
      then Some (take off buf @ bs @ drop (off + length bs) buf, off + length bs)
      else None)"

fun vec_puts :: "bytes list \<Rightarrow> bytes \<times> nat \<Rightarrow> (bytes \<times> nat) option" where
  "vec_puts [] st = Some st"
| "vec_puts (b # bs) st = vec_put b st \<bind> vec_puts bs"

lemma vec_put_append: "vec_put (a @ b) (buf, off) = vec_put a (buf, off) \<bind> vec_put b"
  by (auto simp: ac_simps min_def)

lemma vec_puts_concat:
  "off \<le> length buf \<Longrightarrow> vec_puts bs (buf, off) = vec_put (concat bs) (buf, off)"
proof (induction bs arbitrary: buf off)
  case Nil
  then show ?case by simp
next
  case (Cons b bs)
  have "vec_puts (b # bs) (buf, off) = vec_put b (buf, off) \<bind> vec_puts bs" by simp
  also have "\<dots> = vec_put b (buf, off) \<bind> vec_put (concat bs)"
    using Cons.prems by (auto simp: Cons.IH)
  also have "\<dots> = vec_put (concat (b # bs)) (buf, off)"
    by (simp only: vec_put_append concat.simps)
  finally show ?case .
qed

text \<open>Writing exactly as many bytes as the buffer was grown by is an append.\<close>

lemma vec_put_resize:
  "vec_put bs (vec_resize (length buf + length bs) buf, length buf) =
     Some (buf @ bs, length buf + length bs)"
  by (simp add: vec_resize_def)

lemma vec_put_resize_at:
  "off \<le> length buf \<Longrightarrow>
   vec_put bs (vec_resize (off + length bs) buf, off) = Some (take off buf @ bs, off + length bs)"
  by (simp add: vec_resize_def)

lemma vec_puts_resize:
  "off \<le> length buf \<Longrightarrow> n = length (concat bs) \<Longrightarrow>
   vec_puts bs (vec_resize (off + n) buf, off) = Some (take off buf @ concat bs, off + n)"
  by (subst vec_puts_concat) (simp_all add: vec_put_resize_at vec_resize_def del: vec_put.simps, simp)

section \<open>The interface of a binary format\<close>

text \<open>
  Every object and every command image of the program is written by appending fields and read
  back by walking a pointer.  The contract a client relies on is that reading what was written
  returns the value and stops exactly behind it.
\<close>

locale codec =
  fixes enc :: "'a \<Rightarrow> bytes" and dec :: "'a reader" and ok :: "'a \<Rightarrow> bool"
  assumes dec_enc: "ok x \<Longrightarrow> dec (enc x @ rest) = Some (x, rest)"

text \<open>A counted loop of reads, \<^verbatim>\<open>for (uint32_t i = 0; i < cnt; i++)\<close>.\<close>

primrec get_n :: "'a reader \<Rightarrow> nat \<Rightarrow> 'a list reader" where
  "get_n d 0 bs = Some ([], bs)"
| "get_n d (Suc n) bs =
     do { (x, bs1) \<leftarrow> d bs; (xs, bs2) \<leftarrow> get_n d n bs1; Some (x # xs, bs2) }"

text \<open>A 32-bit count followed by the elements: the layout of every vector in the program.\<close>

definition put_vec :: "('a \<Rightarrow> bytes) \<Rightarrow> 'a list \<Rightarrow> bytes" where
  "put_vec e xs = put_u32 (length xs) @ concat (map e xs)"

definition get_vec :: "'a reader \<Rightarrow> 'a list reader" where
  "get_vec d bs = do { (n, bs1) \<leftarrow> get_u32 bs; get_n d n bs1 }"

context codec
begin

lemma dec_enc_end: "ok x \<Longrightarrow> dec (enc x) = Some (x, [])"
  using dec_enc [of x "[]"] by simp

lemma enc_inject: "ok x \<Longrightarrow> ok y \<Longrightarrow> enc x = enc y \<Longrightarrow> x = y"
  using dec_enc [of x "[]"] dec_enc [of y "[]"] by simp

lemma enc_prefix_free: "ok x \<Longrightarrow> ok y \<Longrightarrow> enc x @ r = enc y @ s \<Longrightarrow> x = y \<and> r = s"
  using dec_enc [of x r] dec_enc [of y s] by (metis option.inject prod.inject)

lemma get_n_enc:
  "list_all ok xs \<Longrightarrow> get_n dec (length xs) (concat (map enc xs) @ rest) = Some (xs, rest)"
  by (induction xs) (simp_all add: dec_enc)

lemma get_vec_put_vec:
  "list_all ok xs \<Longrightarrow> length xs < 2 ^ 32 \<Longrightarrow> get_vec dec (put_vec enc xs @ rest) = Some (xs, rest)"
  by (simp add: get_vec_def put_vec_def get_n_enc)

text \<open>So a vector of a format is a format.\<close>

lemma vec_codec: "codec (put_vec enc) (get_vec dec) (\<lambda>xs. list_all ok xs \<and> length xs < 2 ^ 32)"
  by unfold_locales (simp add: get_vec_put_vec)

end

text \<open>The integers the images are made of.\<close>

interpretation u8: codec put_u8 get_u8 "\<lambda>n. n < 256"
  by unfold_locales simp

interpretation u32: codec put_u32 get_u32 "\<lambda>n. n < 2 ^ 32"
  by unfold_locales simp

interpretation u64: codec put_u64 get_u64 "\<lambda>n. n < 2 ^ 64"
  by unfold_locales simp

interpretation i64: codec put_i64 get_i64 is_i64
  by unfold_locales simp

interpretation flag: codec put_bool get_bool "\<lambda>_. True"
  by unfold_locales simp

section \<open>Ranges\<close>

text \<open>
  The documented meaning of an index: from the end when negative.  A range selects the positions
  between its two indices, both included, whatever they are.
\<close>

definition from_end :: "int \<Rightarrow> int \<Rightarrow> int" where
  "from_end n i = (if i < 0 then n + i else i)"

definition range_spec :: "int \<Rightarrow> int \<Rightarrow> 'a list \<Rightarrow> 'a list" where
  "range_spec s e xs =
     nths xs {p. from_end (int (length xs)) s \<le> int p \<and> int p \<le> from_end (int (length xs)) e}"

lemma nths_interval:
  "nths xs {p. a \<le> int p \<and> int p \<le> b} = take (nat (b + 1 - max 0 a)) (drop (nat a) xs)"
proof (induction xs arbitrary: a b)
  case Nil
  show ?case by simp
next
  case (Cons x xs)
  have shift: "{j. Suc j \<in> {p. a \<le> int p \<and> int p \<le> b}} = {p. a - 1 \<le> int p \<and> int p \<le> b - 1}"
    by auto
  have step: "nths (x # xs) {p. a \<le> int p \<and> int p \<le> b} =
      (if a \<le> 0 \<and> 0 \<le> b then [x] else []) @ take (nat (b - max 0 (a - 1))) (drop (nat (a - 1)) xs)"
    by (simp only: nths_Cons shift Cons.IH) simp
  show ?case
  proof (cases "a \<le> 0")
    case True
    then show ?thesis unfolding step by (cases "0 \<le> b") (auto simp: take_Cons' nat_add_distrib)
  next
    case False
    then have "drop (nat a) (x # xs) = drop (nat (a - 1)) xs"
      by (simp add: drop_Cons' nat_diff_distrib)
    with False show ?thesis unfolding step by (simp add: max_def algebra_simps)
  qed
qed

lemma range_spec_take_drop:
  "range_spec s e xs =
     (let lo = from_end (int (length xs)) s; hi = from_end (int (length xs)) e
      in take (nat (hi + 1 - max 0 lo)) (drop (nat lo) xs))"
  by (simp add: range_spec_def nths_interval Let_def)

section \<open>The order of byte strings\<close>

text \<open>\<^verbatim>\<open>operator<\<close> of strings compares bytes as unsigned numbers.\<close>

fun bytes_less :: "bytes \<Rightarrow> bytes \<Rightarrow> bool" where
  "bytes_less xs [] = False"
| "bytes_less [] (y # ys) = True"
| "bytes_less (x # xs) (y # ys) =
     (if (of_char x :: nat) < of_char y then True
      else if (of_char y :: nat) < of_char x then False else bytes_less xs ys)"

lemma bytes_less_total: "\<not> bytes_less a b \<Longrightarrow> \<not> bytes_less b a \<Longrightarrow> a = b"
proof (induction a b rule: bytes_less.induct)
  case (3 x xs y ys)
  have "of_char x = (of_char y :: nat)" using "3.prems" by (auto split: if_splits)
  then have "x = y" by simp
  with 3 show ?case by simp
next
  case (1 xs)
  then show ?case by (cases xs) simp_all
qed simp

lemma bytes_less_irrefl [simp]: "\<not> bytes_less a a"
  by (induction a) simp_all

lemma bytes_less_trans: "bytes_less a b \<Longrightarrow> bytes_less b c \<Longrightarrow> bytes_less a c"
proof (induction a b arbitrary: c rule: bytes_less.induct)
  case (2 y ys)
  then show ?case by (cases c) simp_all
next
  case (3 x xs y ys)
  then show ?case by (cases c) (auto split: if_splits)
qed simp

section \<open>Association lists\<close>

lemma map_of_filter_entries:
  "distinct (map fst xs) \<Longrightarrow>
   map_of (filter P xs) a = (case map_of xs a of None \<Rightarrow> None | Some v \<Rightarrow> if P (a, v) then Some v else None)"
proof (induction xs)
  case (Cons x xs)
  have "map_of xs (fst x) = None" using Cons.prems by (simp add: map_of_eq_None_iff)
  then show ?case using Cons by (cases x) (auto split: option.splits)
qed simp

end
