(* ===== verification/EloqString.thy ===== *)
theory EloqString
  imports Prelude
begin

unbundle bit_operations_syntax

text \<open>
  \<^verbatim>\<open>EloqString\<close> (\<^verbatim>\<open>include/eloq_string.h\<close>, \<^verbatim>\<open>src/eloq_string.cpp\<close>): a string that is a short
  string held in place, a longer one on the heap, or a view of bytes owned by someone else.  The
  constructor of the model is the tag in the two low bits of the first byte of the union; a heap
  string carries the capacity of its allocation, and a default-constructed string is the view of
  the null pointer, which the code tells apart from the empty string.

  A stored object must never hold a view: the bytes a view points to belong to the request buffer
  of the command.  \<^term>\<open>owned\<close> is that property, and \<^term>\<open>adopt\<close> is the idiom every commit
  function uses to keep it: clone a view, move anything else (which empties the source).
\<close>

section \<open>The representation\<close>

datatype eloq_string =
    Stack bytes
  | Heap nat bytes
  | View bytes
  | NullView

datatype storage_type = ST_Stack | ST_Heap | ST_View

fun es_type :: "eloq_string \<Rightarrow> storage_type" where
  "es_type (Stack b) = ST_Stack"
| "es_type (Heap c b) = ST_Heap"
| "es_type (View b) = ST_View"
| "es_type NullView = ST_View"

fun StringView :: "eloq_string \<Rightarrow> bytes" where
  "StringView (Stack b) = b"
| "StringView (Heap c b) = b"
| "StringView (View b) = b"
| "StringView NullView = []"

text \<open>\<^verbatim>\<open>StringView().data() == nullptr\<close>\<close>

fun is_null :: "eloq_string \<Rightarrow> bool" where
  "is_null NullView = True"
| "is_null s = False"

text \<open>\<^verbatim>\<open>uint32_t Length()\<close> narrows the stored \<^verbatim>\<open>size_t\<close>.\<close>

definition es_length :: "eloq_string \<Rightarrow> nat" where
  "es_length s = length (StringView s) mod 2 ^ 32"

text \<open>
  \<^verbatim>\<open>String()\<close>: the heap case has no \<^verbatim>\<open>break\<close> and falls through to the view fields, which lie at
  the same offsets of the union, so it reads the same pointer and length.
\<close>

fun es_String :: "eloq_string \<Rightarrow> bytes" where
  "es_String (Stack b) = b"
| "es_String (Heap c b) = b"
| "es_String s = StringView s"

section \<open>Construction, copy and move\<close>

text \<open>\<^verbatim>\<open>InitHeap(length)\<close>: the allocation is rounded up to a multiple of 16.\<close>

definition InitHeap :: "bytes \<Rightarrow> eloq_string" where
  "InitHeap b = Heap (((length b - 1) OR 15) + 1) b"

text \<open>
  \<^verbatim>\<open>EloqString(const char *ptr, uint32_t length)\<close>: copies the bytes, in place when there are at
  most 23 of them.  The length argument is narrowed to 32 bits at the call.
\<close>

definition es_make :: "bytes \<Rightarrow> eloq_string" where
  "es_make b =
     (let b' = take (length b mod 2 ^ 32) b
      in if length b' \<le> 23 then Stack b' else InitHeap b')"

definition Clone :: "eloq_string \<Rightarrow> eloq_string" where
  "Clone s = es_make (StringView s)"

definition es_Clear :: "eloq_string \<Rightarrow> eloq_string" where
  "es_Clear s = Stack []"

text \<open>The move constructor: the new string and what is left of the source.\<close>

fun es_move :: "eloq_string \<Rightarrow> eloq_string \<times> eloq_string" where
  "es_move rhs =
     (case rhs of
        View b \<Rightarrow> (View b, es_Clear rhs)
      | NullView \<Rightarrow> (NullView, es_Clear rhs)
      | Stack b \<Rightarrow> (Stack b, es_Clear rhs)
      | Heap c b \<Rightarrow> (if length b \<le> 23 then Stack b else Heap c b, es_Clear rhs))"

text \<open>The copy constructor.\<close>

fun es_copy :: "eloq_string \<Rightarrow> eloq_string" where
  "es_copy rhs =
     (if es_type rhs = ST_View then rhs
      else if length (StringView rhs) \<le> 23 then Stack (StringView rhs)
      else InitHeap (StringView rhs))"

text \<open>
  Move assignment releases the old buffer and otherwise acts as the move constructor (the two
  operands are different objects; a self-assignment returns at once).
\<close>

definition es_assign_move :: "eloq_string \<Rightarrow> eloq_string \<Rightarrow> eloq_string \<times> eloq_string" where
  "es_assign_move lhs rhs = es_move rhs"

text \<open>Copy assignment reuses a heap buffer that is large enough.\<close>

fun es_assign_copy :: "eloq_string \<Rightarrow> eloq_string \<Rightarrow> eloq_string" where
  "es_assign_copy lhs rhs =
     (let v = StringView rhs in
      if es_type rhs = ST_View then rhs
      else if length v \<le> 23 then Stack v
      else (case lhs of
              Heap c b \<Rightarrow> if c < length v then InitHeap v else Heap c v
            | _ \<Rightarrow> InitHeap v))"

text \<open>\<^verbatim>\<open>operator==\<close> compares the bytes, whatever the storage.\<close>

definition es_eq :: "eloq_string \<Rightarrow> eloq_string \<Rightarrow> bool" where
  "es_eq a b \<longleftrightarrow> StringView a = StringView b"

section \<open>The type invariant and ownership\<close>

fun es_inv :: "eloq_string \<Rightarrow> bool" where
  "es_inv (Stack b) \<longleftrightarrow> length b \<le> 23"
| "es_inv (Heap c b) \<longleftrightarrow> 23 < length b \<and> length b \<le> c \<and> 16 dvd c"
| "es_inv (View b) \<longleftrightarrow> True"
| "es_inv NullView \<longleftrightarrow> True"

definition owned :: "eloq_string \<Rightarrow> bool" where
  "owned s \<longleftrightarrow> es_type s \<noteq> ST_View"

text \<open>The strings a client can send: far below the 32-bit length field.\<close>

definition es_short :: "eloq_string \<Rightarrow> bool" where
  "es_short s \<longleftrightarrow> length (StringView s) < 2 ^ 32"

lemma es_length_short [simp]: "es_short s \<Longrightarrow> es_length s = length (StringView s)"
  by (simp add: es_length_def es_short_def)

lemma le_or_nat: "n \<le> n OR (m::nat)"
proof -
  have "int n \<le> int n OR int m" by (simp add: or_greater_eq)
  then show ?thesis by (simp flip: of_nat_or_eq)
qed

lemma or_15_Suc: "16 dvd (n OR 15) + (1::nat)"
proof -
  have m: "(15::nat) = mask 4" by (simp add: mask_eq_exp_minus_1)
  have "take_bit 4 (n OR 15) = (mask 4 :: nat)"
    unfolding m by (rule bit_eqI) (auto simp: bit_simps)
  then have "(n OR 15) mod 16 = 15"
    by (simp add: take_bit_eq_mod mask_eq_exp_minus_1)
  then show ?thesis by (simp add: dvd_eq_mod_eq_0 mod_Suc)
qed

lemma InitHeap_inv: "23 < length b \<Longrightarrow> es_inv (InitHeap b)"
  using le_or_nat [of "length b - 1" 15] or_15_Suc [of "length b - 1"]
  by (auto simp: InitHeap_def)

lemma es_view_InitHeap [simp]: "StringView (InitHeap b) = b"
  by (simp add: InitHeap_def)

lemma es_type_InitHeap [simp]: "es_type (InitHeap b) = ST_Heap"
  by (simp add: InitHeap_def)

lemma StringView_make [simp]: "length b < 2 ^ 32 \<Longrightarrow> StringView (es_make b) = b"
  by (simp add: es_make_def Let_def)

lemma es_inv_make [simp]: "es_inv (es_make b)"
  by (simp add: es_make_def Let_def InitHeap_inv)

lemma owned_make [simp]: "owned (es_make b)"
  by (simp add: es_make_def Let_def owned_def)

lemma es_short_make [simp]: "es_short (es_make b)"
proof -
  have "min (length b) (length b mod 2 ^ 32) < 2 ^ 32" by (simp add: min_less_iff_disj)
  then show ?thesis by (simp add: es_make_def es_short_def Let_def)
qed

lemma StringView_Clone [simp]: "es_short s \<Longrightarrow> StringView (Clone s) = StringView s"
  by (simp add: Clone_def es_short_def)

lemma Clone_props [simp]: "es_inv (Clone s)" "owned (Clone s)" "es_short (Clone s)"
  by (simp_all add: Clone_def)

lemma es_type_make [simp]: "es_type (es_make b) \<noteq> ST_View"
  using owned_make [of b] by (simp add: owned_def)

lemma es_move_short [simp]: "es_short (fst (es_move s)) \<longleftrightarrow> es_short s"
  by (cases s) (auto simp: es_short_def)

lemma es_move_view [simp]: "StringView (fst (es_move s)) = StringView s"
  by (cases s) auto

lemma es_move_residual [simp]: "snd (es_move s) = Stack []"
  by (cases s) (auto simp: es_Clear_def)

lemma es_move_owned [simp]: "owned (fst (es_move s)) \<longleftrightarrow> owned s"
  by (cases s) (auto simp: owned_def)

lemma es_move_inv: "es_inv s \<Longrightarrow> es_inv (fst (es_move s))"
  by (cases s) auto

declare es_move.simps [simp del]

text \<open>
  No assignment writes past the allocation it writes to: the invariant bounds the length by the
  capacity, and every way of building a string keeps it.
\<close>

lemma es_assign_copy_inv: "es_inv lhs \<Longrightarrow> es_inv rhs \<Longrightarrow> es_inv (es_assign_copy lhs rhs)"
  by (cases lhs; cases rhs) (auto simp: InitHeap_inv Let_def)

lemma es_assign_copy_view: "StringView (es_assign_copy lhs rhs) = StringView rhs"
  by (cases lhs; cases rhs) (auto simp: Let_def)

lemma es_copy_view: "StringView (es_copy s) = StringView s"
  by (cases s) auto

lemma es_copy_inv: "es_inv s \<Longrightarrow> es_inv (es_copy s)"
  by (cases s) (auto simp: InitHeap_inv)

section \<open>Taking a string over into a stored object\<close>

text \<open>
  The idiom of the commit functions: \<^verbatim>\<open>if (e.Type() == View || should_not_move) Clone() else
  std::move(e)\<close>.  The result is what is stored and what remains in the command.
\<close>

definition adopt :: "bool \<Rightarrow> eloq_string \<Rightarrow> eloq_string \<times> eloq_string" where
  "adopt keep e = (if es_type e = ST_View \<or> keep then (Clone e, e) else es_move e)"

lemma adopt_props [simp]:
  assumes "es_short e"
  shows "StringView (fst (adopt keep e)) = StringView e"
    and "owned (fst (adopt keep e))"
    and "es_short (fst (adopt keep e))"
proof -
  show "StringView (fst (adopt keep e)) = StringView e"
    using assms by (simp add: adopt_def)
  show "owned (fst (adopt keep e))" "es_short (fst (adopt keep e))"
    using assms by (simp_all add: adopt_def) (simp add: owned_def)
qed

lemma adopt_inv: "es_inv e \<Longrightarrow> es_inv (fst (adopt keep e))"
  by (auto simp: adopt_def es_move_inv)

lemma adopt_keeps: "es_type e = ST_View \<or> keep \<Longrightarrow> snd (adopt keep e) = e"
  by (simp add: adopt_def)

lemma adopt_empties: "owned e \<Longrightarrow> snd (adopt False e) = Stack []"
  by (simp add: adopt_def owned_def)

text \<open>What an object may store.\<close>

definition storable :: "eloq_string \<Rightarrow> bool" where
  "storable s \<longleftrightarrow> es_inv s \<and> owned s \<and> es_short s"

text \<open>What a command may carry: a string of bounded length in any storage.\<close>

definition arg_ok :: "eloq_string \<Rightarrow> bool" where
  "arg_ok s \<longleftrightarrow> es_inv s \<and> es_short s"

lemma storable_adopt [simp]: "arg_ok e \<Longrightarrow> storable (fst (adopt keep e))"
  by (simp add: storable_def arg_ok_def adopt_inv)

lemma storable_make [simp]: "storable (es_make b)"
  by (simp add: storable_def)

lemma arg_ok_make [simp]: "arg_ok (es_make b)"
  by (simp add: arg_ok_def)

lemma storable_Clone [simp]: "storable (Clone e)"
  by (simp add: storable_def)

lemma storable_short: "storable s \<Longrightarrow> es_short s"
  by (simp add: storable_def)

lemma arg_ok_short [simp]: "arg_ok s \<Longrightarrow> es_short s"
  by (simp add: arg_ok_def)

lemma arg_ok_length: "arg_ok s \<Longrightarrow> length (StringView s) < 2 ^ 32"
  by (simp add: arg_ok_def es_short_def)

lemma storable_arg_ok: "storable s \<Longrightarrow> arg_ok s"
  by (simp add: storable_def arg_ok_def)

lemma adopt_view [simp]: "arg_ok e \<Longrightarrow> StringView (fst (adopt keep e)) = StringView e"
  by simp

lemma adopt_length [simp]: "arg_ok e \<Longrightarrow> es_length (fst (adopt keep e)) = es_length e"
  by (simp add: es_length_def)

section \<open>The image of a string\<close>

text \<open>A 32-bit length and the bytes, as every image writes a string.\<close>

definition put_string :: "eloq_string \<Rightarrow> bytes" where
  "put_string s = put_u32 (es_length s) @ take (es_length s) (StringView s)"

definition get_string :: "eloq_string reader" where
  "get_string bs = do { (n, bs1) \<leftarrow> get_u32 bs; (b, bs2) \<leftarrow> get_raw n bs1; Some (es_make b, bs2) }"

lemma length_put_string [simp, size_simps]: "length (put_string s) = 4 + es_length s"
  by (simp add: put_string_def es_length_def)

lemma get_put_string [codec_simps, simp]:
  "get_string (put_string s @ rest) = Some (es_make (take (es_length s) (StringView s)), rest)"
proof -
  have "es_length s \<le> length (StringView s)" "es_length s < 2 ^ 32"
    by (simp_all add: es_length_def)
  then show ?thesis by (simp add: get_string_def put_string_def)
qed

lemma es_make_view:
  "es_short s \<Longrightarrow> es_make (take (es_length s) (StringView s)) = es_make (StringView s)"
  by simp

text \<open>A string read back is canonical: it is the clone of the one written.\<close>

definition canonical :: "eloq_string \<Rightarrow> bool" where
  "canonical s \<longleftrightarrow> s = Clone s"

lemma canonical_make [simp]: "canonical (es_make b)"
proof -
  have "StringView (es_make b) = take (length b mod 2 ^ 32) b"
    by (simp add: es_make_def Let_def)
  moreover have "es_make (take (length b mod 2 ^ 32) b) = es_make b"
  proof (cases "length b < 2 ^ 32")
    case True
    then show ?thesis by simp
  next
    case False
    then have "length (take (length b mod 2 ^ 32) b) = length b mod 2 ^ 32" by simp
    then show ?thesis by (simp add: es_make_def Let_def)
  qed
  ultimately show ?thesis by (simp add: canonical_def Clone_def)
qed

interpretation es: codec put_string get_string "\<lambda>s. es_short s \<and> canonical s"
proof
  fix s :: eloq_string and rest :: bytes
  assume "es_short s \<and> canonical s"
  then show "get_string (put_string s @ rest) = Some (s, rest)"
    by (simp add: es_make_view) (simp add: canonical_def Clone_def)
qed

interpretation es_vec: codec "put_vec put_string" "get_vec get_string"
  "\<lambda>xs. list_all (\<lambda>s. es_short s \<and> canonical s) xs \<and> length xs < 2 ^ 32"
  by (rule es.vec_codec)

end
