(* ===== verification/RedisBase.thy ===== *)
theory RedisBase
  imports EloqString
begin

text \<open>
  The vocabulary the components share: error codes and their messages
  (\<^verbatim>\<open>include/redis_errors.h\<close>, \<^verbatim>\<open>src/redis_errors.cpp\<close>), the states of a command execution
  (\<^verbatim>\<open>include/redis_object.h\<close>), the numbers of the commands in the log and on the wire
  (\<^verbatim>\<open>include/redis_command.h\<close>), the object size limit (\<^verbatim>\<open>src/redis_service.cpp\<close>) and the calls of the
  reply interface (\<^verbatim>\<open>include/output_handler.h\<close>) with the RESP2 framing rule they must obey.
\<close>

section \<open>Errors\<close>

datatype rd_err =
    RD_OK
  | RD_NIL
  | RD_ERR_WRONG_TYPE
  | RD_ERR_DIGITAL_INVALID
  | RD_ERR_POSITIVE_INVALID
  | RD_ERR_SYNTAX
  | RD_ERR_LT_GT_NX
  | RD_ERR_XX_NX
  | RD_ERR_LIMIT
  | RD_ERR_WITHSCORE_BYLEX
  | RD_ERR_MIN_MAX_NOT_INT
  | RD_ERR_MIN_MAX_NOT_FLOAT
  | RD_ERR_MIN_MAX_NOT_STRING
  | RD_ERR_SCORE_NAN
  | RD_ERR_HASH_VAL_ERROR
  | RD_ERR_INVALID_CURSOR
  | RD_ERR_INCR_OVERFLOW
  | RD_ERR_FLOAT_VALUE
  | RD_ERR_INCR_NAN_OR_INFINITY
  | RD_ERR_NUMBER_GREATER_ARGS
  | RD_ERR_NUMBER_GREATER_ZERO
  | RD_ERR_LIMIT_NEGATIVE
  | RD_ERR_WRONG_PASS
  | RD_ERR_SELECT_OUT_OF_RANGE
  | RD_ERR_NO_SUCH_KEY
  | RD_ERR_INDEX_OUT_OF_RANGE
  | RD_ERR_ZERO_RANK
  | RD_ERR_COUNT_GREATER_ZERO
  | RD_ERR_EXEC_ABORT_FOR_PREV_ERROR
  | RD_ERR_BUSY_KEY_EXIST
  | RD_ERR_VALUE_OUT_OF_RANGE
  | RD_SYNTAX
  | RD_LIMIT_NEGATIVE
  | RD_ERR_WEIGHT_FLOAT_VALUE
  | RD_ERR_KEY_TOO_BIG
  | RD_ERR_OBJECT_TOO_BIG
  | RD_ERR_TTL_NOT_EXIST_ON_KEY
  | RD_ERR_ClUSTER_IS_SHUTTING_DOWN
  | RD_ERR_LEADER_IS_FAILING_OVER
  | RD_ERR_VECTOR_INDX_CREATE_FAILED
  | RD_ERR_VECTOR_INDX_INFO_FAILED
  | RD_ERR_VECTOR_INDX_DROP_FAILED
  | RD_ERR_VECTOR_INDX_ADD_FAILED
  | RD_ERR_VECTOR_INDX_UPDATE_FAILED
  | RD_ERR_VECTOR_INDX_DELETE_FAILED
  | RD_ERR_VECTOR_INDX_SEARCH_FAILED
  | RD_ERR_SELECT_FORBIDDEN_IN_NS

definition rd_errs :: "rd_err list" where
  "rd_errs =
  [RD_OK, RD_NIL, RD_ERR_WRONG_TYPE,
   RD_ERR_DIGITAL_INVALID, RD_ERR_POSITIVE_INVALID, RD_ERR_SYNTAX,
   RD_ERR_LT_GT_NX, RD_ERR_XX_NX, RD_ERR_LIMIT,
   RD_ERR_WITHSCORE_BYLEX, RD_ERR_MIN_MAX_NOT_INT, RD_ERR_MIN_MAX_NOT_FLOAT,
   RD_ERR_MIN_MAX_NOT_STRING, RD_ERR_SCORE_NAN, RD_ERR_HASH_VAL_ERROR,
   RD_ERR_INVALID_CURSOR, RD_ERR_INCR_OVERFLOW, RD_ERR_FLOAT_VALUE,
   RD_ERR_INCR_NAN_OR_INFINITY, RD_ERR_NUMBER_GREATER_ARGS, RD_ERR_NUMBER_GREATER_ZERO,
   RD_ERR_LIMIT_NEGATIVE, RD_ERR_WRONG_PASS, RD_ERR_SELECT_OUT_OF_RANGE,
   RD_ERR_NO_SUCH_KEY, RD_ERR_INDEX_OUT_OF_RANGE, RD_ERR_ZERO_RANK,
   RD_ERR_COUNT_GREATER_ZERO, RD_ERR_EXEC_ABORT_FOR_PREV_ERROR, RD_ERR_BUSY_KEY_EXIST,
   RD_ERR_VALUE_OUT_OF_RANGE, RD_SYNTAX, RD_LIMIT_NEGATIVE,
   RD_ERR_WEIGHT_FLOAT_VALUE, RD_ERR_KEY_TOO_BIG, RD_ERR_OBJECT_TOO_BIG,
   RD_ERR_TTL_NOT_EXIST_ON_KEY, RD_ERR_ClUSTER_IS_SHUTTING_DOWN, RD_ERR_LEADER_IS_FAILING_OVER,
   RD_ERR_VECTOR_INDX_CREATE_FAILED, RD_ERR_VECTOR_INDX_INFO_FAILED, RD_ERR_VECTOR_INDX_DROP_FAILED,
   RD_ERR_VECTOR_INDX_ADD_FAILED, RD_ERR_VECTOR_INDX_UPDATE_FAILED, RD_ERR_VECTOR_INDX_DELETE_FAILED,
   RD_ERR_VECTOR_INDX_SEARCH_FAILED, RD_ERR_SELECT_FORBIDDEN_IN_NS]"

text \<open>The numeric codes are the positions in the list (the header numbers them consecutively).\<close>

fun index_from :: "nat \<Rightarrow> 'a \<Rightarrow> 'a list \<Rightarrow> nat option" where
  "index_from i x [] = None"
| "index_from i x (y # ys) = (if x = y then Some i else index_from (Suc i) x ys)"

definition rd_code :: "rd_err \<Rightarrow> nat" where
  "rd_code e = (case index_from 0 e rd_errs of Some n \<Rightarrow> n | None \<Rightarrow> 0)"

definition rd_of_code :: "int \<Rightarrow> rd_err option" where
  "rd_of_code n = (if 0 \<le> n \<and> n < int (length rd_errs) then Some (rd_errs ! nat n) else None)"

definition redis_error_messages :: "bytes list" where
  "redis_error_messages =
  [''OK'',
   ''nil'',
   ''WRONGTYPE Operation against a key holding the wrong kind of value'',
   ''ERR value is not an integer or out of range'',
   ''ERR value is out of range, must be positive'',
   ''ERR syntax error'',
   ''ERR GT, LT, and/or NX options at the same time are not compatible'',
   ''ERR XX and NX options at the same time are not compatible'',
   ''syntax error, LIMIT is only supported in combination with either BYSCORE or BYLEX'',
   ''syntax error, WITHSCORES not supported in combination with BYLEX'',
   ''min or max is not a int'',
   ''min or max is not a float'',
   ''min or max not valid string range item'',
   ''resulting score is not a number (NaN)'',
   ''ERR hash value is not an integer'',
   ''ERR invalid cursor'',
   ''ERR increment or decrement would overflow'',
   ''ERR value is not a valid float'',
   ''ERR value is NaN or Infinity or increment would produce NaN or Infinity'',
   ''ERR Number of keys can'' @ [CHR 0x27] @ ''t be greater than number of args'',
   ''ERR numkeys should be greater than 0'',
   ''ERR LIMIT can'' @ [CHR 0x27] @ ''t be negative'',
   ''WRONGPASS invalid username-password pair or user is disabled.'',
   ''DB index is out of range'',
   ''ERR no such key'',
   ''ERR index out of range'',
   ''RANK can'' @ [CHR 0x27] @ ''t be zero: use 1 to start from the first match, 2 from the second ... or use negative to start'',
   ''ERR count should be greater than 0'',
   ''EXECABORT Transaction discarded because of previous errors.'',
   ''BUSYKEY Target key name already exists.'',
   ''ERR value is out of range'',
   ''syntax error'',
   ''LIMIT can'' @ [CHR 0x27] @ ''t be negative'',
   ''ERR weight value is not a valid float'',
   ''ERR max key size limit of 32 MB exceeded'',
   ''ERR max object size limit of 256 MB exceeded'',
   ''ERR the key has no associated expiration time'',
   ''ERR cluster is shutting down'',
   ''ERR cluster leader is doing failover'',
   ''ERR create vector index failed'',
   ''ERR get vector index info failed'',
   ''ERR drop vector index failed'',
   ''ERR add vector to index failed'',
   ''ERR update vector in index failed'',
   ''ERR delete vector from index failed'',
   ''ERR search vector in index failed'',
   ''ERR SELECT is not allowed in custom namespace'']"

text \<open>\<^verbatim>\<open>redis_get_error_messages\<close>; the assertion on the range holds for every code.\<close>

definition redis_get_error_messages :: "rd_err \<Rightarrow> bytes" where
  "redis_get_error_messages e = redis_error_messages ! rd_code e"

section \<open>Command numbers\<close>

definition RedisCommandType :: "(string \<times> nat) list" where
  "RedisCommandType =
  [(''NOOP'', 0), (''ECHO'', 1), (''PING'', 2), (''AUTH'', 3),
   (''QUIT'', 4), (''SELECT'', 5), (''CLIENT'', 6), (''UNKNOWN'', 7),
   (''GET'', 8), (''SET'', 9), (''GETDEL'', 10), (''SETNX'', 11),
   (''GETSET'', 12), (''MGET'', 13), (''MSET'', 14), (''MSETNX'', 15),
   (''STRLEN'', 16), (''PSETEX'', 17), (''SETEX'', 18), (''GETBIT'', 19),
   (''GETRANGE'', 20), (''INCRBYFLOAT'', 21), (''SETBIT'', 22), (''SETRANGE'', 23),
   (''APPEND'', 24), (''SUBSTR'', 25), (''INCR'', 26), (''INCRBY'', 27),
   (''DECR'', 28), (''DECRBY'', 29), (''BITCOUNT'', 30), (''BITFIELD'', 31),
   (''BITFIELD_RO'', 32), (''BITPOS'', 33), (''BITOP'', 34), (''BLOCKPOP'', 35),
   (''BLOCKDISCARD'', 36), (''BLMOVE'', 37), (''BLMPOP'', 38), (''BLPOP'', 39),
   (''BRPOP'', 40), (''BRPOPLPUSH'', 41), (''LINDEX'', 42), (''LINSERT'', 43),
   (''LPOS'', 44), (''LLEN'', 45), (''LPOP'', 46), (''LPUSH'', 47),
   (''LPUSHX'', 48), (''LRANGE'', 49), (''LMOVE'', 50), (''LMOVEPOP'', 51),
   (''LMOVEPUSH'', 52), (''LREM'', 53), (''LSET'', 54), (''LTRIM'', 55),
   (''RPOP'', 56), (''RPOPLPUSH'', 57), (''RPUSH'', 58), (''RPUSHX'', 59),
   (''LMPOP'', 60), (''HGET'', 61), (''HSET'', 62), (''HSETNX'', 63),
   (''HLEN'', 64), (''HSTRLEN'', 65), (''HINCRBY'', 66), (''HINCRBYFLOAT'', 67),
   (''HMGET'', 68), (''HKEYS'', 69), (''HVALS'', 70), (''HGETALL'', 71),
   (''HEXISTS'', 72), (''HDEL'', 73), (''HRANDFIELD'', 74), (''HSCAN'', 75),
   (''ZADD'', 76), (''ZCOUNT'', 77), (''ZCARD'', 78), (''ZRANGE'', 79),
   (''ZRANGESTORE'', 80), (''ZREM'', 81), (''ZSCORE'', 82), (''ZRANGEBYSCORE'', 83),
   (''ZRANGEBYLEX'', 84), (''ZRANGEBYRANK'', 85), (''ZREMRANGE'', 86), (''ZLEXCOUNT'', 87),
   (''ZPOPMIN'', 88), (''ZPOPMAX'', 89), (''ZSCAN'', 90), (''ZUNION'', 91),
   (''ZUNIONSTORE'', 92), (''ZINTER'', 93), (''ZINTERCARD'', 94), (''ZINTERSTORE'', 95),
   (''ZRANDMEMBER'', 96), (''ZRANK'', 97), (''ZREVRANK'', 98), (''ZREVRANGE'', 99),
   (''ZREVRANGEBYSCORE'', 100), (''ZREVRANGEBYLEX'', 101), (''ZMSCORE'', 102), (''ZMPOP'', 103),
   (''ZDIFF'', 104), (''ZDIFFSTORE'', 105), (''ZINCRBY'', 106), (''SZSCAN'', 107),
   (''SADD'', 108), (''SMEMBERS'', 109), (''SREM'', 110), (''SCARD'', 111),
   (''SDIFF'', 112), (''SDIFFSTORE'', 113), (''SINTER'', 114), (''SINTERCARD'', 115),
   (''SINTERSTORE'', 116), (''SISMEMBER'', 117), (''SMISMEMBER'', 118), (''SMOVE'', 119),
   (''SPOP'', 120), (''SRANDMEMBER'', 121), (''SUNION'', 122), (''SUNIONSTORE'', 123),
   (''SSCAN'', 124), (''STORE_LIST'', 125), (''SORTABLE_LOAD'', 126), (''MHGET'', 127),
   (''SORT'', 128), (''WATCH'', 129), (''UNWATCH'', 130), (''MULTI'', 131),
   (''EXEC'', 132), (''DISCARD'', 133), (''BEGIN'', 134), (''COMMIT'', 135),
   (''ROLLBACK'', 136), (''SCAN'', 137), (''KEYS'', 138), (''TYPE'', 139),
   (''DEL'', 140), (''EXISTS'', 141), (''DUMP'', 142), (''RESTORE'', 143),
   (''DBSIZE'', 144), (''INFO'', 145), (''COMMAND'', 146), (''CONFIG'', 147),
   (''CLUSTER'', 148), (''FAILOVER'', 149), (''FLUSHDB'', 150), (''FLUSHALL'', 151),
   (''READONLY'', 152), (''SLOWLOG'', 153), (''EVAL'', 154), (''EVALSHA'', 155),
   (''MEMORY_USAGE'', 156), (''TTL'', 157), (''PTTL'', 158), (''EXPIRETIME'', 159),
   (''PEXPIRETIME'', 160), (''EXPIRE'', 161), (''PEXPIRE'', 162), (''EXPIREAT'', 163),
   (''PEXPIREAT'', 164), (''PERSIST'', 165), (''GETEX'', 166), (''RECOVER'', 167),
   (''TIME'', 168), (''PUBLISH'', 169), (''SUBSCRIBE'', 170), (''UNSUBSCRIBE'', 171),
   (''PSUBSCRIBE'', 172), (''PUNSUBSCRIBE'', 173), (''UNLINK'', 174), (''NAMESPACE'', 175)]"

definition cmd_type :: "string \<Rightarrow> nat" where
  "cmd_type c = (case map_of RedisCommandType c of Some n \<Rightarrow> n | None \<Rightarrow> 255)"

section \<open>Execution states and object types\<close>

datatype command_execute_state = NoChange | Modified | ModifiedToEmpty

text \<open>The members of the engine's \<^verbatim>\<open>ExecResult\<close> and \<^verbatim>\<open>BlockOperation\<close> that the commands name.\<close>

datatype exec_result = ERead | EWrite | EDelete | EFail | EBlock | EUnlock

datatype block_operation = NoBlock | PopBlock | PopNoBlock | BlockLock | PopElement

datatype redis_object_type =
    TString | TList | THash | TDel | TZset | TSet
  | TTLString | TTLList | TTLHash | TTLZset | TTLSet

fun type_tag :: "redis_object_type \<Rightarrow> nat" where
  "type_tag TString = 0"
| "type_tag TList = 1"
| "type_tag THash = 2"
| "type_tag TDel = 3"
| "type_tag TZset = 4"
| "type_tag TSet = 5"
| "type_tag TTLString = 6"
| "type_tag TTLList = 7"
| "type_tag TTLHash = 8"
| "type_tag TTLZset = 10"
| "type_tag TTLSet = 11"

definition MAX_OBJECT_SIZE :: u64 where
  "MAX_OBJECT_SIZE = 256 * 1024 * 1024"

lemma MAX_OBJECT_SIZE_val: "MAX_OBJECT_SIZE = 268435456"
  by (simp add: MAX_OBJECT_SIZE_def)

lemma unat_MAX_OBJECT_SIZE [simp]: "unat MAX_OBJECT_SIZE = 268435456"
  by (simp add: MAX_OBJECT_SIZE_def)

text \<open>Below the wrap-around the 64-bit comparison with the limit is the mathematical one.\<close>

lemma of_nat_gt_MAX: "m < 2 ^ 64 \<Longrightarrow> (of_nat m > MAX_OBJECT_SIZE) = (m > 268435456)"
  by (simp add: word_less_nat_alt unat_of_nat)

lemma unat_u64: "m < 2 ^ 64 \<Longrightarrow> unat (of_nat m :: u64) = m"
  by (simp add: unat_of_nat)

section \<open>Replies\<close>

datatype reply =
    OnString bytes
  | OnInt int
  | OnNil
  | OnStatus bytes
  | OnError bytes
  | OnArrayStart nat
  | OnArrayEnd

text \<open>
  RESP2 framing.  The stack holds, for every open array, how many elements are still to come;
  a command must emit exactly one value.
\<close>

fun framed :: "nat list \<Rightarrow> reply list \<Rightarrow> bool" where
  "framed st [] \<longleftrightarrow> st = [0]"
| "framed (Suc n # st) (OnArrayStart k # rs) \<longleftrightarrow> framed (k # n # st) rs"
| "framed st (OnArrayStart k # rs) \<longleftrightarrow> False"
| "framed (0 # n # st) (OnArrayEnd # rs) \<longleftrightarrow> framed (n # st) rs"
| "framed st (OnArrayEnd # rs) \<longleftrightarrow> False"
| "framed (Suc n # st) (r # rs) \<longleftrightarrow> framed (n # st) rs"
| "framed st (r # rs) \<longleftrightarrow> False"

definition one_reply :: "reply list \<Rightarrow> bool" where
  "one_reply rs \<longleftrightarrow> framed [1] rs"

fun scalar_reply :: "reply \<Rightarrow> bool" where
  "scalar_reply (OnArrayStart k) = False"
| "scalar_reply OnArrayEnd = False"
| "scalar_reply r = True"

lemma framed_scalar [simp]: "scalar_reply r \<Longrightarrow> framed (Suc n # st) (r # rs) = framed (n # st) rs"
  by (cases r) auto

lemma framed_scalars [simp]:
  "list_all scalar_reply ss \<Longrightarrow> framed (length ss # st) (ss @ rs) = framed (0 # st) rs"
  by (induction ss) auto

text \<open>An array of scalars: \<^verbatim>\<open>OnArrayStart(n)\<close>, the elements, \<^verbatim>\<open>OnArrayEnd()\<close>.\<close>

definition array_reply :: "reply list \<Rightarrow> reply list" where
  "array_reply ss = OnArrayStart (length ss) # ss @ [OnArrayEnd]"

lemma one_reply_array [simp]: "list_all scalar_reply ss \<Longrightarrow> one_reply (array_reply ss)"
  by (simp add: one_reply_def array_reply_def)

lemma one_reply_scalar [simp]: "scalar_reply r \<Longrightarrow> one_reply [r]"
  by (simp add: one_reply_def)

lemma list_all_scalar_strings [simp]:
  "list_all scalar_reply (map OnString xs)" "list_all scalar_reply (map OnInt ys)"
  "list_all scalar_reply (map (OnString \<circ> f) zs)"
  by (simp_all add: list_all_iff)

section \<open>Sizes\<close>

text \<open>\<^verbatim>\<open>sizeof(uint32_t) + s.Length()\<close> in \<^verbatim>\<open>uint64_t\<close>: what a string contributes to an image.\<close>

definition cost :: "eloq_string \<Rightarrow> u64" where
  "cost s = 4 + of_nat (es_length s)"

definition costs :: "eloq_string list \<Rightarrow> u64" where
  "costs xs = sum_list (map cost xs)"

lemma costs_simps [simp, size_simps]:
  "costs [] = 0" "costs (x # xs) = cost x + costs xs" "costs (xs @ ys) = costs xs + costs ys"
  "costs (rev xs) = costs xs"
  by (simp_all add: costs_def sum_list_rev rev_map [symmetric])

lemma costs_take_drop: "costs (take n xs) + costs (drop n xs) = costs xs"
  using costs_simps(3) [of "take n xs" "drop n xs"] by simp

text \<open>The same size over the bytes and the naturals.\<close>

definition bcost :: "bytes \<Rightarrow> nat" where
  "bcost b = 4 + length b"

definition bcosts :: "bytes list \<Rightarrow> nat" where
  "bcosts bs = sum_list (map bcost bs)"

lemma bcosts_simps [simp]:
  "bcosts [] = 0" "bcosts (x # xs) = bcost x + bcosts xs" "bcosts (xs @ ys) = bcosts xs + bcosts ys"
  "bcosts (rev xs) = bcosts xs"
  by (simp_all add: bcosts_def sum_list_rev rev_map [symmetric])

lemma bcosts_length: "4 * length xs \<le> bcosts xs"
  by (induction xs) (simp_all add: bcost_def)

lemma bcosts_take_drop: "bcosts (take n xs) \<le> bcosts xs" "bcosts (drop n xs) \<le> bcosts xs"
  using bcosts_simps(3) [of "take n xs" "drop n xs"] by simp_all

lemma bcosts_nths: "bcosts (nths xs A) \<le> bcosts xs"
proof (induction xs arbitrary: A)
  case Nil
  show ?case by simp
next
  case (Cons x xs)
  then show ?case by (simp add: nths_Cons trans_le_add2)
qed

lemma bcosts_filter: "bcosts (filter P xs) \<le> bcosts xs"
  by (induction xs) auto

lemma cost_bcost: "es_short s \<Longrightarrow> cost s = of_nat (bcost (StringView s))"
  by (simp add: cost_def bcost_def)

lemma costs_bcosts: "list_all es_short xs \<Longrightarrow> costs xs = of_nat (bcosts (map StringView xs))"
  by (induction xs) (simp_all add: cost_bcost)

lemma length_put_strings:
  "list_all es_short xs \<Longrightarrow> length (concat (map put_string xs)) = bcosts (map StringView xs)"
  by (induction xs) (simp_all add: bcost_def)

lemma cost_adopt [simp, size_simps]: "arg_ok e \<Longrightarrow> cost (fst (adopt keep e)) = cost e"
  by (simp add: cost_def)

lemma of_nat_length_put_string: "of_nat (length (put_string s)) = cost s"
  by (simp add: cost_def)

lemma of_nat_length_put_strings:
  "of_nat (length (concat (map put_string xs))) = costs xs"
  by (induction xs) (simp_all add: cost_def)

end
