(* ===== verification/ListObject.thy ===== *)
theory ListObject
  imports RedisBase
begin

text \<open>
  \<^verbatim>\<open>RedisListObject\<close> (\<^verbatim>\<open>include/redis_list_object.h\<close>, \<^verbatim>\<open>src/redis_list_object.cpp\<close>): the deque of
  strings, the running size of its image, the \<^verbatim>\<open>Execute\<close> overloads, which only decide and report,
  the \<^verbatim>\<open>Commit\<close> functions, which change the object, and the two images.

  An \<^verbatim>\<open>Execute\<close> function takes the object, the fields of the command it reads and the result the
  command held, and returns the new result with the execution state.  A \<^verbatim>\<open>Commit\<close> function returns
  the new object and, where it takes strings by reference, what the moves leave of them.  It is
  \<^term>\<open>None\<close> where an assertion of the code fails.  The assertions of \<^verbatim>\<open>Execute\<close>, on a count that is not negative
  and on the list that \<^verbatim>\<open>LTRIM\<close> finds, are not part of the functions but of the contract of the commands.
\<close>

section \<open>State and results\<close>

record list_obj =
  list_object :: "eloq_string list"
  list_slen :: u64

definition RedisListObject :: list_obj where
  "RedisListObject = \<lparr>list_object = [], list_slen = 1 + 4\<rparr>"

text \<open>The copy constructor: a deep copy of every element.\<close>

definition list_copy :: "list_obj \<Rightarrow> list_obj" where
  "list_copy rhs = \<lparr>list_object = map Clone (list_object rhs), list_slen = list_slen rhs\<rparr>"

datatype list_payload =
    Int64Vector "int list"
  | StringVector "bytes list"
  | PString bytes
  | PEloqString eloq_string

record list_result =
  lr_err :: rd_err
  lr_result :: list_payload
  lr_ret :: int

definition RedisListResult :: list_result where
  "RedisListResult = \<lparr>lr_err = RD_NIL, lr_result = Int64Vector [], lr_ret = 0\<rparr>"

definition lsize :: "list_obj \<Rightarrow> int" where
  "lsize l = int (length (list_object l))"

section \<open>Execute\<close>

text \<open>
  \<^verbatim>\<open>ConvertListIndex\<close>: the index counted from the front, and whether a negative one was clamped.
\<close>

definition ConvertListIndex :: "list_obj \<Rightarrow> int \<Rightarrow> int \<times> bool" where
  "ConvertListIndex l index =
     (if index < 0
      then let i = lsize l + index in if i < 0 then (0, True) else (i, False)
      else (index, False))"

text \<open>The four push commands have the same \<^verbatim>\<open>Execute\<close>.\<close>

definition Execute_RPush :: "list_obj \<Rightarrow> eloq_string list \<Rightarrow> list_result \<Rightarrow>
    list_result \<times> command_execute_state" where
  "Execute_RPush l elements result =
     (let len_increased = costs elements in
      if list_slen l + len_increased > MAX_OBJECT_SIZE
      then (result\<lparr>lr_err := RD_ERR_OBJECT_TOO_BIG\<rparr>, NoChange)
      else (result\<lparr>lr_ret := lsize l + int (length elements), lr_err := RD_OK\<rparr>, Modified))"

definition Execute_LPush :: "list_obj \<Rightarrow> eloq_string list \<Rightarrow> list_result \<Rightarrow>
    list_result \<times> command_execute_state" where
  "Execute_LPush = Execute_RPush"

definition Execute_LPushX :: "list_obj \<Rightarrow> eloq_string list \<Rightarrow> list_result \<Rightarrow>
    list_result \<times> command_execute_state" where
  "Execute_LPushX = Execute_RPush"

definition Execute_RPushX :: "list_obj \<Rightarrow> eloq_string list \<Rightarrow> list_result \<Rightarrow>
    list_result \<times> command_execute_state" where
  "Execute_RPushX = Execute_RPush"

definition Execute_LRange :: "list_obj \<Rightarrow> int \<Rightarrow> int \<Rightarrow> list_result \<Rightarrow> list_result" where
  "Execute_LRange l start0 end0 result =
     (let (left_index, _) = ConvertListIndex l start0;
          (right_index, right_index_out_of_range) = ConvertListIndex l end0
      in if left_index > right_index \<or> left_index \<ge> lsize l \<or> right_index_out_of_range
         then result\<lparr>lr_result := StringVector [], lr_ret := 0, lr_err := RD_OK\<rparr>
         else result\<lparr>lr_result := StringVector (map StringView
                       (take (nat (right_index - left_index + 1)) (drop (nat left_index) (list_object l)))),
                     lr_ret := right_index - left_index + 1, lr_err := RD_OK\<rparr>)"

text \<open>How many elements a pop with this count takes.\<close>

definition pop_num :: "list_obj \<Rightarrow> int \<Rightarrow> nat" where
  "pop_num l count = min (size_of_i64 count) (length (list_object l))"

definition pop_state :: "list_obj \<Rightarrow> nat \<Rightarrow> command_execute_state" where
  "pop_state l num =
     (if num = 0 then NoChange
      else if num \<ge> length (list_object l) then ModifiedToEmpty else Modified)"

definition Execute_LPop :: "list_obj \<Rightarrow> int \<Rightarrow> list_result \<Rightarrow>
    list_result \<times> command_execute_state" where
  "Execute_LPop l count0 result =
     (let count = (if count0 = -1 then 1 else count0);
          num = pop_num l count
      in (result\<lparr>lr_result := StringVector (map StringView (take num (list_object l))),
                 lr_ret := int num, lr_err := RD_OK\<rparr>,
          pop_state l num))"

definition Execute_RPop :: "list_obj \<Rightarrow> int \<Rightarrow> list_result \<Rightarrow>
    list_result \<times> command_execute_state" where
  "Execute_RPop l count0 result =
     (let count = (if count0 = -1 then 1 else count0);
          num = pop_num l count
      in (result\<lparr>lr_result := StringVector (map StringView (take num (rev (list_object l)))),
                 lr_ret := int num, lr_err := RD_OK\<rparr>,
          pop_state l num))"

definition Execute_LMovePop :: "list_obj \<Rightarrow> bool \<Rightarrow> list_result \<Rightarrow>
    list_result \<times> command_execute_state" where
  "Execute_LMovePop l is_left result =
     (if list_object l = [] then (result\<lparr>lr_ret := 0, lr_err := RD_NIL\<rparr>, NoChange)
      else (result\<lparr>lr_result := PEloqString (Clone (if is_left then hd (list_object l)
                                                   else last (list_object l))),
                   lr_ret := 1, lr_err := RD_OK\<rparr>,
            if length (list_object l) = 1 then ModifiedToEmpty else Modified))"

text \<open>The size test of this one leaves out the four bytes of the length field.\<close>

definition Execute_LMovePush :: "list_obj \<Rightarrow> eloq_string \<Rightarrow> list_result \<Rightarrow>
    list_result \<times> command_execute_state" where
  "Execute_LMovePush l element result =
     (if list_slen l + of_nat (es_length element) > MAX_OBJECT_SIZE
      then (result\<lparr>lr_err := RD_ERR_OBJECT_TOO_BIG\<rparr>, NoChange)
      else (result\<lparr>lr_result := PEloqString (Clone element), lr_ret := 1, lr_err := RD_OK\<rparr>, Modified))"

definition Execute_LLen :: "list_obj \<Rightarrow> list_result \<Rightarrow> list_result" where
  "Execute_LLen l result = result\<lparr>lr_ret := lsize l\<rparr>"

definition NormalizeLTrimRange :: "list_obj \<Rightarrow> int \<Rightarrow> int \<Rightarrow> int \<times> int" where
  "NormalizeLTrimRange l start end0 =
     (let list_size = lsize l;
          start1 = (if start < 0 then (let s = list_size + start in if s < 0 then 0 else s)
                    else if start > list_size then list_size else start)
      in if end0 < 0
         then (let e = list_size + end0 in if e < 0 then (1, 0) else (start1, e))
         else if end0 \<ge> list_size then (start1, list_size - 1) else (start1, end0))"

text \<open>The command keeps the normalised range.\<close>

definition Execute_LTrim :: "list_obj \<Rightarrow> int \<Rightarrow> int \<Rightarrow> list_result \<Rightarrow>
    list_result \<times> command_execute_state \<times> int \<times> int" where
  "Execute_LTrim l start0 end0 result =
     (let (s, e) = NormalizeLTrimRange l start0 end0;
          remaining = e - s + 1
      in if remaining \<le> 0 then (result\<lparr>lr_ret := 0\<rparr>, ModifiedToEmpty, s, e)
         else if remaining \<ge> lsize l then (result\<lparr>lr_ret := lsize l\<rparr>, NoChange, s, e)
         else (result\<lparr>lr_ret := remaining\<rparr>, Modified, s, e))"

text \<open>The command keeps the converted index.\<close>

definition Execute_LIndex :: "list_obj \<Rightarrow> int \<Rightarrow> list_result \<Rightarrow> list_result \<times> int" where
  "Execute_LIndex l index0 result =
     (let i = (if index0 < 0 then lsize l + index0 else index0) in
      if i < 0 \<or> (0 \<le> index0 \<and> i \<ge> lsize l) then (result\<lparr>lr_err := RD_NIL\<rparr>, i)
      else (result\<lparr>lr_result := StringVector [StringView (list_object l ! nat i)],
                   lr_ret := 1, lr_err := RD_OK\<rparr>, i))"

definition Execute_LInsert :: "list_obj \<Rightarrow> eloq_string \<Rightarrow> eloq_string \<Rightarrow> list_result \<Rightarrow>
    list_result \<times> command_execute_state" where
  "Execute_LInsert l pivot element result =
     (if list_ex (\<lambda>e. es_eq e pivot) (list_object l)
      then if list_slen l + 4 + of_nat (es_length element) > MAX_OBJECT_SIZE
           then (result\<lparr>lr_ret := -1, lr_err := RD_ERR_OBJECT_TOO_BIG\<rparr>, NoChange)
           else (result\<lparr>lr_ret := lsize l + 1, lr_err := RD_OK\<rparr>, Modified)
      else (result\<lparr>lr_ret := -1, lr_err := RD_NIL\<rparr>, NoChange))"

text \<open>
  The scan of \<^verbatim>\<open>LPOS\<close>, in the direction of the iterator: \<open>i\<close> counts the elements visited, \<open>m\<close> the
  matches, \<open>acc\<close> the positions found so far, and \<open>pos\<close> turns a visit number into a position.
\<close>

fun lpos_scan :: "(int \<Rightarrow> int) \<Rightarrow> nat \<Rightarrow> int \<Rightarrow> int \<Rightarrow> eloq_string \<Rightarrow> int \<Rightarrow> int \<Rightarrow> int list \<Rightarrow>
    eloq_string list \<Rightarrow> int list" where
  "lpos_scan pos count rank maxlen e i m acc [] = acc"
| "lpos_scan pos count rank maxlen e i m acc (x # xs) =
     (if i < maxlen
      then if es_eq x e
           then if m + 1 \<ge> rank
                then let acc' = acc @ [pos i] in
                     if length acc' = count then acc'
                     else lpos_scan pos count rank maxlen e (i + 1) (m + 1) acc' xs
                else lpos_scan pos count rank maxlen e (i + 1) (m + 1) acc xs
           else lpos_scan pos count rank maxlen e (i + 1) m acc xs
      else acc)"

text \<open>
  \<^verbatim>\<open>int maxlen\<close> narrows the 64-bit option.  From the end the loop compares with \<^verbatim>\<open>-maxlen\<close>, which overflows for
  the least integer; the model takes the negation as it is.
\<close>

definition Execute_LPos :: "list_obj \<Rightarrow> eloq_string \<Rightarrow> int \<Rightarrow> int \<Rightarrow> nat \<Rightarrow> list_result \<Rightarrow> list_result" where
  "Execute_LPos l element rank0 count0 len0 result =
     (let count = size_of_i64 (if count0 = -1 then 1 else count0);
          maxlen = to_signed 32 (if len0 > 0 then int len0 else lsize l);
          elements =
            (if rank0 < 0
             then lpos_scan (\<lambda>i. lsize l + (- 1 - i)) count (to_signed 64 \<bar>rank0\<bar>) maxlen element 0 0 []
                    (rev (list_object l))
             else lpos_scan (\<lambda>i. i) count rank0 maxlen element 0 0 [] (list_object l))
      in result\<lparr>lr_result := Int64Vector elements,
                lr_err := (if elements = [] then RD_NIL else RD_OK)\<rparr>)"

text \<open>The command keeps the converted index.\<close>

definition Execute_LSet :: "list_obj \<Rightarrow> int \<Rightarrow> eloq_string \<Rightarrow> list_result \<Rightarrow>
    list_result \<times> command_execute_state \<times> int" where
  "Execute_LSet l index0 element result =
     (let i = (if index0 < 0 then fst (ConvertListIndex l index0) else index0) in
      if i \<ge> 0 \<and> i < lsize l
      then if list_slen l - of_nat (es_length (list_object l ! nat i)) + of_nat (es_length element)
              > MAX_OBJECT_SIZE
           then (result\<lparr>lr_ret := 0, lr_err := RD_ERR_OBJECT_TOO_BIG\<rparr>, NoChange, i)
           else (result\<lparr>lr_ret := 1, lr_err := RD_OK\<rparr>, Modified, i)
      else (result\<lparr>lr_ret := 0, lr_err := RD_ERR_INDEX_OUT_OF_RANGE\<rparr>, NoChange, i))"

text \<open>The counting loops of \<^verbatim>\<open>LREM\<close>: at most \<open>lim\<close> matches in the direction of the iterator.\<close>

fun lrem_count :: "int \<Rightarrow> eloq_string \<Rightarrow> int \<Rightarrow> eloq_string list \<Rightarrow> int" where
  "lrem_count lim e k [] = k"
| "lrem_count lim e k (x # xs) =
     (if k < lim then lrem_count lim e (if es_eq x e then k + 1 else k) xs else k)"

definition Execute_LRem :: "list_obj \<Rightarrow> int \<Rightarrow> eloq_string \<Rightarrow> list_result \<Rightarrow>
    list_result \<times> command_execute_state" where
  "Execute_LRem l count0 element result =
     (let to_be_removed_cnt = to_signed 64 \<bar>count0\<bar>;
          ret = (if count0 < 0 then lrem_count to_be_removed_cnt element 0 (rev (list_object l))
                 else if count0 > 0 then lrem_count to_be_removed_cnt element 0 (list_object l)
                 else int (length (filter (\<lambda>x. es_eq x element) (list_object l))));
          r = result\<lparr>lr_ret := ret\<rparr>
      in if ret = 0 then (r, NoChange)
         else (r, if ret \<ge> lsize l then ModifiedToEmpty else Modified))"

definition Execute_BlockLPop :: "list_obj \<Rightarrow> bool \<Rightarrow> nat \<Rightarrow> list_result \<Rightarrow>
    list_result \<times> command_execute_state" where
  "Execute_BlockLPop l is_left count0 result =
     (if list_object l = [] then (result\<lparr>lr_ret := 0\<rparr>, NoChange)
      else let cnt = min count0 (length (list_object l));
               elements = map es_String (take cnt (if is_left then list_object l else rev (list_object l)))
           in (result\<lparr>lr_ret := int (length elements), lr_result := StringVector elements\<rparr>,
               pop_state l cnt))"

text \<open>The elements a \<^verbatim>\<open>SORT\<close> loads.\<close>

definition Execute_SortableLoad :: "list_obj \<Rightarrow> redis_object_type \<times> bytes list" where
  "Execute_SortableLoad l = (TList, map es_String (list_object l))"

section \<open>Commit\<close>

text \<open>\<^verbatim>\<open>assert(serialized_length_ <= MAX_OBJECT_SIZE)\<close>, for the object a function is about to leave.\<close>

definition size_assert :: "list_obj \<times> 'b \<Rightarrow> (list_obj \<times> 'b) option" where
  "size_assert p = (if list_slen (fst p) \<le> MAX_OBJECT_SIZE then Some p else None)"

fun insert_at_pivot :: "bool \<Rightarrow> eloq_string \<Rightarrow> eloq_string \<Rightarrow> eloq_string list \<Rightarrow> eloq_string list" where
  "insert_at_pivot is_before pivot x [] = [x]"
| "insert_at_pivot is_before pivot x (y # ys) =
     (if es_eq y pivot then (if is_before then x # y # ys else y # x # ys)
      else y # insert_at_pivot is_before pivot x ys)"

definition CommitLInsert :: "list_obj \<Rightarrow> bool \<Rightarrow> eloq_string \<Rightarrow> eloq_string \<Rightarrow>
    (list_obj \<times> eloq_string) option" where
  "CommitLInsert l is_before pivot element =
     (let (x, element') = adopt False element
      in size_assert (\<lparr>list_object = insert_at_pivot is_before pivot x (list_object l),
                       list_slen = list_slen l + cost element\<rparr>, element'))"

text \<open>Past the end the iterator is invalid: \<^term>\<open>None\<close>.\<close>

definition CommitLSet :: "list_obj \<Rightarrow> int \<Rightarrow> eloq_string \<Rightarrow> (list_obj \<times> eloq_string) option" where
  "CommitLSet l index0 element =
     (let i = (if index0 < 0 then fst (ConvertListIndex l index0) else index0) in
      if i \<ge> 0 \<and> i < lsize l
      then let (x, element') = adopt False element
           in size_assert (\<lparr>list_object = (list_object l)[nat i := x],
                            list_slen = list_slen l - of_nat (es_length (list_object l ! nat i))
                                        + of_nat (es_length element)\<rparr>, element')
      else None)"

fun CommitRPush :: "list_obj \<Rightarrow> eloq_string list \<Rightarrow> (list_obj \<times> eloq_string list) option" where
  "CommitRPush l [] = Some (l, [])"
| "CommitRPush l (element # elements) =
     (let (x, element') = adopt False element
      in do { (l1, _) \<leftarrow> size_assert (\<lparr>list_object = list_object l @ [x],
                                      list_slen = list_slen l + cost element\<rparr>, ());
              (l', elements') \<leftarrow> CommitRPush l1 elements;
              Some (l', element' # elements') })"

fun CommitLPush :: "list_obj \<Rightarrow> eloq_string list \<Rightarrow> (list_obj \<times> eloq_string list) option" where
  "CommitLPush l [] = Some (l, [])"
| "CommitLPush l (element # elements) =
     (let (x, element') = adopt False element
      in do { (l1, _) \<leftarrow> size_assert (\<lparr>list_object = x # list_object l,
                                      list_slen = list_slen l + cost element\<rparr>, ());
              (l', elements') \<leftarrow> CommitLPush l1 elements;
              Some (l', element' # elements') })"

text \<open>The flag is \<^verbatim>\<open>list_object_.empty()\<close> afterwards.\<close>

definition CommitLPop :: "list_obj \<Rightarrow> int \<Rightarrow> (list_obj \<times> bool) option" where
  "CommitLPop l count =
     (let pop_num = min (length (list_object l)) (size_of_i64 count);
          l' = \<lparr>list_object = drop pop_num (list_object l),
                list_slen = list_slen l - costs (take pop_num (list_object l))\<rparr>
      in size_assert (l', list_object l' = []))"

definition CommitRPop :: "list_obj \<Rightarrow> int \<Rightarrow> (list_obj \<times> bool) option" where
  "CommitRPop l count =
     (let keep = length (list_object l) - min (size_of_i64 count) (length (list_object l));
          l' = \<lparr>list_object = take keep (list_object l),
                list_slen = list_slen l - costs (drop keep (list_object l))\<rparr>
      in size_assert (l', list_object l' = []))"

text \<open>\<^verbatim>\<open>pop_front\<close> or \<^verbatim>\<open>pop_back\<close> with its share of the running size.\<close>

definition pop_end :: "bool \<Rightarrow> list_obj \<Rightarrow> list_obj" where
  "pop_end is_left l =
     (if is_left
      then \<lparr>list_object = tl (list_object l), list_slen = list_slen l - cost (hd (list_object l))\<rparr>
      else \<lparr>list_object = butlast (list_object l), list_slen = list_slen l - cost (last (list_object l))\<rparr>)"

text \<open>An empty list is an \<^verbatim>\<open>assert(false)\<close>; the size is not tested.\<close>

definition CommitLMovePop :: "list_obj \<Rightarrow> bool \<Rightarrow> (list_obj \<times> bool) option" where
  "CommitLMovePop l is_left =
     (if list_object l = [] then None
      else let l' = pop_end is_left l in Some (l', list_object l' = []))"

definition CommitLMovePush :: "list_obj \<Rightarrow> bool \<Rightarrow> eloq_string \<Rightarrow> bool \<Rightarrow>
    (list_obj \<times> eloq_string) option" where
  "CommitLMovePush l is_left element should_not_move_string =
     (let (x, element') = adopt should_not_move_string element
      in size_assert (\<lparr>list_object = (if is_left then x # list_object l else list_object l @ [x]),
                       list_slen = list_slen l + cost element\<rparr>, element'))"

definition CommitLTrim :: "list_obj \<Rightarrow> int \<Rightarrow> int \<Rightarrow> (list_obj \<times> bool) option" where
  "CommitLTrim l start0 end0 =
     (let (s, e) = NormalizeLTrimRange l start0 end0 in
      if e - s + 1 \<le> 0
      then size_assert (\<lparr>list_object = [], list_slen = list_slen l - costs (list_object l)\<rparr>, True)
      else let l1 = (if e + 1 < lsize l
                     then \<lparr>list_object = take (nat (e + 1)) (list_object l),
                           list_slen = list_slen l - costs (drop (nat (e + 1)) (list_object l))\<rparr>
                     else l);
               l2 = (if s > 0
                     then \<lparr>list_object = drop (nat s) (list_object l1),
                           list_slen = list_slen l1 - costs (take (nat s) (list_object l1))\<rparr>
                     else l1)
           in size_assert (l2, list_object l2 = []))"

text \<open>The erasing loop of \<^verbatim>\<open>CommitLRem\<close>: what remains, and the size counted down.\<close>

fun lrem_erase :: "int \<Rightarrow> eloq_string \<Rightarrow> int \<Rightarrow> u64 \<Rightarrow> eloq_string list \<Rightarrow> eloq_string list \<times> u64" where
  "lrem_erase lim e k n [] = ([], n)"
| "lrem_erase lim e k n (x # xs) =
     (if k < lim
      then if es_eq x e then lrem_erase lim e (k + 1) (n - cost x) xs
           else (let (ys, n') = lrem_erase lim e k n xs in (x # ys, n'))
      else (x # xs, n))"

text \<open>\<^verbatim>\<open>int to_be_removed_cnt = std::abs(count)\<close> narrows to 32 bits.  This one has no assertion.\<close>

definition CommitLRem :: "list_obj \<Rightarrow> int \<Rightarrow> eloq_string \<Rightarrow> list_obj \<times> bool" where
  "CommitLRem l count element =
     (let to_be_removed_cnt = to_signed 32 \<bar>count\<bar>;
          (ys, n) =
            (if count > 0 then lrem_erase to_be_removed_cnt element 0 (list_slen l) (list_object l)
             else if count < 0
             then (let (zs, n) = lrem_erase to_be_removed_cnt element 0 (list_slen l) (rev (list_object l))
                   in (rev zs, n))
             else (filter (\<lambda>x. \<not> es_eq x element) (list_object l),
                   list_slen l - costs (filter (\<lambda>x. es_eq x element) (list_object l))))
      in (\<lparr>list_object = ys, list_slen = n\<rparr>, ys = []))"

text \<open>The loop of \<^verbatim>\<open>CommitBlockPop\<close>.\<close>

fun block_pop :: "bool \<Rightarrow> nat \<Rightarrow> list_obj \<Rightarrow> list_obj" where
  "block_pop is_left 0 l = l"
| "block_pop is_left (Suc n) l = block_pop is_left n (pop_end is_left l)"

text \<open>The flag is \<^verbatim>\<open>!list_object_.empty()\<close>; an empty list is an \<^verbatim>\<open>assert(false)\<close>.\<close>

definition CommitBlockPop :: "list_obj \<Rightarrow> bool \<Rightarrow> nat \<Rightarrow> (list_obj \<times> bool) option" where
  "CommitBlockPop l is_left count =
     (if list_object l = [] then None
      else let cnt = length (list_object l) mod 2 ^ 32;
               l' = block_pop is_left (if cnt > count then count else cnt) l
           in size_assert (l', list_object l' \<noteq> []))"

section \<open>Images\<close>

text \<open>\<^verbatim>\<open>Serialize(std::string &)\<close>.\<close>

definition list_body :: "list_obj \<Rightarrow> bytes" where
  "list_body l = put_vec put_string (list_object l)"

definition list_Serialize :: "list_obj \<Rightarrow> bytes \<Rightarrow> bytes" where
  "list_Serialize l str = str @ put_u8 (type_tag TList) @ list_body l"

definition list_ttl_Serialize :: "list_obj \<Rightarrow> nat \<Rightarrow> bytes \<Rightarrow> bytes" where
  "list_ttl_Serialize l ttl str = str @ put_u8 (type_tag TTLList) @ put_u64 ttl @ list_body l"

text \<open>
  \<^verbatim>\<open>Serialize(std::vector<char> &, size_t &)\<close>: the buffer is resized from the running size first and
  the fields are copied in; a copy past its end is \<^term>\<open>None\<close>.
\<close>

definition list_fields :: "list_obj \<Rightarrow> bytes list" where
  "list_fields l =
     put_u32 (length (list_object l)) #
     concat (map (\<lambda>e. [put_u32 (es_length e), take (es_length e) (StringView e)]) (list_object l))"

definition list_Serialize_vec :: "list_obj \<Rightarrow> bytes \<Rightarrow> nat \<Rightarrow> (bytes \<times> nat) option" where
  "list_Serialize_vec l buf offset =
     vec_puts (put_u8 (type_tag TList) # list_fields l)
       (vec_resize (offset + unat (list_slen l)) buf, offset)"

definition list_ttl_Serialize_vec :: "list_obj \<Rightarrow> nat \<Rightarrow> bytes \<Rightarrow> nat \<Rightarrow> (bytes \<times> nat) option" where
  "list_ttl_Serialize_vec l ttl buf offset =
     vec_puts (put_u8 (type_tag TTLList) # put_u64 ttl # list_fields l)
       (vec_resize (offset + 8 + unat (list_slen l)) buf, offset)"

text \<open>The loop of \<^verbatim>\<open>Deserialize\<close>, which recomputes the running size.\<close>

primrec list_read :: "nat \<Rightarrow> list_obj \<Rightarrow> list_obj reader" where
  "list_read 0 l bs = Some (l, bs)"
| "list_read (Suc n) l bs =
     do { (size, bs1) \<leftarrow> get_u32 bs; (b, bs2) \<leftarrow> get_raw size bs1;
          list_read n \<lparr>list_object = list_object l @ [es_make b],
                       list_slen = list_slen l + (4 + of_nat size)\<rparr> bs2 }"

definition list_Deserialize :: "list_obj reader" where
  "list_Deserialize bs =
     do { (_, bs1) \<leftarrow> get_u8 bs; (cnt, bs2) \<leftarrow> get_u32 bs1; list_read cnt RedisListObject bs2 }"

definition list_ttl_Deserialize :: "(list_obj \<times> nat) reader" where
  "list_ttl_Deserialize bs =
     do { (_, bs1) \<leftarrow> get_u8 bs; (ttl, bs2) \<leftarrow> get_u64 bs1; (cnt, bs3) \<leftarrow> get_u32 bs2;
          (l, bs4) \<leftarrow> list_read cnt RedisListObject bs3; Some ((l, ttl), bs4) }"

text \<open>\<^verbatim>\<open>operator==\<close>: the loop starts at index 1.\<close>

definition list_eq :: "list_obj \<Rightarrow> list_obj \<Rightarrow> bool" where
  "list_eq l r \<longleftrightarrow>
     length (list_object r) = length (list_object l) \<and>
     list_all (\<lambda>i. es_eq (list_object r ! i) (list_object l ! i)) [1..<length (list_object l)]"

section \<open>Invariant and abstraction\<close>

text \<open>
  The running size is the size of the image, and the elements are owned strings within their
  allocations.
\<close>

definition list_inv :: "list_obj \<Rightarrow> bool" where
  "list_inv l \<longleftrightarrow> list_slen l = 5 + costs (list_object l) \<and> list_all storable (list_object l)"

text \<open>The value of the object: the list of byte strings.\<close>

definition elems :: "list_obj \<Rightarrow> bytes list" where
  "elems l = map StringView (list_object l)"

text \<open>The size of the image, and the limit the server puts on it.\<close>

definition list_bytes :: "list_obj \<Rightarrow> nat" where
  "list_bytes l = 1 + length (list_body l)"

definition list_fits :: "list_obj \<Rightarrow> bool" where
  "list_fits l \<longleftrightarrow> list_bytes l \<le> unat MAX_OBJECT_SIZE"

lemma lsize_elems: "lsize l = int (length (elems l))"
  by (simp add: lsize_def elems_def)

lemma elems_empty: "list_object l = [] \<longleftrightarrow> elems l = []"
  by (simp add: elems_def)

lemma length_list_object: "length (list_object l) = length (elems l)"
  by (simp add: elems_def)

lemma list_inv_new [simp]: "list_inv RedisListObject" "elems RedisListObject = []"
  by (simp_all add: list_inv_def RedisListObject_def elems_def)

lemma list_slen_bytes: "list_inv l \<Longrightarrow> list_slen l = of_nat (list_bytes l)"
  by (simp add: list_inv_def list_bytes_def list_body_def put_vec_def of_nat_length_put_strings)

lemma unat_list_slen: "list_inv l \<Longrightarrow> list_bytes l < 2 ^ 64 \<Longrightarrow> unat (list_slen l) = list_bytes l"
  by (simp add: list_slen_bytes unat_of_nat)

lemma list_copy_inv: "list_inv l \<Longrightarrow> list_inv (list_copy l)"
proof -
  assume i: "list_inv l"
  then have "\<forall>e \<in> set (list_object l). es_short e"
    by (auto simp: list_inv_def list_all_iff storable_def)
  then have "costs (map Clone (list_object l)) = costs (list_object l)"
    unfolding costs_def map_map by (intro arg_cong [where f = sum_list] map_cong) (auto simp: cost_def)
  then show ?thesis using i by (simp add: list_inv_def list_copy_def list_all_iff)
qed

lemma elems_list_copy: "list_inv l \<Longrightarrow> elems (list_copy l) = elems l"
  by (auto simp: list_inv_def list_copy_def elems_def list_all_iff storable_def)

lemma list_inv_short: "list_inv l \<Longrightarrow> list_all es_short (list_object l)"
  by (auto simp: list_inv_def list_all_iff storable_def)

lemma list_bytes_elems: "list_inv l \<Longrightarrow> list_bytes l = 5 + bcosts (elems l)"
  by (simp add: list_bytes_def list_body_def put_vec_def length_put_strings list_inv_short elems_def)

lemma list_slen_elems: "list_inv l \<Longrightarrow> list_slen l = 5 + of_nat (bcosts (elems l))"
  by (simp add: list_slen_bytes list_bytes_elems)

text \<open>The assertion holds of every object within the limit, and fails of every other one.\<close>

lemma size_assert_spec:
  assumes "list_inv l" "bcosts (elems l) < 2 ^ 63"
  shows "size_assert (l, x) = (if bcosts (elems l) \<le> 268435451 then Some (l, x) else None)"
  using of_nat_gt_MAX [of "5 + bcosts (elems l)"] assms
  by (simp add: size_assert_def list_slen_elems not_less [symmetric])

subsection \<open>Pushes\<close>

lemma list_inv_add:
  assumes "list_inv l" "arg_ok e"
  shows "list_inv \<lparr>list_object = list_object l @ [fst (adopt keep e)], list_slen = list_slen l + cost e\<rparr>"
    and "list_inv \<lparr>list_object = fst (adopt keep e) # list_object l, list_slen = list_slen l + cost e\<rparr>"
  using assms by (simp_all add: list_inv_def)

lemma push_one:
  assumes "list_inv l" "arg_ok e" "bcosts (elems l) + bcost (StringView e) \<le> 268435451"
  shows "size_assert (\<lparr>list_object = list_object l @ [fst (adopt keep e)], list_slen = list_slen l + cost e\<rparr>, x) =
      Some (\<lparr>list_object = list_object l @ [fst (adopt keep e)], list_slen = list_slen l + cost e\<rparr>, x)"
    and "size_assert (\<lparr>list_object = fst (adopt keep e) # list_object l, list_slen = list_slen l + cost e\<rparr>, x) =
      Some (\<lparr>list_object = fst (adopt keep e) # list_object l, list_slen = list_slen l + cost e\<rparr>, x)"
proof -
  note i = list_inv_add [OF assms(1,2), of keep]
  show "size_assert (\<lparr>list_object = list_object l @ [fst (adopt keep e)], list_slen = list_slen l + cost e\<rparr>, x) =
      Some (\<lparr>list_object = list_object l @ [fst (adopt keep e)], list_slen = list_slen l + cost e\<rparr>, x)"
    using assms by (subst size_assert_spec [OF i(1)]) (simp_all add: elems_def)
  show "size_assert (\<lparr>list_object = fst (adopt keep e) # list_object l, list_slen = list_slen l + cost e\<rparr>, x) =
      Some (\<lparr>list_object = fst (adopt keep e) # list_object l, list_slen = list_slen l + cost e\<rparr>, x)"
    using assms by (subst size_assert_spec [OF i(2)]) (simp_all add: elems_def)
qed

lemma CommitRPush_spec:
  "list_inv l \<Longrightarrow> list_all arg_ok es \<Longrightarrow> bcosts (elems l @ map StringView es) \<le> 268435451 \<Longrightarrow>
   \<exists>l' es'. CommitRPush l es = Some (l', es') \<and> list_inv l' \<and> elems l' = elems l @ map StringView es"
proof (induction es arbitrary: l)
  case (Cons e es)
  let ?l = "\<lparr>list_object = list_object l @ [fst (adopt False e)], list_slen = list_slen l + cost e\<rparr>"
  have "list_inv ?l" "elems ?l = elems l @ [StringView e]"
    using Cons.prems list_inv_add(1) [of l e] by (simp_all add: elems_def)
  with Cons.IH [of ?l] Cons.prems show ?case
    by (auto simp: split_beta Let_def push_one(1))
qed simp

lemma CommitLPush_spec:
  "list_inv l \<Longrightarrow> list_all arg_ok es \<Longrightarrow> bcosts (elems l @ map StringView es) \<le> 268435451 \<Longrightarrow>
   \<exists>l' es'. CommitLPush l es = Some (l', es') \<and> list_inv l' \<and> elems l' = rev (map StringView es) @ elems l"
proof (induction es arbitrary: l)
  case (Cons e es)
  let ?l = "\<lparr>list_object = fst (adopt False e) # list_object l, list_slen = list_slen l + cost e\<rparr>"
  have "list_inv ?l" "elems ?l = StringView e # elems l"
    using Cons.prems list_inv_add(2) [of l e] by (simp_all add: elems_def)
  with Cons.IH [of ?l] Cons.prems show ?case
    by (auto simp: split_beta Let_def push_one(2))
qed simp

lemma CommitLMovePush_spec:
  "list_inv l \<Longrightarrow> arg_ok e \<Longrightarrow>
   \<exists>l' e'. CommitLMovePush l is_left e keep = size_assert (l', e') \<and> list_inv l' \<and>
     elems l' = (if is_left then StringView e # elems l else elems l @ [StringView e])"
  by (auto simp: CommitLMovePush_def Let_def split_beta list_inv_def elems_def)

subsection \<open>Pops\<close>

lemma list_all_take_drop:
  "list_all P xs \<Longrightarrow> list_all P (take n xs)" "list_all P xs \<Longrightarrow> list_all P (drop n xs)"
  by (auto simp: list_all_iff dest: in_set_takeD in_set_dropD)

lemma costs_drop: "costs (drop n xs) = costs xs - costs (take n xs)"
  using costs_take_drop [of n xs] by (simp add: algebra_simps)

lemma CommitLPop_spec:
  assumes "list_inv l"
  shows "\<exists>l'. CommitLPop l c = size_assert (l', elems l' = []) \<and> list_inv l' \<and>
     elems l' = drop (size_of_i64 c) (elems l)"
proof -
  let ?n = "min (length (list_object l)) (size_of_i64 c)"
  let ?l = "\<lparr>list_object = drop ?n (list_object l), list_slen = list_slen l - costs (take ?n (list_object l))\<rparr>"
  have "CommitLPop l c = size_assert (?l, elems ?l = [])"
    by (simp add: CommitLPop_def Let_def elems_def)
  moreover have "list_inv ?l" using assms by (simp add: list_inv_def costs_drop list_all_take_drop)
  moreover have "elems ?l = drop (size_of_i64 c) (elems l)" by (simp add: elems_def drop_map min_def)
  ultimately show ?thesis by blast
qed

lemma CommitRPop_spec:
  assumes "list_inv l"
  shows "\<exists>l'. CommitRPop l c = size_assert (l', elems l' = []) \<and> list_inv l' \<and>
     elems l' = take (length (elems l) - size_of_i64 c) (elems l)"
proof -
  let ?n = "length (list_object l) - min (size_of_i64 c) (length (list_object l))"
  let ?l = "\<lparr>list_object = take ?n (list_object l), list_slen = list_slen l - costs (drop ?n (list_object l))\<rparr>"
  have "CommitRPop l c = size_assert (?l, elems ?l = [])"
    by (simp add: CommitRPop_def Let_def elems_def)
  moreover have "list_inv ?l" using assms by (simp add: list_inv_def costs_drop list_all_take_drop)
  moreover have "elems ?l = take (length (elems l) - size_of_i64 c) (elems l)" by (simp add: elems_def take_map min_def)
  ultimately show ?thesis by blast
qed

lemma pop_end_spec:
  assumes "list_inv l" "elems l \<noteq> []"
  shows "list_inv (pop_end is_left l) \<and>
     elems (pop_end is_left l) = (if is_left then tl (elems l) else butlast (elems l))"
proof (cases is_left)
  case True
  with assms show ?thesis
    by (cases "list_object l") (auto simp: pop_end_def list_inv_def elems_def)
next
  case False
  with assms show ?thesis
    by (cases "list_object l" rule: rev_cases) (auto simp: pop_end_def list_inv_def elems_def)
qed

lemma CommitLMovePop_spec:
  assumes "list_inv l" "elems l \<noteq> []"
  shows "\<exists>l'. CommitLMovePop l is_left = Some (l', elems l' = []) \<and> list_inv l' \<and>
     elems l' = (if is_left then tl (elems l) else butlast (elems l))"
  using pop_end_spec [OF assms, of is_left] assms(2) by (simp add: CommitLMovePop_def Let_def elems_empty)

lemma block_pop_spec:
  "list_inv l \<Longrightarrow> n \<le> length (elems l) \<Longrightarrow>
   list_inv (block_pop is_left n l) \<and>
   elems (block_pop is_left n l) =
     (if is_left then drop n (elems l) else take (length (elems l) - n) (elems l))"
proof (induction n arbitrary: l)
  case 0
  then show ?case by simp
next
  case (Suc n)
  have b: "take (length xs - Suc n) (butlast xs) = take (length xs - Suc n) xs" for xs :: "bytes list"
    by (simp add: butlast_conv_take min_def)
  have "elems l \<noteq> []" using Suc.prems(2) by auto
  then have "list_inv (pop_end is_left l)"
      "elems (pop_end is_left l) = (if is_left then tl (elems l) else butlast (elems l))"
    using pop_end_spec [OF Suc.prems(1)] by blast+
  with Suc show ?case by (cases is_left) (simp_all add: drop_Suc b)
qed

lemma CommitBlockPop_spec:
  assumes "list_inv l" "length (elems l) < 2 ^ 32" "elems l \<noteq> []"
  shows "\<exists>l'. CommitBlockPop l is_left c = size_assert (l', elems l' \<noteq> []) \<and> list_inv l' \<and>
     elems l' = (if is_left then drop c (elems l) else take (length (elems l) - c) (elems l))"
  using assms block_pop_spec [OF assms(1), of c is_left] block_pop_spec [OF assms(1), of "length (elems l)" is_left]
  by (auto simp: CommitBlockPop_def Let_def elems_empty length_list_object)

subsection \<open>Ranges\<close>

lemma Execute_LRange_spec:
  "Execute_LRange l s e r =
     r\<lparr>lr_result := StringVector (range_spec s e (elems l)),
       lr_ret := lr_ret (Execute_LRange l s e r), lr_err := RD_OK\<rparr>"
  by (auto simp: Execute_LRange_def ConvertListIndex_def range_spec_take_drop from_end_def Let_def
      lsize_elems elems_def take_map drop_map max_def algebra_simps)

text \<open>What \<^const>\<open>CommitLTrim\<close> leaves, before its assertion.\<close>

lemma CommitLTrim_spec:
  assumes "list_inv l" "elems l \<noteq> []"
  shows "\<exists>l'. CommitLTrim l s e = size_assert (l', elems l' = []) \<and> list_inv l' \<and>
     elems l' = range_spec s e (elems l)"
proof -
  obtain s' e' where n: "NormalizeLTrimRange l s e = (s', e')" by (cases "NormalizeLTrimRange l s e")
  define l1 where "l1 = (if e' + 1 < lsize l
       then \<lparr>list_object = take (nat (e' + 1)) (list_object l),
             list_slen = list_slen l - costs (drop (nat (e' + 1)) (list_object l))\<rparr> else l)"
  define l2 where "l2 = (if s' > 0 then \<lparr>list_object = drop (nat s') (list_object l1),
       list_slen = list_slen l1 - costs (take (nat s') (list_object l1))\<rparr> else l1)"
  define l' where "l' = (if e' - s' + 1 \<le> 0
       then \<lparr>list_object = [], list_slen = list_slen l - costs (list_object l)\<rparr> else l2)"
  have a: "CommitLTrim l s e = size_assert (l', elems l' = [])"
    by (simp add: CommitLTrim_def n Let_def l'_def l2_def l1_def elems_def)
  have b: "list_inv l'"
    using assms by (auto simp: l'_def l2_def l1_def list_inv_def costs_drop list_all_take_drop)
  have c: "elems l' = range_spec s e (elems l)"
    using assms n
    by (auto simp: l'_def l2_def l1_def NormalizeLTrimRange_def range_spec_take_drop Let_def
        from_end_def lsize_elems elems_def take_map [symmetric] drop_map [symmetric] max_def drop_take split: if_splits)
       (rule arg_cong2 [where f = take]; simp)+
  from a b c show ?thesis by blast
qed

subsection \<open>Replacing and inserting\<close>

lemma list_all_update: "list_all P xs \<Longrightarrow> P x \<Longrightarrow> list_all P (xs[i := x])"
  by (auto simp: list_all_iff dest: set_update_subset_insert [THEN subsetD])

lemma costs_update:
  "i < length xs \<Longrightarrow> costs (xs[i := x]) = costs xs - cost (xs ! i) + cost x"
  by (induction xs arbitrary: i) (auto split: nat.split simp: algebra_simps)

text \<open>The position a command's index means, clamped at the front as \<^verbatim>\<open>LSET\<close> does.\<close>

definition set_index :: "int \<Rightarrow> int \<Rightarrow> int" where
  "set_index n i = max 0 (from_end n i)"

lemma set_index_Convert:
  "(if i < 0 then fst (ConvertListIndex l i) else i) = set_index (int (length (elems l))) i"
  by (auto simp: ConvertListIndex_def set_index_def from_end_def lsize_elems Let_def max_def)

lemma CommitLSet_spec:
  assumes "list_inv l" "arg_ok e" "set_index (int (length (elems l))) i < int (length (elems l))"
  shows "\<exists>l' e'. CommitLSet l i e = size_assert (l', e') \<and> list_inv l' \<and>
   list_slen l' = list_slen l - of_nat (es_length (list_object l ! nat (set_index (int (length (elems l))) i)))
     + of_nat (es_length e) \<and>
   elems l' = (elems l)[nat (set_index (int (length (elems l))) i) := StringView e]"
proof -
  let ?k = "set_index (int (length (elems l))) i"
  have k: "0 \<le> ?k" by (simp add: set_index_def)
  let ?l = "\<lparr>list_object = (list_object l)[nat ?k := fst (adopt False e)],
              list_slen = list_slen l - of_nat (es_length (list_object l ! nat ?k)) + of_nat (es_length e)\<rparr>"
  have "CommitLSet l i e = size_assert (?l, snd (adopt False e))"
    using assms k unfolding CommitLSet_def set_index_Convert by (simp add: lsize_elems split_beta Let_def)
  moreover have "list_inv ?l"
    using assms k
    by (simp add: list_inv_def list_all_update costs_update length_list_object nat_less_iff)
       (simp add: cost_def)
  moreover have "elems ?l = (elems l)[nat ?k := StringView e]"
    using assms by (simp add: elems_def map_update)
  ultimately show ?thesis by (intro exI [of _ ?l] exI [of _ "snd (adopt False e)"]) simp
qed

fun insert_spec :: "bool \<Rightarrow> 'a \<Rightarrow> 'a \<Rightarrow> 'a list \<Rightarrow> 'a list" where
  "insert_spec is_before p x [] = [x]"
| "insert_spec is_before p x (y # ys) =
     (if y = p then (if is_before then x # y # ys else y # x # ys)
      else y # insert_spec is_before p x ys)"

text \<open>Where the pivot occurs the new element lands next to its first occurrence.\<close>

lemma insert_spec_split:
  "p \<notin> set xs \<Longrightarrow>
   insert_spec is_before p x (xs @ p # ys) = xs @ (if is_before then [x, p] else [p, x]) @ ys"
  by (induction xs) auto

lemma insert_at_pivot_props:
  "map StringView (insert_at_pivot b pivot x xs) =
     insert_spec b (StringView pivot) (StringView x) (map StringView xs)"
  "costs (insert_at_pivot b pivot x xs) = cost x + costs xs"
  "list_all P (insert_at_pivot b pivot x xs) \<longleftrightarrow> P x \<and> list_all P xs"
  by (induction xs) (auto simp: es_eq_def)

lemma CommitLInsert_spec:
  "list_inv l \<Longrightarrow> arg_ok e \<Longrightarrow>
   \<exists>l' e'. CommitLInsert l b pivot e = size_assert (l', e') \<and> list_inv l' \<and>
     elems l' = insert_spec b (StringView pivot) (StringView e) (elems l)"
  by (auto simp: CommitLInsert_def split_beta Let_def list_inv_def elems_def insert_at_pivot_props)

subsection \<open>Removing by value\<close>

fun remove_first :: "nat \<Rightarrow> 'a \<Rightarrow> 'a list \<Rightarrow> 'a list" where
  "remove_first n x [] = []"
| "remove_first n x (y # ys) =
     (if n = 0 then y # ys else if y = x then remove_first (n - 1) x ys else y # remove_first n x ys)"

text \<open>At most \<open>lim\<close> occurrences go, on the side that the sign of the count says; all go when it is zero.\<close>

definition lrem_cut :: "int \<Rightarrow> int \<Rightarrow> 'a \<Rightarrow> 'a list \<Rightarrow> 'a list" where
  "lrem_cut lim count x xs =
     (if count > 0 then remove_first (nat lim) x xs
      else if count < 0 then rev (remove_first (nat lim) x (rev xs))
      else filter (\<lambda>y. y \<noteq> x) xs)"

definition lrem_spec :: "int \<Rightarrow> 'a \<Rightarrow> 'a list \<Rightarrow> 'a list" where
  "lrem_spec count = lrem_cut \<bar>count\<bar> count"

lemma remove_first_0 [simp]: "remove_first 0 x xs = xs"
  by (cases xs) auto

lemma lrem_erase_props:
  "0 \<le> k \<Longrightarrow>
   map StringView (fst (lrem_erase lim e k n xs)) =
     remove_first (nat (lim - k)) (StringView e) (map StringView xs) \<and>
   snd (lrem_erase lim e k n xs) = n - costs xs + costs (fst (lrem_erase lim e k n xs)) \<and>
   (list_all P xs \<longrightarrow> list_all P (fst (lrem_erase lim e k n xs)))"
proof (induction xs arbitrary: k n)
  case Nil
  show ?case by simp
next
  case (Cons x xs)
  have "nat (lim - k) - 1 = nat (lim - (k + 1))" by simp
  with Cons show ?case by (simp add: es_eq_def split_beta algebra_simps)
qed

lemma lrem_count_props:
  "0 \<le> k \<Longrightarrow>
   lrem_count lim e k xs =
     k + int (length xs) - int (length (remove_first (nat (lim - k)) (StringView e) (map StringView xs)))"
proof (induction xs arbitrary: k)
  case Nil
  show ?case by simp
next
  case (Cons x xs)
  have "nat (lim - k) - 1 = nat (lim - (k + 1))" by simp
  with Cons show ?case by (simp add: es_eq_def)
qed

lemma costs_filter_split: "costs (filter P xs) + costs (filter (\<lambda>x. \<not> P x) xs) = costs xs"
  by (induction xs) (auto simp: algebra_simps)

lemma CommitLRem_spec:
  assumes "list_inv l"
  shows "\<exists>l'. CommitLRem l c e = (l', elems l' = []) \<and> list_inv l' \<and>
     elems l' = lrem_cut (to_signed 32 \<bar>c\<bar>) c (StringView e) (elems l)"
proof -
  let ?l = "fst (CommitLRem l c e)"
  note erase = lrem_erase_props [of 0, simplified, where P = storable]
  have z: "costs (filter (\<lambda>x. \<not> P x) xs) = costs xs - costs (filter P xs)" for P xs
    using costs_filter_split [of P xs] by (simp add: algebra_simps)
  have a: "list_inv ?l"
    using assms by (auto simp: CommitLRem_def Let_def split_beta list_inv_def erase z)
       (auto simp: list_all_iff)
  have b: "elems ?l = lrem_cut (to_signed 32 \<bar>c\<bar>) c (StringView e) (elems l)"
    using assms by (simp add: CommitLRem_def Let_def split_beta elems_def lrem_cut_def erase
        rev_map [symmetric] es_eq_def filter_map comp_def)
  have c: "CommitLRem l c e = (?l, elems ?l = [])"
    by (simp add: CommitLRem_def Let_def split_beta elems_def)
  from a b c show ?thesis by blast
qed

lemma Execute_LRem_spec:
  assumes "is_i64 \<bar>c\<bar>"
  shows "lr_ret (fst (Execute_LRem l c e r)) =
     int (length (elems l)) - int (length (lrem_spec c (StringView e) (elems l)))"
  using assms sum_length_filter_compl [of "\<lambda>x. StringView x = StringView e" "list_object l"]
  by (auto simp: Execute_LRem_def Let_def lrem_spec_def lrem_cut_def lrem_count_props elems_def rev_map [symmetric]
      es_eq_def filter_map comp_def)

subsection \<open>Searching\<close>

text \<open>The positions of a value, and the part of them that \<^verbatim>\<open>RANK\<close>, \<^verbatim>\<open>COUNT\<close> and \<^verbatim>\<open>MAXLEN\<close> select.\<close>

definition positions :: "'a \<Rightarrow> 'a list \<Rightarrow> nat list" where
  "positions x xs = filter (\<lambda>p. xs ! p = x) [0..<length xs]"

definition limit :: "nat \<Rightarrow> 'a list \<Rightarrow> 'a list" where
  "limit n xs = (if n = 0 then xs else take n xs)"

definition lpos_spec :: "int \<Rightarrow> nat \<Rightarrow> nat \<Rightarrow> 'a \<Rightarrow> 'a list \<Rightarrow> int list" where
  "lpos_spec rank count maxlen x xs =
     (if rank < 0
      then limit count (drop (nat (- rank - 1))
             (map (\<lambda>p. int (length xs) - 1 - int p) (positions x (take maxlen (rev xs)))))
      else limit count (drop (nat (rank - 1)) (map int (positions x (take maxlen xs)))))"

lemma positions_Cons:
  "positions x (y # ys) = (if y = x then [0] else []) @ map Suc (positions x ys)"
  unfolding positions_def
  by (simp add: upt_conv_Cons del: upt_Suc) (simp add: map_Suc_upt [symmetric] filter_map comp_def del: upt_Suc)

lemma lpos_scan_spec:
  "count = 0 \<or> length acc < count \<Longrightarrow>
   lpos_scan pos count rank maxlen e i m acc xs =
     acc @ (let found = drop (nat (rank - 1 - m))
                  (map (\<lambda>p. pos (i + int p)) (positions (StringView e) (take (nat (maxlen - i)) (map StringView xs))))
            in if count = 0 then found else take (count - length acc) found)"
proof (induction xs arbitrary: i m acc)
  case Nil
  show ?case by (simp add: positions_def)
next
  case (Cons x xs)
  show ?case
  proof (cases "i < maxlen")
    case False
    then show ?thesis by (simp add: positions_def)
  next
    case True
    have t: "take (nat (maxlen - i)) (StringView x # map StringView xs) =
        StringView x # take (nat (maxlen - (i + 1))) (map StringView xs)"
    proof -
      have "nat (maxlen - i) = Suc (nat (maxlen - (i + 1)))" using True by simp
      then show ?thesis by simp
    qed
    have sh: "pos (i + (1 + int p)) = pos (i + 1 + int p)" for p by (simp add: add.assoc)
    have d: "nat (rank - 1 - m) = Suc (nat (rank - 1 - (m + 1)))" if "m + 1 < rank" using that by simp
    have d0: "nat (rank - 1 - m) = 0" "nat (rank - 1 - (m + 1)) = 0" if "m + 1 \<ge> rank" using that by simp_all
    have c: "count - length acc = Suc (count - Suc (length acc))" if "length acc < count" using that by simp
    show ?thesis
      using True Cons
      by (cases "count = 0"; cases "m + 1 < rank"; cases "Suc (length acc) = count")
         (simp_all add: t positions_Cons es_eq_def Let_def comp_def sh d d0 c)
  qed
qed

lemma Execute_LPos_spec:
  assumes "rank \<noteq> 0" "is_i64 \<bar>rank\<bar>" "count = -1 \<or> 0 \<le> count" "is_i64 count"
    and "is_i32 (lsize l)"
  shows "lr_result (Execute_LPos l e rank count len r) =
     Int64Vector (lpos_spec rank (if count = -1 then 1 else nat count)
       (if len > 0 then nat (to_signed 32 (int len)) else length (elems l)) (StringView e) (elems l))"
proof -
  define c where "c = (if count = -1 then 1 else nat count)"
  define ml where "ml = (if len > 0 then to_signed 32 (int len) else lsize l)"
  have c: "size_of_i64 (if count = -1 then 1 else count) = c"
    using assms(3,4) by (auto simp: c_def size_of_i64_def is_i64_def)
  have m: "to_signed 32 (if len > 0 then int len else lsize l) = ml"
    using assms by (auto simp: ml_def)
  have n: "nat ml = (if len > 0 then nat (to_signed 32 (int len)) else length (elems l))"
    by (simp add: ml_def lsize_elems)
  have r: "rev (map StringView (list_object l)) = map StringView (rev (list_object l))"
    by (simp add: rev_map)
  have t: "to_signed 64 \<bar>rank\<bar> = \<bar>rank\<bar>" using assms(2) by (rule to_signed_64)
  have f: "(\<lambda>i. lsize l + (- 1 - i)) = (\<lambda>i. lsize l - 1 - i)" by (rule ext) simp
  show ?thesis
    using assms(1)
    unfolding Execute_LPos_def Let_def c m t f lpos_spec_def c_def [symmetric] n [symmetric]
    by (simp add: lpos_scan_spec [where acc = "[]", simplified] limit_def lsize_elems elems_def r
        Let_def comp_def)
qed

subsection \<open>Size and images\<close>

lemma arg_ok_shorts: "list_all arg_ok es \<Longrightarrow> list_all es_short es"
  by (auto simp: list_all_iff)

text \<open>A push is refused exactly when the new image would exceed the limit.\<close>

lemma Execute_RPush_state:
  assumes "list_inv l" "list_all arg_ok es" "5 + bcosts (elems l @ map StringView es) < 2 ^ 64"
  shows "snd (Execute_RPush l es r) =
     (if 5 + bcosts (elems l @ map StringView es) > 268435456 then NoChange else Modified)"
proof -
  have "list_slen l + costs es = of_nat (5 + bcosts (elems l @ map StringView es))"
    using assms(1,2) by (simp add: list_slen_elems costs_bcosts arg_ok_shorts)
  then show ?thesis
    using of_nat_gt_MAX [OF assms(3)] by (simp add: Execute_RPush_def)
qed

lemma concat_list_fields: "concat (list_fields l) = list_body l"
proof -
  have "concat (concat (map (\<lambda>e. [put_u32 (es_length e), take (es_length e) (StringView e)]) xs)) =
      concat (map put_string xs)" for xs
    by (induction xs) (simp_all add: put_string_def)
  then show ?thesis by (simp add: list_fields_def list_body_def put_vec_def)
qed

lemma list_Serialize_vec_spec:
  assumes "list_inv l" "list_bytes l < 2 ^ 64" "off \<le> length buf"
  shows "list_Serialize_vec l buf off = Some (list_Serialize l (take off buf), off + unat (list_slen l))"
  unfolding list_Serialize_vec_def
  using assms by (subst vec_puts_resize)
    (simp_all add: concat_list_fields list_Serialize_def unat_list_slen list_bytes_def)

lemma list_ttl_Serialize_vec_spec:
  assumes "list_inv l" "list_bytes l < 2 ^ 64" "off \<le> length buf"
  shows "list_ttl_Serialize_vec l ttl buf off =
     Some (list_ttl_Serialize l ttl (take off buf), off + 8 + unat (list_slen l))"
proof -
  have "list_ttl_Serialize_vec l ttl buf off =
      vec_puts (put_u8 (type_tag TTLList) # put_u64 ttl # list_fields l)
        (vec_resize (off + (8 + unat (list_slen l))) buf, off)"
    by (simp add: list_ttl_Serialize_vec_def add.assoc)
  also have "\<dots> = Some (list_ttl_Serialize l ttl (take off buf), off + (8 + unat (list_slen l)))"
    using assms by (subst vec_puts_resize)
      (simp_all add: concat_list_fields list_ttl_Serialize_def unat_list_slen list_bytes_def)
  finally show ?thesis by simp
qed

lemma list_read_spec:
  "list_all es_short xs \<Longrightarrow>
   list_read (length xs) l (concat (map put_string xs) @ rest) =
     Some (\<lparr>list_object = list_object l @ map Clone xs, list_slen = list_slen l + costs xs\<rparr>, rest)"
proof (induction xs arbitrary: l)
  case Nil
  show ?case by simp
next
  case (Cons x xs)
  then have x: "length (StringView x) < 2 ^ 32" "es_short x" by (simp_all add: es_short_def)
  with Cons show ?case
    by (simp add: put_string_def Clone_def cost_def add.assoc)
qed

text \<open>Reading an image gives the deep copy that the copy constructor makes.\<close>

lemma list_Deserialize_spec:
  assumes "list_inv l" "length (elems l) < 2 ^ 32"
  shows "list_Deserialize (list_Serialize l [] @ rest) = Some (list_copy l, rest)"
  using assms
  by (simp add: list_Deserialize_def list_Serialize_def list_body_def put_vec_def length_list_object [symmetric]
      list_read_spec list_inv_short)
     (simp add: RedisListObject_def list_copy_def list_inv_def)

lemma list_ttl_Deserialize_spec:
  assumes "list_inv l" "length (elems l) < 2 ^ 32" "ttl < 2 ^ 64"
  shows "list_ttl_Deserialize (list_ttl_Serialize l ttl [] @ rest) = Some ((list_copy l, ttl), rest)"
  using assms
  by (simp add: list_ttl_Deserialize_def list_ttl_Serialize_def list_body_def put_vec_def
      length_list_object [symmetric] list_read_spec list_inv_short)
     (simp add: RedisListObject_def list_copy_def list_inv_def)

lemma list_copy_canonical: "list_all canonical (list_object l) \<Longrightarrow> list_copy l = l"
  by (simp add: list_copy_def list_all_iff canonical_def map_idI)

interpretation list_image: codec "\<lambda>l. list_Serialize l []" list_Deserialize
  "\<lambda>l. list_inv l \<and> length (elems l) < 2 ^ 32 \<and> list_all canonical (list_object l)"
  by unfold_locales (simp add: list_Deserialize_spec list_copy_canonical)

end
