(* ===== verification/FlatMap.thy ===== *)
theory FlatMap
  imports RedisBase
begin

text \<open>
  The container behind hashes: \<^verbatim>\<open>absl::flat_hash_map<EloqString, V>\<close> as a list of entries with
  distinct keys, in the (unspecified) order of iteration, with the calls the objects make:
  \<^verbatim>\<open>find\<close>, \<^verbatim>\<open>insert_or_assign\<close> (which keeps the key that is already there) and \<^verbatim>\<open>erase\<close>.

  The contract clients rely on is the locale \<open>dictionary\<close>, stated over the bytes of the keys; what
  a loop of assignments or of erasures does is proved once from the contract.
\<close>

section \<open>The contract\<close>

locale dictionary =
  fixes lookup :: "'m \<Rightarrow> bytes \<Rightarrow> 'w option"
    and assign :: "eloq_string \<Rightarrow> 'v \<Rightarrow> 'm \<Rightarrow> 'm"
    and erase :: "eloq_string \<Rightarrow> 'm \<Rightarrow> 'm"
    and wf :: "'m \<Rightarrow> bool"
    and ok :: "eloq_string \<times> 'v \<Rightarrow> bool"
    and val :: "'v \<Rightarrow> 'w"
  assumes wf_assign: "wf m \<Longrightarrow> ok (k, v) \<Longrightarrow> wf (assign k v m)"
    and wf_erase: "wf m \<Longrightarrow> wf (erase k m)"
    and lookup_assign: "wf m \<Longrightarrow> ok (k, v) \<Longrightarrow> lookup (assign k v m) = (lookup m)(StringView k \<mapsto> val v)"
    and lookup_erase: "wf m \<Longrightarrow> lookup (erase k m) = (lookup m)(StringView k := None)"
begin

lemma wf_assigns: "wf m \<Longrightarrow> list_all ok kvs \<Longrightarrow> wf (fold (\<lambda>(k, v). assign k v) kvs m)"
  by (induction kvs arbitrary: m) (auto simp: wf_assign)

lemma lookup_assigns:
  "wf m \<Longrightarrow> list_all ok kvs \<Longrightarrow>
   lookup (fold (\<lambda>(k, v). assign k v) kvs m) =
     lookup m ++ map_of (rev (map (\<lambda>(k, v). (StringView k, val v)) kvs))"
  by (induction kvs arbitrary: m) (auto simp: wf_assign lookup_assign map_add_def fun_eq_iff split: option.split)

lemma wf_erases: "wf m \<Longrightarrow> wf (fold erase ks m)"
  by (induction ks arbitrary: m) (auto simp: wf_erase)

lemma lookup_erases: "wf m \<Longrightarrow> lookup (fold erase ks m) = lookup m |` (- StringView ` set ks)"
  by (induction ks arbitrary: m) (auto simp: wf_erase lookup_erase restrict_map_def fun_eq_iff)

end

section \<open>The model of the container\<close>

definition fm_find :: "eloq_string \<Rightarrow> (eloq_string \<times> 'v) list \<Rightarrow> (eloq_string \<times> 'v) option" where
  "fm_find k m = List.find (\<lambda>p. es_eq (fst p) k) m"

fun fm_assign :: "eloq_string \<Rightarrow> 'v \<Rightarrow> (eloq_string \<times> 'v) list \<Rightarrow> (eloq_string \<times> 'v) list" where
  "fm_assign k v [] = [(k, v)]"
| "fm_assign k v ((k', v') # m) = (if es_eq k' k then (k', v) # m else (k', v') # fm_assign k v m)"

definition fm_erase :: "eloq_string \<Rightarrow> (eloq_string \<times> 'v) list \<Rightarrow> (eloq_string \<times> 'v) list" where
  "fm_erase k m = filter (\<lambda>p. \<not> es_eq (fst p) k) m"

definition fm_keys :: "(eloq_string \<times> 'v) list \<Rightarrow> bytes list" where
  "fm_keys m = map (\<lambda>p. StringView (fst p)) m"

definition fm_lookup :: "(eloq_string \<times> 'v) list \<Rightarrow> bytes \<Rightarrow> 'v option" where
  "fm_lookup m = map_of (map (\<lambda>(k, v). (StringView k, v)) m)"

definition fm_wf :: "(eloq_string \<times> 'v) list \<Rightarrow> bool" where
  "fm_wf m \<longleftrightarrow> distinct (fm_keys m)"

lemma fm_keys_simps [simp]:
  "fm_keys [] = []" "fm_keys (p # m) = StringView (fst p) # fm_keys m"
  "fm_keys (m @ m') = fm_keys m @ fm_keys m'"
  by (simp_all add: fm_keys_def)

lemma in_fm_keys: "p \<in> set m \<Longrightarrow> StringView (fst p) \<in> set (fm_keys m)"
  by (auto simp: fm_keys_def)

lemma fm_find_lookup: "map_option snd (fm_find k m) = fm_lookup m (StringView k)"
  by (induction m) (auto simp: fm_find_def fm_lookup_def es_eq_def)

lemma fm_find_None: "fm_find k m = None \<longleftrightarrow> StringView k \<notin> set (fm_keys m)"
  by (induction m) (auto simp: fm_find_def es_eq_def)

lemma fm_find_Some:
  "fm_find k m = Some (k', v) \<Longrightarrow> StringView k' = StringView k \<and> (k', v) \<in> set m"
  by (induction m) (auto simp: fm_find_def es_eq_def split: if_splits)

lemma fm_keys_assign:
  "fm_keys (fm_assign k v m) =
     (if StringView k \<in> set (fm_keys m) then fm_keys m else fm_keys m @ [StringView k])"
  by (induction m) (auto simp: es_eq_def)

lemma fm_keys_erase: "fm_keys (fm_erase k m) = filter (\<lambda>b. b \<noteq> StringView k) (fm_keys m)"
  by (simp add: fm_keys_def fm_erase_def es_eq_def filter_map comp_def)

lemma fm_lookup_assign: "fm_lookup (fm_assign k v m) = (fm_lookup m)(StringView k \<mapsto> v)"
  by (induction m) (auto simp: fm_lookup_def es_eq_def fun_eq_iff)

lemma fm_lookup_erase: "fm_lookup (fm_erase k m) = (fm_lookup m)(StringView k := None)"
  by (induction m) (auto simp: fm_lookup_def fm_erase_def es_eq_def fun_eq_iff)

lemma dom_fm_lookup: "dom (fm_lookup m) = set (fm_keys m)"
  by (simp add: fm_lookup_def fm_keys_def dom_map_of_conv_image_fst image_image split_beta)

interpretation fm: dictionary fm_lookup fm_assign fm_erase fm_wf "\<lambda>_. True" "\<lambda>v. v"
  by unfold_locales
     (auto simp: fm_wf_def fm_keys_assign fm_keys_erase fm_lookup_assign fm_lookup_erase)

lemma fm_assign_new: "StringView k \<notin> set (fm_keys m) \<Longrightarrow> fm_assign k v m = m @ [(k, v)]"
  by (induction m) (auto simp: fm_keys_def es_eq_def)

lemma length_fm_dom: "fm_wf m \<Longrightarrow> length m = card (dom (fm_lookup m))"
  by (simp add: dom_fm_lookup fm_wf_def distinct_card) (simp add: fm_keys_def)

section \<open>Weights\<close>

text \<open>What a container contributes to an image, as the sum of what its entries contribute.\<close>

definition fm_weight :: "(eloq_string \<times> 'v \<Rightarrow> u64) \<Rightarrow> (eloq_string \<times> 'v) list \<Rightarrow> u64" where
  "fm_weight w m = sum_list (map w m)"

lemma fm_weight_simps [simp]:
  "fm_weight w [] = 0" "fm_weight w (p # m) = w p + fm_weight w m"
  "fm_weight w (m @ m') = fm_weight w m + fm_weight w m'"
  by (simp_all add: fm_weight_def)

lemma fm_weight_assign:
  "fm_weight w (fm_assign k v m) =
     (case fm_find k m of
        None \<Rightarrow> fm_weight w m + w (k, v)
      | Some (k', v') \<Rightarrow> fm_weight w m - w (k', v') + w (k', v))"
  by (induction m) (auto simp: fm_find_def algebra_simps split: option.splits)

lemma fm_weight_erase:
  "fm_wf m \<Longrightarrow>
   fm_weight w (fm_erase k m) =
     (case fm_find k m of None \<Rightarrow> fm_weight w m | Some p \<Rightarrow> fm_weight w m - w p)"
proof (induction m)
  case Nil
  show ?case by (simp add: fm_erase_def fm_find_def)
next
  case (Cons p m)
  have "fm_erase k m = m" if "es_eq (fst p) k"
    using that Cons.prems
    by (auto simp: fm_erase_def fm_wf_def es_eq_def intro!: filter_True dest: in_fm_keys)
  with Cons show ?case
    by (auto simp: fm_erase_def fm_wf_def fm_find_def algebra_simps split: option.splits)
qed

lemma list_all_assign:
  "list_all P m \<Longrightarrow> P (k, v) \<Longrightarrow> (\<And>k' v'. P (k', v') \<Longrightarrow> P (k', v)) \<Longrightarrow> list_all P (fm_assign k v m)"
  by (induction m) auto

lemma list_all_erase: "list_all P m \<Longrightarrow> list_all P (fm_erase k m)"
  by (auto simp: list_all_iff fm_erase_def)

end
