(* ===== verification/StringNum.thy ===== *)
theory StringNum
  imports Prelude
begin

text \<open>
  Conversion between strings and 64-bit integers (\<^verbatim>\<open>include/redis_string_num.h\<close>): \<^verbatim>\<open>string2ll\<close>, the
  overflow tests of the expiry arithmetic, and \<^verbatim>\<open>std::to_string\<close>.  The parser is strict: it accepts
  exactly the strings that \<^verbatim>\<open>std::to_string\<close> prints, which is what lets an integer be stored in
  place of its text.
\<close>

section \<open>The definitions\<close>

definition LONG_STR_SIZE :: nat where "LONG_STR_SIZE = 21"
definition ULLONG_MAX :: nat where "ULLONG_MAX = 2 ^ 64 - 1"
definition LLONG_MAX :: int where "LLONG_MAX = 2 ^ 63 - 1"
definition LLONG_MIN :: int where "LLONG_MIN = - (2 ^ 63)"

definition in_range :: "char \<Rightarrow> char \<Rightarrow> char \<Rightarrow> bool" where
  "in_range lo hi c \<longleftrightarrow> of_char lo \<le> (of_char c :: nat) \<and> of_char c \<le> (of_char hi :: nat)"

definition is_digit :: "char \<Rightarrow> bool" where
  "is_digit c \<longleftrightarrow> in_range (CHR ''0'') (CHR ''9'') c"

definition digit_val :: "char \<Rightarrow> nat" where
  "digit_val c = of_char c - 48"

text \<open>The digit loop on \<^verbatim>\<open>uint64_t v\<close>: \<^term>\<open>None\<close> is the overflow return, else the value and the rest.\<close>

fun parse_digits :: "nat \<Rightarrow> bytes \<Rightarrow> (nat \<times> bytes) option" where
  "parse_digits v [] = Some (v, [])"
| "parse_digits v (c # p) =
     (if is_digit c
      then if v > ULLONG_MAX div 10 then None
           else let v1 = v * 10 mod 2 ^ 64 in
                if v1 > ULLONG_MAX - digit_val c then None
                else parse_digits ((v1 + digit_val c) mod 2 ^ 64) p
      else Some (v, c # p))"

definition string2ll :: "bytes \<Rightarrow> int option" where
  "string2ll s =
     (if s = [] \<or> length s \<ge> LONG_STR_SIZE then None
      else if s = ''0'' then Some 0
      else let negative = (hd s = CHR ''-''); p = (if negative then tl s else s) in
           if p = [] then None
           else if in_range (CHR ''1'') (CHR ''9'') (hd p)
           then (case parse_digits (digit_val (hd p)) (tl p) of
                   None \<Rightarrow> None
                 | Some (v, rest) \<Rightarrow>
                     if rest \<noteq> [] then None
                     else if negative
                     then (if int v > - (LLONG_MIN + 1) + 1 then None else Some (- int v))
                     else (if int v > LLONG_MAX then None else Some (int v)))
           else None)"

fun dec_digits :: "nat \<Rightarrow> bytes" where
  "dec_digits n =
     (if n < 10 then [char_of (48 + n)] else dec_digits (n div 10) @ [char_of (48 + n mod 10)])"

definition to_string :: "int \<Rightarrow> bytes" where
  "to_string i = (if i < 0 then CHR ''-'' # dec_digits (nat (- i)) else dec_digits (nat i))"

declare dec_digits.simps [simp del]

section \<open>Printing and parsing are inverse\<close>

definition num_of :: "nat \<Rightarrow> bytes \<Rightarrow> nat" where
  "num_of = foldl (\<lambda>v c. v * 10 + digit_val c)"

lemma num_of_simps [simp]:
  "num_of v [] = v" "num_of v (c # cs) = num_of (v * 10 + digit_val c) cs"
  "num_of v (cs @ [c]) = num_of v cs * 10 + digit_val c"
  by (simp_all add: num_of_def)

lemma num_of_ge: "v \<le> num_of v cs"
proof (induction cs arbitrary: v)
  case (Cons c cs)
  have "v \<le> v * 10 + digit_val c" by simp
  also have "\<dots> \<le> num_of v (c # cs)" using Cons.IH by simp
  finally show ?case .
qed simp

lemma digit_val_le: "is_digit c \<Longrightarrow> digit_val c \<le> 9"
  unfolding is_digit_def in_range_def digit_val_def by (simp, linarith)

lemma char_of_48 [simp]: "char_of (48 :: nat) = CHR ''0''"
proof -
  have "char_of (of_char (CHR ''0'') :: nat) = CHR ''0''" by (rule char_of_char)
  then show ?thesis by simp
qed

lemma char_of_digit_val: "is_digit c \<Longrightarrow> char_of (48 + digit_val c) = c"
  by (simp add: is_digit_def in_range_def digit_val_def)

lemma parse_digits_all:
  "list_all is_digit cs \<Longrightarrow> num_of v cs < 2 ^ 64 \<Longrightarrow> parse_digits v cs = Some (num_of v cs, [])"
proof (induction cs arbitrary: v)
  case (Cons c cs)
  let ?w = "v * 10 + digit_val c"
  have w: "?w < 2 ^ 64" using num_of_ge [of ?w cs] Cons.prems by simp
  have d: "digit_val c \<le> 9" using Cons.prems digit_val_le by simp
  have "v \<le> ULLONG_MAX div 10" using w by (simp add: ULLONG_MAX_def)
  moreover have "v * 10 < 2 ^ 64" using w by simp
  moreover have "v * 10 \<le> ULLONG_MAX - digit_val c" using w by (simp add: ULLONG_MAX_def)
  ultimately have "parse_digits v (c # cs) = parse_digits (?w mod 2 ^ 64) cs"
    using Cons.prems by (simp add: Let_def)
  also have "\<dots> = parse_digits ?w cs" using w by simp
  finally show ?case using Cons by simp
qed simp

lemma parse_digits_Some:
  "parse_digits v cs = Some (w, []) \<Longrightarrow> v < 2 ^ 64 \<Longrightarrow>
   list_all is_digit cs \<and> w = num_of v cs \<and> w < 2 ^ 64"
proof (induction cs arbitrary: v)
  case (Cons c cs)
  from Cons.prems have c: "is_digit c" "v \<le> ULLONG_MAX div 10"
      "v * 10 mod 2 ^ 64 \<le> ULLONG_MAX - digit_val c"
      and p: "parse_digits ((v * 10 mod 2 ^ 64 + digit_val c) mod 2 ^ 64) cs = Some (w, [])"
    by (auto simp: Let_def split: if_splits)
  have d: "digit_val c \<le> 9" using c(1) by (rule digit_val_le)
  have m: "v * 10 mod 2 ^ 64 = v * 10" using c(2) by (simp add: ULLONG_MAX_def)
  have w: "v * 10 + digit_val c < 2 ^ 64" using c(3) d unfolding m by (simp add: ULLONG_MAX_def)
  have "parse_digits (v * 10 + digit_val c) cs = Some (w, [])" using p w unfolding m by simp
  from Cons.IH [OF this w] c(1) show ?case by simp
qed simp

lemma dec_digits_num_of:
  "0 < v \<Longrightarrow> list_all is_digit cs \<Longrightarrow> dec_digits (num_of v cs) = dec_digits v @ cs"
proof (induction cs rule: rev_induct)
  case (snoc c cs)
  have d: "digit_val c \<le> 9" using snoc.prems digit_val_le by simp
  have n: "0 < num_of v cs" using num_of_ge [of v cs] snoc.prems by simp
  have "dec_digits (num_of v cs * 10 + digit_val c) = dec_digits (num_of v cs) @ [c]"
    using d n snoc.prems by (subst dec_digits.simps) (simp add: char_of_digit_val)
  then show ?case using snoc by simp
qed simp

lemma dec_digits_shape:
  "0 < n \<Longrightarrow> \<exists>c cs. dec_digits n = c # cs \<and> in_range (CHR ''1'') (CHR ''9'') c \<and>
     list_all is_digit cs \<and> num_of (digit_val c) cs = n"
proof (induction n rule: dec_digits.induct)
  case (1 n)
  show ?case
  proof (cases "n < 10")
    case True
    then show ?thesis using 1(2)
      by (subst dec_digits.simps) (simp add: in_range_def digit_val_def)
  next
    case False
    then have "0 < n div 10" by (simp add: div_greater_zero_iff)
    with 1 False obtain c cs where "dec_digits (n div 10) = c # cs" "in_range (CHR ''1'') (CHR ''9'') c"
        "list_all is_digit cs" "num_of (digit_val c) cs = n div 10"
      by auto
    moreover have "is_digit (char_of (48 + n mod 10))" "digit_val (char_of (48 + n mod 10)) = n mod 10"
      by (simp_all add: is_digit_def in_range_def digit_val_def)
    ultimately show ?thesis using False by (subst dec_digits.simps) simp
  qed
qed

lemma length_dec_digits: "n < 10 ^ k \<Longrightarrow> 0 < k \<Longrightarrow> length (dec_digits n) \<le> k"
proof (induction k arbitrary: n)
  case (Suc k)
  show ?case
  proof (cases "n < 10")
    case True
    then show ?thesis by (subst dec_digits.simps) simp
  next
    case False
    then have "n div 10 < 10 ^ k" "0 < k" using Suc.prems by (auto simp: less_mult_imp_div_less intro: gr0I)
    with Suc.IH False show ?thesis by (subst dec_digits.simps) simp
  qed
qed simp

lemma length_to_string: "is_i64 i \<Longrightarrow> length (to_string i) \<le> 20"
proof -
  assume "is_i64 i"
  then have "nat \<bar>i\<bar> < 10 ^ 19" by (auto simp: is_i64_def nat_less_iff)
  from length_dec_digits [OF this] show ?thesis by (auto simp: to_string_def)
qed

lemma string2ll_to_string: "is_i64 i \<Longrightarrow> string2ll (to_string i) = Some i"
proof (cases "i = 0")
  case True
  then show ?thesis by (simp add: to_string_def dec_digits.simps string2ll_def LONG_STR_SIZE_def)
next
  case False
  assume i: "is_i64 i"
  obtain c cs where s: "dec_digits (nat \<bar>i\<bar>) = c # cs" "in_range (CHR ''1'') (CHR ''9'') c"
      "list_all is_digit cs" "num_of (digit_val c) cs = nat \<bar>i\<bar>"
    using dec_digits_shape [of "nat \<bar>i\<bar>"] False by auto
  have p: "parse_digits (digit_val c) cs = Some (nat \<bar>i\<bar>, [])"
    using parse_digits_all [OF s(3), of "digit_val c"] s(4) i by (auto simp: is_i64_def nat_less_iff)
  have l: "length (to_string i) < LONG_STR_SIZE"
    using length_to_string [OF i] by (simp add: LONG_STR_SIZE_def)
  have c: "c \<noteq> CHR ''-''" "c \<noteq> CHR ''0''" using s(2) by (auto simp: in_range_def)
  show ?thesis
  proof (cases "i < 0")
    case True
    then have "to_string i = CHR ''-'' # c # cs" using s(1) by (simp add: to_string_def)
    with True l s(2) p i show ?thesis
      by (auto simp: string2ll_def Let_def is_i64_def LLONG_MIN_def)
  next
    case False
    then have "to_string i = c # cs" using s(1) by (simp add: to_string_def)
    with False c l s(2) p i show ?thesis
      by (auto simp: string2ll_def Let_def is_i64_def LLONG_MAX_def)
  qed
qed

lemma string2ll_Some:
  assumes "string2ll s = Some i"
  shows "is_i64 i \<and> s = to_string i"
proof (cases "s = ''0''")
  case True
  then have "i = 0" using assms by (simp add: string2ll_def LONG_STR_SIZE_def)
  with True show ?thesis by (simp add: is_i64_def to_string_def dec_digits.simps)
next
  case False
  define neg where "neg = (hd s = CHR ''-'')"
  from assms False obtain c cs v where p: "(if neg then tl s else s) = c # cs" "s \<noteq> []"
      and c: "in_range (CHR ''1'') (CHR ''9'') c" and d: "parse_digits (digit_val c) cs = Some (v, [])"
      and r: "if neg then int v \<le> 2 ^ 63 \<and> i = - int v else int v < 2 ^ 63 \<and> i = int v"
    by (cases "if neg then tl s else s")
       (auto simp: string2ll_def Let_def neg_def [symmetric] LLONG_MIN_def LLONG_MAX_def
         split: if_splits option.splits)
  have v: "digit_val c < 2 ^ 64" "0 < digit_val c" "is_digit c" "dec_digits (digit_val c) = [c]"
    using c by (auto simp: in_range_def digit_val_def is_digit_def dec_digits.simps)
  from parse_digits_Some [OF d v(1)] v have "dec_digits v = c # cs" "0 < v"
    using num_of_ge [of "digit_val c" cs] by (auto simp: dec_digits_num_of)
  moreover have "s = (if neg then CHR ''-'' # c # cs else c # cs)"
    using p by (cases s) (auto simp: neg_def split: if_splits)
  ultimately show ?thesis using r by (auto simp: to_string_def is_i64_def split: if_splits)
qed

lemma string2ll_iff: "string2ll s = Some i \<longleftrightarrow> is_i64 i \<and> s = to_string i"
  using string2ll_Some string2ll_to_string by blast

section \<open>Overflow tests\<close>

definition will_addition_overflow :: "int \<Rightarrow> int \<Rightarrow> bool" where
  "will_addition_overflow a b \<longleftrightarrow>
     (a > 0 \<and> b > 0 \<and> a > LLONG_MAX - b) \<or> (a < 0 \<and> b < 0 \<and> a < LLONG_MIN - b)"

definition will_addition_overflow_u :: "nat \<Rightarrow> nat \<Rightarrow> bool" where
  "will_addition_overflow_u a b \<longleftrightarrow> a > 0 \<and> b > 0 \<and> a > ULLONG_MAX - b"

text \<open>Division of C++ truncates.\<close>

definition tdiv :: "int \<Rightarrow> int \<Rightarrow> int" where
  "tdiv a b = sgn a * sgn b * (\<bar>a\<bar> div \<bar>b\<bar>)"

definition will_multiplication_overflow :: "int \<Rightarrow> int \<Rightarrow> bool" where
  "will_multiplication_overflow a b =
     (if a = 0 \<or> b = 0 then False
      else if a > 0 \<and> b > 0 then a > tdiv LLONG_MAX b
      else if a > 0 \<and> b < 0 then b < tdiv LLONG_MIN a
      else if a < 0 \<and> b > 0 then a < tdiv LLONG_MIN b
      else a < tdiv LLONG_MAX b)"

definition will_multiplication_overflow_u :: "nat \<Rightarrow> nat \<Rightarrow> bool" where
  "will_multiplication_overflow_u a b \<longleftrightarrow> \<not> (a = 0 \<or> b = 0) \<and> a > ULLONG_MAX div b"

lemma will_addition_overflow_iff:
  "is_i64 a \<Longrightarrow> is_i64 b \<Longrightarrow> will_addition_overflow a b \<longleftrightarrow> \<not> is_i64 (a + b)"
  by (auto simp: will_addition_overflow_def is_i64_def LLONG_MAX_def LLONG_MIN_def)

lemma div_less_mult: "0 < b \<Longrightarrow> m div b < a \<longleftrightarrow> m < a * (b :: int)"
proof -
  assume b: "0 < b"
  have "a \<le> m div b \<longleftrightarrow> a * b \<le> m"
  proof
    assume "a \<le> m div b"
    then have "a * b \<le> m div b * b" using b by simp
    also have "\<dots> \<le> m" using b pos_mod_sign [OF b, of m] div_mult_mod_eq [of m b] by linarith
    finally show "a * b \<le> m" .
  next
    assume "a * b \<le> m"
    from zdiv_mono1 [OF this b] b show "a \<le> m div b" by simp
  qed
  then show ?thesis by linarith
qed

lemma will_multiplication_overflow_iff:
  assumes "is_i64 a" "is_i64 b"
  shows "will_multiplication_overflow a b \<longleftrightarrow> \<not> is_i64 (a * b)"
proof (cases "a = 0 \<or> b = 0")
  case True
  then show ?thesis by (auto simp: will_multiplication_overflow_def is_i64_def)
next
  case False
  then consider "0 < a" "0 < b" | "0 < a" "b < 0" | "a < 0" "0 < b" | "a < 0" "b < 0" by linarith
  then show ?thesis
  proof cases
    case 1
    then have "- 9223372036854775808 \<le> a * b" using mult_pos_pos [OF 1] by linarith
    with 1 show ?thesis
      by (auto simp: will_multiplication_overflow_def is_i64_def tdiv_def LLONG_MAX_def div_less_mult)
  next
    case 2
    have e: "b < - (2 ^ 63 div a) \<longleftrightarrow> 2 ^ 63 div a < - b" by linarith
    have "a * b < 0" using 2 by (simp add: mult_pos_neg)
    with 2 show ?thesis
      by (auto simp: will_multiplication_overflow_def is_i64_def tdiv_def LLONG_MIN_def e [simplified]
          div_less_mult mult.commute)
  next
    case 3
    have e: "a < - (2 ^ 63 div b) \<longleftrightarrow> 2 ^ 63 div b < - a" by linarith
    have "a * b < 0" using 3 by (simp add: mult_neg_pos)
    with 3 show ?thesis
      by (auto simp: will_multiplication_overflow_def is_i64_def tdiv_def LLONG_MIN_def e [simplified]
          div_less_mult)
  next
    case 4
    have e: "a < - ((2 ^ 63 - 1) div - b) \<longleftrightarrow> (2 ^ 63 - 1) div - b < - a" by linarith
    have "0 < a * b" using 4 by (simp add: mult_neg_neg)
    with 4 show ?thesis
      by (auto simp: will_multiplication_overflow_def is_i64_def tdiv_def LLONG_MAX_def e [simplified]
          div_less_mult)
  qed
qed

end
