(* ===== verification/HashObject.thy ===== *)
theory HashObject
  imports FlatMap StringNum
begin

text \<open>
  \<^verbatim>\<open>RedisHashObject\<close> (\<^verbatim>\<open>include/redis_hash_object.h\<close>, \<^verbatim>\<open>src/redis_hash_object.cpp\<close>): the map of fields,
  the running size of its image, \<^verbatim>\<open>Execute\<close> and \<^verbatim>\<open>Commit\<close> functions and the two images, in the style
  of the list object.  The value of a hash is the partial function \<open>hfields\<close> over byte strings.  The assertions of the
  commits repeat what \<^verbatim>\<open>Execute\<close> has tested (the field is new, its text is an integer) or ask of the arguments what the
  contract of the commands asks (no view as a value); the functions leave them out.
\<close>

section \<open>State and results\<close>

type_synonym field_map = "(eloq_string \<times> eloq_string) list"

record hash_obj =
  hash_map :: field_map
  hash_slen :: u64

definition RedisHashObject :: hash_obj where
  "RedisHashObject = \<lparr>hash_map = [], hash_slen = 1 + 4\<rparr>"

definition hash_copy :: "hash_obj \<Rightarrow> hash_obj" where
  "hash_copy rhs = \<lparr>hash_map = map (\<lambda>(k, v). (es_copy k, es_copy v)) (hash_map rhs),
                    hash_slen = hash_slen rhs\<rparr>"

datatype hash_payload =
    HInt int
  | HString bytes
  | HStrings "bytes list"
  | HNilables "bytes option list"

record hash_result =
  hr_err :: rd_err
  hr_result :: hash_payload

definition RedisHashResult :: hash_result where
  "RedisHashResult = \<lparr>hr_err = RD_NIL, hr_result = HInt 0\<rparr>"

section \<open>Execute\<close>

text \<open>One turn of the loop of \<^verbatim>\<open>HSET\<close>: new fields counted, and the change of the size.\<close>

definition hset_step :: "hash_obj \<Rightarrow> eloq_string \<times> eloq_string \<Rightarrow> int \<times> int \<Rightarrow> int \<times> int" where
  "hset_step h fv acc =
     (case fm_find (fst fv) (hash_map h) of
        None \<Rightarrow> (fst acc + 1, snd acc + (8 + int (es_length (fst fv)) + int (es_length (snd fv))))
      | Some (_, old) \<Rightarrow> (fst acc, snd acc + int (es_length (snd fv)) - int (es_length old)))"

definition Execute_HSet :: "hash_obj \<Rightarrow> field_map \<Rightarrow> hash_result \<Rightarrow> hash_result \<times> bool" where
  "Execute_HSet h field_value_pairs result =
     (let (ans, len) = fold (hset_step h) field_value_pairs (0, 0) in
      if hash_slen h + of_int len > MAX_OBJECT_SIZE
      then (result\<lparr>hr_err := RD_ERR_OBJECT_TOO_BIG\<rparr>, False)
      else (result\<lparr>hr_result := HInt ans, hr_err := RD_OK\<rparr>, True))"

definition Execute_HGet :: "hash_obj \<Rightarrow> eloq_string \<Rightarrow> hash_result \<Rightarrow> hash_result" where
  "Execute_HGet h field result =
     (case fm_find field (hash_map h) of
        None \<Rightarrow> result\<lparr>hr_err := RD_NIL\<rparr>
      | Some (_, v) \<Rightarrow> result\<lparr>hr_err := RD_OK, hr_result := HString (es_String v)\<rparr>)"

definition Execute_HLen :: "hash_obj \<Rightarrow> hash_result \<Rightarrow> hash_result" where
  "Execute_HLen h result =
     result\<lparr>hr_result := HInt (int (length (hash_map h))), hr_err := RD_OK\<rparr>"

definition Execute_HStrLen :: "hash_obj \<Rightarrow> eloq_string \<Rightarrow> hash_result \<Rightarrow> hash_result" where
  "Execute_HStrLen h field result =
     (case fm_find field (hash_map h) of
        Some (_, v) \<Rightarrow> result\<lparr>hr_result := HInt (int (es_length v)), hr_err := RD_OK\<rparr>
      | None \<Rightarrow> result\<lparr>hr_result := HInt 0, hr_err := RD_OK\<rparr>)"

definition Execute_HDel :: "hash_obj \<Rightarrow> eloq_string list \<Rightarrow> hash_result \<Rightarrow>
    hash_result \<times> command_execute_state" where
  "Execute_HDel h del_list result =
     (let cnt = length (filter (\<lambda>key. fm_find key (hash_map h) \<noteq> None) del_list);
          r = (if cnt > 0 then result\<lparr>hr_err := RD_OK\<rparr> else result)\<lparr>hr_result := HInt (int cnt)\<rparr>
      in (r, if cnt = 0 then NoChange
             else if cnt \<ge> length (hash_map h) then ModifiedToEmpty else Modified))"

definition Execute_HExists :: "hash_obj \<Rightarrow> eloq_string \<Rightarrow> hash_result \<Rightarrow> hash_result" where
  "Execute_HExists h key result =
     (if fm_find key (hash_map h) \<noteq> None then result\<lparr>hr_err := RD_OK\<rparr> else result)"

definition Execute_HGetAll :: "hash_obj \<Rightarrow> hash_result \<Rightarrow> hash_result" where
  "Execute_HGetAll h result =
     result\<lparr>hr_result := HStrings (concat (map (\<lambda>(k, v). [es_String k, es_String v]) (hash_map h))),
            hr_err := RD_OK\<rparr>"

definition Execute_HKeys :: "hash_obj \<Rightarrow> hash_result \<Rightarrow> hash_result" where
  "Execute_HKeys h result =
     result\<lparr>hr_result := HStrings (map (\<lambda>(k, v). es_String k) (hash_map h)), hr_err := RD_OK\<rparr>"

definition Execute_HVals :: "hash_obj \<Rightarrow> hash_result \<Rightarrow> hash_result" where
  "Execute_HVals h result =
     result\<lparr>hr_result := HStrings (map (\<lambda>(k, v). es_String v) (hash_map h)), hr_err := RD_OK\<rparr>"

definition Execute_HMGet :: "hash_obj \<Rightarrow> eloq_string list \<Rightarrow> hash_result \<Rightarrow> hash_result" where
  "Execute_HMGet h field_list result =
     result\<lparr>hr_result := HNilables (map (\<lambda>field. map_option (\<lambda>(_, v). es_String v)
                                              (fm_find field (hash_map h))) field_list),
            hr_err := RD_OK\<rparr>"

text \<open>The integer an existing value holds, and the overflow test of \<^verbatim>\<open>HINCRBY\<close>.\<close>

definition incr_overflows :: "int \<Rightarrow> int \<Rightarrow> bool" where
  "incr_overflows old_val incr \<longleftrightarrow>
     (incr < 0 \<and> old_val \<le> 0 \<and> incr \<le> LLONG_MIN - old_val) \<or>
     (incr > 0 \<and> old_val \<ge> 0 \<and> incr \<ge> LLONG_MAX - old_val)"

definition Execute_HIncrBy :: "hash_obj \<Rightarrow> eloq_string \<Rightarrow> int \<Rightarrow> hash_result \<Rightarrow> hash_result \<times> bool" where
  "Execute_HIncrBy h field incr result =
     (let old = (case fm_find field (hash_map h) of
                   Some (_, v) \<Rightarrow> map_option (\<lambda>n. (n, - int (es_length v)))
                                    (string2ll (take (es_length v) (StringView v)))
                 | None \<Rightarrow> Some (0, 8 + int (es_length field)))
      in case old of
           None \<Rightarrow> (result\<lparr>hr_err := RD_ERR_HASH_VAL_ERROR\<rparr>, False)
         | Some (old_val, len) \<Rightarrow>
             if incr_overflows old_val incr then (result\<lparr>hr_err := RD_ERR_INCR_OVERFLOW\<rparr>, False)
             else let r = result\<lparr>hr_err := RD_OK, hr_result := HInt (to_signed 64 (old_val + incr))\<rparr> in
                  if hash_slen h + of_int (len + 20) > MAX_OBJECT_SIZE
                  then (r\<lparr>hr_err := RD_ERR_OBJECT_TOO_BIG\<rparr>, False)
                  else (r, True))"

definition Execute_HSetNx :: "hash_obj \<Rightarrow> eloq_string \<Rightarrow> eloq_string \<Rightarrow> hash_result \<Rightarrow> hash_result \<times> bool" where
  "Execute_HSetNx h key value result =
     (if fm_find key (hash_map h) = None
      then if hash_slen h + 8 + of_nat (es_length key) + of_nat (es_length value) > MAX_OBJECT_SIZE
           then (result\<lparr>hr_err := RD_ERR_OBJECT_TOO_BIG\<rparr>, False)
           else (result\<lparr>hr_err := RD_OK\<rparr>, True)
      else (result, False))"

section \<open>Commit\<close>

text \<open>
  \<^verbatim>\<open>SetField\<close>: the storage of the field decides for both strings; a key that is already in the map
  is not replaced and then the field argument is not consumed.
\<close>

definition SetField :: "hash_obj \<Rightarrow> eloq_string \<Rightarrow> eloq_string \<Rightarrow>
    hash_obj \<times> eloq_string \<times> eloq_string" where
  "SetField h field value =
     (let found = fm_find field (hash_map h);
          n = (case found of
                 None \<Rightarrow> hash_slen h + (8 + of_nat (es_length field) + of_nat (es_length value))
               | Some (_, old) \<Rightarrow> hash_slen h + of_nat (es_length value) - of_nat (es_length old))
      in if es_type field = ST_View
         then (\<lparr>hash_map = fm_assign (Clone field) (Clone value) (hash_map h), hash_slen = n\<rparr>, field, value)
         else (\<lparr>hash_map = fm_assign (fst (es_move field)) (fst (es_move value)) (hash_map h),
                hash_slen = n\<rparr>,
               if found = None then snd (es_move field) else field, snd (es_move value)))"

fun CommitHset :: "hash_obj \<Rightarrow> field_map \<Rightarrow> hash_obj \<times> field_map" where
  "CommitHset h [] = (h, [])"
| "CommitHset h ((field, value) # elements) =
     (let (h1, field', value') = SetField h field value;
          (h2, elements') = CommitHset h1 elements
      in (h2, (field', value') # elements'))"

fun CommitHdel :: "hash_obj \<Rightarrow> eloq_string list \<Rightarrow> hash_obj \<times> bool" where
  "CommitHdel h [] = (h, length (hash_map h) = 0)"
| "CommitHdel h (key # keys) =
     (case fm_find key (hash_map h) of
        None \<Rightarrow> CommitHdel h keys
      | Some (k, v) \<Rightarrow>
          CommitHdel \<lparr>hash_map = fm_erase key (hash_map h),
                      hash_slen = hash_slen h - (8 + of_nat (es_length k) + of_nat (es_length v))\<rparr> keys)"

text \<open>A value that is no integer counts as zero here (\<^verbatim>\<open>Execute\<close> has refused it).\<close>

definition CommitHincrby :: "hash_obj \<Rightarrow> eloq_string \<Rightarrow> int \<Rightarrow> hash_obj \<times> eloq_string" where
  "CommitHincrby h field score =
     (let found = fm_find field (hash_map h);
          (old_score, n) =
            (case found of
               Some (_, v) \<Rightarrow> (case string2ll (take (es_length v) (StringView v)) of Some x \<Rightarrow> x | None \<Rightarrow> 0,
                               hash_slen h - of_nat (es_length v))
             | None \<Rightarrow> (0, hash_slen h + (8 + of_nat (es_length field))));
          final_score = to_string (to_signed 64 (old_score + score));
          (key, field') = (if es_type field = ST_View then (Clone field, field) else es_move field)
      in (\<lparr>hash_map = fm_assign key (es_make final_score) (hash_map h),
           hash_slen = n + of_nat (length final_score)\<rparr>,
          if found = None \<or> es_type field = ST_View then field' else field))"

definition CommitHSetNx :: "hash_obj \<Rightarrow> eloq_string \<Rightarrow> eloq_string \<Rightarrow>
    hash_obj \<times> eloq_string \<times> eloq_string" where
  "CommitHSetNx h key val =
     (let n = hash_slen h + (8 + of_nat (es_length key) + of_nat (es_length val)) in
      if es_type key = ST_View
      then (\<lparr>hash_map = fm_assign (Clone key) (Clone val) (hash_map h), hash_slen = n\<rparr>, key, val)
      else (\<lparr>hash_map = fm_assign (fst (es_move key)) (fst (es_move val)) (hash_map h), hash_slen = n\<rparr>,
            if fm_find key (hash_map h) = None then snd (es_move key) else key, snd (es_move val)))"

section \<open>Images\<close>

definition put_pair :: "eloq_string \<times> eloq_string \<Rightarrow> bytes" where
  "put_pair kv = put_string (fst kv) @ put_string (snd kv)"

definition hash_body :: "hash_obj \<Rightarrow> bytes" where
  "hash_body h = put_vec put_pair (hash_map h)"

definition hash_Serialize :: "hash_obj \<Rightarrow> bytes \<Rightarrow> bytes" where
  "hash_Serialize h str = str @ put_u8 (type_tag THash) @ hash_body h"

definition hash_ttl_Serialize :: "hash_obj \<Rightarrow> nat \<Rightarrow> bytes \<Rightarrow> bytes" where
  "hash_ttl_Serialize h ttl str = str @ put_u8 (type_tag TTLHash) @ put_u64 ttl @ hash_body h"

definition hash_fields :: "hash_obj \<Rightarrow> bytes list" where
  "hash_fields h =
     put_u32 (length (hash_map h)) #
     concat (map (\<lambda>(k, v). [put_u32 (es_length k), take (es_length k) (StringView k),
                            put_u32 (es_length v), take (es_length v) (StringView v)]) (hash_map h))"

definition hash_Serialize_vec :: "hash_obj \<Rightarrow> bytes \<Rightarrow> nat \<Rightarrow> (bytes \<times> nat) option" where
  "hash_Serialize_vec h buf offset =
     vec_puts (put_u8 (type_tag THash) # hash_fields h)
       (vec_resize (offset + unat (hash_slen h)) buf, offset)"

definition hash_ttl_Serialize_vec :: "hash_obj \<Rightarrow> nat \<Rightarrow> bytes \<Rightarrow> nat \<Rightarrow> (bytes \<times> nat) option" where
  "hash_ttl_Serialize_vec h ttl buf offset =
     vec_puts (put_u8 (type_tag TTLHash) # put_u64 ttl # hash_fields h)
       (vec_resize (offset + 8 + unat (hash_slen h)) buf, offset)"

text \<open>The loop of \<^verbatim>\<open>Deserialize\<close>.\<close>

primrec hash_read :: "nat \<Rightarrow> hash_obj \<Rightarrow> hash_obj reader" where
  "hash_read 0 h bs = Some (h, bs)"
| "hash_read (Suc n) h bs =
     do { (key, bs1) \<leftarrow> get_string bs; (val, bs2) \<leftarrow> get_string bs1;
          hash_read n (fst (SetField h key val)) bs2 }"

text \<open>The size is the number of bytes consumed.\<close>

definition hash_Deserialize :: "hash_obj reader" where
  "hash_Deserialize bs =
     do { (_, bs1) \<leftarrow> get_u8 bs; (cnt, bs2) \<leftarrow> get_u32 bs1;
          (h, bs3) \<leftarrow> hash_read cnt \<lparr>hash_map = [], hash_slen = 0\<rparr> bs2;
          Some (h\<lparr>hash_slen := of_nat (length bs - length bs3)\<rparr>, bs3) }"

definition hash_ttl_Deserialize :: "(hash_obj \<times> nat) reader" where
  "hash_ttl_Deserialize bs =
     do { (_, bs1) \<leftarrow> get_u8 bs; (ttl, bs2) \<leftarrow> get_u64 bs1; (cnt, bs3) \<leftarrow> get_u32 bs2;
          (h, bs4) \<leftarrow> hash_read cnt \<lparr>hash_map = [], hash_slen = 0\<rparr> bs3;
          Some ((h\<lparr>hash_slen := of_nat (length bs - length bs4 - 8)\<rparr>, ttl), bs4) }"

definition hash_eq :: "hash_obj \<Rightarrow> hash_obj \<Rightarrow> bool" where
  "hash_eq l r \<longleftrightarrow>
     list_all (\<lambda>(k, v). case fm_find k (hash_map r) of
                          None \<Rightarrow> False
                        | Some (_, v') \<Rightarrow> StringView v' = StringView v) (hash_map l) \<and>
     length (hash_map l) = length (hash_map r)"

section \<open>Invariant and abstraction\<close>

definition pcost :: "eloq_string \<times> eloq_string \<Rightarrow> u64" where
  "pcost kv = cost (fst kv) + cost (snd kv)"

definition pair_storable :: "eloq_string \<times> eloq_string \<Rightarrow> bool" where
  "pair_storable kv \<longleftrightarrow> storable (fst kv) \<and> storable (snd kv)"

definition hash_inv :: "hash_obj \<Rightarrow> bool" where
  "hash_inv h \<longleftrightarrow> fm_wf (hash_map h) \<and> hash_slen h = 5 + fm_weight pcost (hash_map h) \<and>
     list_all pair_storable (hash_map h)"

definition hfields :: "hash_obj \<Rightarrow> bytes \<Rightarrow> bytes option" where
  "hfields h b = map_option StringView (fm_lookup (hash_map h) b)"

text \<open>
  What a command may carry: both strings views, or both owned (a mixed pair is excluded by the
  assertion of \<^verbatim>\<open>SetField\<close>).
\<close>

definition pair_ok :: "eloq_string \<times> eloq_string \<Rightarrow> bool" where
  "pair_ok kv \<longleftrightarrow> arg_ok (fst kv) \<and> arg_ok (snd kv) \<and> (owned (fst kv) \<longrightarrow> owned (snd kv))"

lemma hash_inv_new [simp]: "hash_inv RedisHashObject" "hfields RedisHashObject = Map.empty"
  by (simp_all add: hash_inv_def RedisHashObject_def fm_wf_def hfields_def fm_lookup_def fun_eq_iff)

lemma hfields_find: "hfields h (StringView k) = map_option (\<lambda>p. StringView (snd p)) (fm_find k (hash_map h))"
  by (simp add: hfields_def fm_find_lookup [symmetric] option.map_comp comp_def)

lemma dom_hfields: "dom (hfields h) = set (fm_keys (hash_map h))"
  by (simp add: dom_fm_lookup [symmetric]) (auto simp: hfields_def dom_def)

lemma card_hfields: "fm_wf (hash_map h) \<Longrightarrow> card (dom (hfields h)) = length (hash_map h)"
  by (simp add: length_fm_dom) (simp add: dom_hfields dom_fm_lookup)

lemma hfields_assign:
  "hfields \<lparr>hash_map = fm_assign k v m, hash_slen = n\<rparr> =
     (hfields \<lparr>hash_map = m, hash_slen = n'\<rparr>)(StringView k \<mapsto> StringView v)"
  by (auto simp: hfields_def fm_lookup_assign fun_eq_iff)

lemma hfields_map: "hfields h = hfields \<lparr>hash_map = hash_map h, hash_slen = n\<rparr>"
  by (simp add: hfields_def fun_eq_iff)

text \<open>Every commit puts one entry in, and the size follows the container.\<close>

lemma hash_inv_assign:
  assumes "hash_inv h" "storable k" "storable v"
    and "n = (case fm_find k (hash_map h) of
                None \<Rightarrow> hash_slen h + (cost k + cost v)
              | Some (_, old) \<Rightarrow> hash_slen h - cost old + cost v)"
  shows "hash_inv \<lparr>hash_map = fm_assign k v (hash_map h), hash_slen = n\<rparr>"
  using assms
  by (auto simp: hash_inv_def fm.wf_assign fm_weight_assign pcost_def pair_storable_def algebra_simps
      intro!: list_all_assign split: option.splits)

lemma fm_find_view: "StringView k = StringView k' \<Longrightarrow> fm_find k m = fm_find k' m"
  by (simp add: fm_find_def es_eq_def)

text \<open>The two strings as a commit stores them.\<close>

definition stored :: "eloq_string \<Rightarrow> eloq_string \<Rightarrow> eloq_string \<times> eloq_string" where
  "stored f v = (if es_type f = ST_View then (Clone f, Clone v) else (fst (es_move f), fst (es_move v)))"

lemma stored_props:
  assumes "pair_ok (f, v)"
  shows "storable (fst (stored f v))" "storable (snd (stored f v))"
    and "StringView (fst (stored f v)) = StringView f" "StringView (snd (stored f v)) = StringView v"
    and "cost (fst (stored f v)) = cost f" "cost (snd (stored f v)) = cost v"
proof -
  show "storable (fst (stored f v))" "storable (snd (stored f v))"
    using assms by (auto simp: stored_def pair_ok_def arg_ok_def storable_def es_move_inv)
       (auto simp: owned_def)
  show "StringView (fst (stored f v)) = StringView f" "StringView (snd (stored f v)) = StringView v"
    using assms by (auto simp: stored_def pair_ok_def)
  then show "cost (fst (stored f v)) = cost f" "cost (snd (stored f v)) = cost v"
    by (simp_all add: cost_def es_length_def)
qed

lemma SetField_map:
  "fst (SetField h f v) =
     \<lparr>hash_map = fm_assign (fst (stored f v)) (snd (stored f v)) (hash_map h),
      hash_slen = (case fm_find f (hash_map h) of
                     None \<Rightarrow> hash_slen h + (cost f + cost v)
                   | Some (_, old) \<Rightarrow> hash_slen h - cost old + cost v)\<rparr>"
  by (auto simp: SetField_def stored_def Let_def cost_def split: option.splits)

lemma hash_put:
  assumes "hash_inv h" "pair_ok (f, v)"
  shows "hash_inv (fst (SetField h f v))"
    and "hfields (fst (SetField h f v)) = (hfields h)(StringView f \<mapsto> StringView v)"
proof -
  note p = stored_props [OF assms(2)]
  show "hash_inv (fst (SetField h f v))"
    unfolding SetField_map using assms(1) p
    by (intro hash_inv_assign) (simp_all add: fm_find_view [OF p(3)] split: option.split)
  show "hfields (fst (SetField h f v)) = (hfields h)(StringView f \<mapsto> StringView v)"
    by (simp add: SetField_map hfields_assign [where n' = 0] hfields_map [of h 0] p)
qed

lemma hash_erase:
  assumes "hash_inv h"
  shows "hash_inv (fst (CommitHdel h [k]))"
    and "hfields (fst (CommitHdel h [k])) = (hfields h)(StringView k := None)"
  using assms
  by (auto simp: hash_inv_def fm.wf_erase fm_weight_erase pcost_def cost_def algebra_simps list_all_erase
      hfields_def fm_lookup_erase fun_eq_iff split: option.splits)
     (auto simp: fm_find_lookup [symmetric])

interpretation hash_dict: dictionary hfields "\<lambda>k v h. fst (SetField h k v)" "\<lambda>k h. fst (CommitHdel h [k])"
  hash_inv pair_ok StringView
  by unfold_locales (simp_all only: hash_put hash_erase)

lemma CommitHset_fold: "fst (CommitHset h kvs) = fold (\<lambda>(k, v) h. fst (SetField h k v)) kvs h"
  by (induction kvs arbitrary: h) (auto simp: Let_def split_beta)

lemma CommitHdel_fold: "fst (CommitHdel h ks) = fold (\<lambda>k h. fst (CommitHdel h [k])) ks h"
  by (induction ks arbitrary: h) (auto split: option.split)

lemma CommitHdel_flag: "snd (CommitHdel h ks) \<longleftrightarrow> hash_map (fst (CommitHdel h ks)) = []"
  by (induction h ks rule: CommitHdel.induct) (auto split: option.split)

lemma hash_empty: "hash_map h = [] \<longleftrightarrow> hfields h = Map.empty"
  using dom_hfields [of h] by (cases "hash_map h") auto

lemma CommitHset_spec:
  assumes "hash_inv h" "list_all pair_ok kvs"
  shows "hash_inv (fst (CommitHset h kvs))"
    and "hfields (fst (CommitHset h kvs)) =
      hfields h ++ map_of (rev (map (\<lambda>(k, v). (StringView k, StringView v)) kvs))"
  using hash_dict.wf_assigns [OF assms] hash_dict.lookup_assigns [OF assms]
  by (simp_all add: CommitHset_fold)

lemma CommitHdel_spec:
  assumes "hash_inv h"
  shows "hash_inv (fst (CommitHdel h ks))"
    and "hfields (fst (CommitHdel h ks)) = hfields h |` (- StringView ` set ks)"
    and "snd (CommitHdel h ks) \<longleftrightarrow> hfields (fst (CommitHdel h ks)) = Map.empty"
  using hash_dict.wf_erases [OF assms] hash_dict.lookup_erases [OF assms]
  by (simp_all add: CommitHdel_fold [of h ks] CommitHdel_flag hash_empty)

section \<open>Decisions agree with commits\<close>

lemma CommitHSetNx_put:
  "fm_find k (hash_map h) = None \<Longrightarrow> fst (CommitHSetNx h k v) = fst (SetField h k v)"
  by (simp add: CommitHSetNx_def SetField_def Let_def)

text \<open>The integer a field holds: absent counts as zero, other text is an error.\<close>

definition hash_int :: "hash_obj \<Rightarrow> bytes \<Rightarrow> int option" where
  "hash_int h f = (case hfields h f of None \<Rightarrow> Some 0 | Some b \<Rightarrow> string2ll b)"

lemma hash_inv_found: "hash_inv h \<Longrightarrow> fm_find k (hash_map h) = Some (k', v) \<Longrightarrow> storable k' \<and> storable v"
  by (auto simp: hash_inv_def list_all_iff pair_storable_def dest!: fm_find_Some)

lemma hash_int_find:
  assumes "hash_inv h"
  shows "hash_int h (StringView f) =
     (case fm_find f (hash_map h) of
        None \<Rightarrow> Some 0 | Some (_, v) \<Rightarrow> string2ll (take (es_length v) (StringView v)))"
  using hash_inv_found [OF assms, of f]
  by (auto simp: hash_int_def hfields_find storable_short split: option.splits)

text \<open>The test of \<^verbatim>\<open>HINCRBY\<close> never lets a sum wrap; it also refuses the two extreme values.\<close>

lemma incr_overflows_sound:
  "is_i64 a \<Longrightarrow> is_i64 b \<Longrightarrow> \<not> incr_overflows a b \<Longrightarrow> is_i64 (a + b)"
  by (auto simp: incr_overflows_def is_i64_def LLONG_MIN_def LLONG_MAX_def)

lemma hash_int_range: "hash_int h f = Some n \<Longrightarrow> is_i64 n"
  by (auto simp: hash_int_def string2ll_iff is_i64_def split: option.splits)

lemma Execute_HIncrBy_True:
  assumes "hash_inv h" "is_i64 incr" "Execute_HIncrBy h f incr r = (r', True)"
  shows "\<exists>n. hash_int h (StringView f) = Some n \<and> is_i64 (n + incr) \<and>
     r' = r\<lparr>hr_err := RD_OK, hr_result := HInt (n + incr)\<rparr>"
proof -
  obtain n len where n: "hash_int h (StringView f) = Some n"
      and o: "\<not> incr_overflows n incr"
      and r: "r' = r\<lparr>hr_err := RD_OK, hr_result := HInt (to_signed 64 (n + incr))\<rparr>"
    using assms
    by (auto simp: Execute_HIncrBy_def hash_int_find Let_def split: option.splits if_splits)
  have "is_i64 (n + incr)"
    using incr_overflows_sound [OF hash_int_range [OF n] assms(2) o] .
  with n r show ?thesis by simp
qed

lemma CommitHincrby_map:
  assumes "hash_inv h" "arg_ok f" "hash_int h (StringView f) = Some n" "is_i64 (n + incr)"
  shows "hash_inv (fst (CommitHincrby h f incr))"
    and "hfields (fst (CommitHincrby h f incr)) = (hfields h)(StringView f \<mapsto> to_string (n + incr))"
proof -
  let ?t = "to_string (n + incr)"
  let ?k = "fst (adopt False f)"
  have l: "length ?t < 2 ^ 32" using length_to_string [OF assms(4)] by simp
  have c: "fst (CommitHincrby h f incr) =
      \<lparr>hash_map = fm_assign ?k (es_make ?t) (hash_map h),
       hash_slen = (case fm_find f (hash_map h) of
                      None \<Rightarrow> hash_slen h + (cost f + cost (es_make ?t))
                    | Some (_, old) \<Rightarrow> hash_slen h - cost old + cost (es_make ?t))\<rparr>"
    using assms l
    by (auto simp: CommitHincrby_def hash_int_find adopt_def Let_def cost_def es_length_def split_beta
        split: option.splits)
  have v: "StringView ?k = StringView f" "StringView (es_make ?t) = ?t" "cost ?k = cost f"
    using assms(2) l by simp_all
  show "hash_inv (fst (CommitHincrby h f incr))"
    unfolding c using assms(1,2)
    by (intro hash_inv_assign) (simp_all add: v fm_find_view [OF v(1)] split: option.split)
  show "hfields (fst (CommitHincrby h f incr)) = (hfields h)(StringView f \<mapsto> to_string (n + incr))"
    by (simp add: c hfields_assign [where n' = 0] hfields_map [of h 0] v)
qed

text \<open>\<^verbatim>\<open>HDEL\<close>: with distinct names the count is the number of fields that go.\<close>

lemma Execute_HDel_count:
  assumes "distinct (map StringView ks)"
  shows "length (filter (\<lambda>k. fm_find k (hash_map h) \<noteq> None) ks) =
     card (dom (hfields h) \<inter> StringView ` set ks)"
proof -
  have "length (filter (\<lambda>k. fm_find k (hash_map h) \<noteq> None) ks) =
      length (filter (\<lambda>b. b \<in> dom (hfields h)) (map StringView ks))"
    by (simp add: filter_map comp_def dom_hfields fm_find_None)
  also have "\<dots> = card (set (filter (\<lambda>b. b \<in> dom (hfields h)) (map StringView ks)))"
    using assms by (intro distinct_card [symmetric] distinct_filter)
  also have "set (filter (\<lambda>b. b \<in> dom (hfields h)) (map StringView ks)) =
      dom (hfields h) \<inter> StringView ` set ks"
    by auto
  finally show ?thesis .
qed

lemma finite_dom_fields [simp]: "finite (dom (hfields h))"
  by (simp add: dom_hfields)

lemma Execute_HDel_empty:
  assumes "hash_inv h" "distinct (map StringView ks)" "hash_map h \<noteq> []"
  shows "snd (Execute_HDel h ks r) = ModifiedToEmpty \<longleftrightarrow>
     hfields h |` (- StringView ` set ks) = Map.empty"
proof -
  let ?D = "dom (hfields h)" and ?K = "StringView ` set ks"
  have n: "length (hash_map h) = card ?D"
    using assms(1) card_hfields by (simp add: hash_inv_def)
  have "card (?D \<inter> ?K) \<ge> card ?D \<longleftrightarrow> ?D \<subseteq> ?K"
    by (metis Int_absorb2 Int_lower1 card_seteq finite_dom_fields inf_le2 order_refl)
  moreover have "hfields h |` (- ?K) = Map.empty \<longleftrightarrow> ?D \<subseteq> ?K"
    by (auto simp: restrict_map_def fun_eq_iff dom_def)
  moreover have "0 < card ?D" using assms(3) unfolding n [symmetric] by simp
  ultimately show ?thesis
    unfolding Execute_HDel_def Let_def Execute_HDel_count [OF assms(2)] n by auto
qed

text \<open>\<^verbatim>\<open>HSET\<close>: with distinct names the size it predicts is the size the commit leaves.\<close>

lemma hset_step_shift:
  "hset_step h fv (a, b) = (a + fst (hset_step h fv (0, 0)), b + snd (hset_step h fv (0, 0)))"
  by (auto simp: hset_step_def split: option.split)

lemma hset_fold_shift:
  "fold (hset_step h) kvs (a, b) =
     (a + fst (fold (hset_step h) kvs (0, 0)), b + snd (fold (hset_step h) kvs (0, 0)))"
proof (induction kvs arbitrary: a b)
  case Nil
  show ?case by simp
next
  case (Cons fv kvs)
  show ?case
    unfolding fold_Cons comp_def
    by (subst (1 2 3) hset_step_shift, subst (1 2 3) Cons.IH) (simp add: algebra_simps)
qed

lemma fm_find_assign_other:
  "StringView k \<noteq> StringView k' \<Longrightarrow> fm_find k (fm_assign k' v m) = fm_find k m"
  by (induction m) (auto simp: fm_find_def es_eq_def)

lemma Execute_HSet_size:
  assumes "list_all pair_ok kvs" "distinct (map (\<lambda>kv. StringView (fst kv)) kvs)"
  shows "hash_slen (fst (CommitHset h kvs)) = hash_slen h + of_int (snd (fold (hset_step h) kvs (0, 0)))"
  using assms
proof (induction kvs arbitrary: h)
  case Nil
  show ?case by simp
next
  case (Cons fv kvs)
  obtain f v where fv: "fv = (f, v)" by (cases fv)
  let ?h = "fst (SetField h f v)"
  have p: "pair_ok (f, v)" using Cons.prems fv by simp
  have same: "fold (hset_step ?h) kvs acc = fold (hset_step h) kvs acc" for acc
  proof (rule fold_cong)
    fix kv assume "kv \<in> set kvs"
    then have "StringView (fst kv) \<noteq> StringView (fst (stored f v))"
      using Cons.prems fv stored_props(3) [OF p] by force
    then show "hset_step ?h kv = hset_step h kv"
      by (simp add: hset_step_def fun_eq_iff SetField_map fm_find_assign_other)
  qed simp_all
  have "hash_slen ?h = hash_slen h + of_int (snd (hset_step h (f, v) (0, 0)))"
    by (simp add: SetField_map hset_step_def cost_def split: option.split)
  moreover have "hash_slen (fst (CommitHset ?h kvs)) =
      hash_slen ?h + of_int (snd (fold (hset_step h) kvs (0, 0)))"
    using Cons by (simp add: same)
  moreover have "snd (fold (hset_step h) (fv # kvs) (0, 0)) =
      snd (hset_step h (f, v) (0, 0)) + snd (fold (hset_step h) kvs (0, 0))"
    using hset_fold_shift [of h kvs "fst (hset_step h (f, v) (0, 0))" "snd (hset_step h (f, v) (0, 0))"]
    unfolding prod.collapse fold_Cons comp_def fv by (simp only: snd_conv)
  ultimately show ?case by (simp add: fv Let_def split_beta)
qed

section \<open>Size and images\<close>

definition hash_bytes :: "hash_obj \<Rightarrow> nat" where
  "hash_bytes h = 1 + length (hash_body h)"

definition hash_fits :: "hash_obj \<Rightarrow> bool" where
  "hash_fits h \<longleftrightarrow> hash_bytes h \<le> unat MAX_OBJECT_SIZE"

lemma length_put_pairs: "of_nat (length (concat (map put_pair m))) = fm_weight pcost m"
  by (induction m) (simp_all add: put_pair_def pcost_def cost_def)

lemma hash_slen_bytes: "hash_inv h \<Longrightarrow> hash_slen h = of_nat (hash_bytes h)"
  by (simp add: hash_inv_def hash_bytes_def hash_body_def put_vec_def length_put_pairs)

lemma unat_hash_slen: "hash_inv h \<Longrightarrow> hash_bytes h < 2 ^ 64 \<Longrightarrow> unat (hash_slen h) = hash_bytes h"
  by (simp add: hash_slen_bytes unat_of_nat)

lemma concat_hash_fields: "concat (hash_fields h) = hash_body h"
proof -
  have "concat (concat (map (\<lambda>(k, v). [put_u32 (es_length k), take (es_length k) (StringView k),
           put_u32 (es_length v), take (es_length v) (StringView v)]) m)) = concat (map put_pair m)" for m
    by (induction m) (auto simp: put_pair_def put_string_def)
  then show ?thesis by (simp add: hash_fields_def hash_body_def put_vec_def)
qed

lemma hash_Serialize_vec_spec:
  assumes "hash_inv h" "hash_bytes h < 2 ^ 64" "off \<le> length buf"
  shows "hash_Serialize_vec h buf off = Some (hash_Serialize h (take off buf), off + unat (hash_slen h))"
  unfolding hash_Serialize_vec_def
  using assms by (subst vec_puts_resize)
    (simp_all add: concat_hash_fields hash_Serialize_def unat_hash_slen hash_bytes_def)

lemma hash_ttl_Serialize_vec_spec:
  assumes "hash_inv h" "hash_bytes h < 2 ^ 64" "off \<le> length buf"
  shows "hash_ttl_Serialize_vec h ttl buf off =
     Some (hash_ttl_Serialize h ttl (take off buf), off + 8 + unat (hash_slen h))"
proof -
  have "hash_ttl_Serialize_vec h ttl buf off =
      vec_puts (put_u8 (type_tag TTLHash) # put_u64 ttl # hash_fields h)
        (vec_resize (off + (8 + unat (hash_slen h))) buf, off)"
    by (simp add: hash_ttl_Serialize_vec_def add.assoc)
  also have "\<dots> = Some (hash_ttl_Serialize h ttl (take off buf), off + (8 + unat (hash_slen h)))"
    using assms by (subst vec_puts_resize)
      (simp_all add: concat_hash_fields hash_ttl_Serialize_def unat_hash_slen hash_bytes_def)
  finally show ?thesis by simp
qed

text \<open>What reading an image makes of a hash: the same entries, freshly allocated.\<close>

definition hash_fresh :: "hash_obj \<Rightarrow> hash_obj" where
  "hash_fresh h = \<lparr>hash_map = map (\<lambda>(k, v). (Clone k, Clone v)) (hash_map h), hash_slen = hash_slen h\<rparr>"

lemma es_move_make: "fst (es_move (es_make b)) = es_make b"
  by (auto simp: es_make_def es_move.simps InitHeap_def Let_def)

lemma stored_make: "stored (es_make a) (es_make b) = (es_make a, es_make b)"
  by (simp add: stored_def es_move_make)

lemma hash_read_spec:
  assumes "list_all (\<lambda>(k, v). es_short k \<and> es_short v) m" "distinct (fm_keys (hash_map h) @ fm_keys m)"
  shows "\<exists>n. hash_read (length m) h (concat (map put_pair m) @ rest) =
     Some (\<lparr>hash_map = hash_map h @ map (\<lambda>(k, v). (Clone k, Clone v)) m, hash_slen = n\<rparr>, rest)"
  using assms
proof (induction m arbitrary: h)
  case Nil
  then show ?case by (cases h) simp
next
  case (Cons p m)
  obtain k v where p: "p = (k, v)" by (cases p)
  have s: "es_short k" "es_short v" "StringView k \<notin> set (fm_keys (hash_map h))"
    using Cons.prems by (auto simp: p)
  let ?h = "fst (SetField h (Clone k) (Clone v))"
  have h: "hash_map ?h = hash_map h @ [(Clone k, Clone v)]"
    using s by (simp add: SetField_map Clone_def stored_make)
       (subst fm_assign_new, simp_all add: es_short_def)
  have "hash_read (length (p # m)) h (concat (map put_pair (p # m)) @ rest) =
      hash_read (length m) ?h (concat (map put_pair m) @ rest)"
    using s by (simp add: p put_pair_def Clone_def)
  moreover have "distinct (fm_keys (hash_map ?h) @ fm_keys m)"
    using Cons.prems s by (auto simp: h p)
  ultimately show ?case
    using Cons.IH [of ?h] Cons.prems by (simp add: h p)
qed

lemma hash_inv_short: "hash_inv h \<Longrightarrow> list_all (\<lambda>(k, v). es_short k \<and> es_short v) (hash_map h)"
  by (auto simp: hash_inv_def list_all_iff pair_storable_def storable_def split_beta)

lemma hash_Deserialize_spec:
  assumes "hash_inv h" "length (hash_map h) < 2 ^ 32"
  shows "hash_Deserialize (hash_Serialize h [] @ rest) = Some (hash_fresh h, rest)"
proof -
  obtain n where "hash_read (length (hash_map h)) \<lparr>hash_map = [], hash_slen = 0\<rparr>
        (concat (map put_pair (hash_map h)) @ rest) =
      Some (\<lparr>hash_map = map (\<lambda>(k, v). (Clone k, Clone v)) (hash_map h), hash_slen = n\<rparr>, rest)"
    using hash_read_spec [OF hash_inv_short [OF assms(1)], of "\<lparr>hash_map = [], hash_slen = 0\<rparr>" rest] assms(1)
    by (auto simp: hash_inv_def fm_wf_def)
  then have "hash_Deserialize (hash_Serialize h [] @ rest) =
      Some (\<lparr>hash_map = map (\<lambda>(k, v). (Clone k, Clone v)) (hash_map h),
             hash_slen = of_nat (hash_bytes h)\<rparr>, rest)"
    using assms(2) by (simp add: hash_Deserialize_def hash_Serialize_def hash_body_def put_vec_def hash_bytes_def)
  then show ?thesis using assms(1) by (simp add: hash_fresh_def hash_slen_bytes)
qed

lemma hash_ttl_Deserialize_spec:
  assumes "hash_inv h" "length (hash_map h) < 2 ^ 32" "ttl < 2 ^ 64"
  shows "hash_ttl_Deserialize (hash_ttl_Serialize h ttl [] @ rest) = Some ((hash_fresh h, ttl), rest)"
proof -
  obtain n where "hash_read (length (hash_map h)) \<lparr>hash_map = [], hash_slen = 0\<rparr>
        (concat (map put_pair (hash_map h)) @ rest) =
      Some (\<lparr>hash_map = map (\<lambda>(k, v). (Clone k, Clone v)) (hash_map h), hash_slen = n\<rparr>, rest)"
    using hash_read_spec [OF hash_inv_short [OF assms(1)], of "\<lparr>hash_map = [], hash_slen = 0\<rparr>" rest] assms(1)
    by (auto simp: hash_inv_def fm_wf_def)
  then have "hash_ttl_Deserialize (hash_ttl_Serialize h ttl [] @ rest) =
      Some ((\<lparr>hash_map = map (\<lambda>(k, v). (Clone k, Clone v)) (hash_map h),
             hash_slen = of_nat (hash_bytes h)\<rparr>, ttl), rest)"
    using assms(2,3)
    by (simp add: hash_ttl_Deserialize_def hash_ttl_Serialize_def hash_body_def put_vec_def hash_bytes_def)
  then show ?thesis using assms(1) by (simp add: hash_fresh_def hash_slen_bytes)
qed

lemma hash_fresh_keys: "hash_inv h \<Longrightarrow> fm_keys (hash_map (hash_fresh h)) = fm_keys (hash_map h)"
  using hash_inv_short [of h] by (auto simp: hash_fresh_def fm_keys_def list_all_iff)

lemma hfields_fresh:
  assumes "hash_inv h"
  shows "hfields (hash_fresh h) = hfields h"
proof -
  have "map_option StringView (fm_lookup (map (\<lambda>(k, v). (Clone k, Clone v)) m) b) =
      map_option StringView (fm_lookup m b)" if "list_all (\<lambda>(k, v). es_short k \<and> es_short v) m" for m b
    using that by (induction m) (auto simp: fm_lookup_def)
  from this [OF hash_inv_short [OF assms]] show ?thesis
    by (simp add: hash_fresh_def hfields_def fun_eq_iff)
qed

lemma hash_fresh_inv:
  assumes "hash_inv h"
  shows "hash_inv (hash_fresh h)"
proof -
  have "fm_weight pcost (map (\<lambda>(k, v). (Clone k, Clone v)) m) = fm_weight pcost m"
      if "list_all (\<lambda>(k, v). es_short k \<and> es_short v) m" for m
    using that by (induction m) (auto simp: pcost_def cost_def)
  from this [OF hash_inv_short [OF assms]] show ?thesis
    using assms hash_fresh_keys [OF assms]
    by (simp add: hash_inv_def fm_wf_def) (auto simp: hash_fresh_def list_all_iff pair_storable_def)
qed

lemma hash_fresh_canonical:
  "list_all (\<lambda>(k, v). canonical k \<and> canonical v) (hash_map h) \<Longrightarrow> hash_fresh h = h"
  by (cases h) (auto simp: hash_fresh_def list_all_iff canonical_def split_beta intro!: map_idI)

interpretation hash_image: codec "\<lambda>h. hash_Serialize h []" hash_Deserialize
  "\<lambda>h. hash_inv h \<and> length (hash_map h) < 2 ^ 32 \<and>
       list_all (\<lambda>(k, v). canonical k \<and> canonical v) (hash_map h)"
  by unfold_locales (simp add: hash_Deserialize_spec hash_fresh_canonical)

end
