(* ===== verification/RandSelect.thy ===== *)
theory RandSelect
  imports EloqString "HOL-Library.Multiset"
begin

text \<open>
  \<^verbatim>\<open>GenRandMap\<close> (\<^verbatim>\<open>src/eloq_algorithm.cpp\<close>), the sampling behind \<^verbatim>\<open>SPOP\<close>, \<^verbatim>\<open>SRANDMEMBER\<close> and
  \<^verbatim>\<open>HRANDFIELD\<close>, and the scatter loop of its callers.  The multimap is the list of its entries in
  order; the generator \<^verbatim>\<open>std::rand()\<close> is a parameter, \<open>rnd i\<close> being the value drawn in turn \<open>i\<close>.

  Without repetition a draw that is taken probes for the next free index, walking the map and the
  index range together.  The walk gets fuel equal to the size of the range; the lemmas show that
  this is always enough, so sampling up to \<open>sz\<close> indices always succeeds and never repeats one.
\<close>

section \<open>The definitions\<close>

type_synonym rand_map = "(nat \<times> nat) list"

text \<open>\<^verbatim>\<open>map.emplace(k, i)\<close>: behind the entries with the same key.\<close>

fun mm_emplace :: "nat \<Rightarrow> nat \<Rightarrow> rand_map \<Rightarrow> rand_map" where
  "mm_emplace k i [] = [(k, i)]"
| "mm_emplace k i ((k', i') # m) = (if k < k' then (k, i) # (k', i') # m else (k', i') # mm_emplace k i m)"

text \<open>\<^verbatim>\<open>map.find(k)\<close>, the iterator as a position.\<close>

fun mm_find :: "nat \<Rightarrow> rand_map \<Rightarrow> nat option" where
  "mm_find k [] = None"
| "mm_find k ((k', i') # m) = (if k = k' then Some 0 else map_option Suc (mm_find k m))"

text \<open>The probing loop.\<close>

fun rand_probe :: "nat \<Rightarrow> nat \<Rightarrow> rand_map \<Rightarrow> nat \<Rightarrow> nat \<Rightarrow> nat option" where
  "rand_probe 0 sz m pos rand = None"
| "rand_probe (Suc fuel) sz m pos rand =
     (let pos' = (if Suc pos = length m then 0 else Suc pos);
          rand' = (if Suc rand = sz then 0 else Suc rand)
      in if rand' \<noteq> fst (m ! pos') then Some rand' else rand_probe fuel sz m pos' rand')"

definition gen_step :: "nat \<Rightarrow> bool \<Rightarrow> (nat \<Rightarrow> nat) \<Rightarrow> rand_map \<Rightarrow> nat \<Rightarrow> rand_map option" where
  "gen_step sz repeat rnd m i =
     (let rand = rnd i mod sz in
      if repeat then Some (mm_emplace rand i m)
      else case mm_find rand m of
             None \<Rightarrow> Some (mm_emplace rand i m)
           | Some pos \<Rightarrow> map_option (\<lambda>r. mm_emplace r i m) (rand_probe sz sz m pos rand))"

text \<open>The loop runs \<open>i\<close> from 0; a draw modulo an empty range is undefined.\<close>

fun GenRandMap :: "nat \<Rightarrow> nat \<Rightarrow> bool \<Rightarrow> (nat \<Rightarrow> nat) \<Rightarrow> rand_map option" where
  "GenRandMap sz 0 repeat rnd = Some []"
| "GenRandMap sz (Suc n) repeat rnd =
     (if sz = 0 then None
      else GenRandMap sz n repeat rnd \<bind> (\<lambda>m. gen_step sz repeat rnd m n))"

text \<open>
  The callers walk the map and the container together and store the element at the key's position
  in the slot the entry names; \<^verbatim>\<open>resize\<close> has filled the slots with null strings.
\<close>

definition scatter :: "eloq_string list \<Rightarrow> rand_map \<Rightarrow> eloq_string list" where
  "scatter xs m = foldl (\<lambda>out (k, j). out[j := Clone (xs ! k)]) (replicate (length m) NullView) m"

section \<open>Sampling succeeds and does not repeat\<close>

definition mm_keys :: "rand_map \<Rightarrow> nat list" where
  "mm_keys m = map fst m"

lemma set_mm_emplace [simp]: "set (mm_emplace k i m) = insert (k, i) (set m)"
  by (induction m) (auto split: if_splits)

lemma length_mm_emplace [simp]: "length (mm_emplace k i m) = Suc (length m)"
  by (induction m) auto

lemma mset_mm_emplace [simp]: "mset (mm_emplace k i m) = add_mset (k, i) (mset m)"
  by (induction m) auto

lemma mm_keys_simps [simp]: "mm_keys [] = []" "mm_keys (p # m) = fst p # mm_keys m"
  by (simp_all add: mm_keys_def)

lemma set_mm_keys_emplace: "set (mm_keys (mm_emplace k i m)) = insert k (set (mm_keys m))"
  by (simp add: mm_keys_def)

lemma sorted_mm_emplace: "sorted (mm_keys m) \<Longrightarrow> sorted (mm_keys (mm_emplace k i m))"
proof (induction m)
  case (Cons p m)
  obtain k' i' where p: "p = (k', i')" by (cases p)
  show ?case
  proof (cases "k < k'")
    case True
    with Cons.prems show ?thesis by (auto simp: p mm_keys_def)
  next
    case False
    have "\<forall>y \<in> set (mm_keys (mm_emplace k i m)). k' \<le> y"
      using Cons.prems False by (auto simp: p mm_keys_def)
    moreover have "sorted (mm_keys (mm_emplace k i m))" using Cons by (simp add: p mm_keys_def)
    ultimately show ?thesis using False by (simp add: p mm_keys_def)
  qed
qed (simp add: mm_keys_def)

lemma distinct_mm_emplace:
  "distinct (mm_keys (mm_emplace k i m)) \<longleftrightarrow> k \<notin> set (mm_keys m) \<and> distinct (mm_keys m)"
proof -
  have "mset (mm_keys (mm_emplace k i m)) = mset (k # mm_keys m)" by (simp add: mm_keys_def)
  then have "distinct (mm_keys (mm_emplace k i m)) = distinct (k # mm_keys m)"
    by (rule mset_eq_imp_distinct_iff)
  then show ?thesis by simp
qed

lemma mm_find_Some: "mm_find k m = Some pos \<Longrightarrow> pos < length m \<and> mm_keys m ! pos = k"
  by (induction m arbitrary: pos) (auto split: if_splits)

lemma mm_find_None: "mm_find k m = None \<longleftrightarrow> k \<notin> set (mm_keys m)"
  by (induction m) (auto split: if_splits)

text \<open>In a strictly sorted list the successor of a member, if it is a member, is the next entry.\<close>

lemma strict_sorted_next:
  fixes ks :: "nat list"
  assumes "sorted ks" "distinct ks" "pos < length ks" "Suc (ks ! pos) \<in> set ks"
  shows "Suc pos < length ks \<and> ks ! Suc pos = Suc (ks ! pos)"
proof -
  have st: "sorted_wrt (<) ks" using assms(1,2) by (simp add: strict_sorted_iff)
  then have mono: "a < b \<Longrightarrow> b < length ks \<Longrightarrow> ks ! a < ks ! b" for a b
    by (simp add: sorted_wrt_nth_less)
  obtain q where q: "q < length ks" "ks ! q = Suc (ks ! pos)"
    using assms(4) by (auto simp: in_set_conv_nth)
  have "pos < q"
  proof (rule ccontr)
    assume "\<not> pos < q"
    then have "q = pos \<or> q < pos" by auto
    then show False using mono [of q pos] q assms(3) by auto
  qed
  moreover have "\<not> Suc pos < q"
  proof
    assume a: "Suc pos < q"
    have "ks ! pos < ks ! Suc pos" using a q by (intro mono) simp_all
    moreover have "ks ! Suc pos < ks ! q" using a q by (intro mono) simp_all
    ultimately show False using q by simp
  qed
  ultimately have "q = Suc pos" by simp
  then show ?thesis using q by simp
qed

lemma sorted_zero_first:
  fixes ks :: "nat list"
  assumes "sorted ks" "0 \<in> set ks"
  shows "ks ! 0 = 0"
  using assms by (cases ks) auto

definition mm_ok :: "nat \<Rightarrow> rand_map \<Rightarrow> bool" where
  "mm_ok sz m \<longleftrightarrow> sorted (mm_keys m) \<and> distinct (mm_keys m) \<and> set (mm_keys m) \<subseteq> {..<sz}"

lemma length_mm_keys [simp]: "length (mm_keys m) = length m"
  by (simp add: mm_keys_def)

lemma mm_keys_nth: "pos < length m \<Longrightarrow> fst (m ! pos) = mm_keys m ! pos"
  by (simp add: mm_keys_def)

lemma rand_probe_finds:
  assumes "mm_ok sz m" "pos < length m" "mm_keys m ! pos = rand"
    and "0 < d" "d \<le> fuel" "(rand + d) mod sz \<notin> set (mm_keys m)"
  shows "\<exists>r. rand_probe fuel sz m pos rand = Some r \<and> r < sz \<and> r \<notin> set (mm_keys m)"
  using assms(2-)
proof (induction fuel arbitrary: pos rand d)
  case 0
  then show ?case by simp
next
  case (Suc fuel)
  let ?ks = "mm_keys m"
  let ?pos = "if Suc pos = length m then 0 else Suc pos"
  let ?rand = "if Suc rand = sz then 0 else Suc rand"
  have ks: "sorted ?ks" "distinct ?ks" "set ?ks \<subseteq> {..<sz}" using assms(1) by (simp_all add: mm_ok_def)
  have "rand \<in> set ?ks" using Suc.prems by (auto simp: in_set_conv_nth)
  then have rand: "rand < sz" using ks(3) by auto
  have pos: "?pos < length m" using Suc.prems(1) by auto
  have nxt: "?rand = (rand + 1) mod sz" using rand by (simp add: mod_Suc)
  show ?case
  proof (cases "?rand \<in> set ?ks")
    case False
    then have "?rand \<noteq> fst (m ! ?pos)" using pos by (metis length_mm_keys mm_keys_nth nth_mem)
    moreover have "?rand < sz" using rand by auto
    ultimately show ?thesis using False by (simp add: Let_def)
  next
    case True
    have at: "?ks ! ?pos = ?rand"
    proof (cases "Suc rand = sz")
      case True
      then have "0 \<in> set ?ks" using \<open>?rand \<in> set ?ks\<close> by simp
      then have "?ks ! 0 = 0" using ks(1) by (rule sorted_zero_first [rotated])
      moreover have "Suc pos = length m"
      proof (rule ccontr)
        assume "Suc pos \<noteq> length m"
        then have "Suc pos < length m" using Suc.prems(1) by simp
        moreover have "sorted_wrt (<) ?ks" using ks(1,2) by (simp add: strict_sorted_iff)
        ultimately have "?ks ! pos < ?ks ! Suc pos" "?ks ! Suc pos \<in> set ?ks"
          by (simp_all add: sorted_wrt_nth_less)
        then show False using True ks(3) Suc.prems(2) by auto
      qed
      ultimately show ?thesis using True by simp
    next
      case False
      then have "Suc (?ks ! pos) \<in> set ?ks" using \<open>?rand \<in> set ?ks\<close> Suc.prems(2) by simp
      from strict_sorted_next [OF ks(1,2) _ this] Suc.prems(1,2) False show ?thesis by auto
    qed
    have d: "1 < d"
    proof (rule ccontr)
      assume "\<not> 1 < d"
      then have "d = 1" using Suc.prems(3) by simp
      then show False using Suc.prems(5) True nxt by simp
    qed
    have "(?rand + (d - 1)) mod sz = (rand + 1 + (d - 1)) mod sz"
      unfolding nxt by (rule mod_add_left_eq)
    then have "(?rand + (d - 1)) mod sz = (rand + d) mod sz" using d by simp
    then have "\<exists>r. rand_probe fuel sz m ?pos ?rand = Some r \<and> r < sz \<and> r \<notin> set ?ks"
      using Suc.IH [OF pos at, of "d - 1"] d Suc.prems by simp
    moreover have "fst (m ! ?pos) = ?rand" using at pos by (simp add: mm_keys_nth)
    ultimately show ?thesis by (simp only: rand_probe.simps Let_def) simp
  qed
qed

lemma rand_probe_total:
  assumes "mm_ok sz m" "length m < sz" "mm_find rand m = Some pos"
  shows "\<exists>r. rand_probe sz sz m pos rand = Some r \<and> r < sz \<and> r \<notin> set (mm_keys m)"
proof -
  have p: "pos < length m" "mm_keys m ! pos = rand" using mm_find_Some [OF assms(3)] by simp_all
  have "card (set (mm_keys m)) < card {..<sz}"
    using card_length [of "mm_keys m"] assms(2) by simp
  then have "\<not> {..<sz} \<subseteq> set (mm_keys m)" using card_mono [of "set (mm_keys m)" "{..<sz}"] by auto
  then obtain f where f: "f < sz" "f \<notin> set (mm_keys m)" by auto
  have "rand \<in> set (mm_keys m)" using p by (auto simp: in_set_conv_nth)
  then have rand: "rand < sz" "rand \<noteq> f" using assms(1) f by (auto simp: mm_ok_def)
  define d where "d = (if rand < f then f - rand else f + sz - rand)"
  have "0 < d" "d \<le> sz" "(rand + d) mod sz = f"
    using rand f by (auto simp: d_def)
  then show ?thesis using rand_probe_finds [OF assms(1) p] f by auto
qed

theorem GenRandMap_distinct:
  "n \<le> sz \<Longrightarrow>
   \<exists>m. GenRandMap sz n False rnd = Some m \<and> length m = n \<and> mm_ok sz m \<and> mset (map snd m) = mset [0..<n]"
proof (induction n)
  case 0
  show ?case by (simp add: mm_ok_def mm_keys_def)
next
  case (Suc n)
  then obtain m where m: "GenRandMap sz n False rnd = Some m" "length m = n" "mm_ok sz m"
      "mset (map snd m) = mset [0..<n]" by auto
  have sz: "0 < sz" using Suc.prems by simp
  have "\<exists>r. gen_step sz False rnd m n = Some (mm_emplace r n m) \<and> r < sz \<and> r \<notin> set (mm_keys m)"
  proof (cases "mm_find (rnd n mod sz) m")
    case None
    then show ?thesis using sz by (auto simp: gen_step_def Let_def mm_find_None [symmetric])
  next
    case (Some pos)
    then show ?thesis
      using rand_probe_total [OF m(3) _ Some] m(2) Suc.prems Some by (auto simp: gen_step_def Let_def)
  qed
  then obtain r where r: "gen_step sz False rnd m n = Some (mm_emplace r n m)" "r < sz"
      "r \<notin> set (mm_keys m)" by blast
  have "mm_ok sz (mm_emplace r n m)"
    using m(3) r by (simp add: mm_ok_def sorted_mm_emplace distinct_mm_emplace set_mm_keys_emplace)
  then show ?case using m r sz by simp
qed

theorem GenRandMap_repeat:
  "0 < sz \<Longrightarrow>
   \<exists>m. GenRandMap sz n True rnd = Some m \<and> length m = n \<and> set (mm_keys m) \<subseteq> {..<sz} \<and>
     mset (map snd m) = mset [0..<n]"
proof (induction n)
  case 0
  show ?case by (simp add: mm_keys_def)
next
  case (Suc n)
  then obtain m where "GenRandMap sz n True rnd = Some m" "length m = n" "set (mm_keys m) \<subseteq> {..<sz}"
      "mset (map snd m) = mset [0..<n]" by auto
  then show ?case
    using Suc.prems by (simp add: gen_step_def set_mm_keys_emplace)
qed

section \<open>Scattering\<close>

lemma scatter_fold:
  "distinct (map snd m) \<Longrightarrow> \<forall>j \<in> set (map snd m). j < length out \<Longrightarrow>
   foldl (\<lambda>out (k, j). out[j := f k]) out m =
     map (\<lambda>j. case map_of (map prod.swap m) j of None \<Rightarrow> out ! j | Some k \<Rightarrow> f k) [0..<length out]"
proof (induction m arbitrary: out)
  case Nil
  show ?case by (simp add: map_nth)
next
  case (Cons p m)
  obtain k j where p: "p = (k, j)" by (cases p)
  have "j \<notin> set (map snd m)" using Cons.prems by (simp add: p)
  then have "map_of (map prod.swap m) j = None"
    by (simp add: map_of_eq_None_iff image_image)
  moreover have "foldl (\<lambda>out (k, j). out[j := f k]) out (p # m) =
      map (\<lambda>i. case map_of (map prod.swap m) i of None \<Rightarrow> out[j := f k] ! i | Some k \<Rightarrow> f k)
        [0..<length out]"
    using Cons by (simp add: p)
  ultimately show ?case
    using Cons.prems by (auto simp: p nth_list_update split: option.split)
qed

text \<open>The scattered list holds the selected elements, each once.\<close>

lemma scatter_mset:
  assumes "mset (map snd m) = mset [0..<length m]"
  shows "mset (scatter xs m) = mset (map (\<lambda>k. Clone (xs ! k)) (mm_keys m))" "length (scatter xs m) = length m"
proof -
  let ?f = "\<lambda>k. Clone (xs ! k)"
  have s: "set (map snd m) = {0..<length m}"
    using arg_cong [OF assms, of set_mset] by (simp only: set_mset_mset set_upt)
  have d: "distinct (map snd m)"
    using assms by (metis distinct_upt mset_eq_imp_distinct_iff)
  have "scatter xs m =
      map (\<lambda>j. case map_of (map prod.swap m) j of None \<Rightarrow> NullView | Some k \<Rightarrow> ?f k) [0..<length m]"
    unfolding scatter_def by (subst scatter_fold [OF d]) (use s in \<open>auto split: option.split\<close>)
  moreover have "mset \<dots> = image_mset (\<lambda>j. case map_of (map prod.swap m) j of None \<Rightarrow> NullView | Some k \<Rightarrow> ?f k)
      (mset (map snd m))"
    unfolding assms by (rule mset_map)
  moreover have "\<dots> = mset (map (\<lambda>p. ?f (fst p)) m)"
  proof -
    have "map_of (map prod.swap m) (snd p) = Some (fst p)" if "p \<in> set m" for p
      using that d by (intro map_of_is_SomeI) (auto simp: comp_def prod.swap_def)
    then have "map (\<lambda>p. case map_of (map prod.swap m) (snd p) of None \<Rightarrow> NullView | Some k \<Rightarrow> ?f k) m =
        map (\<lambda>p. ?f (fst p)) m" by (intro map_cong) simp_all
    then show ?thesis by (simp only: mset_map [symmetric] map_map comp_def)
  qed
  ultimately show "mset (scatter xs m) = mset (map (\<lambda>k. Clone (xs ! k)) (mm_keys m))"
      "length (scatter xs m) = length m"
    by (simp_all add: mm_keys_def comp_def)
qed

end
