(* ===== verification/SetObject.thy ===== *)
theory SetObject
  imports FlatMap StringNum RandSelect
begin

text \<open>
  \<^verbatim>\<open>RedisHashSetObject\<close> (\<^verbatim>\<open>include/redis_set_object.h\<close>, \<^verbatim>\<open>src/redis_set_object.cpp\<close>): the set of strings
  (\<^verbatim>\<open>absl::flat_hash_set\<close> as a list without duplicates in iteration order), the running size of its
  image, \<^verbatim>\<open>Execute\<close> and \<^verbatim>\<open>Commit\<close> functions and the two images.  The value is the set \<open>members\<close> of
  byte strings.  \<^verbatim>\<open>SPOP\<close> and \<^verbatim>\<open>SRANDMEMBER\<close> take the random source and the bucket count of the
  container as parameters.
\<close>

section \<open>State and results\<close>

record set_obj =
  hash_set :: "eloq_string list"
  set_slen :: u64

definition RedisHashSetObject :: set_obj where
  "RedisHashSetObject = \<lparr>hash_set = [], set_slen = 1 + 4\<rparr>"

definition set_copy :: "set_obj \<Rightarrow> set_obj" where
  "set_copy rhs = \<lparr>hash_set = map es_copy (hash_set rhs), set_slen = set_slen rhs\<rparr>"

record set_result =
  sr_err :: rd_err
  sr_list :: "eloq_string list"
  sr_ret :: int

definition RedisHashSetResult :: set_result where
  "RedisHashSetResult = \<lparr>sr_err = RD_NIL, sr_list = [], sr_ret = 0\<rparr>"

definition hs_mem :: "eloq_string \<Rightarrow> eloq_string list \<Rightarrow> bool" where
  "hs_mem e xs \<longleftrightarrow> list_ex (\<lambda>x. es_eq x e) xs"

section \<open>Execute\<close>

definition Execute_SAdd :: "set_obj \<Rightarrow> eloq_string list \<Rightarrow> set_result \<Rightarrow>
    set_result \<times> command_execute_state" where
  "Execute_SAdd s paras result =
     (let fresh = filter (\<lambda>str. \<not> hs_mem str (hash_set s)) paras;
          r = result\<lparr>sr_err := RD_OK, sr_ret := int (length fresh)\<rparr>
      in if set_slen s + costs fresh > MAX_OBJECT_SIZE
         then (r\<lparr>sr_err := RD_ERR_OBJECT_TOO_BIG\<rparr>, NoChange)
         else (r, if sr_ret r > 0 then Modified else NoChange))"

definition Execute_SMembers :: "set_obj \<Rightarrow> set_result \<Rightarrow> set_result" where
  "Execute_SMembers s result =
     result\<lparr>sr_err := RD_OK, sr_ret := int (length (hash_set s)),
            sr_list := sr_list result @ map Clone (hash_set s)\<rparr>"

definition Execute_SRem :: "set_obj \<Rightarrow> eloq_string list \<Rightarrow> set_result \<Rightarrow>
    set_result \<times> command_execute_state" where
  "Execute_SRem s paras result =
     (let ret = length (filter (\<lambda>str. hs_mem str (hash_set s)) paras);
          r = result\<lparr>sr_err := RD_OK, sr_ret := int ret\<rparr>
      in (r, if ret = 0 then NoChange
             else if ret \<ge> length (hash_set s) then ModifiedToEmpty else Modified))"

definition Execute_SCard :: "set_obj \<Rightarrow> set_result \<Rightarrow> set_result" where
  "Execute_SCard s result = result\<lparr>sr_err := RD_OK, sr_ret := int (length (hash_set s))\<rparr>"

definition Execute_SIsMember :: "set_obj \<Rightarrow> eloq_string \<Rightarrow> set_result \<Rightarrow> set_result" where
  "Execute_SIsMember s member result =
     result\<lparr>sr_err := RD_OK, sr_ret := (if hs_mem member (hash_set s) then 1 else 0)\<rparr>"

definition Execute_SMIsMember :: "set_obj \<Rightarrow> eloq_string list \<Rightarrow> set_result \<Rightarrow> set_result" where
  "Execute_SMIsMember s mems result =
     result\<lparr>sr_err := RD_OK,
            sr_list := sr_list result @
              map (\<lambda>str. es_make (if hs_mem str (hash_set s) then ''1'' else ''0'')) mems\<rparr>"

text \<open>
  A sample that is small against a large set takes the elements the iteration meets first; any
  other sample draws positions at random.
\<close>

definition first_elements :: "eloq_string list \<Rightarrow> nat \<Rightarrow> eloq_string list" where
  "first_elements xs cnt = map (\<lambda>i. Clone (xs ! (i mod length xs))) [0..<cnt]"

definition takes_first :: "int \<Rightarrow> int \<Rightarrow> int \<Rightarrow> bool" where
  "takes_first sz cnt buckets \<longleftrightarrow> sz > 0 \<and> cnt > 0 \<and> tdiv sz cnt > 100 \<and> buckets > cnt"

definition Execute_SRandMember :: "set_obj \<Rightarrow> int \<Rightarrow> int \<Rightarrow> (nat \<Rightarrow> nat) \<Rightarrow> set_result \<Rightarrow>
    set_result option" where
  "Execute_SRandMember s count0 buckets rnd result =
     (let r = result\<lparr>sr_err := RD_OK\<rparr>;
          distinct = (count0 \<ge> 0);
          sz = to_signed 32 (int (length (hash_set s)));
          count1 = to_signed 64 \<bar>count0\<bar>;
          count = (if distinct then (if sz < count1 then sz else count1) else count1)
      in if takes_first sz count buckets
         then Some (r\<lparr>sr_list := first_elements (hash_set s) (nat count)\<rparr>)
         else map_option (\<lambda>m. r\<lparr>sr_list := scatter (hash_set s) m\<rparr>)
                (GenRandMap (nat sz) (nat count) (\<not> distinct) rnd))"

definition Execute_SPop :: "set_obj \<Rightarrow> int \<Rightarrow> int \<Rightarrow> (nat \<Rightarrow> nat) \<Rightarrow> set_result \<Rightarrow>
    (set_result \<times> command_execute_state) option" where
  "Execute_SPop s count0 buckets rnd result =
     (let r = result\<lparr>sr_err := RD_OK\<rparr>;
          count1 = (if count0 = -1 then 1 else count0);
          sz = to_signed 32 (int (length (hash_set s)));
          count = (if sz < count1 then sz else count1);
          picked = (if takes_first sz count buckets
                    then Some (r\<lparr>sr_list := first_elements (hash_set s) (nat count)\<rparr>)
                    else map_option (\<lambda>m. (if count0 = -1 \<and> m = [] then r\<lparr>sr_err := RD_NIL\<rparr> else r)
                                          \<lparr>sr_list := scatter (hash_set s) m\<rparr>)
                           (GenRandMap (nat sz) (nat (if count < sz then count else sz)) False rnd))
      in map_option (\<lambda>r. (r, if sr_list r = [] then NoChange
                            else if length (sr_list r) \<ge> length (hash_set s) then ModifiedToEmpty
                            else Modified)) picked)"

definition Execute_set_SortableLoad :: "set_obj \<Rightarrow> redis_object_type \<times> bytes list" where
  "Execute_set_SortableLoad s = (TSet, map es_String (hash_set s))"

section \<open>Commit\<close>

text \<open>
  \<^verbatim>\<open>emplace\<close> of a string that is already in the set neither stores nor consumes it.  The result is
  the object, whether it is empty, and what is left of the strings.
\<close>

definition sadd_one :: "bool \<Rightarrow> set_obj \<Rightarrow> eloq_string \<Rightarrow> set_obj \<times> eloq_string" where
  "sadd_one should_not_move s element =
     (if hs_mem element (hash_set s) then (s, element)
      else let (x, element') = adopt should_not_move element
           in (\<lparr>hash_set = hash_set s @ [x], set_slen = set_slen s + (4 + of_nat (es_length element))\<rparr>,
               element'))"

fun CommitSAdd :: "set_obj \<Rightarrow> eloq_string list \<Rightarrow> bool \<Rightarrow> set_obj \<times> bool \<times> eloq_string list" where
  "CommitSAdd s [] keep = (s, length (hash_set s) = 0, [])"
| "CommitSAdd s (element # paras) keep =
     (let (s1, element') = sadd_one keep s element;
          (s2, emp, paras') = CommitSAdd s1 paras keep
      in (s2, emp, element' # paras'))"

definition srem_one :: "set_obj \<Rightarrow> eloq_string \<Rightarrow> set_obj" where
  "srem_one s str =
     (if hs_mem str (hash_set s)
      then \<lparr>hash_set = filter (\<lambda>x. \<not> es_eq x str) (hash_set s),
            set_slen = set_slen s - (4 + of_nat (es_length str))\<rparr>
      else s)"

definition CommitSRem :: "set_obj \<Rightarrow> eloq_string list \<Rightarrow> set_obj \<times> bool" where
  "CommitSRem s paras = (let s' = foldl srem_one s paras in (s', length (hash_set s') = 0))"

definition CommitSPop :: "set_obj \<Rightarrow> eloq_string list \<Rightarrow> set_obj \<times> bool" where
  "CommitSPop s mems = (let s' = foldl srem_one s mems in (s', length (hash_set s') = 0))"

section \<open>Images\<close>

definition set_body :: "set_obj \<Rightarrow> bytes" where
  "set_body s = put_vec put_string (hash_set s)"

definition set_Serialize :: "set_obj \<Rightarrow> bytes \<Rightarrow> bytes" where
  "set_Serialize s str = str @ put_u8 (type_tag TSet) @ set_body s"

definition set_ttl_Serialize :: "set_obj \<Rightarrow> nat \<Rightarrow> bytes \<Rightarrow> bytes" where
  "set_ttl_Serialize s ttl str = str @ put_u8 (type_tag TTLSet) @ put_u64 ttl @ set_body s"

text \<open>The whole string is copied and the offset moves by its 32-bit length.\<close>

definition set_fields :: "set_obj \<Rightarrow> bytes list" where
  "set_fields s =
     put_u32 (length (hash_set s)) #
     concat (map (\<lambda>e. [put_u32 (length (StringView e)), StringView e]) (hash_set s))"

definition set_Serialize_vec :: "set_obj \<Rightarrow> bytes \<Rightarrow> nat \<Rightarrow> (bytes \<times> nat) option" where
  "set_Serialize_vec s buf offset =
     vec_puts (put_u8 (type_tag TSet) # set_fields s)
       (vec_resize (offset + unat (set_slen s)) buf, offset)"

definition set_ttl_Serialize_vec :: "set_obj \<Rightarrow> nat \<Rightarrow> bytes \<Rightarrow> nat \<Rightarrow> (bytes \<times> nat) option" where
  "set_ttl_Serialize_vec s ttl buf offset =
     vec_puts (put_u8 (type_tag TTLSet) # put_u64 ttl # set_fields s)
       (vec_resize (offset + 8 + unat (set_slen s)) buf, offset)"

primrec set_read :: "nat \<Rightarrow> eloq_string list \<Rightarrow> eloq_string list reader" where
  "set_read 0 xs bs = Some (xs, bs)"
| "set_read (Suc n) xs bs =
     do { (e, bs1) \<leftarrow> get_string bs; set_read n (if hs_mem e xs then xs else xs @ [e]) bs1 }"

definition set_Deserialize :: "set_obj reader" where
  "set_Deserialize bs =
     do { (_, bs1) \<leftarrow> get_u8 bs; (ele_num, bs2) \<leftarrow> get_u32 bs1; (xs, bs3) \<leftarrow> set_read ele_num [] bs2;
          Some (\<lparr>hash_set = xs, set_slen = of_nat (length bs - length bs3)\<rparr>, bs3) }"

definition set_ttl_Deserialize :: "(set_obj \<times> nat) reader" where
  "set_ttl_Deserialize bs =
     do { (_, bs1) \<leftarrow> get_u8 bs; (ttl, bs2) \<leftarrow> get_u64 bs1; (ele_num, bs3) \<leftarrow> get_u32 bs2;
          (xs, bs4) \<leftarrow> set_read ele_num [] bs3;
          Some ((\<lparr>hash_set = xs, set_slen = of_nat (length bs - length bs4 - 8)\<rparr>, ttl), bs4) }"

section \<open>Invariant and abstraction\<close>

definition set_inv :: "set_obj \<Rightarrow> bool" where
  "set_inv s \<longleftrightarrow> distinct (map StringView (hash_set s)) \<and> set_slen s = 5 + costs (hash_set s) \<and>
     list_all storable (hash_set s)"

definition members :: "set_obj \<Rightarrow> bytes set" where
  "members s = StringView ` set (hash_set s)"

lemma hs_mem_view: "hs_mem e xs \<longleftrightarrow> StringView e \<in> StringView ` set xs"
  by (simp add: hs_mem_def list_ex_iff es_eq_def image_iff eq_commute)

lemma hs_mem_members: "hs_mem e (hash_set s) \<longleftrightarrow> StringView e \<in> members s"
  by (simp add: hs_mem_view members_def)

lemma set_inv_new [simp]: "set_inv RedisHashSetObject" "members RedisHashSetObject = {}"
  by (simp_all add: set_inv_def RedisHashSetObject_def members_def)

lemma finite_members [simp]: "finite (members s)"
  by (simp add: members_def)

lemma card_members: "set_inv s \<Longrightarrow> card (members s) = length (hash_set s)"
  using distinct_card [of "map StringView (hash_set s)"] by (simp add: set_inv_def members_def)

lemma members_empty: "hash_set s = [] \<longleftrightarrow> members s = {}"
  by (simp add: members_def)

lemma sadd_one_spec:
  assumes "set_inv s" "arg_ok e"
  shows "set_inv (fst (sadd_one keep s e))" "members (fst (sadd_one keep s e)) = insert (StringView e) (members s)"
  using assms
  by (auto simp: sadd_one_def split_beta set_inv_def hs_mem_view members_def cost_def)

lemma costs_remove_view:
  "distinct (map StringView xs) \<Longrightarrow> x \<in> set xs \<Longrightarrow> StringView x = StringView e \<Longrightarrow>
   costs (filter (\<lambda>y. \<not> es_eq y e) xs) = costs xs - cost x"
proof (induction xs)
  case (Cons y ys)
  show ?case
  proof (cases "x = y")
    case True
    then have "filter (\<lambda>z. \<not> es_eq z e) ys = ys"
      using Cons.prems by (auto simp: es_eq_def image_iff intro!: filter_True)
    with True Cons.prems show ?thesis by (simp add: es_eq_def)
  next
    case False
    then have "x \<in> set ys" "\<not> es_eq y e" using Cons.prems by (auto simp: es_eq_def image_iff)
    with Cons show ?thesis by (simp add: algebra_simps)
  qed
qed simp

lemma srem_one_spec:
  assumes "set_inv s"
  shows "set_inv (srem_one s e)" "members (srem_one s e) = members s - {StringView e}"
proof -
  show "members (srem_one s e) = members s - {StringView e}"
    by (auto simp: srem_one_def members_def hs_mem_view es_eq_def)
  show "set_inv (srem_one s e)"
  proof (cases "hs_mem e (hash_set s)")
    case True
    then obtain x where x: "x \<in> set (hash_set s)" "StringView x = StringView e"
      by (auto simp: hs_mem_view)
    have "costs (filter (\<lambda>y. \<not> es_eq y e) (hash_set s)) = costs (hash_set s) - cost x"
      using assms x by (intro costs_remove_view) (simp_all add: set_inv_def)
    moreover have "cost x = 4 + of_nat (es_length e)" using x(2) by (simp add: cost_def es_length_def)
    ultimately show ?thesis
      using assms True by (auto simp: srem_one_def set_inv_def distinct_map_filter list_all_iff)
  qed (use assms in \<open>simp add: srem_one_def\<close>)
qed

definition set_lookup :: "set_obj \<Rightarrow> bytes \<Rightarrow> unit option" where
  "set_lookup s b = (if b \<in> members s then Some () else None)"

lemma members_lookup: "members s = dom (set_lookup s)"
  by (auto simp: set_lookup_def split: if_splits)

interpretation set_dict: dictionary set_lookup "\<lambda>k _ s. fst (sadd_one keep s k)" "\<lambda>k s. srem_one s k"
  set_inv "\<lambda>p. arg_ok (fst p)" "\<lambda>_. ()"
  for keep
  by unfold_locales (auto simp: sadd_one_spec srem_one_spec set_lookup_def fun_eq_iff)

lemma CommitSAdd_fold:
  "fst (CommitSAdd s es keep) =
     fold (\<lambda>(k, _) s. fst (sadd_one keep s k)) (map (\<lambda>e. (e, ())) es) s"
  by (induction es arbitrary: s) (auto simp: Let_def split_beta)

lemma CommitSAdd_flag: "fst (snd (CommitSAdd s es keep)) \<longleftrightarrow> hash_set (fst (CommitSAdd s es keep)) = []"
  by (induction es arbitrary: s) (auto simp: Let_def split_beta)

lemma CommitSAdd_spec:
  assumes "set_inv s" "list_all arg_ok es"
  shows "set_inv (fst (CommitSAdd s es keep))"
    and "members (fst (CommitSAdd s es keep)) = members s \<union> StringView ` set es"
proof -
  have a: "list_all (\<lambda>p. arg_ok (fst p)) (map (\<lambda>e. (e, ())) es)" using assms(2) by (simp add: list_all_iff)
  show "set_inv (fst (CommitSAdd s es keep))"
    using set_dict.wf_assigns [OF assms(1) a] by (simp add: CommitSAdd_fold)
  show "members (fst (CommitSAdd s es keep)) = members s \<union> StringView ` set es"
    using set_dict.lookup_assigns [OF assms(1) a]
    by (simp add: CommitSAdd_fold members_lookup dom_map_of_conv_image_fst image_image comp_def Un_commute)
qed

lemma foldl_srem_one:
  assumes "set_inv s"
  shows "set_inv (foldl srem_one s es)" "members (foldl srem_one s es) = members s - StringView ` set es"
  using set_dict.wf_erases [OF assms, of es] set_dict.lookup_erases [OF assms, of es]
  by (auto simp: foldl_conv_fold members_lookup)

lemma CommitSRem_spec:
  assumes "set_inv s"
  shows "set_inv (fst (CommitSRem s es))" "members (fst (CommitSRem s es)) = members s - StringView ` set es"
    and "snd (CommitSRem s es) \<longleftrightarrow> members (fst (CommitSRem s es)) = {}"
  using foldl_srem_one [OF assms] by (simp_all add: CommitSRem_def Let_def members_empty)

lemma CommitSPop_eq: "CommitSPop = CommitSRem"
  by (simp add: CommitSPop_def CommitSRem_def fun_eq_iff)

section \<open>Decisions agree with commits\<close>

lemma Execute_SRem_count:
  assumes "distinct (map StringView es)"
  shows "length (filter (\<lambda>e. hs_mem e (hash_set s)) es) = card (members s \<inter> StringView ` set es)"
proof -
  have "length (filter (\<lambda>e. hs_mem e (hash_set s)) es) =
      length (filter (\<lambda>b. b \<in> members s) (map StringView es))"
    by (simp add: filter_map comp_def hs_mem_members)
  also have "\<dots> = card (set (filter (\<lambda>b. b \<in> members s) (map StringView es)))"
    using assms by (intro distinct_card [symmetric] distinct_filter)
  also have "set (filter (\<lambda>b. b \<in> members s) (map StringView es)) = members s \<inter> StringView ` set es"
    by auto
  finally show ?thesis .
qed

lemma Execute_SRem_empty:
  assumes "set_inv s" "distinct (map StringView es)" "hash_set s \<noteq> []"
  shows "snd (Execute_SRem s es r) = ModifiedToEmpty \<longleftrightarrow> members s - StringView ` set es = {}"
proof -
  let ?M = "members s" and ?E = "StringView ` set es"
  have n: "length (hash_set s) = card ?M" using card_members [OF assms(1)] by simp
  have "card (?M \<inter> ?E) \<ge> card ?M \<longleftrightarrow> ?M \<subseteq> ?E"
    by (metis Int_absorb2 Int_lower1 card_seteq finite_members inf_le2 order_refl)
  moreover have "0 < card ?M" using assms(3) unfolding n [symmetric] by simp
  ultimately show ?thesis
    unfolding Execute_SRem_def Let_def Execute_SRem_count [OF assms(2)] n by auto
qed

text \<open>With distinct arguments \<^verbatim>\<open>SADD\<close> predicts the size the commit leaves.\<close>

lemma Execute_SAdd_size:
  assumes "list_all arg_ok es" "distinct (map StringView es)"
  shows "set_slen (fst (CommitSAdd s es keep)) =
     set_slen s + costs (filter (\<lambda>e. \<not> hs_mem e (hash_set s)) es)"
  using assms
proof (induction es arbitrary: s)
  case Nil
  show ?case by simp
next
  case (Cons e es)
  let ?s = "fst (sadd_one keep s e)"
  have "hs_mem x (hash_set ?s) = hs_mem x (hash_set s)" if "x \<in> set es" for x
  proof -
    have "StringView x \<noteq> StringView e" using that Cons.prems by (auto simp: image_iff)
    then show ?thesis using Cons.prems by (auto simp: sadd_one_def split_beta hs_mem_view)
  qed
  then have "filter (\<lambda>x. \<not> hs_mem x (hash_set ?s)) es = filter (\<lambda>x. \<not> hs_mem x (hash_set s)) es"
    by (intro filter_cong) simp_all
  then show ?case
    using Cons by (simp add: Let_def split_beta)
       (simp add: sadd_one_def split_beta cost_def)
qed

section \<open>Popping\<close>

lemma first_elements_props:
  assumes "cnt \<le> length xs"
  shows "first_elements xs cnt = map Clone (take cnt xs)"
  using assms by (intro nth_equalityI) (simp_all add: first_elements_def)

lemma scatter_members:
  assumes "set_inv s" "mm_ok (length (hash_set s)) m" "mset (map snd m) = mset [0..<length m]"
  shows "StringView ` set (scatter (hash_set s) m) \<subseteq> members s"
    and "distinct (map StringView (scatter (hash_set s) m))"
proof -
  let ?xs = "hash_set s"
  have ok: "k < length ?xs" if "k \<in> set (mm_keys m)" for k using assms(2) that by (auto simp: mm_ok_def)
  have sh: "StringView (Clone (?xs ! k)) = map StringView ?xs ! k" if "k \<in> set (mm_keys m)" for k
    using ok [OF that] assms(1) by (simp add: set_inv_def list_all_length storable_short)
  note sm = scatter_mset(1) [OF assms(3), of ?xs]
  have ms: "mset (map StringView (scatter ?xs m)) = mset (map (\<lambda>k. map StringView ?xs ! k) (mm_keys m))"
  proof -
    have "mset (map StringView (scatter ?xs m)) = image_mset StringView (mset (scatter ?xs m))" by simp
    also have "\<dots> = mset (map (\<lambda>k. StringView (Clone (?xs ! k))) (mm_keys m))"
      unfolding sm by (simp add: image_mset.compositionality comp_def)
    also have "map (\<lambda>k. StringView (Clone (?xs ! k))) (mm_keys m) =
        map (\<lambda>k. map StringView ?xs ! k) (mm_keys m)" using sh by (intro map_cong) simp_all
    finally show ?thesis .
  qed
  have "set (map StringView (scatter ?xs m)) = (\<lambda>k. map StringView ?xs ! k) ` set (mm_keys m)"
    using mset_eq_setD [OF ms] by simp
  then show "StringView ` set (scatter ?xs m) \<subseteq> members s"
    using ok by (auto simp: members_def)
  have "inj_on ((!) (map StringView ?xs)) (set (mm_keys m))"
    using assms(1) ok by (intro inj_on_nth) (simp_all add: set_inv_def)
  then have "distinct (map (\<lambda>k. map StringView ?xs ! k) (mm_keys m))"
    using assms(2) by (simp add: distinct_map [of "(!) (map StringView ?xs)"] mm_ok_def)
  then show "distinct (map StringView (scatter ?xs m))"
    using mset_eq_imp_distinct_iff [OF ms] by simp
qed

text \<open>
  \<^verbatim>\<open>SPOP\<close> always finds its elements, whatever the generator returns: distinct members, as many as
  asked for or all of them, and it announces an empty set exactly when it takes all.
\<close>

lemma Execute_SPop_spec:
  assumes "set_inv s" "hash_set s \<noteq> []" "length (hash_set s) < 2 ^ 31" "0 \<le> cnt"
  shows "\<exists>r' st. Execute_SPop s cnt buckets rnd r = Some (r', st) \<and>
     StringView ` set (sr_list r') \<subseteq> members s \<and> distinct (map StringView (sr_list r')) \<and>
     length (sr_list r') = min (nat cnt) (card (members s)) \<and> sr_err r' = RD_OK \<and>
     (st = ModifiedToEmpty \<longleftrightarrow> cnt \<noteq> 0 \<and> card (members s) \<le> nat cnt)"
proof -
  let ?n = "length (hash_set s)" and ?xs = "hash_set s"
  define c where "c = min cnt (int ?n)"
  have n: "card (members s) = ?n" "0 < ?n" using card_members [OF assms(1)] assms(2) by simp_all
  have sz: "to_signed 32 (int ?n) = int ?n" using assms(3) by (simp add: is_i32_def)
  have cc: "(if int ?n < cnt then int ?n else cnt) = c" "(if c < int ?n then c else int ?n) = c"
    by (auto simp: c_def)
  have nc: "nat c = min (nat cnt) ?n" "nat c \<le> ?n" using assms(4) by (auto simp: c_def)
  have fin: "\<exists>r' st. Execute_SPop s cnt buckets rnd r = Some (r', st) \<and>
     StringView ` set (sr_list r') \<subseteq> members s \<and> distinct (map StringView (sr_list r')) \<and>
     length (sr_list r') = min (nat cnt) (card (members s)) \<and> sr_err r' = RD_OK \<and>
     (st = ModifiedToEmpty \<longleftrightarrow> cnt \<noteq> 0 \<and> card (members s) \<le> nat cnt)"
    if e: "Execute_SPop s cnt buckets rnd r =
        Some (r\<lparr>sr_err := RD_OK, sr_list := ys\<rparr>,
          if ys = [] then NoChange else if length ys \<ge> ?n then ModifiedToEmpty else Modified)"
      and y: "StringView ` set ys \<subseteq> members s" "distinct (map StringView ys)" "length ys = nat c" for ys
  proof -
    have "ys = [] \<longleftrightarrow> nat c = 0" using y(3) by auto
    then show ?thesis using e y n assms(4) nc by auto
  qed
  show ?thesis
  proof (cases "takes_first (int ?n) c buckets")
    case True
    have f: "first_elements ?xs (nat c) = map Clone (take (nat c) ?xs)"
      using nc by (intro first_elements_props) simp
    have v: "map StringView (first_elements ?xs (nat c)) = take (nat c) (map StringView ?xs)"
      unfolding f using assms(1)
      by (auto simp: take_map set_inv_def list_all_iff storable_short dest!: in_set_takeD)
    show ?thesis
    proof (rule fin)
      show "Execute_SPop s cnt buckets rnd r =
        Some (r\<lparr>sr_err := RD_OK, sr_list := first_elements ?xs (nat c)\<rparr>,
          if first_elements ?xs (nat c) = [] then NoChange
          else if length (first_elements ?xs (nat c)) \<ge> ?n then ModifiedToEmpty else Modified)"
        using True assms(4) by (simp add: Execute_SPop_def Let_def sz cc)
      show "StringView ` set (first_elements ?xs (nat c)) \<subseteq> members s"
        using v by (metis image_set members_def set_take_subset list.set_map)
      show "distinct (map StringView (first_elements ?xs (nat c)))"
        unfolding v using assms(1) by (simp add: set_inv_def distinct_take)
      show "length (first_elements ?xs (nat c)) = nat c" by (simp add: first_elements_def)
    qed
  next
    case False
    obtain m where m: "GenRandMap ?n (nat c) False rnd = Some m" "length m = nat c" "mm_ok ?n m"
        "mset (map snd m) = mset [0..<length m]"
      using GenRandMap_distinct [OF nc(2)] by metis
    show ?thesis
    proof (rule fin)
      show "Execute_SPop s cnt buckets rnd r =
        Some (r\<lparr>sr_err := RD_OK, sr_list := scatter ?xs m\<rparr>,
          if scatter ?xs m = [] then NoChange
          else if length (scatter ?xs m) \<ge> ?n then ModifiedToEmpty else Modified)"
      proof -
        have "GenRandMap ?n ?n False rnd = Some m" if "\<not> c < int ?n"
        proof -
          have "nat c = ?n" using that by (simp add: c_def)
          then show ?thesis using m(1) by simp
        qed
        then show ?thesis using False m(1) assms(4) by (simp add: Execute_SPop_def Let_def sz cc)
      qed
      show "StringView ` set (scatter ?xs m) \<subseteq> members s" "distinct (map StringView (scatter ?xs m))"
        using scatter_members [OF assms(1) m(3,4)] by simp_all
      show "length (scatter ?xs m) = nat c" using scatter_mset(2) [OF m(4)] m(2) by simp
    qed
  qed
qed

section \<open>Size and images\<close>

definition set_bytes :: "set_obj \<Rightarrow> nat" where
  "set_bytes s = 1 + length (set_body s)"

definition set_fits :: "set_obj \<Rightarrow> bool" where
  "set_fits s \<longleftrightarrow> set_bytes s \<le> unat MAX_OBJECT_SIZE"

lemma set_inv_short: "set_inv s \<Longrightarrow> list_all es_short (hash_set s)"
  by (auto simp: set_inv_def list_all_iff storable_def)

lemma set_slen_bytes: "set_inv s \<Longrightarrow> set_slen s = of_nat (set_bytes s)"
  by (simp add: set_inv_def set_bytes_def set_body_def put_vec_def of_nat_length_put_strings)

lemma unat_set_slen: "set_inv s \<Longrightarrow> set_bytes s < 2 ^ 64 \<Longrightarrow> unat (set_slen s) = set_bytes s"
  by (simp add: set_slen_bytes unat_of_nat)

lemma concat_set_fields:
  assumes "set_inv s"
  shows "concat (set_fields s) = set_body s"
proof -
  have "concat (concat (map (\<lambda>e. [put_u32 (length (StringView e)), StringView e]) xs)) =
      concat (map put_string xs)" if "list_all es_short xs" for xs
    using that by (induction xs) (simp_all add: put_string_def)
  from this [OF set_inv_short [OF assms]] show ?thesis by (simp add: set_fields_def set_body_def put_vec_def)
qed

lemma set_Serialize_vec_spec:
  assumes "set_inv s" "set_bytes s < 2 ^ 64" "off \<le> length buf"
  shows "set_Serialize_vec s buf off = Some (set_Serialize s (take off buf), off + unat (set_slen s))"
  unfolding set_Serialize_vec_def
  using assms by (subst vec_puts_resize)
    (simp_all add: concat_set_fields set_Serialize_def unat_set_slen set_bytes_def)

lemma set_ttl_Serialize_vec_spec:
  assumes "set_inv s" "set_bytes s < 2 ^ 64" "off \<le> length buf"
  shows "set_ttl_Serialize_vec s ttl buf off =
     Some (set_ttl_Serialize s ttl (take off buf), off + 8 + unat (set_slen s))"
proof -
  have "set_ttl_Serialize_vec s ttl buf off =
      vec_puts (put_u8 (type_tag TTLSet) # put_u64 ttl # set_fields s)
        (vec_resize (off + (8 + unat (set_slen s))) buf, off)"
    by (simp add: set_ttl_Serialize_vec_def add.assoc)
  also have "\<dots> = Some (set_ttl_Serialize s ttl (take off buf), off + (8 + unat (set_slen s)))"
    using assms by (subst vec_puts_resize)
      (simp_all add: concat_set_fields set_ttl_Serialize_def unat_set_slen set_bytes_def)
  finally show ?thesis by simp
qed

definition set_fresh :: "set_obj \<Rightarrow> set_obj" where
  "set_fresh s = \<lparr>hash_set = map Clone (hash_set s), set_slen = set_slen s\<rparr>"

lemma set_read_spec:
  "list_all es_short ys \<Longrightarrow> distinct (map StringView xs @ map StringView ys) \<Longrightarrow>
   set_read (length ys) xs (concat (map put_string ys) @ rest) = Some (xs @ map Clone ys, rest)"
proof (induction ys arbitrary: xs)
  case Nil
  show ?case by simp
next
  case (Cons y ys)
  have y: "es_short y" "StringView y \<notin> StringView ` set xs" using Cons.prems by auto
  then have "\<not> hs_mem (Clone y) xs" by (simp add: hs_mem_view)
  moreover have "distinct (map StringView (xs @ [Clone y]) @ map StringView ys)" using Cons.prems y by auto
  ultimately show ?case using Cons y by (simp add: Clone_def)
qed

lemma set_Deserialize_spec:
  assumes "set_inv s" "length (hash_set s) < 2 ^ 32"
  shows "set_Deserialize (set_Serialize s [] @ rest) = Some (set_fresh s, rest)"
proof -
  have "set_read (length (hash_set s)) [] (concat (map put_string (hash_set s)) @ rest) =
      Some (map Clone (hash_set s), rest)"
    using set_read_spec [OF set_inv_short [OF assms(1)], of "[]" rest] assms(1) by (simp add: set_inv_def)
  then have "set_Deserialize (set_Serialize s [] @ rest) =
      Some (\<lparr>hash_set = map Clone (hash_set s), set_slen = of_nat (set_bytes s)\<rparr>, rest)"
    using assms(2) by (simp add: set_Deserialize_def set_Serialize_def set_body_def put_vec_def set_bytes_def)
  then show ?thesis using assms(1) by (simp add: set_fresh_def set_slen_bytes)
qed

lemma set_ttl_Deserialize_spec:
  assumes "set_inv s" "length (hash_set s) < 2 ^ 32" "ttl < 2 ^ 64"
  shows "set_ttl_Deserialize (set_ttl_Serialize s ttl [] @ rest) = Some ((set_fresh s, ttl), rest)"
proof -
  have "set_read (length (hash_set s)) [] (concat (map put_string (hash_set s)) @ rest) =
      Some (map Clone (hash_set s), rest)"
    using set_read_spec [OF set_inv_short [OF assms(1)], of "[]" rest] assms(1) by (simp add: set_inv_def)
  then have "set_ttl_Deserialize (set_ttl_Serialize s ttl [] @ rest) =
      Some ((\<lparr>hash_set = map Clone (hash_set s), set_slen = of_nat (set_bytes s)\<rparr>, ttl), rest)"
    using assms(2,3)
    by (simp add: set_ttl_Deserialize_def set_ttl_Serialize_def set_body_def put_vec_def set_bytes_def)
  then show ?thesis using assms(1) by (simp add: set_fresh_def set_slen_bytes)
qed

lemma members_fresh: "set_inv s \<Longrightarrow> members (set_fresh s) = members s"
  using set_inv_short [of s] by (auto simp: members_def set_fresh_def list_all_iff image_iff)

lemma set_fresh_inv:
  assumes "set_inv s"
  shows "set_inv (set_fresh s)"
proof -
  have "map StringView (map Clone xs) = map StringView xs \<and> costs (map Clone xs) = costs xs"
      if "list_all es_short xs" for xs
    using that by (induction xs) (simp_all add: cost_def)
  from this [OF set_inv_short [OF assms]] show ?thesis
    using assms unfolding set_inv_def set_fresh_def by (simp add: list_all_iff del: map_map)
qed

lemma set_fresh_canonical: "list_all canonical (hash_set s) \<Longrightarrow> set_fresh s = s"
  by (simp add: set_fresh_def list_all_iff canonical_def map_idI)

interpretation set_image: codec "\<lambda>s. set_Serialize s []" set_Deserialize
  "\<lambda>s. set_inv s \<and> length (hash_set s) < 2 ^ 32 \<and> list_all canonical (hash_set s)"
  by unfold_locales (simp add: set_Deserialize_spec set_fresh_canonical)

end
