(* ===== verification/Bits.thy ===== *)
theory Bits
  imports Prelude
begin

unbundle bit_operations_syntax

text \<open>
  The bit view of a string and the bit-field helpers of \<^verbatim>\<open>src/redis_string_object.cpp\<close>: bit \<open>i\<close> is bit
  \<open>7 - i mod 8\<close> of byte \<open>i div 8\<close>.  \<^verbatim>\<open>GetBitFieldValue\<close> and \<^verbatim>\<open>SetBitFieldValue\<close> are loops over single
  bits; \<^verbatim>\<open>IsBitfieldUnoverflow\<close> adds two 64-bit integers and applies the overflow policy.
\<close>

section \<open>Single bits\<close>

text \<open>\<^verbatim>\<open>(c >> k) & 1\<close>\<close>

definition byte_bit :: "char \<Rightarrow> nat \<Rightarrow> bool" where
  "byte_bit c k = bit (of_char c :: nat) k"

text \<open>\<^verbatim>\<open>(c & ~(1 << k)) | (b << k)\<close>\<close>

definition byte_put :: "char \<Rightarrow> nat \<Rightarrow> bool \<Rightarrow> char" where
  "byte_put c k b = char_of (if b then set_bit k (of_char c :: nat) else unset_bit k (of_char c :: nat))"

definition bit_at :: "bytes \<Rightarrow> nat \<Rightarrow> bool" where
  "bit_at p i = (i div 8 < length p \<and> byte_bit (p ! (i div 8)) (7 - i mod 8))"

definition put_bit_at :: "bytes \<Rightarrow> nat \<Rightarrow> bool \<Rightarrow> bytes" where
  "put_bit_at p i b = p[i div 8 := byte_put (p ! (i div 8)) (7 - i mod 8) b]"

lemma byte_bit_put: "k < 8 \<Longrightarrow> j < 8 \<Longrightarrow> byte_bit (byte_put c k b) j = (if k = j then b else byte_bit c j)"
proof -
  assume k: "k < 8" "j < 8"
  have "(of_char (char_of n) :: nat) = take_bit 8 n" for n :: nat
    by (simp add: take_bit_eq_mod)
  then show ?thesis
    using k by (auto simp: byte_bit_def byte_put_def bit_simps)
qed

lemma length_put_bit_at [simp]: "length (put_bit_at p i b) = length p"
  by (simp add: put_bit_at_def)

lemma bit_at_put:
  assumes "i div 8 < length p"
  shows "bit_at (put_bit_at p i b) j = (if i = j then b else bit_at p j)"
proof (cases "i div 8 = j div 8")
  case True
  have i: "i = 8 * (i div 8) + i mod 8" and j: "j = 8 * (j div 8) + j mod 8" by simp_all
  have "7 - i mod 8 = 7 - j mod 8 \<longleftrightarrow> i mod 8 = j mod 8"
    using mod_less_divisor [of 8 i] mod_less_divisor [of 8 j] by auto
  then have "7 - i mod 8 = 7 - j mod 8 \<longleftrightarrow> i = j" using i j True by metis
  then show ?thesis
    using assms True by (auto simp: bit_at_def put_bit_at_def byte_bit_put)
next
  case False
  then show ?thesis by (auto simp: bit_at_def put_bit_at_def)
qed

lemma bit_at_append_zero: "bit_at (p @ replicate n (CHR 0x00)) i = bit_at p i"
  by (auto simp: bit_at_def nth_append byte_bit_def)

section \<open>Bit fields\<close>

text \<open>\<^verbatim>\<open>GetBitFieldValue\<close>: the loop shifts the bits into a 64-bit accumulator, then extends the sign.\<close>

definition shift_in :: "u64 \<Rightarrow> bool \<Rightarrow> u64" where
  "shift_in val b = push_bit 1 val OR of_bool b"

fun get_bits :: "bytes \<Rightarrow> nat \<Rightarrow> nat \<Rightarrow> u64 \<Rightarrow> u64" where
  "get_bits p pos 0 val = val"
| "get_bits p pos (Suc n) val = get_bits p (Suc pos) n (shift_in val (bit_at p pos))"

definition GetBitFieldValue :: "bytes \<Rightarrow> nat \<Rightarrow> nat \<Rightarrow> bool \<Rightarrow> u64" where
  "GetBitFieldValue p offset enc_bits bsign =
     (let val = get_bits p offset enc_bits 0 in
      if bsign \<and> enc_bits \<noteq> 64 \<and> val AND push_bit (enc_bits - 1) 1 \<noteq> 0
      then val OR push_bit enc_bits (- 1) else val)"

text \<open>\<^verbatim>\<open>SetBitFieldValue\<close>: from the last bit to the first; \<^verbatim>\<open>val >>= 1\<close> is arithmetic.\<close>

fun SetBitFieldValue :: "bytes \<Rightarrow> u64 \<Rightarrow> nat \<Rightarrow> nat \<Rightarrow> bytes" where
  "SetBitFieldValue p val offset 0 = p"
| "SetBitFieldValue p val offset (Suc n) =
     SetBitFieldValue (put_bit_at p (offset + n) (bit val 0)) (signed_drop_bit 1 val) offset n"

datatype overflow = WRAP | SAT | FAIL

text \<open>
  \<^verbatim>\<open>IsBitfieldUnoverflow\<close>: whether there is a value and which; \<open>limit\<close> is what the caller's variable
  held before.  Wrapping a 64-bit field shifts by the width of the type, which is undefined:
  \<^term>\<open>None\<close>.
\<close>

definition IsBitfieldUnoverflow ::
    "u64 \<Rightarrow> u64 \<Rightarrow> nat \<Rightarrow> bool \<Rightarrow> overflow \<Rightarrow> u64 \<Rightarrow> (bool \<times> u64) option" where
  "IsBitfieldUnoverflow value incr enc_bits bsign owtype limit =
     (let bits = (if bsign then 64 - enc_bits + 1 else 64 - enc_bits);
          max = (if bits = 64 then 0 else drop_bit bits (- 1 :: u64));
          min = (if bsign then push_bit (enc_bits - 1) (- 1 :: u64) else 0);
          res = value + incr;
          bovf64 = (enc_bits \<ge> 63 \<and>
                    ((sint value > 0 \<and> sint incr > 0 \<and> bit res 63) \<or>
                     (sint value < 0 \<and> sint incr < 0 \<and> \<not> bit res 63)))
      in if \<not> bovf64 \<and> sint res \<le> sint max \<and> sint res \<ge> sint min then Some (True, res)
         else case owtype of
           WRAP \<Rightarrow>
             if enc_bits = 64 then None
             else if res AND push_bit (enc_bits - 1) 1 \<noteq> 0
             then Some (True, res OR push_bit enc_bits (- 1))
             else Some (True, res AND NOT (push_bit enc_bits (- 1)))
         | SAT \<Rightarrow>
             if sint res > sint max then Some (True, max)
             else if sint res < sint min then Some (True, min)
             else Some (True, limit)
         | FAIL \<Rightarrow> Some (False, limit))"

section \<open>Reading back what was written\<close>

lemma bit_shift_in: "k < 64 \<Longrightarrow> bit (shift_in val b) k = (if k = 0 then b else bit val (k - 1))"
  unfolding shift_in_def bit_or_iff bit_push_bit_iff by (auto simp: bit_simps)

lemma bit_get_bits:
  "n \<le> 64 \<Longrightarrow> j < 64 \<Longrightarrow>
   bit (get_bits p pos n val) j = (if j < n then bit_at p (pos + n - 1 - j) else bit val (j - n))"
proof (induction n arbitrary: pos val)
  case 0
  then show ?case by simp
next
  case (Suc n)
  then show ?case by (auto simp: less_Suc_eq bit_shift_in)
qed

lemma bit_SetBitFieldValue:
  assumes "offset + n \<le> 8 * length p" "n \<le> 64"
  shows "bit_at (SetBitFieldValue p val offset n) i =
     (if offset \<le> i \<and> i < offset + n then bit val (offset + n - 1 - i) else bit_at p i)"
  using assms
proof (induction n arbitrary: p val)
  case 0
  then show ?case by auto
next
  case (Suc n)
  let ?p = "put_bit_at p (offset + n) (bit val 0)"
  have b: "(offset + n) div 8 < length p" using Suc.prems by (simp add: less_mult_imp_div_less)
  have s: "bit (signed_drop_bit (Suc 0) val) k = bit val (Suc k)" if "Suc k < 64" for k
    using that by (simp add: bit_signed_drop_bit_iff)
  have "offset + n - i = Suc (offset + n - 1 - i)" "Suc (offset + n - 1 - i) < 64"
    if "offset \<le> i" "i < offset + n" using that Suc.prems by auto
  then show ?case
    using Suc by (auto simp: bit_at_put [OF b] s)
qed

lemma length_SetBitFieldValue [simp]: "length (SetBitFieldValue p val offset n) = length p"
  by (induction p val offset n rule: SetBitFieldValue.induct) simp_all

lemma get_bits_set_bits:
  assumes "offset + n \<le> 8 * length p" "n \<le> 64"
  shows "get_bits (SetBitFieldValue p val offset n) offset n 0 = take_bit n val"
proof (rule bit_word_eqI)
  fix j assume "j < LENGTH(64)"
  then have j: "j < 64" by simp
  show "bit (get_bits (SetBitFieldValue p val offset n) offset n 0) j = bit (take_bit n val) j"
    using assms j by (auto simp: bit_get_bits bit_SetBitFieldValue bit_take_bit_iff)
qed

text \<open>A field reads back as the value that was written, truncated to the field.\<close>

lemma GetBitFieldValue_set_unsigned:
  assumes "offset + n \<le> 8 * length p" "n \<le> 64"
  shows "GetBitFieldValue (SetBitFieldValue p val offset n) offset n False = take_bit n val"
  using assms by (simp add: GetBitFieldValue_def get_bits_set_bits)

lemma sign_extend:
  assumes "0 < n" "n < 64"
  shows "(if take_bit n val AND push_bit (n - 1) 1 \<noteq> 0 then take_bit n val OR push_bit n (- 1)
          else take_bit n val) = signed_take_bit (n - 1) (val :: u64)"
proof -
  have t: "take_bit n val AND push_bit (n - 1) 1 \<noteq> 0 \<longleftrightarrow> bit val (n - 1)"
    unfolding bit_iff_and_push_bit_not_eq_0 [symmetric] using assms by (simp add: bit_take_bit_iff)
  show ?thesis
    unfolding t
  proof (rule bit_word_eqI)
    fix k assume "k < LENGTH(64)"
    then have k: "k < 64" by simp
    have m: "min (n - 1) k = (if k < n then k else n - 1)" using assms by auto
    show "bit (if bit val (n - 1) then take_bit n val OR push_bit n (- 1) else take_bit n val) k =
        bit (signed_take_bit (n - 1) val) k"
      unfolding bit_signed_take_bit_iff m using assms k by (auto simp: bit_simps)
  qed
qed

lemma GetBitFieldValue_set_signed:
  assumes "offset + n \<le> 8 * length p" "n \<le> 64" "0 < n"
  shows "GetBitFieldValue (SetBitFieldValue p val offset n) offset n True = signed_take_bit (n - 1) val"
proof (cases "n = 64")
  case True
  have "signed_take_bit 63 val = val" "take_bit 64 val = val"
    by (rule bit_word_eqI, simp add: bit_simps bit_signed_take_bit_iff min.absorb2)+
  with True assms show ?thesis by (simp add: GetBitFieldValue_def get_bits_set_bits)
next
  case False
  then show ?thesis
    using assms sign_extend [of n val] by (simp add: GetBitFieldValue_def get_bits_set_bits Let_def)
qed

section \<open>The overflow policies\<close>

lemma sint_of_int: "is_i64 x \<Longrightarrow> sint (of_int x :: u64) = x"
  by (simp add: int_word_sint is_i64_def)

lemma drop_bit_ones: "k \<le> 64 \<Longrightarrow> drop_bit k (- 1 :: u64) = mask (64 - k)"
  by (auto intro!: bit_word_eqI simp: bit_simps)

lemma sint_mask: "m < 64 \<Longrightarrow> sint (mask m :: u64) = 2 ^ m - 1"
proof -
  assume "m < 64"
  then have "(2 :: int) ^ m \<le> 2 ^ 63" by (intro power_increasing) simp_all
  moreover have "(0 :: int) < 2 ^ m" by simp
  ultimately have "is_i64 (2 ^ m - 1)" unfolding is_i64_def by linarith
  from sint_of_int [OF this] show ?thesis by (simp add: mask_eq_exp_minus_1)
qed

lemma sint_push_ones: "m < 64 \<Longrightarrow> sint (push_bit m (- 1) :: u64) = - (2 ^ m)"
proof -
  assume "m < 64"
  then have "(2 :: int) ^ m \<le> 2 ^ 63" by (intro power_increasing) simp_all
  moreover have "(0 :: int) < 2 ^ m" by simp
  ultimately have "is_i64 (- (2 ^ m))" unfolding is_i64_def by linarith
  from sint_of_int [OF this] show ?thesis by (simp add: push_bit_eq_mult)
qed

text \<open>The range of a field, and the sum as an integer.\<close>

definition field_min :: "nat \<Rightarrow> bool \<Rightarrow> int" where
  "field_min n bsign = (if bsign then - (2 ^ (n - 1)) else 0)"

definition field_max :: "nat \<Rightarrow> bool \<Rightarrow> int" where
  "field_max n bsign = (if bsign then 2 ^ (n - 1) - 1 else 2 ^ n - 1)"

lemma sint_plus: "is_i64 (sint a + sint b) \<Longrightarrow> sint (a + b) = sint a + sint (b :: u64)"
  using sint_of_int [of "sint a + sint b"] by simp

lemma bit_63_sint: "bit w 63 \<longleftrightarrow> sint (w :: u64) < 0"
  by (simp add: bit_last_iff [of w, simplified])

lemma field_limits:
  assumes "0 < n" "n \<le> (if bsign then 64 else 63)"
  defines "bits \<equiv> (if bsign then 64 - n + 1 else 64 - n)"
  shows "sint (if bits = 64 then 0 else drop_bit bits (- 1 :: u64)) = field_max n bsign"
    and "sint (if bsign then push_bit (n - 1) (- 1 :: u64) else 0) = field_min n bsign"
proof -
  have "64 - bits = (if bsign then n - 1 else n)" "bits \<le> 64" "bits = 64 \<longleftrightarrow> bsign \<and> n = 1"
    using assms by (auto simp: bits_def split: if_splits)
  then show "sint (if bits = 64 then 0 else drop_bit bits (- 1 :: u64)) = field_max n bsign"
    using assms by (auto simp: drop_bit_ones sint_mask field_max_def split: if_splits)
  show "sint (if bsign then push_bit (n - 1) (- 1 :: u64) else 0) = field_min n bsign"
    using assms sint_push_ones [of "n - 1"] by (auto simp: field_min_def split: if_splits)
qed

text \<open>
  As long as the 64-bit sum itself does not overflow, the function recognises a value that fits,
  saturation clamps to the range of the field, and \<^verbatim>\<open>FAIL\<close> reports failure.
\<close>

lemma IsBitfieldUnoverflow_exact:
  assumes "0 < n" "n \<le> (if bsign then 64 else 63)" "is_i64 (sint a + sint b)"
  shows "IsBitfieldUnoverflow a b n bsign ow limit =
     (if field_min n bsign \<le> sint a + sint b \<and> sint a + sint b \<le> field_max n bsign
      then Some (True, a + b)
      else case ow of
             SAT \<Rightarrow> Some (True, of_int (if sint a + sint b > field_max n bsign then field_max n bsign
                                       else field_min n bsign))
           | FAIL \<Rightarrow> Some (False, limit)
           | WRAP \<Rightarrow> IsBitfieldUnoverflow a b n bsign WRAP limit)"
proof -
  note lim = field_limits [OF assms(1,2)]
  have w: "x = of_int (sint x)" for x :: u64 by simp
  have s: "sint (a + b) = sint a + sint b" using assms(3) by (rule sint_plus)
  have nb: "\<not> (n \<ge> 63 \<and> ((sint a > 0 \<and> sint b > 0 \<and> bit (a + b) 63) \<or>
      (sint a < 0 \<and> sint b < 0 \<and> \<not> bit (a + b) 63)))"
    by (auto simp: bit_63_sint s)
  show ?thesis
    unfolding IsBitfieldUnoverflow_def Let_def if_not_P [OF nb] lim s
    using nb lim w [of "if (if bsign then 64 - n + 1 else 64 - n) = 64 then 0
        else drop_bit (if bsign then 64 - n + 1 else 64 - n) (- 1 :: u64)"]
      w [of "if bsign then push_bit (n - 1) (- 1 :: u64) else 0"]
    by (auto split: overflow.split)
qed

text \<open>Wrapping a signed field is two's complement reduction to its width.\<close>

lemma wrap_bits:
  assumes "0 < n" "n < 64"
  shows "(if res AND push_bit (n - 1) 1 \<noteq> 0 then res OR push_bit n (- 1)
          else res AND NOT (push_bit n (- 1))) = signed_take_bit (n - 1) (res :: u64)"
  unfolding bit_iff_and_push_bit_not_eq_0 [symmetric]
proof (rule bit_word_eqI)
  fix k assume "k < LENGTH(64)"
  then have k: "k < 64" by simp
  have m: "min (n - 1) k = (if k < n then k else n - 1)" using assms by auto
  show "bit (if bit res (n - 1) then res OR push_bit n (- 1) else res AND NOT (push_bit n (- 1))) k =
      bit (signed_take_bit (n - 1) res) k"
    unfolding bit_signed_take_bit_iff m using assms k by (auto simp: bit_simps)
qed

lemma IsBitfieldUnoverflow_wrap:
  assumes "0 < n" "n < 64" "is_i64 (sint a + sint b)"
    and "\<not> (field_min n bsign \<le> sint a + sint b \<and> sint a + sint b \<le> field_max n bsign)"
  shows "IsBitfieldUnoverflow a b n bsign WRAP limit = Some (True, signed_take_bit (n - 1) (a + b))"
proof -
  have n: "n \<le> (if bsign then 64 else 63)" using assms(2) by simp
  note lim = field_limits [OF assms(1) n]
  have s: "sint (a + b) = sint a + sint b" using assms(3) by (rule sint_plus)
  show ?thesis
    using assms wrap_bits [of n "a + b"]
    unfolding IsBitfieldUnoverflow_def Let_def lim s by (auto simp del: push_bit_minus_one_eq_not_mask)
qed

end
