(* ===== verification/StringObject.thy ===== *)
theory StringObject
  imports RedisBase StringNum Bits
begin

text \<open>
  \<^verbatim>\<open>RedisStringObject\<close> (\<^verbatim>\<open>include/redis_string_object.h\<close>, \<^verbatim>\<open>src/redis_string_object.cpp\<close>): one string, with
  the \<^verbatim>\<open>Execute\<close> and \<^verbatim>\<open>Commit\<close> functions of the string, integer, range and bit commands and the two
  images.  \<^verbatim>\<open>INCRBYFLOAT\<close> (arithmetic on \<^verbatim>\<open>long double\<close>) is left out.  The assertion of \<^verbatim>\<open>CommitIncrDecr\<close> repeats what
  \<^verbatim>\<open>Execute\<close> has tested; the function does what the code does behind it.
\<close>

section \<open>State and results\<close>

record string_obj =
  str_obj :: eloq_string

definition RedisStringObject :: string_obj where
  "RedisStringObject = \<lparr>str_obj = NullView\<rparr>"

definition string_copy :: "string_obj \<Rightarrow> string_obj" where
  "string_copy rhs = \<lparr>str_obj = es_copy (str_obj rhs)\<rparr>"

record string_result =
  st_err :: rd_err
  st_str :: bytes
  st_int :: int
  st_vct :: "(bool \<times> int) list"

definition RedisStringResult :: string_result where
  "RedisStringResult = \<lparr>st_err = RD_NIL, st_str = [], st_int = 0, st_vct = []\<rparr>"

record int_result =
  ir_err :: rd_err
  ir_val :: int

definition RedisIntResult :: int_result where
  "RedisIntResult = \<lparr>ir_err = RD_NIL, ir_val = 0\<rparr>"

definition string_SerializedLength :: "bool \<Rightarrow> string_obj \<Rightarrow> u64" where
  "string_SerializedLength has_ttl s =
     (if has_ttl then 8 else 0) + (1 + 4 + of_nat (es_length (str_obj s)))"

definition CheckSerializedLength :: "nat \<Rightarrow> bool" where
  "CheckSerializedLength new_string_size \<longleftrightarrow> (1 + 4 + of_nat new_string_size :: u64) \<le> MAX_OBJECT_SIZE"

definition slength :: "string_obj \<Rightarrow> int" where
  "slength s = int (es_length (str_obj s))"

section \<open>Execute\<close>

definition Execute_Get :: "string_obj \<Rightarrow> string_result \<Rightarrow> string_result" where
  "Execute_Get s result = result\<lparr>st_err := RD_OK, st_str := StringView (str_obj s)\<rparr>"

definition Execute_GetDel :: "string_obj \<Rightarrow> string_result \<Rightarrow> string_result" where
  "Execute_GetDel s result = result\<lparr>st_err := RD_OK, st_str := StringView (str_obj s)\<rparr>"

definition int_op_overflows :: "int \<Rightarrow> int \<Rightarrow> bool" where
  "int_op_overflows old_val incr \<longleftrightarrow>
     (incr < 0 \<and> old_val \<le> 0 \<and> incr \<le> LLONG_MIN - old_val) \<or>
     (incr > 0 \<and> old_val \<ge> 0 \<and> incr \<ge> LLONG_MAX - old_val)"

definition Execute_IntOp :: "string_obj \<Rightarrow> int \<Rightarrow> int_result \<Rightarrow> int_result \<times> bool" where
  "Execute_IntOp s incr result =
     (let sv = StringView (str_obj s) in
      case (if length sv = 0 then Some 0 else string2ll sv) of
        None \<Rightarrow> (result\<lparr>ir_err := RD_ERR_DIGITAL_INVALID\<rparr>, False)
      | Some old_val \<Rightarrow>
          if int_op_overflows old_val incr then (result\<lparr>ir_err := RD_ERR_INCR_OVERFLOW\<rparr>, False)
          else (result\<lparr>ir_val := to_signed 64 (old_val + incr), ir_err := RD_OK\<rparr>, True))"

definition Execute_StrLen :: "string_obj \<Rightarrow> string_result \<Rightarrow> string_result" where
  "Execute_StrLen s result =
     result\<lparr>st_err := RD_OK, st_int := int (length (StringView (str_obj s)))\<rparr>"

text \<open>The bit offsets are not negative: the parser rejects others.\<close>

definition bit_int :: "bool \<Rightarrow> int" where
  "bit_int b = (if b then 1 else 0)"

definition Execute_GetBit :: "string_obj \<Rightarrow> nat \<Rightarrow> string_result \<Rightarrow> string_result" where
  "Execute_GetBit s offset result =
     (let by_pos = offset div 8; bit_pos = 7 - offset mod 8; sv = StringView (str_obj s)
      in if by_pos \<ge> length sv then result\<lparr>st_err := RD_OK, st_int := 0\<rparr>
         else result\<lparr>st_err := RD_OK, st_int := bit_int (byte_bit (sv ! by_pos) bit_pos)\<rparr>)"

text \<open>The command keeps the normalised range, whose end is now exclusive.\<close>

definition Execute_GetRange :: "string_obj \<Rightarrow> int \<Rightarrow> int \<Rightarrow> string_result \<Rightarrow> string_result \<times> int \<times> int" where
  "Execute_GetRange s start0 end0 result =
     (let len = slength s;
          st = (if start0 < 0 then (let x = len + start0 in if x < 0 then 0 else x)
                else if start0 > len then len else start0);
          en = (if end0 < 0 then len + end0 + 1 else if end0 \<ge> len then len else end0 + 1);
          r = result\<lparr>st_err := RD_OK\<rparr>
      in if st < en
         then (r\<lparr>st_str := take (nat (en - st)) (drop (nat st) (StringView (str_obj s)))\<rparr>, st, en)
         else (r, st, en))"

definition Execute_SetBit :: "string_obj \<Rightarrow> nat \<Rightarrow> string_result \<Rightarrow> string_result \<times> bool" where
  "Execute_SetBit s offset result =
     (let by_pos = offset div 8; bit_pos = 7 - offset mod 8; sv = StringView (str_obj s);
          r = result\<lparr>st_err := RD_OK\<rparr>
      in if by_pos \<ge> length sv
         then if \<not> CheckSerializedLength (by_pos + 1)
              then (r\<lparr>st_err := RD_ERR_OBJECT_TOO_BIG\<rparr>, False)
              else (r\<lparr>st_int := 0\<rparr>, True)
         else (r\<lparr>st_int := bit_int (byte_bit (sv ! by_pos) bit_pos)\<rparr>, True))"

definition Execute_SetRange :: "string_obj \<Rightarrow> nat \<Rightarrow> eloq_string \<Rightarrow> string_result \<Rightarrow> string_result \<times> bool" where
  "Execute_SetRange s offset value result =
     (let r = result\<lparr>st_err := RD_OK\<rparr>; new_end = offset + es_length value in
      if int new_end \<le> slength s then (r\<lparr>st_int := slength s\<rparr>, True)
      else if \<not> CheckSerializedLength new_end then (r\<lparr>st_err := RD_ERR_OBJECT_TOO_BIG\<rparr>, False)
      else (r\<lparr>st_int := int new_end\<rparr>, True))"

text \<open>The size of the image is virtual: an object with a TTL counts eight bytes more.\<close>

definition Execute_Append :: "bool \<Rightarrow> string_obj \<Rightarrow> eloq_string \<Rightarrow> string_result \<Rightarrow> string_result \<times> bool" where
  "Execute_Append has_ttl s value result =
     (if string_SerializedLength has_ttl s + of_nat (es_length value) > MAX_OBJECT_SIZE
      then (result\<lparr>st_err := RD_ERR_OBJECT_TOO_BIG\<rparr>, False)
      else (result\<lparr>st_err := RD_OK, st_int := int (es_length value) + slength s\<rparr>, True))"

definition Execute_BitCount :: "string_obj \<Rightarrow> int \<Rightarrow> int \<Rightarrow> bool \<Rightarrow> string_result \<Rightarrow> string_result" where
  "Execute_BitCount s start0 end0 by_bit result =
     (let total_step = slength s * (if by_bit then 8 else 1);
          st = (if start0 < 0 then (let x = total_step + start0 in if x < 0 then 0 else x)
                else if start0 > total_step then total_step else start0);
          en = (if end0 < 0 then end0 + total_step + 1
                else if end0 \<ge> total_step then total_step else end0 + 1);
          start_offset = (if by_bit then st else st * 8);
          end_offset = (if by_bit then en else en * 8)
      in result\<lparr>st_err := RD_OK,
                st_int := (if start_offset < end_offset
                           then int (length (filter (\<lambda>idx. byte_bit (StringView (str_obj s) ! (idx div 8)) (7 - idx mod 8))
                                              [nat start_offset ..< nat end_offset]))
                           else 0)\<rparr>)"

datatype bf_op = BF_GET | BF_SET | BF_INCR

record sub_command =
  bf_type :: bf_op
  bf_signed :: bool
  bf_bits :: nat
  bf_ovf :: overflow
  bf_offset :: nat
  bf_value :: u64

text \<open>The working copy: the string, zero-extended to cover every field.\<close>

definition bf_len :: "sub_command list \<Rightarrow> nat" where
  "bf_len vct = (foldl (\<lambda>b_len scmd. max b_len (bf_offset scmd + bf_bits scmd)) 0 vct + 7) div 8"

definition bf_buffer :: "bytes \<Rightarrow> sub_command list \<Rightarrow> bytes" where
  "bf_buffer sv vct = sv @ replicate (bf_len vct - length sv) (CHR 0x00)"

text \<open>
  One sub-command: the buffer, the reported entry (if any) and whether the object counts as
  updated.  A \<^verbatim>\<open>SET\<close> adds zero to the value; a failed one reports \<^verbatim>\<open>nil\<close> but still marks the update.
\<close>

definition bf_exec :: "bytes \<Rightarrow> sub_command \<Rightarrow> (bytes \<times> (bool \<times> int) \<times> bool) option" where
  "bf_exec p scmd =
     (case bf_type scmd of
        BF_GET \<Rightarrow> Some (p, (True, sint (GetBitFieldValue p (bf_offset scmd) (bf_bits scmd) (bf_signed scmd))), False)
      | BF_SET \<Rightarrow>
          (case IsBitfieldUnoverflow (bf_value scmd) 0 (bf_bits scmd) (bf_signed scmd) (bf_ovf scmd) 0 of
             None \<Rightarrow> None
           | Some (False, _) \<Rightarrow> Some (p, (False, 0), True)
           | Some (True, limit) \<Rightarrow>
               Some (SetBitFieldValue p limit (bf_offset scmd) (bf_bits scmd),
                     (True, sint (GetBitFieldValue p (bf_offset scmd) (bf_bits scmd) (bf_signed scmd))), True))
      | BF_INCR \<Rightarrow>
          (case IsBitfieldUnoverflow (GetBitFieldValue p (bf_offset scmd) (bf_bits scmd) (bf_signed scmd))
                  (bf_value scmd) (bf_bits scmd) (bf_signed scmd) (bf_ovf scmd) 0 of
             None \<Rightarrow> None
           | Some (False, limit) \<Rightarrow> Some (p, (False, sint limit), False)
           | Some (True, limit) \<Rightarrow>
               Some (SetBitFieldValue p limit (bf_offset scmd) (bf_bits scmd), (True, sint limit), True)))"

fun bf_exec_all :: "bytes \<Rightarrow> sub_command list \<Rightarrow> (bytes \<times> (bool \<times> int) list \<times> bool) option" where
  "bf_exec_all p [] = Some (p, [], False)"
| "bf_exec_all p (scmd # vct) =
     do { (p1, entry, u1) \<leftarrow> bf_exec p scmd; (p2, entries, u2) \<leftarrow> bf_exec_all p1 vct;
          Some (p2, entry # entries, u1 \<or> u2) }"

definition Execute_BitField :: "string_obj \<Rightarrow> sub_command list \<Rightarrow> string_result \<Rightarrow>
    (string_result \<times> bool) option" where
  "Execute_BitField s vct result =
     do { (_, entries, b_update) \<leftarrow> bf_exec_all (bf_buffer (StringView (str_obj s)) vct) vct;
          Some (result\<lparr>st_err := RD_OK, st_vct := st_vct result @ entries\<rparr>, b_update) }"

text \<open>The command keeps the normalised range; \<open>len\<close> is a 32-bit number of bits.\<close>

definition Execute_BitPos :: "string_obj \<Rightarrow> nat \<Rightarrow> int \<Rightarrow> int \<Rightarrow> string_result \<Rightarrow> string_result \<times> int \<times> int" where
  "Execute_BitPos s bit_val start0 end0 result =
     (let len = to_signed 32 (slength s * 8);
          bmax = (end0 = LLONG_MAX);
          st = (if start0 < 0 then (let x = start0 + len in if x < 0 then 0 else x)
                else if start0 > len then len else start0);
          e1 = (if end0 < 0 then end0 + len else end0);
          en = (if e1 < st then st - 1 else if e1 \<ge> len then len - 1 else e1)
      in (case List.find (\<lambda>i. byte_bit (StringView (str_obj s) ! (i div 8)) (7 - i mod 8) = (bit_val = 1))
                 [nat st ..< nat (en + 1)] of
            Some i \<Rightarrow> result\<lparr>st_int := int i\<rparr>
          | None \<Rightarrow> result\<lparr>st_int := (if bmax \<and> len > 0 \<and> bit_val = 0 then len else - 1)\<rparr>, st, en))"

section \<open>Commit\<close>

definition CommitSet :: "string_obj \<Rightarrow> eloq_string \<Rightarrow> string_obj \<times> eloq_string" where
  "CommitSet s val =
     (if es_type val = ST_View then (s\<lparr>str_obj := Clone val\<rparr>, val)
      else (s\<lparr>str_obj := fst (es_assign_move (str_obj s) val)\<rparr>, snd (es_assign_move (str_obj s) val)))"

definition commit_overflows :: "int \<Rightarrow> int \<Rightarrow> bool" where
  "commit_overflows old_val incr \<longleftrightarrow>
     (incr < 0 \<and> old_val < 0 \<and> incr < LLONG_MIN - old_val) \<or>
     (incr > 0 \<and> old_val > 0 \<and> incr > LLONG_MAX - old_val)"

text \<open>A string that is no integer, or a sum out of range, is logged and left alone.\<close>

definition CommitIncrDecr :: "string_obj \<Rightarrow> int \<Rightarrow> string_obj" where
  "CommitIncrDecr s incr =
     (let sv = StringView (str_obj s) in
      case (if length sv = 0 then Some 0 else string2ll sv) of
        None \<Rightarrow> s
      | Some old_val \<Rightarrow>
          if commit_overflows old_val incr then s
          else s\<lparr>str_obj := es_make (to_string (to_signed 64 (old_val + incr)))\<rparr>)"

text \<open>Writing through \<^verbatim>\<open>const_cast\<close> into the bytes keeps the storage.\<close>

fun es_overwrite :: "eloq_string \<Rightarrow> bytes \<Rightarrow> eloq_string" where
  "es_overwrite (Stack b) b' = Stack b'"
| "es_overwrite (Heap c b) b' = Heap c b'"
| "es_overwrite (View b) b' = View b'"
| "es_overwrite NullView b' = NullView"

definition CommitSetBit :: "string_obj \<Rightarrow> nat \<Rightarrow> int \<Rightarrow> string_obj" where
  "CommitSetBit s offset val =
     (let by_pos = offset div 8; bit_pos = 7 - offset mod 8; sv = StringView (str_obj s)
      in if by_pos \<ge> length sv
         then let str = sv @ replicate (by_pos + 1 - length sv) (CHR 0x00)
              in s\<lparr>str_obj := es_make (if val \<noteq> 0 then str[by_pos := byte_put (str ! by_pos) bit_pos True]
                                       else str)\<rparr>
         else s\<lparr>str_obj := es_overwrite (str_obj s)
                             (sv[by_pos := byte_put (sv ! by_pos) bit_pos (val \<noteq> 0)])\<rparr>)"

text \<open>\<^verbatim>\<open>std::copy\<close> of \<open>xs\<close> to position \<open>i\<close> of a buffer that is long enough.\<close>

definition overwrite_at :: "nat \<Rightarrow> bytes \<Rightarrow> bytes \<Rightarrow> bytes" where
  "overwrite_at i xs buf = take i buf @ xs @ drop (i + length xs) buf"

definition CommitSetRange :: "string_obj \<Rightarrow> nat \<Rightarrow> eloq_string \<Rightarrow> string_obj" where
  "CommitSetRange s offset val =
     (let len = es_length (str_obj s); sv = StringView (str_obj s);
          v = take (es_length val) (StringView val)
      in if offset + es_length val \<ge> len
         then let str = replicate (offset + es_length val) (CHR 0x00);
                  str1 = overwrite_at 0 (take (if len > offset then offset else len) sv) str
              in s\<lparr>str_obj := es_make (overwrite_at offset v str1)\<rparr>
         else s\<lparr>str_obj := es_overwrite (str_obj s) (overwrite_at offset v sv)\<rparr>)"

definition CommitAppend :: "string_obj \<Rightarrow> eloq_string \<Rightarrow> string_obj" where
  "CommitAppend s val =
     s\<lparr>str_obj := es_make (take (es_length (str_obj s)) (StringView (str_obj s)) @
                           take (es_length val) (StringView val))\<rparr>"

definition bf_commit :: "bytes \<Rightarrow> sub_command \<Rightarrow> (bytes \<times> bool) option" where
  "bf_commit p scmd =
     (case bf_type scmd of
        BF_GET \<Rightarrow> Some (p, False)
      | BF_SET \<Rightarrow>
          (case IsBitfieldUnoverflow (bf_value scmd) 0 (bf_bits scmd) (bf_signed scmd) (bf_ovf scmd) 0 of
             None \<Rightarrow> None
           | Some (ibu, limit) \<Rightarrow>
               Some (if ibu then SetBitFieldValue p limit (bf_offset scmd) (bf_bits scmd) else p, True))
      | BF_INCR \<Rightarrow>
          (case IsBitfieldUnoverflow (GetBitFieldValue p (bf_offset scmd) (bf_bits scmd) (bf_signed scmd))
                  (bf_value scmd) (bf_bits scmd) (bf_signed scmd) (bf_ovf scmd) 0 of
             None \<Rightarrow> None
           | Some (ibu, limit) \<Rightarrow>
               Some (if ibu then SetBitFieldValue p limit (bf_offset scmd) (bf_bits scmd) else p, True)))"

fun bf_commit_all :: "bytes \<Rightarrow> sub_command list \<Rightarrow> (bytes \<times> bool) option" where
  "bf_commit_all p [] = Some (p, False)"
| "bf_commit_all p (scmd # vct) =
     do { (p1, u1) \<leftarrow> bf_commit p scmd; (p2, u2) \<leftarrow> bf_commit_all p1 vct; Some (p2, u1 \<or> u2) }"

definition CommitBitField :: "string_obj \<Rightarrow> sub_command list \<Rightarrow> string_obj option" where
  "CommitBitField s vct =
     do { (p, update) \<leftarrow> bf_commit_all (bf_buffer (StringView (str_obj s)) vct) vct;
          Some (if update then s\<lparr>str_obj := es_make p\<rparr> else s) }"

section \<open>Images\<close>

definition string_Serialize :: "string_obj \<Rightarrow> bytes \<Rightarrow> bytes" where
  "string_Serialize s str = str @ put_u8 (type_tag TString) @ put_string (str_obj s)"

definition string_ttl_Serialize :: "string_obj \<Rightarrow> nat \<Rightarrow> bytes \<Rightarrow> bytes" where
  "string_ttl_Serialize s ttl str =
     str @ put_u8 (type_tag TTLString) @ put_u64 ttl @ put_string (str_obj s)"

definition string_Serialize_vec :: "string_obj \<Rightarrow> bytes \<Rightarrow> nat \<Rightarrow> (bytes \<times> nat) option" where
  "string_Serialize_vec s buf offset =
     vec_puts [put_u8 (type_tag TString), put_u32 (es_length (str_obj s)), StringView (str_obj s)]
       (vec_resize (offset + (1 + 4 + es_length (str_obj s))) buf, offset)"

definition string_ttl_Serialize_vec :: "string_obj \<Rightarrow> nat \<Rightarrow> bytes \<Rightarrow> nat \<Rightarrow> (bytes \<times> nat) option" where
  "string_ttl_Serialize_vec s ttl buf offset =
     vec_puts [put_u8 (type_tag TTLString), put_u64 ttl, put_u32 (es_length (str_obj s)), StringView (str_obj s)]
       (vec_resize (offset + (1 + 8 + 4 + length (StringView (str_obj s)))) buf, offset)"

definition string_Deserialize :: "string_obj reader" where
  "string_Deserialize bs =
     do { (_, bs1) \<leftarrow> get_u8 bs; (s, bs2) \<leftarrow> get_string bs1; Some (\<lparr>str_obj = s\<rparr>, bs2) }"

definition string_ttl_Deserialize :: "(string_obj \<times> nat) reader" where
  "string_ttl_Deserialize bs =
     do { (_, bs1) \<leftarrow> get_u8 bs; (ttl, bs2) \<leftarrow> get_u64 bs1; (s, bs3) \<leftarrow> get_string bs2;
          Some ((\<lparr>str_obj = s\<rparr>, ttl), bs3) }"

section \<open>Invariant and abstraction\<close>

text \<open>A string object holds an owned string, or the null string it was created with.\<close>

definition string_inv :: "string_obj \<Rightarrow> bool" where
  "string_inv s \<longleftrightarrow> storable (str_obj s) \<or> str_obj s = NullView"

definition sval :: "string_obj \<Rightarrow> bytes" where
  "sval s = StringView (str_obj s)"

lemma string_inv_new [simp]: "string_inv RedisStringObject" "sval RedisStringObject = []"
  by (simp_all add: string_inv_def RedisStringObject_def sval_def)

lemma string_inv_short: "string_inv s \<Longrightarrow> es_short (str_obj s)"
  by (auto simp: string_inv_def storable_def es_short_def)

lemma string_inv_length: "string_inv s \<Longrightarrow> length (sval s) < 2 ^ 32"
  using string_inv_short [of s] by (simp add: es_short_def sval_def)

lemma slength_sval: "string_inv s \<Longrightarrow> slength s = int (length (sval s))"
  by (simp add: slength_def sval_def string_inv_short)

lemma string_inv_make [simp]: "string_inv (s\<lparr>str_obj := es_make b\<rparr>)"
  by (simp add: string_inv_def)

lemma sval_make [simp]: "length b < 2 ^ 32 \<Longrightarrow> sval (s\<lparr>str_obj := es_make b\<rparr>) = b"
  by (simp add: sval_def)

lemma es_overwrite_view: "b \<noteq> [] \<Longrightarrow> length b = length (StringView e) \<Longrightarrow> StringView (es_overwrite e b) = b"
  by (cases e) auto

lemma es_overwrite_storable:
  "storable e \<Longrightarrow> length b = length (StringView e) \<Longrightarrow> storable (es_overwrite e b)"
  by (cases e) (auto simp: storable_def owned_def es_short_def)

lemma overwrite_commit:
  assumes "string_inv s" "b \<noteq> []" "length b = length (sval s)"
  shows "string_inv (s\<lparr>str_obj := es_overwrite (str_obj s) b\<rparr>)"
    and "sval (s\<lparr>str_obj := es_overwrite (str_obj s) b\<rparr>) = b"
  using assms by (auto simp: string_inv_def sval_def es_overwrite_view es_overwrite_storable)

lemma CommitSet_spec:
  "arg_ok v \<Longrightarrow> storable (str_obj (fst (CommitSet s v))) \<and> sval (fst (CommitSet s v)) = StringView v"
  by (auto simp: CommitSet_def es_assign_move_def sval_def storable_def arg_ok_def es_move_inv)
     (auto simp: owned_def)

subsection \<open>Integers\<close>

definition string_int :: "string_obj \<Rightarrow> int option" where
  "string_int s = (if sval s = [] then Some 0 else string2ll (sval s))"

lemma string_int_range: "string_int s = Some n \<Longrightarrow> is_i64 n"
  by (auto simp: string_int_def string2ll_iff is_i64_def split: if_splits)

lemma int_op_sound: "is_i64 a \<Longrightarrow> is_i64 b \<Longrightarrow> \<not> int_op_overflows a b \<Longrightarrow> is_i64 (a + b) \<and> \<not> commit_overflows a b"
  by (auto simp: int_op_overflows_def commit_overflows_def is_i64_def LLONG_MIN_def LLONG_MAX_def)

text \<open>An accepted \<^verbatim>\<open>INCRBY\<close> commits the decimal text of the sum it reports.\<close>

lemma IntOp_commit:
  assumes "is_i64 incr" "Execute_IntOp s incr r = (r', True)"
  shows "\<exists>n. string_int s = Some n \<and> is_i64 (n + incr) \<and> ir_val r' = n + incr \<and> ir_err r' = RD_OK \<and>
     string_inv (CommitIncrDecr s incr) \<and> sval (CommitIncrDecr s incr) = to_string (n + incr)"
proof -
  obtain n where n: "string_int s = Some n" "\<not> int_op_overflows n incr"
      "r' = r\<lparr>ir_val := to_signed 64 (n + incr), ir_err := RD_OK\<rparr>"
    using assms(2) by (auto simp: Execute_IntOp_def string_int_def sval_def Let_def split: option.splits if_splits)
  from int_op_sound [OF string_int_range [OF n(1)] assms(1) n(2)]
  have i: "is_i64 (n + incr)" "\<not> commit_overflows n incr" by simp_all
  have "length (to_string (n + incr)) < 2 ^ 32" using length_to_string [OF i(1)] by simp
  moreover have "CommitIncrDecr s incr = s\<lparr>str_obj := es_make (to_string (n + incr))\<rparr>"
    using n(1) i by (auto simp: CommitIncrDecr_def string_int_def sval_def Let_def split: if_splits)
  ultimately show ?thesis using n i by simp
qed

subsection \<open>Bits\<close>

lemma CheckSerializedLength_iff: "n < 2 ^ 63 \<Longrightarrow> CheckSerializedLength n \<longleftrightarrow> 5 + n \<le> 268435456"
  using of_nat_gt_MAX [of "5 + n"] by (simp add: CheckSerializedLength_def not_less [symmetric])

lemma Execute_GetBit_spec:
  "Execute_GetBit s offset r = r\<lparr>st_err := RD_OK, st_int := bit_int (bit_at (sval s) offset)\<rparr>"
  by (simp add: Execute_GetBit_def bit_at_def sval_def Let_def bit_int_def)

lemma put_bit_at_nth: "p[i div 8 := byte_put (p ! (i div 8)) (7 - i mod 8) b] = put_bit_at p i b"
  by (simp add: put_bit_at_def)

lemma CommitSetBit_cases:
  "CommitSetBit s offset val =
     (if offset div 8 \<ge> length (sval s)
      then let str = sval s @ replicate (offset div 8 + 1 - length (sval s)) (CHR 0x00)
           in s\<lparr>str_obj := es_make (if val \<noteq> 0 then put_bit_at str offset True else str)\<rparr>
      else s\<lparr>str_obj := es_overwrite (str_obj s) (put_bit_at (sval s) offset (val \<noteq> 0))\<rparr>)"
  by (simp add: CommitSetBit_def sval_def Let_def put_bit_at_def)

lemma CommitSetBit_spec:
  assumes "string_inv s" "snd (Execute_SetBit s offset r)" "offset < 2 ^ 62"
  shows "string_inv (CommitSetBit s offset val)"
    and "length (sval (CommitSetBit s offset val)) = max (length (sval s)) (offset div 8 + 1)"
    and "bit_at (sval (CommitSetBit s offset val)) i = (if i = offset then val \<noteq> 0 else bit_at (sval s) i)"
proof -
  let ?n = "offset div 8"
  have "string_inv (CommitSetBit s offset val) \<and>
      length (sval (CommitSetBit s offset val)) = max (length (sval s)) (?n + 1) \<and>
      bit_at (sval (CommitSetBit s offset val)) i = (if i = offset then val \<noteq> 0 else bit_at (sval s) i)"
  proof (cases "?n \<ge> length (sval s)")
    case True
    let ?p = "sval s @ replicate (?n + 1 - length (sval s)) (CHR 0x00)"
    let ?q = "if val \<noteq> 0 then put_bit_at ?p offset True else ?p"
    have "CheckSerializedLength (?n + 1)"
      using assms(2) True by (auto simp: Execute_SetBit_def sval_def Let_def split: if_splits)
    then have "5 + (?n + 1) \<le> 268435456" using assms(3) by (subst (asm) CheckSerializedLength_iff) auto
    then have l: "length ?q < 2 ^ 32" "length ?p = ?n + 1" using True by auto
    have "\<not> bit_at (sval s) offset" using True by (simp add: bit_at_def)
    then have "bit_at ?q i = (if i = offset then val \<noteq> 0 else bit_at (sval s) i)"
      using l(2) by (auto simp: bit_at_put bit_at_append_zero)
    moreover have c: "CommitSetBit s offset val = s\<lparr>str_obj := es_make ?q\<rparr>"
      using True by (simp only: CommitSetBit_cases Let_def if_True)
    moreover have "length ?q = max (length (sval s)) (?n + 1)" using True l(2) by simp
    ultimately show ?thesis unfolding c sval_make [OF l(1)] by simp
  next
    case False
    then have "put_bit_at (sval s) offset (val \<noteq> 0) \<noteq> []"
      by (metis length_put_bit_at list.size(3) not_less0 not_less)
    then show ?thesis
      using False assms(1) by (simp add: CommitSetBit_cases overwrite_commit bit_at_put max_def)
  qed
  then show "string_inv (CommitSetBit s offset val)"
    "length (sval (CommitSetBit s offset val)) = max (length (sval s)) (?n + 1)"
    "bit_at (sval (CommitSetBit s offset val)) i = (if i = offset then val \<noteq> 0 else bit_at (sval s) i)"
    by simp_all
qed

subsection \<open>Ranges\<close>

lemma Execute_GetRange_spec:
  assumes "string_inv s" "st_str r = []"
  shows "st_str (fst (Execute_GetRange s a b r)) = range_spec a b (sval s)"
  using assms
  by (auto simp: Execute_GetRange_def Let_def slength_sval range_spec_take_drop from_end_def max_def
      sval_def [symmetric] algebra_simps)

text \<open>The documented effect of \<^verbatim>\<open>SETRANGE\<close>: pad with zero bytes up to the offset, then overwrite.\<close>

definition setrange_spec :: "nat \<Rightarrow> bytes \<Rightarrow> bytes \<Rightarrow> bytes" where
  "setrange_spec off v b =
     take off (b @ replicate (off - length b) (CHR 0x00)) @ v @ drop (off + length v) b"

lemma CommitSetRange_spec:
  assumes "string_inv s" "arg_ok v" "snd (Execute_SetRange s off v r)" "off < 2 ^ 62"
  shows "string_inv (CommitSetRange s off v)"
    and "sval (CommitSetRange s off v) = setrange_spec off (StringView v) (sval s)"
proof -
  let ?v = "StringView v" and ?b = "sval s"
  have l: "es_length v = length ?v" "length ?v < 2 ^ 32" "es_length (str_obj s) = length ?b"
    using assms(1,2) arg_ok_length [OF assms(2)] by (simp_all add: string_inv_short sval_def)
  have "string_inv (CommitSetRange s off v) \<and> sval (CommitSetRange s off v) = setrange_spec off ?v ?b"
  proof (cases "off + length ?v \<ge> length ?b")
    case True
    let ?new = "setrange_spec off ?v ?b"
    have n: "length ?new = off + length ?v" using True by (simp add: setrange_spec_def)
    have "off + length ?v = length ?b \<or> 5 + (off + length ?v) \<le> 268435456"
    proof (cases "off + length ?v \<le> length ?b")
      case False
      then have "CheckSerializedLength (off + length ?v)"
        using assms(3) l by (auto simp: Execute_SetRange_def Let_def slength_def split: if_splits)
      then show ?thesis using assms(4) l(2) by (subst (asm) CheckSerializedLength_iff) auto
    qed (use True in simp)
    moreover have "length ?b < 2 ^ 32" using assms(1) by (rule string_inv_length)
    ultimately have m: "length ?new < 2 ^ 32" unfolding n by auto
    have "CommitSetRange s off v = s\<lparr>str_obj := es_make ?new\<rparr>"
      using True l
      by (auto simp: CommitSetRange_def Let_def setrange_spec_def overwrite_at_def sval_def [symmetric] min_def)
    then show ?thesis using m by simp
  next
    case False
    then have "CommitSetRange s off v =
        s\<lparr>str_obj := es_overwrite (str_obj s) (setrange_spec off ?v ?b)\<rparr>"
      using l by (simp add: CommitSetRange_def Let_def setrange_spec_def overwrite_at_def sval_def [symmetric])
    moreover have len: "length (setrange_spec off ?v ?b) = length ?b"
      using False by (auto simp: setrange_spec_def)
    moreover have "setrange_spec off ?v ?b \<noteq> []" using len False by (cases "setrange_spec off ?v ?b") auto
    ultimately show ?thesis using assms(1) by (simp add: overwrite_commit)
  qed
  then show "string_inv (CommitSetRange s off v)"
    "sval (CommitSetRange s off v) = setrange_spec off ?v ?b" by simp_all
qed

lemma CommitAppend_spec:
  assumes "string_inv s" "arg_ok v" "snd (Execute_Append has_ttl s v r)"
  shows "string_inv (CommitAppend s v)" "sval (CommitAppend s v) = sval s @ StringView v"
proof -
  have l: "es_length v = length (StringView v)" "length (StringView v) < 2 ^ 32"
      "es_length (str_obj s) = length (sval s)" "length (sval s) < 2 ^ 32"
    using assms(2) string_inv_short [OF assms(1)] arg_ok_length [OF assms(2)] string_inv_length [OF assms(1)]
    by (simp_all add: sval_def)
  let ?n = "(if has_ttl then 8 else 0) + (5 + length (sval s)) + length (StringView v)"
  have "string_SerializedLength has_ttl s + of_nat (es_length v) = of_nat ?n"
    using l by (simp add: string_SerializedLength_def)
  moreover have "?n < 2 ^ 64" using l by auto
  ultimately have "?n \<le> 268435456"
    using assms(3) of_nat_gt_MAX [of ?n] by (auto simp: Execute_Append_def split: if_splits)
  then have "length (sval s @ StringView v) < 2 ^ 32" by auto
  moreover have "CommitAppend s v = s\<lparr>str_obj := es_make (sval s @ StringView v)\<rparr>"
    using l by (simp add: CommitAppend_def sval_def)
  ultimately show "string_inv (CommitAppend s v)" "sval (CommitAppend s v) = sval s @ StringView v"
    by simp_all
qed

subsection \<open>Bit fields\<close>

text \<open>What is committed is the buffer that the execution computed.\<close>

lemma bf_commit_exec:
  "bf_exec p c = Some (p', e, u) \<Longrightarrow> \<exists>u'. bf_commit p c = Some (p', u') \<and> (u \<longrightarrow> u')"
  by (auto simp: bf_exec_def bf_commit_def split: bf_op.splits option.splits bool.splits)

lemma bf_commit_exec_all:
  "bf_exec_all p vct = Some (p', es, u) \<Longrightarrow> \<exists>u'. bf_commit_all p vct = Some (p', u') \<and> (u \<longrightarrow> u')"
proof (induction vct arbitrary: p p' es u)
  case (Cons c vct)
  obtain p1 e u1 where c: "bf_exec p c = Some (p1, e, u1)"
    using Cons.prems by (cases "bf_exec p c") auto
  obtain es2 u2 where r: "bf_exec_all p1 vct = Some (p', es2, u2)" "u = (u1 \<or> u2)"
    using Cons.prems c by (cases "bf_exec_all p1 vct") auto
  from bf_commit_exec [OF c] Cons.IH [OF r(1)] r(2) show ?case by auto
qed auto

lemma CommitBitField_exec:
  assumes "bf_exec_all (bf_buffer (sval s) vct) vct = Some (p, es, True)" "length p < 2 ^ 32"
  shows "\<exists>s'. CommitBitField s vct = Some s' \<and> string_inv s' \<and> sval s' = p"
  using bf_commit_exec_all [OF assms(1)] assms(2)
  by (auto simp: CommitBitField_def sval_def [symmetric])

subsection \<open>Images\<close>

lemma string_Deserialize_spec:
  assumes "string_inv s"
  shows "string_Deserialize (string_Serialize s [] @ rest) = Some (\<lparr>str_obj = Clone (str_obj s)\<rparr>, rest)"
  using string_inv_short [OF assms]
  by (simp add: string_Deserialize_def string_Serialize_def Clone_def es_make_view)

lemma string_ttl_Deserialize_spec:
  assumes "string_inv s" "ttl < 2 ^ 64"
  shows "string_ttl_Deserialize (string_ttl_Serialize s ttl [] @ rest) =
     Some ((\<lparr>str_obj = Clone (str_obj s)\<rparr>, ttl), rest)"
  using string_inv_short [OF assms(1)] assms(2)
  by (simp add: string_ttl_Deserialize_def string_ttl_Serialize_def Clone_def es_make_view)

lemma string_Serialize_vec_spec:
  assumes "string_inv s" "off \<le> length buf"
  shows "string_Serialize_vec s buf off =
     Some (string_Serialize s (take off buf), off + (1 + 4 + es_length (str_obj s)))"
  unfolding string_Serialize_vec_def
  using assms string_inv_short [OF assms(1)] by (subst vec_puts_resize)
    (simp_all add: string_Serialize_def put_string_def)

lemma string_ttl_Serialize_vec_spec:
  assumes "string_inv s" "off \<le> length buf"
  shows "string_ttl_Serialize_vec s ttl buf off =
     Some (string_ttl_Serialize s ttl (take off buf), off + (1 + 8 + 4 + length (sval s)))"
  unfolding string_ttl_Serialize_vec_def
  using assms string_inv_short [OF assms(1)] by (subst vec_puts_resize)
    (simp_all add: string_ttl_Serialize_def put_string_def sval_def)

interpretation string_image: codec "\<lambda>s. string_Serialize s []" string_Deserialize
  "\<lambda>s. string_inv s \<and> canonical (str_obj s)"
  by unfold_locales (auto simp: string_Deserialize_spec canonical_def)

end
