(* ===== verification/ZsetObject.thy ===== *)
theory ZsetObject
  imports RedisBase "HOL-Library.Multiset"
begin

unbundle bit_operations_syntax

text \<open>
  The state and the images of \<^verbatim>\<open>RedisZsetObject\<close> (\<^verbatim>\<open>include/redis_zset_object.h\<close>): a map from fields to
  scores and a set of nodes ordered by score and field, which hold the same pairs.  A score is the
  bit pattern of its \<^verbatim>\<open>double\<close>; \<^term>\<open>dbl_less\<close> is the IEEE 754 comparison.  The methods that
  the commands call are in \<^theory_text>\<open>ZsetOps\<close>.
\<close>

section \<open>Scores and nodes\<close>

definition dbl_nan :: "u64 \<Rightarrow> bool" where
  "dbl_nan d \<longleftrightarrow> unat (take_bit 63 d) > 0x7FF0000000000000"

definition dbl_ord :: "u64 \<Rightarrow> int" where
  "dbl_ord d = (let m = int (unat (take_bit 63 d)) in if bit d 63 then - m else m)"

definition dbl_less :: "u64 \<Rightarrow> u64 \<Rightarrow> bool" where
  "dbl_less a b \<longleftrightarrow> \<not> dbl_nan a \<and> \<not> dbl_nan b \<and> dbl_ord a < dbl_ord b"

definition dbl_ne :: "u64 \<Rightarrow> u64 \<Rightarrow> bool" where
  "dbl_ne a b \<longleftrightarrow> dbl_nan a \<or> dbl_nan b \<or> dbl_ord a \<noteq> dbl_ord b"

type_synonym znode = "eloq_string \<times> u64"

definition zcmp :: "znode \<Rightarrow> znode \<Rightarrow> bool" where
  "zcmp a b = (if dbl_ne (snd a) (snd b) then dbl_less (snd a) (snd b)
               else bytes_less (StringView (fst a)) (StringView (fst b)))"

text \<open>\<^verbatim>\<open>std::set::insert\<close>: in order, unless an equivalent node is there.\<close>

fun zs_insert :: "znode \<Rightarrow> znode list \<Rightarrow> znode list" where
  "zs_insert n [] = [n]"
| "zs_insert n (x # xs) =
     (if zcmp n x then n # x # xs else if zcmp x n then x # zs_insert n xs else x # xs)"

record zset_obj =
  z_ordered_set :: "znode list"
  z_hash_map :: "(bytes \<times> u64) list"
  zset_slen :: u64

definition RedisZsetObject :: zset_obj where
  "RedisZsetObject = \<lparr>z_ordered_set = [], z_hash_map = [], zset_slen = 1 + 4\<rparr>"

text \<open>The copy constructor clones the nodes in order and rebuilds the map.\<close>

definition zset_copy :: "zset_obj \<Rightarrow> zset_obj" where
  "zset_copy rhs =
     (fold (\<lambda>(field, score) z.
          z\<lparr>z_ordered_set := zs_insert (Clone field, score) (z_ordered_set z),
            z_hash_map := (if map_of (z_hash_map z) (StringView (Clone field)) = None
                           then z_hash_map z @ [(StringView (Clone field), score)] else z_hash_map z)\<rparr>)
        (z_ordered_set rhs) RedisZsetObject)\<lparr>zset_slen := zset_slen rhs\<rparr>"

section \<open>Images\<close>

definition put_score :: "bytes \<times> u64 \<Rightarrow> bytes" where
  "put_score fs = put_u32 (length (fst fs)) @ take (length (fst fs) mod 2 ^ 32) (fst fs) @ put_u64 (unat (snd fs))"

definition zset_body :: "zset_obj \<Rightarrow> bytes" where
  "zset_body z = put_vec put_score (z_hash_map z)"

definition zset_Serialize :: "zset_obj \<Rightarrow> bytes \<Rightarrow> bytes" where
  "zset_Serialize z str = str @ put_u8 (type_tag TZset) @ zset_body z"

definition zset_ttl_Serialize :: "zset_obj \<Rightarrow> nat \<Rightarrow> bytes \<Rightarrow> bytes" where
  "zset_ttl_Serialize z ttl str = str @ put_u8 (type_tag TTLZset) @ put_u64 ttl @ zset_body z"

text \<open>The map entry views the string of the node; \<^verbatim>\<open>emplace\<close> keeps an entry that is there.\<close>

definition zset_add :: "zset_obj \<Rightarrow> eloq_string \<Rightarrow> u64 \<Rightarrow> nat \<Rightarrow> zset_obj" where
  "zset_add z field score n =
     \<lparr>z_ordered_set = zs_insert (field, score) (z_ordered_set z),
      z_hash_map = (if map_of (z_hash_map z) (StringView field) = None
                    then z_hash_map z @ [(StringView field, score)] else z_hash_map z),
      zset_slen = zset_slen z + (8 + 4 + of_nat n)\<rparr>"

primrec zset_read :: "nat \<Rightarrow> zset_obj \<Rightarrow> zset_obj reader" where
  "zset_read 0 z bs = Some (z, bs)"
| "zset_read (Suc n) z bs =
     do { (len, bs1) \<leftarrow> get_u32 bs; (b, bs2) \<leftarrow> get_raw len bs1; (score, bs3) \<leftarrow> get_u64 bs2;
          zset_read n (zset_add z (es_make b) (of_nat score) len) bs3 }"

definition zset_Deserialize :: "zset_obj reader" where
  "zset_Deserialize bs =
     do { (_, bs1) \<leftarrow> get_u8 bs; (cnt, bs2) \<leftarrow> get_u32 bs1; zset_read cnt RedisZsetObject bs2 }"

definition zset_ttl_Deserialize :: "(zset_obj \<times> nat) reader" where
  "zset_ttl_Deserialize bs =
     do { (_, bs1) \<leftarrow> get_u8 bs; (ttl, bs2) \<leftarrow> get_u64 bs1; (cnt, bs3) \<leftarrow> get_u32 bs2;
          (z, bs4) \<leftarrow> zset_read cnt RedisZsetObject bs3; Some ((z, ttl), bs4) }"

section \<open>Reading back\<close>

definition scores :: "zset_obj \<Rightarrow> bytes \<Rightarrow> u64 option" where
  "scores z = map_of (z_hash_map z)"

text \<open>The nodes and the map hold the same pairs, and no score is NaN.\<close>

definition node_pair :: "znode \<Rightarrow> bytes \<times> u64" where
  "node_pair n = (StringView (fst n), snd n)"

definition pairs_ok :: "(bytes \<times> u64) list \<Rightarrow> bool" where
  "pairs_ok m \<longleftrightarrow> distinct (map fst m) \<and> list_all (\<lambda>fs. length (fst fs) < 2 ^ 32 \<and> \<not> dbl_nan (snd fs)) m"

definition zset_inv :: "zset_obj \<Rightarrow> bool" where
  "zset_inv z \<longleftrightarrow> pairs_ok (z_hash_map z) \<and>
     mset (map node_pair (z_ordered_set z)) = mset (z_hash_map z) \<and>
     zset_slen z = 5 + (\<Sum>fs \<leftarrow> z_hash_map z. 12 + of_nat (length (fst fs)))"

text \<open>What reading an image makes of a sorted set: the nodes inserted again, freshly allocated.\<close>

definition zset_fresh :: "zset_obj \<Rightarrow> zset_obj" where
  "zset_fresh z = z\<lparr>z_ordered_set := fold (\<lambda>(b, w). zs_insert (es_make b, w)) (z_hash_map z) []\<rparr>"

lemma zset_read_spec:
  assumes "list_all (\<lambda>fs. length (fst fs) < 2 ^ 32) m" "distinct (map fst (z_hash_map z) @ map fst m)"
  shows "zset_read (length m) z (concat (map put_score m) @ rest) =
     Some (\<lparr>z_ordered_set = fold (\<lambda>(b, w). zs_insert (es_make b, w)) m (z_ordered_set z),
            z_hash_map = z_hash_map z @ m,
            zset_slen = zset_slen z + (\<Sum>fs \<leftarrow> m. 12 + of_nat (length (fst fs)))\<rparr>, rest)"
  using assms
proof (induction m arbitrary: z)
  case Nil
  then show ?case by (cases z) simp
next
  case (Cons p m)
  obtain b w where p: "p = (b, w)" by (cases p)
  let ?z = "zset_add z (es_make b) w (length b)"
  have b: "length b < 2 ^ 32" "b \<notin> fst ` set (z_hash_map z)" using Cons.prems by (auto simp: p)
  then have "map_of (z_hash_map z) b = None" by (simp add: map_of_eq_None_iff)
  then have z: "z_hash_map ?z = z_hash_map z @ [(b, w)]" "zset_slen ?z = zset_slen z + (12 + of_nat (length b))"
      "z_ordered_set ?z = zs_insert (es_make b, w) (z_ordered_set z)"
    using b(1) by (simp_all add: zset_add_def)
  have u: "unat w < 18446744073709551616" using unsigned_less [of w, where ?'a = nat] by simp
  have "zset_read (length (p # m)) z (concat (map put_score (p # m)) @ rest) =
      zset_read (length m) ?z (concat (map put_score m) @ rest)"
    using b(1) u by (simp add: p put_score_def)
  moreover have "distinct (map fst (z_hash_map ?z) @ map fst m)" using Cons.prems by (auto simp: z p)
  ultimately show ?case
    using Cons.IH [of ?z] Cons.prems by (simp add: z p add.assoc)
qed

lemma zset_read_inv:
  assumes "zset_inv z"
  shows "zset_read (length (z_hash_map z)) RedisZsetObject (concat (map put_score (z_hash_map z)) @ rest) =
     Some (zset_fresh z, rest)"
  using zset_read_spec [of "z_hash_map z" RedisZsetObject rest] assms
  by (cases z) (auto simp: zset_inv_def pairs_ok_def list_all_iff RedisZsetObject_def zset_fresh_def)

lemma zset_Deserialize_spec:
  assumes "zset_inv z" "length (z_hash_map z) < 2 ^ 32"
  shows "zset_Deserialize (zset_Serialize z [] @ rest) = Some (zset_fresh z, rest)"
  using zset_read_inv [OF assms(1)] assms(2)
  by (simp add: zset_Deserialize_def zset_Serialize_def zset_body_def put_vec_def)

lemma zset_ttl_Deserialize_spec:
  assumes "zset_inv z" "length (z_hash_map z) < 2 ^ 32" "ttl < 2 ^ 64"
  shows "zset_ttl_Deserialize (zset_ttl_Serialize z ttl [] @ rest) = Some ((zset_fresh z, ttl), rest)"
  using zset_read_inv [OF assms(1)] assms(2,3)
  by (simp add: zset_ttl_Deserialize_def zset_ttl_Serialize_def zset_body_def put_vec_def)

text \<open>
  The order separates different fields as long as no score is NaN, so that the node set holds
  exactly the pairs of the map after reading.
\<close>

lemma zcmp_total:
  assumes "\<not> zcmp a b" "\<not> zcmp b a" "\<not> dbl_nan (snd a)" "\<not> dbl_nan (snd b)"
  shows "StringView (fst a) = StringView (fst b)"
  using assms bytes_less_total [of "StringView (fst a)" "StringView (fst b)"]
  by (auto simp: zcmp_def dbl_ne_def dbl_less_def split: if_splits)

lemma mset_zs_insert:
  assumes "\<forall>x \<in> set xs. StringView (fst x) \<noteq> StringView (fst n) \<and> \<not> dbl_nan (snd x)" "\<not> dbl_nan (snd n)"
  shows "mset (zs_insert n xs) = add_mset n (mset xs)"
  using assms by (induction xs) (auto dest: zcmp_total)

lemma mset_zs_inserts:
  assumes "pairs_ok (map node_pair ns @ map node_pair os)"
  shows "mset (fold zs_insert ns os) = mset ns + mset os"
  using assms
proof (induction ns arbitrary: os)
  case (Cons n ns)
  have i: "mset (zs_insert n os) = add_mset n (mset os)"
    using Cons.prems by (intro mset_zs_insert) (auto simp: pairs_ok_def node_pair_def list_all_iff image_iff ball_Un)
  have s: "set (zs_insert n os) = insert n (set os)" using arg_cong [OF i, of set_mset] by simp
  have "distinct (map fst (map node_pair (zs_insert n os)))"
    using Cons.prems
    by (subst mset_eq_imp_distinct_iff [of _ "map fst (map node_pair (n # os))"]) (simp_all add: i pairs_ok_def)
  then have "pairs_ok (map node_pair ns @ map node_pair (zs_insert n os))"
    using Cons.prems by (auto simp: pairs_ok_def list_all_iff s)
  then show ?case using Cons.IH [of "zs_insert n os"] by (simp add: i)
qed simp

lemma pairs_ok_mset: "mset m = mset m' \<Longrightarrow> pairs_ok m \<longleftrightarrow> pairs_ok m'"
proof -
  assume m: "mset m = mset m'"
  then have "distinct (map fst m) = distinct (map fst m')"
    by (intro mset_eq_imp_distinct_iff) simp
  then show ?thesis using mset_eq_setD [OF m] by (simp add: pairs_ok_def list_all_iff)
qed

lemma map_of_mset:
  assumes "mset m = mset m'" "distinct (map fst m)"
  shows "map_of m = map_of m'"
proof -
  have "distinct (map fst m')" using mset_eq_imp_distinct_iff [of "map fst m" "map fst m'"] assms by simp
  then show ?thesis using assms mset_eq_setD [OF assms(1)] by (intro map_of_inject_set [THEN iffD2]) auto
qed

lemma node_pair_make: "length b < 2 ^ 32 \<Longrightarrow> node_pair (es_make b, w) = (b, w)"
  by (simp add: node_pair_def)

lemma zset_fresh_inv:
  assumes "zset_inv z"
  shows "zset_inv (zset_fresh z)" "scores (zset_fresh z) = scores z"
proof -
  let ?ns = "map (\<lambda>(b, w). (es_make b, w)) (z_hash_map z)"
  have n: "map node_pair ?ns = z_hash_map z"
    using assms by (auto simp: zset_inv_def pairs_ok_def list_all_iff node_pair_def intro!: map_idI)
  have "fold (\<lambda>(b, w). zs_insert (es_make b, w)) (z_hash_map z) [] = fold zs_insert ?ns []"
    by (simp add: fold_map comp_def split_def)
  moreover have "mset (fold zs_insert ?ns []) = mset ?ns"
    using mset_zs_inserts [of ?ns "[]"] n assms by (simp add: zset_inv_def)
  ultimately have "mset (z_ordered_set (zset_fresh z)) = mset ?ns" by (simp add: zset_fresh_def)
  then have "mset (map node_pair (z_ordered_set (zset_fresh z))) = mset (z_hash_map z)"
    using arg_cong [OF n, of mset] by (simp only: mset_map)
  then show "zset_inv (zset_fresh z)" using assms by (simp add: zset_inv_def) (simp add: zset_fresh_def)
  show "scores (zset_fresh z) = scores z" by (simp add: scores_def zset_fresh_def)
qed

lemma zset_copy_fold:
  assumes "pairs_ok (z_hash_map z @ map node_pair ns)"
  shows "fold (\<lambda>(field, score) z.
          z\<lparr>z_ordered_set := zs_insert (Clone field, score) (z_ordered_set z),
            z_hash_map := (if map_of (z_hash_map z) (StringView (Clone field)) = None
                           then z_hash_map z @ [(StringView (Clone field), score)] else z_hash_map z)\<rparr>) ns z =
    z\<lparr>z_ordered_set := fold zs_insert (map (\<lambda>(f, w). (Clone f, w)) ns) (z_ordered_set z),
      z_hash_map := z_hash_map z @ map node_pair ns\<rparr>"
  using assms
proof (induction ns arbitrary: z)
  case (Cons n ns)
  obtain f w where n: "n = (f, w)" by (cases n)
  have f: "es_short f" using Cons.prems by (simp add: n pairs_ok_def node_pair_def es_short_def)
  have "map_of (z_hash_map z) (StringView f) = None"
    using Cons.prems by (auto simp: n pairs_ok_def node_pair_def map_of_eq_None_iff)
  with Cons f show ?case by (simp add: n node_pair_def)
qed simp

lemma zset_copy_eq:
  assumes "zset_inv z"
  shows "zset_copy z = \<lparr>z_ordered_set = fold zs_insert (map (\<lambda>(f, w). (Clone f, w)) (z_ordered_set z)) [],
      z_hash_map = map node_pair (z_ordered_set z), zset_slen = zset_slen z\<rparr>"
proof -
  have "mset (map node_pair (z_ordered_set z)) = mset (z_hash_map z)" using assms by (simp add: zset_inv_def)
  from pairs_ok_mset [OF this] have "pairs_ok (map node_pair (z_ordered_set z))" using assms by (simp add: zset_inv_def)
  then show ?thesis unfolding zset_copy_def by (subst zset_copy_fold) (simp_all add: RedisZsetObject_def)
qed

lemma zset_copy_inv:
  assumes "zset_inv z"
  shows "zset_inv (zset_copy z)" "scores (zset_copy z) = scores z"
proof -
  let ?os = "z_ordered_set z" and ?ns = "map (\<lambda>(f, w). (Clone f, w)) (z_ordered_set z)"
  have m: "mset (map node_pair ?os) = mset (z_hash_map z)" using assms by (simp add: zset_inv_def)
  have ok: "pairs_ok (map node_pair ?os)" using assms pairs_ok_mset [OF m] by (simp add: zset_inv_def)
  then have s: "es_short f" if "(f, w) \<in> set ?os" for f w
    using that by (auto simp: pairs_ok_def list_all_iff node_pair_def es_short_def)
  then have n: "map node_pair ?ns = map node_pair ?os" by (auto simp: node_pair_def)
  note c = zset_copy_eq [OF assms]
  have "mset (fold zs_insert ?ns []) = mset ?ns"
    using mset_zs_inserts [of ?ns "[]"] ok unfolding n by simp
  then have "mset (map node_pair (fold zs_insert ?ns [])) = mset (map node_pair ?os)"
    using arg_cong [OF n, of mset] by (simp only: mset_map)
  moreover have "(\<Sum>fs \<leftarrow> map node_pair ?os. 12 + of_nat (length (fst fs))) =
      (\<Sum>fs \<leftarrow> z_hash_map z. 12 + of_nat (length (fst fs)) :: u64)"
    using arg_cong [OF m, of "\<lambda>M. sum_mset (image_mset (\<lambda>fs. 12 + of_nat (length (fst fs)) :: u64) M)"]
    by (simp only: sum_mset_sum_list mset_map [symmetric])
  ultimately show "zset_inv (zset_copy z)" using assms ok by (simp add: zset_inv_def c)
  have "map_of (map node_pair ?os) = map_of (z_hash_map z)"
    using map_of_mset [OF m] ok by (simp add: pairs_ok_def)
  then show "scores (zset_copy z) = scores z" by (simp add: scores_def c)
qed

end
