(* ===== verification/RedisObject.thy ===== *)
theory RedisObject
  imports ListObject HashObject SetObject StringObject ZsetObject
begin

unbundle bit_operations_syntax

text \<open>
  The objects behind \<^verbatim>\<open>RedisEloqObject\<close> (\<^verbatim>\<open>include/redis_object.h\<close>, \<^verbatim>\<open>src/redis_object.cpp\<close>): a value
  of one of the five types, with or without a time to live (the \<^verbatim>\<open>...TTLObject\<close> subclasses), reading
  an object of any type from its image, and the commands that work on every type
  (\<^verbatim>\<open>src/redis_command.cpp\<close>): \<^verbatim>\<open>EXPIRE\<close>, \<^verbatim>\<open>PERSIST\<close>, \<^verbatim>\<open>TYPE\<close>, \<^verbatim>\<open>DEL\<close>, \<^verbatim>\<open>EXISTS\<close> and the log record
  \<^verbatim>\<open>RECOVER\<close> that restores an object whose time to live was replaced.  The clock of the engine is a
  parameter.
\<close>

section \<open>Objects\<close>

datatype redis_value =
    VString string_obj
  | VList list_obj
  | VHash hash_obj
  | VSet set_obj
  | VZset zset_obj

record redis_object =
  rvalue :: redis_value
  rttl :: "nat option"

fun ObjectType :: "redis_value \<Rightarrow> redis_object_type" where
  "ObjectType (VString _) = TString"
| "ObjectType (VList _) = TList"
| "ObjectType (VHash _) = THash"
| "ObjectType (VSet _) = TSet"
| "ObjectType (VZset _) = TZset"

definition HasTTL :: "redis_object \<Rightarrow> bool" where
  "HasTTL obj \<longleftrightarrow> rttl obj \<noteq> None"

text \<open>
  \<^verbatim>\<open>AddTTL\<close> moves the value into an object with a time to live.  The constructors of lists and sorted
  sets take a \<^verbatim>\<open>const &&\<close>, so those two are copied.
\<close>

fun ttl_value :: "redis_value \<Rightarrow> redis_value" where
  "ttl_value (VString s) = VString \<lparr>str_obj = fst (es_move (str_obj s))\<rparr>"
| "ttl_value (VList l) = VList (list_copy l)"
| "ttl_value (VHash h) = VHash h"
| "ttl_value (VSet s) = VSet s"
| "ttl_value (VZset z) = VZset (zset_copy z)"

definition AddTTL :: "redis_object \<Rightarrow> nat \<Rightarrow> redis_object" where
  "AddTTL obj ttl = \<lparr>rvalue = ttl_value (rvalue obj), rttl = Some ttl\<rparr>"

definition SetTTL :: "redis_object \<Rightarrow> nat \<Rightarrow> redis_object" where
  "SetTTL obj ttl = obj\<lparr>rttl := Some ttl\<rparr>"

fun plain_value :: "redis_value \<Rightarrow> redis_value" where
  "plain_value (VString s) = VString \<lparr>str_obj = fst (es_move (str_obj s))\<rparr>"
| "plain_value v = v"

definition RemoveTTL :: "redis_object \<Rightarrow> redis_object" where
  "RemoveTTL obj = \<lparr>rvalue = plain_value (rvalue obj), rttl = None\<rparr>"

section \<open>Images of any type\<close>

definition robj_Serialize :: "redis_object \<Rightarrow> bytes \<Rightarrow> bytes" where
  "robj_Serialize obj str =
     (case rttl obj of
        None \<Rightarrow> (case rvalue obj of
                   VString s \<Rightarrow> string_Serialize s str | VList l \<Rightarrow> list_Serialize l str
                 | VHash h \<Rightarrow> hash_Serialize h str | VSet s \<Rightarrow> set_Serialize s str
                 | VZset z \<Rightarrow> zset_Serialize z str)
      | Some ttl \<Rightarrow> (case rvalue obj of
                   VString s \<Rightarrow> string_ttl_Serialize s ttl str | VList l \<Rightarrow> list_ttl_Serialize l ttl str
                 | VHash h \<Rightarrow> hash_ttl_Serialize h ttl str | VSet s \<Rightarrow> set_ttl_Serialize s ttl str
                 | VZset z \<Rightarrow> zset_ttl_Serialize z ttl str))"

text \<open>An object type with a time to live reads its image; the first argument selects the class.\<close>

definition ttl_Deserialize :: "redis_object_type \<Rightarrow> redis_object reader" where
  "ttl_Deserialize t bs =
     (case t of
        TTLString \<Rightarrow> map_option (\<lambda>((s, ttl), r). (\<lparr>rvalue = VString s, rttl = Some ttl\<rparr>, r)) (string_ttl_Deserialize bs)
      | TTLList \<Rightarrow> map_option (\<lambda>((l, ttl), r). (\<lparr>rvalue = VList l, rttl = Some ttl\<rparr>, r)) (list_ttl_Deserialize bs)
      | TTLHash \<Rightarrow> map_option (\<lambda>((h, ttl), r). (\<lparr>rvalue = VHash h, rttl = Some ttl\<rparr>, r)) (hash_ttl_Deserialize bs)
      | TTLSet \<Rightarrow> map_option (\<lambda>((s, ttl), r). (\<lparr>rvalue = VSet s, rttl = Some ttl\<rparr>, r)) (set_ttl_Deserialize bs)
      | TTLZset \<Rightarrow> map_option (\<lambda>((z, ttl), r). (\<lparr>rvalue = VZset z, rttl = Some ttl\<rparr>, r)) (zset_ttl_Deserialize bs)
      | _ \<Rightarrow> None)"

definition types :: "redis_object_type list" where
  "types = [TString, TList, THash, TDel, TZset, TSet, TTLString, TTLList, TTLHash, TTLZset, TTLSet]"

definition type_of_tag :: "nat \<Rightarrow> redis_object_type option" where
  "type_of_tag n = find (\<lambda>t. type_tag t = n) types"

text \<open>\<^verbatim>\<open>DeserializeObject\<close>: the first byte selects the class; other bytes fail the assertion.\<close>

definition DeserializeObject :: "redis_object reader" where
  "DeserializeObject bs =
     do { (tag, _) \<leftarrow> get_u8 bs;
          obj_type \<leftarrow> type_of_tag tag;
          (case obj_type of
             TString \<Rightarrow> map_option (\<lambda>(s, r). (\<lparr>rvalue = VString s, rttl = None\<rparr>, r)) (string_Deserialize bs)
           | TList \<Rightarrow> map_option (\<lambda>(l, r). (\<lparr>rvalue = VList l, rttl = None\<rparr>, r)) (list_Deserialize bs)
           | THash \<Rightarrow> map_option (\<lambda>(h, r). (\<lparr>rvalue = VHash h, rttl = None\<rparr>, r)) (hash_Deserialize bs)
           | TSet \<Rightarrow> map_option (\<lambda>(s, r). (\<lparr>rvalue = VSet s, rttl = None\<rparr>, r)) (set_Deserialize bs)
           | TZset \<Rightarrow> map_option (\<lambda>(z, r). (\<lparr>rvalue = VZset z, rttl = None\<rparr>, r)) (zset_Deserialize bs)
           | TDel \<Rightarrow> None
           | t \<Rightarrow> ttl_Deserialize t bs) }"

section \<open>Commands on every type\<close>

text \<open>
  What \<^verbatim>\<open>CommitOn\<close> returns: the object to keep, a null pointer (the key is deleted), or nothing that
  the language defines.
\<close>

datatype commit_result = CKeep redis_object | CRemove | CUndefined

text \<open>\<^verbatim>\<open>TypeCommand\<close>: the name of the type.\<close>

definition Type_ExecuteOn :: "redis_object \<Rightarrow> string_result \<Rightarrow> string_result \<times> exec_result" where
  "Type_ExecuteOn obj result =
     (result\<lparr>st_str := (case rvalue obj of
                            VString _ \<Rightarrow> ''string'' | VList _ \<Rightarrow> ''list'' | VHash _ \<Rightarrow> ''hash''
                          | VZset _ \<Rightarrow> ''zset'' | VSet _ \<Rightarrow> ''set''),
             st_err := RD_OK\<rparr>, ERead)"

definition Type_Serialize :: "bytes \<Rightarrow> bytes" where
  "Type_Serialize str = str @ put_u8 (cmd_type ''TYPE'')"

definition Type_OutputResult :: "string_result \<Rightarrow> reply list" where
  "Type_OutputResult result =
     (if st_err result = RD_OK then [OnStatus (st_str result)]
      else if st_err result = RD_NIL then [OnStatus ''none'']
      else [OnError (redis_get_error_messages (st_err result))])"

definition Del_ExecuteOn :: "redis_object \<Rightarrow> int_result \<Rightarrow> int_result \<times> exec_result" where
  "Del_ExecuteOn obj result = (result\<lparr>ir_val := 1, ir_err := RD_OK\<rparr>, EWrite)"

definition Del_CommitOn :: "redis_object \<Rightarrow> commit_result" where
  "Del_CommitOn obj = CRemove"

text \<open>\<^verbatim>\<open>UNLINK\<close> is the command with \<^verbatim>\<open>lazy_delete_\<close>.\<close>

definition Del_Serialize :: "bool \<Rightarrow> bytes \<Rightarrow> bytes" where
  "Del_Serialize lazy_delete str = str @ put_u8 (if lazy_delete then cmd_type ''UNLINK'' else cmd_type ''DEL'')"

definition Exists_ExecuteOn :: "int \<Rightarrow> redis_object \<Rightarrow> int_result \<Rightarrow> int_result \<times> exec_result" where
  "Exists_ExecuteOn cnt obj result = (result\<lparr>ir_val := cnt, ir_err := RD_OK\<rparr>, ERead)"

definition Exists_Serialize :: "int \<Rightarrow> bytes \<Rightarrow> bytes" where
  "Exists_Serialize cnt str = str @ put_u8 (cmd_type ''EXISTS'') @ put_i32 cnt"

definition Exists_Deserialize :: "int reader" where
  "Exists_Deserialize = get_i32"

subsection \<open>EXPIRE\<close>

definition EXPIRE_NX :: nat where "EXPIRE_NX = 1"
definition EXPIRE_XX :: nat where "EXPIRE_XX = 2"
definition EXPIRE_GT :: nat where "EXPIRE_GT = 4"
definition EXPIRE_LT :: nat where "EXPIRE_LT = 8"

definition will_set_ttl :: "nat \<Rightarrow> nat \<Rightarrow> nat \<Rightarrow> nat option \<Rightarrow> bool" where
  "will_set_ttl now expire_ts flags ttl =
     (if flags \<noteq> 0
      then case ttl of
             Some old_expire_ts \<Rightarrow>
               if old_expire_ts > now
               then if flags AND EXPIRE_XX \<noteq> 0
                    then if flags AND EXPIRE_LT \<noteq> 0 then expire_ts < old_expire_ts else True
                    else if flags AND EXPIRE_GT \<noteq> 0 \<and> expire_ts > old_expire_ts then True
                    else flags AND EXPIRE_LT \<noteq> 0 \<and> expire_ts < old_expire_ts
               else False
           | None \<Rightarrow>
               if flags AND EXPIRE_NX \<noteq> 0 then True
               else flags AND EXPIRE_LT \<noteq> 0 \<and> \<not> flags AND EXPIRE_XX \<noteq> 0
      else True)"

text \<open>The third component is the image that the \<^verbatim>\<open>RECOVER\<close> record keeps.\<close>

definition Expire_ExecuteOn :: "nat \<Rightarrow> nat \<Rightarrow> nat \<Rightarrow> redis_object \<Rightarrow> int_result \<Rightarrow>
    int_result \<times> exec_result \<times> bytes option" where
  "Expire_ExecuteOn now expire_ts flags obj result =
     (if \<not> will_set_ttl now expire_ts flags (rttl obj) then (result\<lparr>ir_err := RD_NIL\<rparr>, ERead, None)
      else (result\<lparr>ir_err := RD_OK\<rparr>, EWrite, if HasTTL obj then Some (robj_Serialize obj []) else None))"

text \<open>
  \<^verbatim>\<open>ObjectType\<close> never names a TTL class, so the branch taken is always the one that calls \<^verbatim>\<open>AddTTL\<close>,
  which the TTL classes inherit.
\<close>

definition Expire_CommitOn :: "nat \<Rightarrow> redis_object \<Rightarrow> commit_result" where
  "Expire_CommitOn expire_ts obj = CKeep (AddTTL obj expire_ts)"

definition Expire_Serialize :: "nat \<Rightarrow> nat \<Rightarrow> bytes \<Rightarrow> bytes" where
  "Expire_Serialize expire_ts flags str =
     str @ put_u8 (cmd_type ''EXPIRE'') @ put_u64 expire_ts @ put_u8 flags"

definition Expire_Deserialize :: "(nat \<times> nat) reader" where
  "Expire_Deserialize bs =
     do { (expire_ts, bs1) \<leftarrow> get_u64 bs; (flags, bs2) \<leftarrow> get_u8 bs1; Some ((expire_ts, flags), bs2) }"

definition Expire_OutputResult :: "int_result \<Rightarrow> reply list" where
  "Expire_OutputResult result =
     (if ir_err result = RD_OK then [OnInt 1]
      else if ir_err result = RD_NIL then [OnInt 0]
      else [OnError (redis_get_error_messages (ir_err result))])"

subsection \<open>PERSIST and RECOVER\<close>

definition Persist_ExecuteOn :: "redis_object \<Rightarrow> rd_err \<times> exec_result \<times> bytes option" where
  "Persist_ExecuteOn obj =
     (if \<not> HasTTL obj then (RD_NIL, ERead, None)
      else (RD_OK, EWrite, Some (robj_Serialize obj [])))"

definition Persist_CommitOn :: "redis_object \<Rightarrow> commit_result" where
  "Persist_CommitOn obj = CKeep (if HasTTL obj then RemoveTTL obj else obj)"

definition Persist_Serialize :: "bytes \<Rightarrow> bytes" where
  "Persist_Serialize str = str @ put_u8 (cmd_type ''PERSIST'')"

definition Persist_OutputResult :: "rd_err \<Rightarrow> reply list" where
  "Persist_OutputResult err =
     (if err = RD_OK then [OnInt 1] else if err = RD_NIL then [OnInt 0]
      else [OnError (redis_get_error_messages err)])"

fun ttl_type :: "redis_value \<Rightarrow> redis_object_type" where
  "ttl_type (VString _) = TTLString"
| "ttl_type (VList _) = TTLList"
| "ttl_type (VHash _) = TTLHash"
| "ttl_type (VSet _) = TTLSet"
| "ttl_type (VZset _) = TTLZset"

text \<open>
  \<^verbatim>\<open>RecoverObjectCommand::CommitOn\<close> reads the image into the object, or into a new object of the class
  the image names when the object has no time to live; then a class that does not match is undefined.
\<close>

definition Recover_CommitOn :: "bytes \<Rightarrow> redis_object \<Rightarrow> commit_result" where
  "Recover_CommitOn img obj =
     (case do { (tag, _) \<leftarrow> get_u8 img;
                t \<leftarrow> type_of_tag tag;
                (if \<not> HasTTL obj \<and> t \<noteq> ttl_type (rvalue obj) then None
                 else ttl_Deserialize (ttl_type (rvalue obj)) img) } of
        Some (obj', _) \<Rightarrow> CKeep obj'
      | None \<Rightarrow> CUndefined)"

definition Recover_Serialize :: "bytes \<Rightarrow> bytes \<Rightarrow> bytes" where
  "Recover_Serialize img str =
     str @ put_u8 (cmd_type ''RECOVER'') @ put_u32 (length img) @ take (length img mod 2 ^ 32) img"

definition Recover_Deserialize :: "bytes reader" where
  "Recover_Deserialize bs = do { (len, bs1) \<leftarrow> get_u32 bs; get_raw len bs1 }"

section \<open>Invariant and value\<close>

fun value_inv :: "redis_value \<Rightarrow> bool" where
  "value_inv (VString s) = string_inv s"
| "value_inv (VList l) = (list_inv l \<and> length (elems l) < 2 ^ 32)"
| "value_inv (VHash h) = (hash_inv h \<and> length (hash_map h) < 2 ^ 32)"
| "value_inv (VSet s) = (set_inv s \<and> length (hash_set s) < 2 ^ 32)"
| "value_inv (VZset z) = (zset_inv z \<and> length (z_hash_map z) < 2 ^ 32)"

definition robj_inv :: "redis_object \<Rightarrow> bool" where
  "robj_inv obj \<longleftrightarrow> value_inv (rvalue obj) \<and> (\<forall>ttl. rttl obj = Some ttl \<longrightarrow> ttl < 2 ^ 64)"

text \<open>What a client can observe of a value.\<close>

datatype redis_content =
    CString bytes
  | CList "bytes list"
  | CHash "bytes \<Rightarrow> bytes option"
  | CSet "bytes set"
  | CZset "bytes \<Rightarrow> u64 option"

fun content :: "redis_value \<Rightarrow> redis_content" where
  "content (VString s) = CString (sval s)"
| "content (VList l) = CList (elems l)"
| "content (VHash h) = CHash (hfields h)"
| "content (VSet s) = CSet (members s)"
| "content (VZset z) = CZset (scores z)"

text \<open>The object that reading an image makes.\<close>

fun value_fresh :: "redis_value \<Rightarrow> redis_value" where
  "value_fresh (VString s) = VString \<lparr>str_obj = Clone (str_obj s)\<rparr>"
| "value_fresh (VList l) = VList (list_copy l)"
| "value_fresh (VHash h) = VHash (hash_fresh h)"
| "value_fresh (VSet s) = VSet (set_fresh s)"
| "value_fresh (VZset z) = VZset (zset_fresh z)"

lemma content_fresh: "value_inv v \<Longrightarrow> content (value_fresh v) = content v"
  by (cases v) (simp_all add: sval_def string_inv_short elems_list_copy hfields_fresh members_fresh zset_fresh_inv)

lemma value_inv_fresh:
  assumes "value_inv v"
  shows "value_inv (value_fresh v)"
proof (cases v)
  case (VString s)
  then show ?thesis using assms string_inv_short [of s] by (simp add: string_inv_def)
next
  case (VZset z)
  then show ?thesis using assms zset_fresh_inv [of z] by (simp add: zset_fresh_def)
qed (use assms in \<open>simp_all add: elems_list_copy list_copy_inv hash_fresh_inv set_fresh_inv,
     simp_all add: hash_fresh_def set_fresh_def\<close>)

text \<open>An image says which class wrote it, and that class reads it back.\<close>

lemma type_of_tag_tag [simp]: "type_of_tag (type_tag t) = Some t"
  by (cases t) (simp_all add: type_of_tag_def types_def)

lemma type_tag_byte [simp]: "type_tag t < 256"
  by (cases t) simp_all

definition class_of :: "redis_object \<Rightarrow> redis_object_type" where
  "class_of obj = (if HasTTL obj then ttl_type (rvalue obj) else ObjectType (rvalue obj))"

lemma robj_image_tag:
  "\<exists>bs. robj_Serialize obj [] = put_u8 (type_tag (class_of obj)) @ bs"
  by (cases "rvalue obj"; cases "rttl obj")
     (simp_all add: robj_Serialize_def class_of_def HasTTL_def string_Serialize_def string_ttl_Serialize_def
        list_Serialize_def list_ttl_Serialize_def hash_Serialize_def hash_ttl_Serialize_def
        set_Serialize_def set_ttl_Serialize_def zset_Serialize_def zset_ttl_Serialize_def)

lemma ttl_Deserialize_spec:
  assumes "robj_inv obj" "HasTTL obj"
  shows "ttl_Deserialize (ttl_type (rvalue obj)) (robj_Serialize obj [] @ rest) =
     Some (\<lparr>rvalue = value_fresh (rvalue obj), rttl = rttl obj\<rparr>, rest)"
  using assms
  by (cases "rvalue obj")
     (auto simp: robj_inv_def HasTTL_def ttl_Deserialize_def robj_Serialize_def string_ttl_Deserialize_spec
        list_ttl_Deserialize_spec hash_ttl_Deserialize_spec set_ttl_Deserialize_spec zset_ttl_Deserialize_spec)

lemma DeserializeObject_spec:
  assumes "robj_inv obj"
  shows "DeserializeObject (robj_Serialize obj [] @ rest) =
     Some (\<lparr>rvalue = value_fresh (rvalue obj), rttl = rttl obj\<rparr>, rest)"
proof -
  obtain bs where b: "robj_Serialize obj [] = put_u8 (type_tag (class_of obj)) @ bs"
    using robj_image_tag by blast
  then have t: "get_u8 (robj_Serialize obj [] @ rest) = Some (type_tag (class_of obj), bs @ rest)"
    by simp
  show ?thesis
  proof (cases "HasTTL obj")
    case True
    then show ?thesis
      using ttl_Deserialize_spec [OF assms True, of rest] t
      by (cases "rvalue obj") (simp_all add: DeserializeObject_def class_of_def type_of_tag_def types_def)
  next
    case False
    then show ?thesis
      using assms t
      by (cases "rvalue obj")
         (auto simp: DeserializeObject_def class_of_def type_of_tag_def types_def robj_inv_def HasTTL_def robj_Serialize_def
            string_Deserialize_spec list_Deserialize_spec hash_Deserialize_spec set_Deserialize_spec
            zset_Deserialize_spec)
  qed
qed

text \<open>Changing the time to live never changes the value.\<close>

lemma es_move_string:
  assumes "string_inv s"
  shows "string_inv \<lparr>str_obj = fst (es_move (str_obj s))\<rparr>" "sval \<lparr>str_obj = fst (es_move (str_obj s))\<rparr> = sval s"
  using assms
  by (cases "str_obj s"; simp add: string_inv_def sval_def storable_def es_move.simps owned_def es_short_def)+

lemma ttl_value_content:
  assumes "value_inv v"
  shows "content (ttl_value v) = content v" "value_inv (ttl_value v)"
    and "content (plain_value v) = content v" "value_inv (plain_value v)"
proof -
  have "length (z_hash_map (zset_copy z)) = length (z_hash_map z)" if "zset_inv z" for z
  proof -
    have "mset (map node_pair (z_ordered_set z)) = mset (z_hash_map z)" using that by (simp add: zset_inv_def)
    moreover have "z_hash_map (zset_copy z) = map node_pair (z_ordered_set z)"
      using that pairs_ok_mset [OF calculation] unfolding zset_copy_def
      by (subst zset_copy_fold) (simp_all add: RedisZsetObject_def zset_inv_def)
    ultimately show ?thesis by (metis mset_eq_length)
  qed
  then show "content (ttl_value v) = content v" "value_inv (ttl_value v)"
      "content (plain_value v) = content v" "value_inv (plain_value v)"
    using assms by (cases v; simp add: es_move_string elems_list_copy list_copy_inv zset_copy_inv)+
qed

end
