(* ===== verification/Command.thy ===== *)
theory Command
  imports RedisObject
begin

text \<open>
  The protocol between a command and the engine that runs it.  \<^verbatim>\<open>ExecuteOn\<close> inspects an object without
  changing it and decides (\<^typ>\<open>exec_result\<close>); the engine calls \<^verbatim>\<open>CommitOn\<close> only after a decision to
  write or to delete, with the command as \<^verbatim>\<open>ExecuteOn\<close> left it.  The locale states what the engine
  may rely on, and each family of commands is an interpretation of it.
\<close>

section \<open>Histories\<close>

text \<open>
  A history of an object: every step is one command that decided to write, and its commit.  A
  command that proceeds on a missing key starts from the object that \<^verbatim>\<open>CreateObject\<close> makes.
\<close>

inductive history ::
  "('c \<Rightarrow> redis_object \<Rightarrow> 'c \<times> 'r \<times> exec_result) \<Rightarrow> ('c \<Rightarrow> redis_object \<Rightarrow> commit_result) \<Rightarrow>
   ('c \<Rightarrow> redis_object \<Rightarrow> bool) \<Rightarrow> redis_object \<Rightarrow> 'c list \<Rightarrow> redis_object \<Rightarrow> bool"
  for ex cm ok where
  history_Nil: "history ex cm ok ob [] ob"
| history_Cons: "ok c ob \<Longrightarrow> ex c ob = (c', r, EWrite) \<Longrightarrow> cm c' ob = CKeep ob1 \<Longrightarrow>
    history ex cm ok ob1 cs ob2 \<Longrightarrow> history ex cm ok ob (c # cs) ob2"

inductive_simps history_simps: "history ex cm ok ob [] ob'" "history ex cm ok ob (c # cs) ob'"

section \<open>The contract\<close>

locale object_command =
  fixes execute :: "'c \<Rightarrow> redis_object \<Rightarrow> 'c \<times> 'r \<times> exec_result"
    and commit :: "'c \<Rightarrow> redis_object \<Rightarrow> commit_result"
    and ok :: "'c \<Rightarrow> redis_object \<Rightarrow> bool"
    and inv :: "redis_object \<Rightarrow> bool"
    and empty :: "redis_object \<Rightarrow> bool"
  assumes write_keeps: "inv ob \<Longrightarrow> ok c ob \<Longrightarrow> execute c ob = (c', r, EWrite) \<Longrightarrow>
      \<exists>ob'. commit c' ob = CKeep ob' \<and> inv ob' \<and> \<not> empty ob'"
    and delete_removes: "inv ob \<Longrightarrow> ok c ob \<Longrightarrow> execute c ob = (c', r, EDelete) \<Longrightarrow> commit c' ob = CRemove"
begin

lemma commit_defined:
  "inv ob \<Longrightarrow> ok c ob \<Longrightarrow> execute c ob = (c', r, d) \<Longrightarrow> d = EWrite \<or> d = EDelete \<Longrightarrow>
   commit c' ob \<noteq> CUndefined \<and> (commit c' ob = CRemove \<longleftrightarrow> d = EDelete)"
  using write_keeps [of ob c c' r] delete_removes [of ob c c' r] by auto

lemma history_keeps:
  "history execute commit ok ob cs ob' \<Longrightarrow> inv ob \<Longrightarrow> inv ob' \<and> (cs \<noteq> [] \<longrightarrow> \<not> empty ob')"
proof (induction rule: history.induct)
  case (history_Cons c ob c' r ob1 cs ob2)
  then have "inv ob1 \<and> \<not> empty ob1"
    using write_keeps [of ob c c' r] by auto
  with history_Cons show ?case by (cases cs) (auto simp: history_simps)
qed simp

end

text \<open>Most commands also leave the time to live as it is.\<close>

locale ttl_keeping_command = object_command +
  assumes write_ttl: "inv ob \<Longrightarrow> ok c ob \<Longrightarrow> execute c ob = (c', r, EWrite) \<Longrightarrow>
      commit c' ob = CKeep ob' \<Longrightarrow> rttl ob' = rttl ob"
begin

lemma history_ttl:
  "history execute commit ok ob cs ob' \<Longrightarrow> inv ob \<Longrightarrow> rttl ob' = rttl ob"
proof (induction rule: history.induct)
  case (history_Cons c ob c' r ob1 cs ob2)
  then have "inv ob1" using write_keeps [of ob c c' r] by auto
  with history_Cons show ?case using write_ttl [of ob c c' r ob1] by simp
qed simp

end

section \<open>Parts the families share\<close>

text \<open>\<^verbatim>\<open>state == Modified ? Write : Fail\<close>.\<close>

definition write_or_fail :: "command_execute_state \<Rightarrow> exec_result" where
  "write_or_fail st = (if st = Modified then EWrite else EFail)"

text \<open>The switch of the removing commands.\<close>

fun exec_of_state :: "command_execute_state \<Rightarrow> exec_result" where
  "exec_of_state NoChange = EFail"
| "exec_of_state Modified = EWrite"
| "exec_of_state ModifiedToEmpty = EDelete"

fun first_of :: "'a list \<Rightarrow> 'a option" where
  "first_of [] = None"
| "first_of (x # xs) = Some x"

lemma write_or_fail_simps [simp]:
  "write_or_fail st = EWrite \<longleftrightarrow> st = Modified" "write_or_fail st \<noteq> EDelete" "EDelete \<noteq> write_or_fail st"
  by (simp_all add: write_or_fail_def)

definition replies :: "reply list option \<Rightarrow> bool" where
  "replies out = (case out of Some rs \<Rightarrow> one_reply rs | None \<Rightarrow> False)"

lemma replies_simps [simp]:
  "replies (Some rs) = one_reply rs" "\<not> replies None"
  "list_all scalar_reply ss \<Longrightarrow> one_reply (array_reply ss)"
  by (simp_all add: replies_def)

lemma first_of_some: "xs \<noteq> [] \<Longrightarrow> first_of xs = Some (hd xs)"
  by (cases xs) simp_all

text \<open>A string argument in the form in which an image gives it back.\<close>

definition arg :: "eloq_string \<Rightarrow> bool" where
  "arg e \<longleftrightarrow> es_short e \<and> canonical e"

lemma get_put_arg [simp]: "arg e \<Longrightarrow> get_string (put_string e @ rest) = Some (e, rest)"
  unfolding arg_def by (rule es.dec_enc)

lemma arg_make [simp]: "arg e \<Longrightarrow> es_make (take (es_length e) (StringView e)) = e"
  by (simp add: arg_def) (simp add: canonical_def Clone_def)

lemma get_put_args [simp]:
  "list_all arg es \<Longrightarrow> length es < 2 ^ 32 \<Longrightarrow>
   get_vec get_string (put_vec put_string es @ rest) = Some (es, rest)"
  unfolding arg_def by (rule es_vec.dec_enc) simp

end
