(* ===== verification/ListCommands.thy ===== *)
theory ListCommands
  imports Command
begin

text \<open>
  The list commands (\<^verbatim>\<open>src/redis_command.cpp\<close>, \<^verbatim>\<open>LPushCommand\<close> to \<^verbatim>\<open>BlockLPopCommand\<close>): for each its
  \<^verbatim>\<open>ExecuteOn\<close>, \<^verbatim>\<open>CommitOn\<close>, \<^verbatim>\<open>Serialize\<close>, \<^verbatim>\<open>Deserialize\<close> and \<^verbatim>\<open>OutputResult\<close>.  A command is a
  constructor of \<open>list_cmd\<close> with the fields of the class; its result is passed separately.
  \<^verbatim>\<open>OutputResult\<close> returns \<^term>\<open>None\<close> where it throws (the wrong alternative of the variant) or reads
  past the end of a vector.
\<close>

section \<open>Shared parts\<close>

text \<open>\<^verbatim>\<open>ListCommand::CheckTypeMatch\<close> and the branch every \<^verbatim>\<open>ExecuteOn\<close> starts with.\<close>

definition on_list :: "redis_object \<Rightarrow> list_result \<Rightarrow> (list_obj \<Rightarrow> list_result \<times> exec_result) \<Rightarrow>
    list_result \<times> exec_result" where
  "on_list obj result f =
     (case rvalue obj of VList l \<Rightarrow> f l | _ \<Rightarrow> (result\<lparr>lr_err := RD_ERR_WRONG_TYPE\<rparr>, EFail))"

definition list_CreateObject :: redis_object where
  "list_CreateObject = \<lparr>rvalue = VList RedisListObject, rttl = None\<rparr>"

text \<open>The \<^verbatim>\<open>static_cast\<close> of \<^verbatim>\<open>CommitOn\<close>, undefined on another type, and a \<^verbatim>\<open>Commit\<close> function whose assertion may fail.\<close>

definition commit_list :: "redis_object \<Rightarrow> (list_obj \<Rightarrow> (list_obj \<times> bool) option) \<Rightarrow> commit_result" where
  "commit_list obj f =
     (case rvalue obj of
        VList l \<Rightarrow> (case f l of
                      Some (l', emptied) \<Rightarrow> if emptied then CRemove else CKeep (obj\<lparr>rvalue := VList l'\<rparr>)
                    | None \<Rightarrow> CUndefined)
      | _ \<Rightarrow> CUndefined)"

text \<open>A commit that leaves an element in the list, with what the moves leave of the arguments.\<close>

definition kept :: "(list_obj \<times> 'b) option \<Rightarrow> (list_obj \<times> bool) option" where
  "kept x = map_option (\<lambda>(l, _). (l, False)) x"

text \<open>\<^verbatim>\<open>std::get\<close> of the result variant.\<close>

fun get_strings :: "list_payload \<Rightarrow> bytes list option" where
  "get_strings (StringVector xs) = Some xs"
| "get_strings _ = None"

fun get_ints :: "list_payload \<Rightarrow> int list option" where
  "get_ints (Int64Vector xs) = Some xs"
| "get_ints _ = None"

fun get_std_string :: "list_payload \<Rightarrow> bytes option" where
  "get_std_string (PString s) = Some s"
| "get_std_string _ = None"

fun get_eloq_string :: "list_payload \<Rightarrow> eloq_string option" where
  "get_eloq_string (PEloqString s) = Some s"
| "get_eloq_string _ = None"

definition error_reply :: "list_result \<Rightarrow> reply list option" where
  "error_reply result = Some [OnError (redis_get_error_messages (lr_err result))]"

section \<open>The commands\<close>

subsection \<open>LPUSH\<close>

definition LPush_ExecuteOn :: "eloq_string list \<Rightarrow> redis_object \<Rightarrow> list_result \<Rightarrow> list_result \<times> exec_result" where
  "LPush_ExecuteOn elements obj result =
     on_list obj result (\<lambda>l.
       let (r, st) = Execute_LPush l elements result in (r, write_or_fail st))"

definition LPush_CommitOn :: "eloq_string list \<Rightarrow> redis_object \<Rightarrow> commit_result" where
  "LPush_CommitOn elements obj = commit_list obj (\<lambda>l. kept (CommitLPush l elements))"

definition LPush_Serialize :: "eloq_string list \<Rightarrow> bytes \<Rightarrow> bytes" where
  "LPush_Serialize elements str = str @ put_u8 (cmd_type ''LPUSH'') @ put_vec put_string elements"

definition LPush_Deserialize :: "eloq_string list reader" where
  "LPush_Deserialize = get_vec get_string"

definition LPush_OutputResult :: "list_result \<Rightarrow> reply list option" where
  "LPush_OutputResult result =
     (if lr_err result = RD_OK then Some [OnInt (lr_ret result)]
      else error_reply result)"

subsection \<open>RPUSH\<close>

definition RPush_ExecuteOn :: "eloq_string list \<Rightarrow> redis_object \<Rightarrow> list_result \<Rightarrow> list_result \<times> exec_result" where
  "RPush_ExecuteOn elements obj result =
     on_list obj result (\<lambda>l.
       let (r, st) = Execute_RPush l elements result in (r, write_or_fail st))"

definition RPush_CommitOn :: "eloq_string list \<Rightarrow> redis_object \<Rightarrow> commit_result" where
  "RPush_CommitOn elements obj = commit_list obj (\<lambda>l. kept (CommitRPush l elements))"

definition RPush_Serialize :: "eloq_string list \<Rightarrow> bytes \<Rightarrow> bytes" where
  "RPush_Serialize elements str = str @ put_u8 (cmd_type ''RPUSH'') @ put_vec put_string elements"

definition RPush_Deserialize :: "eloq_string list reader" where
  "RPush_Deserialize = get_vec get_string"

definition RPush_OutputResult :: "list_result \<Rightarrow> reply list option" where
  "RPush_OutputResult result =
     (if lr_err result = RD_OK then Some [OnInt (lr_ret result)]
      else error_reply result)"

subsection \<open>LPUSHX\<close>

definition LPushX_ExecuteOn :: "eloq_string list \<Rightarrow> redis_object \<Rightarrow> list_result \<Rightarrow> list_result \<times> exec_result" where
  "LPushX_ExecuteOn elements obj result =
     on_list obj result (\<lambda>l.
       let (r, st) = Execute_LPushX l elements (result\<lparr>lr_err := RD_OK\<rparr>) in (r, write_or_fail st))"

definition LPushX_CommitOn :: "eloq_string list \<Rightarrow> redis_object \<Rightarrow> commit_result" where
  "LPushX_CommitOn elements obj = commit_list obj (\<lambda>l. kept (CommitLPush l elements))"

definition LPushX_Serialize :: "eloq_string list \<Rightarrow> bytes \<Rightarrow> bytes" where
  "LPushX_Serialize elements str = str @ put_u8 (cmd_type ''LPUSHX'') @ put_vec put_string elements"

definition LPushX_Deserialize :: "eloq_string list reader" where
  "LPushX_Deserialize = get_vec get_string"

definition LPushX_OutputResult :: "list_result \<Rightarrow> reply list option" where
  "LPushX_OutputResult result =
     (if lr_err result = RD_OK then Some [OnInt (lr_ret result)]
      else if lr_err result = RD_NIL then Some [OnInt 0]
      else error_reply result)"

subsection \<open>RPUSHX\<close>

definition RPushX_ExecuteOn :: "eloq_string list \<Rightarrow> redis_object \<Rightarrow> list_result \<Rightarrow> list_result \<times> exec_result" where
  "RPushX_ExecuteOn elements obj result =
     on_list obj result (\<lambda>l.
       let (r, st) = Execute_RPushX l elements (result\<lparr>lr_err := RD_OK\<rparr>) in (r, write_or_fail st))"

definition RPushX_CommitOn :: "eloq_string list \<Rightarrow> redis_object \<Rightarrow> commit_result" where
  "RPushX_CommitOn elements obj = commit_list obj (\<lambda>l. kept (CommitRPush l elements))"

definition RPushX_Serialize :: "eloq_string list \<Rightarrow> bytes \<Rightarrow> bytes" where
  "RPushX_Serialize elements str = str @ put_u8 (cmd_type ''RPUSHX'') @ put_vec put_string elements"

definition RPushX_Deserialize :: "eloq_string list reader" where
  "RPushX_Deserialize = get_vec get_string"

definition RPushX_OutputResult :: "list_result \<Rightarrow> reply list option" where
  "RPushX_OutputResult result =
     (if lr_err result = RD_OK then Some [OnInt (lr_ret result)]
      else if lr_err result = RD_NIL then Some [OnInt 0]
      else error_reply result)"

subsection \<open>LPOP\<close>

definition LPop_ExecuteOn :: "int \<Rightarrow> redis_object \<Rightarrow> list_result \<Rightarrow> list_result \<times> exec_result" where
  "LPop_ExecuteOn count0 obj result =
     on_list obj result (\<lambda>l.
       let (r, st) = Execute_LPop l count0 result in (r, exec_of_state st))"

definition LPop_CommitOn :: "int \<Rightarrow> redis_object \<Rightarrow> commit_result" where
  "LPop_CommitOn count0 obj = commit_list obj (\<lambda>l. CommitLPop l (if count0 = -1 then 1 else count0))"

definition LPop_Serialize :: "int \<Rightarrow> bytes \<Rightarrow> bytes" where
  "LPop_Serialize count0 str = str @ put_u8 (cmd_type ''LPOP'') @ put_i64 count0"

definition LPop_Deserialize :: "int reader" where
  "LPop_Deserialize = get_i64"

definition LPop_OutputResult :: "int \<Rightarrow> list_result \<Rightarrow> reply list option" where
  "LPop_OutputResult count0 result =
     (if lr_err result = RD_OK
      then if count0 = -1
           then do { xs \<leftarrow> get_strings (lr_result result); x \<leftarrow> first_of xs; Some [OnString x] }
           else map_option (\<lambda>xs. array_reply (map OnString xs)) (get_strings (lr_result result))
      else if lr_err result = RD_NIL then Some [OnNil]
      else error_reply result)"

subsection \<open>RPOP\<close>

definition RPop_ExecuteOn :: "int \<Rightarrow> redis_object \<Rightarrow> list_result \<Rightarrow> list_result \<times> exec_result" where
  "RPop_ExecuteOn count0 obj result =
     on_list obj result (\<lambda>l.
       let (r, st) = Execute_RPop l count0 result in (r, exec_of_state st))"

definition RPop_CommitOn :: "int \<Rightarrow> redis_object \<Rightarrow> commit_result" where
  "RPop_CommitOn count0 obj = commit_list obj (\<lambda>l. CommitRPop l (if count0 = -1 then 1 else count0))"

definition RPop_Serialize :: "int \<Rightarrow> bytes \<Rightarrow> bytes" where
  "RPop_Serialize count0 str = str @ put_u8 (cmd_type ''RPOP'') @ put_i64 count0"

definition RPop_Deserialize :: "int reader" where
  "RPop_Deserialize = get_i64"

definition RPop_OutputResult :: "int \<Rightarrow> list_result \<Rightarrow> reply list option" where
  "RPop_OutputResult count0 result =
     (if lr_err result = RD_OK
      then if count0 = -1
           then do { xs \<leftarrow> get_strings (lr_result result); x \<leftarrow> first_of xs; Some [OnString x] }
           else map_option (\<lambda>xs. array_reply (map OnString xs)) (get_strings (lr_result result))
      else if lr_err result = RD_NIL then Some [OnNil]
      else error_reply result)"

subsection \<open>LMOVE: the pop\<close>

definition LMovePop_ExecuteOn :: "bool \<Rightarrow> redis_object \<Rightarrow> list_result \<Rightarrow> list_result \<times> exec_result" where
  "LMovePop_ExecuteOn is_left obj result =
     on_list obj result (\<lambda>l.
       let (r, st) = Execute_LMovePop l is_left result in (r, exec_of_state st))"

definition LMovePop_CommitOn :: "bool \<Rightarrow> redis_object \<Rightarrow> commit_result" where
  "LMovePop_CommitOn is_left obj = commit_list obj (\<lambda>l. CommitLMovePop l is_left)"

definition LMovePop_Serialize :: "bool \<Rightarrow> bytes \<Rightarrow> bytes" where
  "LMovePop_Serialize is_left str = str @ put_u8 (cmd_type ''LMOVEPOP'') @ put_bool is_left"

definition LMovePop_Deserialize :: "bool reader" where
  "LMovePop_Deserialize = get_bool"

definition LMovePop_OutputResult :: "list_result \<Rightarrow> reply list option" where
  "LMovePop_OutputResult result =
     (if lr_err result = RD_OK then map_option (\<lambda>s. [OnString s]) (get_std_string (lr_result result))
      else if lr_err result = RD_NIL then Some [OnNil]
      else error_reply result)"

subsection \<open>LMOVE: the push\<close>

text \<open>The image leaves out \<^verbatim>\<open>is_in_the_middle_stage_\<close>, which is false in a command that is read.\<close>

definition LMovePush_ExecuteOn :: "eloq_string \<Rightarrow> redis_object \<Rightarrow> list_result \<Rightarrow> list_result \<times> exec_result" where
  "LMovePush_ExecuteOn element obj result =
     on_list obj result (\<lambda>l.
       let (r, st) = Execute_LMovePush l element result in (r, write_or_fail st))"

definition LMovePush_CommitOn :: "bool \<Rightarrow> eloq_string \<Rightarrow> bool \<Rightarrow> redis_object \<Rightarrow> commit_result" where
  "LMovePush_CommitOn is_left element middle obj =
     commit_list obj (\<lambda>l. kept (CommitLMovePush l is_left element middle))"

definition LMovePush_Serialize :: "bool \<Rightarrow> eloq_string \<Rightarrow> bytes \<Rightarrow> bytes" where
  "LMovePush_Serialize is_left element str =
     str @ put_u8 (cmd_type ''LMOVEPUSH'') @ put_bool is_left @ put_string element"

definition LMovePush_Deserialize :: "(bool \<times> eloq_string) reader" where
  "LMovePush_Deserialize bs =
     do { (is_left, bs1) \<leftarrow> get_bool bs; (element, bs2) \<leftarrow> get_string bs1; Some ((is_left, element), bs2) }"

definition LMovePush_OutputResult :: "list_result \<Rightarrow> reply list option" where
  "LMovePush_OutputResult result =
     (if lr_err result = RD_OK
      then map_option (\<lambda>s. [OnString (StringView s)]) (get_eloq_string (lr_result result))
      else if lr_err result = RD_NIL then Some [OnNil]
      else error_reply result)"

subsection \<open>LRANGE\<close>

definition LRange_ExecuteOn :: "int \<Rightarrow> int \<Rightarrow> redis_object \<Rightarrow> list_result \<Rightarrow> list_result \<times> exec_result" where
  "LRange_ExecuteOn start end0 obj result =
     on_list obj result (\<lambda>l.
       (Execute_LRange l start end0 result, ERead))"

definition LRange_Serialize :: "int \<Rightarrow> int \<Rightarrow> bytes \<Rightarrow> bytes" where
  "LRange_Serialize start end0 str = str @ put_u8 (cmd_type ''LRANGE'') @ put_i32 start @ put_i32 end0"

definition LRange_Deserialize :: "(int \<times> int) reader" where
  "LRange_Deserialize bs =
     do { (start, bs1) \<leftarrow> get_i32 bs; (end0, bs2) \<leftarrow> get_i32 bs1; Some ((start, end0), bs2) }"

definition LRange_OutputResult :: "list_result \<Rightarrow> reply list option" where
  "LRange_OutputResult result =
     (if lr_err result = RD_OK
      then map_option (\<lambda>xs. array_reply (map OnString xs)) (get_strings (lr_result result))
      else if lr_err result = RD_NIL then Some (array_reply [])
      else error_reply result)"

subsection \<open>LLEN\<close>

definition LLen_ExecuteOn :: "redis_object \<Rightarrow> list_result \<Rightarrow> list_result \<times> exec_result" where
  "LLen_ExecuteOn obj result =
     on_list obj result (\<lambda>l.
       (Execute_LLen l (result\<lparr>lr_err := RD_OK\<rparr>), ERead))"

definition LLen_Serialize :: "bytes \<Rightarrow> bytes" where
  "LLen_Serialize str = str @ put_u8 (cmd_type ''LLEN'')"

definition LLen_OutputResult :: "list_result \<Rightarrow> reply list option" where
  "LLen_OutputResult result =
     (if lr_err result = RD_OK then Some [OnInt (lr_ret result)]
      else if lr_err result = RD_NIL then Some [OnInt 0]
      else error_reply result)"

subsection \<open>LTRIM\<close>

text \<open>\<^verbatim>\<open>ExecuteOn\<close> leaves the normalised range in the command.\<close>

definition LTrim_ExecuteOn :: "int \<Rightarrow> int \<Rightarrow> redis_object \<Rightarrow> list_result \<Rightarrow> (int \<times> int) \<times> list_result \<times> exec_result" where
  "LTrim_ExecuteOn start end0 obj result =
     (case rvalue obj of
        VList l \<Rightarrow>
          (let (r, st, s, e) = Execute_LTrim l start end0 (result\<lparr>lr_err := RD_OK\<rparr>)
           in ((s, e), r, exec_of_state st))
      | _ \<Rightarrow> ((start, end0), result\<lparr>lr_err := RD_ERR_WRONG_TYPE\<rparr>, EFail))"

definition LTrim_CommitOn :: "int \<Rightarrow> int \<Rightarrow> redis_object \<Rightarrow> commit_result" where
  "LTrim_CommitOn start end0 obj = commit_list obj (\<lambda>l. CommitLTrim l start end0)"

definition LTrim_Serialize :: "int \<Rightarrow> int \<Rightarrow> bytes \<Rightarrow> bytes" where
  "LTrim_Serialize start end0 str = str @ put_u8 (cmd_type ''LTRIM'') @ put_i64 start @ put_i64 end0"

definition LTrim_Deserialize :: "(int \<times> int) reader" where
  "LTrim_Deserialize bs =
     do { (start, bs1) \<leftarrow> get_i64 bs; (end0, bs2) \<leftarrow> get_i64 bs1; Some ((start, end0), bs2) }"

definition LTrim_OutputResult :: "list_result \<Rightarrow> reply list option" where
  "LTrim_OutputResult result =
     (if lr_err result = RD_OK \<or> lr_err result = RD_NIL
      then Some [OnStatus (redis_get_error_messages RD_OK)]
      else error_reply result)"

subsection \<open>LINDEX\<close>

definition LIndex_ExecuteOn :: "int \<Rightarrow> redis_object \<Rightarrow> list_result \<Rightarrow> list_result \<times> exec_result" where
  "LIndex_ExecuteOn index obj result =
     on_list obj result (\<lambda>l.
       (fst (Execute_LIndex l index (result\<lparr>lr_err := RD_OK\<rparr>)), ERead))"

definition LIndex_Serialize :: "int \<Rightarrow> bytes \<Rightarrow> bytes" where
  "LIndex_Serialize index str = str @ put_u8 (cmd_type ''LINDEX'') @ put_i64 index"

definition LIndex_Deserialize :: "int reader" where
  "LIndex_Deserialize = get_i64"

definition LIndex_OutputResult :: "list_result \<Rightarrow> reply list option" where
  "LIndex_OutputResult result =
     (if lr_err result = RD_OK
      then do { xs \<leftarrow> get_strings (lr_result result); x \<leftarrow> first_of xs; Some [OnString x] }
      else if lr_err result = RD_NIL then Some [OnNil]
      else error_reply result)"

subsection \<open>LINSERT\<close>

definition LInsert_ExecuteOn :: "eloq_string \<Rightarrow> eloq_string \<Rightarrow> redis_object \<Rightarrow> list_result \<Rightarrow> list_result \<times> exec_result" where
  "LInsert_ExecuteOn pivot element obj result =
     on_list obj result (\<lambda>l.
       let (r, st) = Execute_LInsert l pivot element (result\<lparr>lr_err := RD_OK\<rparr>) in (r, write_or_fail st))"

definition LInsert_CommitOn :: "bool \<Rightarrow> eloq_string \<Rightarrow> eloq_string \<Rightarrow> redis_object \<Rightarrow> commit_result" where
  "LInsert_CommitOn is_before pivot element obj =
     commit_list obj (\<lambda>l. kept (CommitLInsert l is_before pivot element))"

definition LInsert_Serialize :: "bool \<Rightarrow> eloq_string \<Rightarrow> eloq_string \<Rightarrow> bytes \<Rightarrow> bytes" where
  "LInsert_Serialize is_before pivot element str =
     str @ put_u8 (cmd_type ''LINSERT'') @ put_bool is_before @ put_string pivot @ put_string element"

definition LInsert_Deserialize :: "(bool \<times> eloq_string \<times> eloq_string) reader" where
  "LInsert_Deserialize bs =
     do { (is_before, bs1) \<leftarrow> get_bool bs; (pivot, bs2) \<leftarrow> get_string bs1; (element, bs3) \<leftarrow> get_string bs2;
          Some ((is_before, pivot, element), bs3) }"

definition LInsert_OutputResult :: "list_result \<Rightarrow> reply list option" where
  "LInsert_OutputResult result =
     (if lr_err result = RD_OK \<or> lr_err result = RD_NIL then Some [OnInt (lr_ret result)]
      else error_reply result)"

subsection \<open>LPOS\<close>

text \<open>\<^verbatim>\<open>count_\<close> is signed but copied as a 64-bit word, which keeps its value.\<close>

definition LPos_ExecuteOn :: "eloq_string \<Rightarrow> int \<Rightarrow> int \<Rightarrow> nat \<Rightarrow> redis_object \<Rightarrow> list_result \<Rightarrow> list_result \<times> exec_result" where
  "LPos_ExecuteOn element rank count0 len0 obj result =
     on_list obj result (\<lambda>l.
       (Execute_LPos l element rank count0 len0 (result\<lparr>lr_err := RD_OK\<rparr>), ERead))"

definition LPos_Serialize :: "eloq_string \<Rightarrow> int \<Rightarrow> int \<Rightarrow> nat \<Rightarrow> bytes \<Rightarrow> bytes" where
  "LPos_Serialize element rank count0 len0 str =
     str @ put_u8 (cmd_type ''LPOS'') @ put_string element @ put_i64 rank @ put_i64 count0 @ put_u64 len0"

definition LPos_Deserialize :: "(eloq_string \<times> int \<times> int \<times> nat) reader" where
  "LPos_Deserialize bs =
     do { (element, bs1) \<leftarrow> get_string bs; (rank, bs2) \<leftarrow> get_i64 bs1; (count0, bs3) \<leftarrow> get_i64 bs2;
          (len0, bs4) \<leftarrow> get_u64 bs3; Some ((element, rank, count0, len0), bs4) }"

definition LPos_OutputResult :: "int \<Rightarrow> list_result \<Rightarrow> reply list option" where
  "LPos_OutputResult count0 result =
     (if lr_err result = RD_OK
      then if count0 \<noteq> -1
           then map_option (\<lambda>xs. array_reply (map OnInt xs)) (get_ints (lr_result result))
           else do { xs \<leftarrow> get_ints (lr_result result); x \<leftarrow> first_of xs; Some [OnInt x] }
      else if lr_err result = RD_NIL
      then Some (if count0 \<noteq> -1 then array_reply [] else [OnNil])
      else error_reply result)"

subsection \<open>LSET\<close>

text \<open>\<^verbatim>\<open>ExecuteOn\<close> leaves the converted index in the command.\<close>

definition LSet_ExecuteOn :: "int \<Rightarrow> eloq_string \<Rightarrow> redis_object \<Rightarrow> list_result \<Rightarrow> int \<times> list_result \<times> exec_result" where
  "LSet_ExecuteOn index element obj result =
     (case rvalue obj of
        VList l \<Rightarrow>
          (let (r, st, i) = Execute_LSet l index element (result\<lparr>lr_err := RD_OK\<rparr>)
           in (i, r, write_or_fail st))
      | _ \<Rightarrow> (index, result\<lparr>lr_err := RD_ERR_WRONG_TYPE\<rparr>, EFail))"

definition LSet_CommitOn :: "int \<Rightarrow> eloq_string \<Rightarrow> redis_object \<Rightarrow> commit_result" where
  "LSet_CommitOn index element obj = commit_list obj (\<lambda>l. kept (CommitLSet l index element))"

definition LSet_Serialize :: "int \<Rightarrow> eloq_string \<Rightarrow> bytes \<Rightarrow> bytes" where
  "LSet_Serialize index element str = str @ put_u8 (cmd_type ''LSET'') @ put_i64 index @ put_string element"

definition LSet_Deserialize :: "(int \<times> eloq_string) reader" where
  "LSet_Deserialize bs =
     do { (index, bs1) \<leftarrow> get_i64 bs; (element, bs2) \<leftarrow> get_string bs1; Some ((index, element), bs2) }"

definition LSet_OutputResult :: "list_result \<Rightarrow> reply list option" where
  "LSet_OutputResult result =
     (if lr_err result = RD_OK then Some [OnStatus (redis_get_error_messages RD_OK)]
      else if lr_err result = RD_NIL then Some [OnError (redis_get_error_messages RD_ERR_NO_SUCH_KEY)]
      else error_reply result)"

subsection \<open>LREM\<close>

definition LRem_ExecuteOn :: "int \<Rightarrow> eloq_string \<Rightarrow> redis_object \<Rightarrow> list_result \<Rightarrow> list_result \<times> exec_result" where
  "LRem_ExecuteOn count0 element obj result =
     on_list obj result (\<lambda>l.
       let (r, st) = Execute_LRem l count0 element (result\<lparr>lr_err := RD_OK\<rparr>) in (r, exec_of_state st))"

definition LRem_CommitOn :: "int \<Rightarrow> eloq_string \<Rightarrow> redis_object \<Rightarrow> commit_result" where
  "LRem_CommitOn count0 element obj = commit_list obj (\<lambda>l. Some (CommitLRem l count0 element))"

definition LRem_Serialize :: "int \<Rightarrow> eloq_string \<Rightarrow> bytes \<Rightarrow> bytes" where
  "LRem_Serialize count0 element str = str @ put_u8 (cmd_type ''LREM'') @ put_string element @ put_i64 count0"

definition LRem_Deserialize :: "(int \<times> eloq_string) reader" where
  "LRem_Deserialize bs =
     do { (element, bs1) \<leftarrow> get_string bs; (count0, bs2) \<leftarrow> get_i64 bs1; Some ((count0, element), bs2) }"

definition LRem_OutputResult :: "list_result \<Rightarrow> reply list option" where
  "LRem_OutputResult result =
     (if lr_err result = RD_OK then Some [OnInt (lr_ret result)]
      else if lr_err result = RD_NIL then Some [OnInt 0]
      else error_reply result)"

subsection \<open>Blocking pop\<close>

definition BlockLPop_ExecuteOn :: "block_operation \<Rightarrow> bool \<Rightarrow> nat \<Rightarrow> redis_object \<Rightarrow> list_result \<Rightarrow> list_result \<times> exec_result" where
  "BlockLPop_ExecuteOn op_type is_left count0 obj result =
     on_list obj result (\<lambda>l.
       let r0 = result\<lparr>lr_err := RD_OK\<rparr>;
           (r, has_elements, empty_after_pop) =
             (if op_type = BlockLock
              then (r0\<lparr>lr_ret := lsize l\<rparr>, lsize l > 0, False)
              else let (r, st) = Execute_BlockLPop l is_left count0 r0
                   in (r, st \<noteq> NoChange, st = ModifiedToEmpty));
           pop = (if empty_after_pop then EDelete else EWrite)
       in (r, case op_type of
                NoBlock \<Rightarrow> if has_elements then pop else ERead
              | PopBlock \<Rightarrow> if has_elements then pop else EBlock
              | PopNoBlock \<Rightarrow> if has_elements then pop else EUnlock
              | BlockLock \<Rightarrow> if has_elements then ERead else EBlock
              | PopElement \<Rightarrow> pop))"

definition BlockLPop_CommitOn :: "bool \<Rightarrow> nat \<Rightarrow> redis_object \<Rightarrow> commit_result" where
  "BlockLPop_CommitOn is_left count0 obj =
     commit_list obj (\<lambda>l. map_option (\<lambda>(l', not_empty). (l', \<not> not_empty)) (CommitBlockPop l is_left count0))"

text \<open>The numbers of the engine's enumeration \<^verbatim>\<open>BlockOperation\<close> are a parameter.\<close>

definition BlockLPop_Serialize :: "(block_operation \<Rightarrow> nat) \<Rightarrow> block_operation \<Rightarrow> bool \<Rightarrow> nat \<Rightarrow> bytes \<Rightarrow> bytes" where
  "BlockLPop_Serialize op_code op_type is_left count0 str =
     str @ put_u8 (cmd_type ''BLOCKPOP'') @ put_u8 (op_code op_type) @ put_bool is_left @ put_u32 count0"

definition BlockLPop_Deserialize :: "(nat \<Rightarrow> block_operation option) \<Rightarrow> (block_operation \<times> bool \<times> nat) reader" where
  "BlockLPop_Deserialize of_code bs =
     do { (op, bs1) \<leftarrow> get_u8 bs; (is_left, bs2) \<leftarrow> get_bool bs1; (count0, bs3) \<leftarrow> get_u32 bs2;
          op_type \<leftarrow> of_code op; Some ((op_type, is_left, count0), bs3) }"

definition AblePopBlockRequest :: "redis_object option \<Rightarrow> bool" where
  "AblePopBlockRequest obj =
     (case obj of
        Some ob \<Rightarrow> (case rvalue ob of VList l \<Rightarrow> list_object l \<noteq> [] | _ \<Rightarrow> False)
      | None \<Rightarrow> False)"

section \<open>The family\<close>

datatype list_cmd =
    LPush "eloq_string list"
  | RPush "eloq_string list"
  | LPushX "eloq_string list"
  | RPushX "eloq_string list"
  | LPop int
  | RPop int
  | LMovePop bool
  | LMovePush bool eloq_string bool
  | LRange int int
  | LLen
  | LTrim int int
  | LIndex int
  | LInsert bool eloq_string eloq_string
  | LPos eloq_string int int nat
  | LSet int eloq_string
  | LRem int eloq_string
  | BlockLPop block_operation bool nat

text \<open>A command runs with a fresh result and may rewrite its own fields.\<close>

fun list_ExecuteOn :: "list_cmd \<Rightarrow> redis_object \<Rightarrow> list_cmd \<times> list_result \<times> exec_result" where
  "list_ExecuteOn (LPush es) obj = (LPush es, LPush_ExecuteOn es obj RedisListResult)"
| "list_ExecuteOn (RPush es) obj = (RPush es, RPush_ExecuteOn es obj RedisListResult)"
| "list_ExecuteOn (LPushX es) obj = (LPushX es, LPushX_ExecuteOn es obj RedisListResult)"
| "list_ExecuteOn (RPushX es) obj = (RPushX es, RPushX_ExecuteOn es obj RedisListResult)"
| "list_ExecuteOn (LPop n) obj = (LPop n, LPop_ExecuteOn n obj RedisListResult)"
| "list_ExecuteOn (RPop n) obj = (RPop n, RPop_ExecuteOn n obj RedisListResult)"
| "list_ExecuteOn (LMovePop b) obj = (LMovePop b, LMovePop_ExecuteOn b obj RedisListResult)"
| "list_ExecuteOn (LMovePush b e m) obj = (LMovePush b e m, LMovePush_ExecuteOn e obj RedisListResult)"
| "list_ExecuteOn (LRange s e) obj = (LRange s e, LRange_ExecuteOn s e obj RedisListResult)"
| "list_ExecuteOn LLen obj = (LLen, LLen_ExecuteOn obj RedisListResult)"
| "list_ExecuteOn (LTrim s e) obj =
     (let ((s', e'), rd) = LTrim_ExecuteOn s e obj RedisListResult in (LTrim s' e', rd))"
| "list_ExecuteOn (LIndex i) obj = (LIndex i, LIndex_ExecuteOn i obj RedisListResult)"
| "list_ExecuteOn (LInsert b p e) obj = (LInsert b p e, LInsert_ExecuteOn p e obj RedisListResult)"
| "list_ExecuteOn (LPos e r c n) obj = (LPos e r c n, LPos_ExecuteOn e r c n obj RedisListResult)"
| "list_ExecuteOn (LSet i e) obj = (let (i', rd) = LSet_ExecuteOn i e obj RedisListResult in (LSet i' e, rd))"
| "list_ExecuteOn (LRem c e) obj = (LRem c e, LRem_ExecuteOn c e obj RedisListResult)"
| "list_ExecuteOn (BlockLPop op b n) obj = (BlockLPop op b n, BlockLPop_ExecuteOn op b n obj RedisListResult)"

text \<open>The reading commands have no \<^verbatim>\<open>CommitOn\<close>.\<close>

fun list_CommitOn :: "list_cmd \<Rightarrow> redis_object \<Rightarrow> commit_result" where
  "list_CommitOn (LPush es) obj = LPush_CommitOn es obj"
| "list_CommitOn (RPush es) obj = RPush_CommitOn es obj"
| "list_CommitOn (LPushX es) obj = LPushX_CommitOn es obj"
| "list_CommitOn (RPushX es) obj = RPushX_CommitOn es obj"
| "list_CommitOn (LPop n) obj = LPop_CommitOn n obj"
| "list_CommitOn (RPop n) obj = RPop_CommitOn n obj"
| "list_CommitOn (LMovePop b) obj = LMovePop_CommitOn b obj"
| "list_CommitOn (LMovePush b e m) obj = LMovePush_CommitOn b e m obj"
| "list_CommitOn (LTrim s e) obj = LTrim_CommitOn s e obj"
| "list_CommitOn (LInsert b p e) obj = LInsert_CommitOn b p e obj"
| "list_CommitOn (LSet i e) obj = LSet_CommitOn i e obj"
| "list_CommitOn (LRem c e) obj = LRem_CommitOn c e obj"
| "list_CommitOn (BlockLPop op b n) obj = BlockLPop_CommitOn b n obj"
| "list_CommitOn _ obj = CUndefined"

lemmas list_exec_defs =
  LPush_ExecuteOn_def RPush_ExecuteOn_def LPushX_ExecuteOn_def RPushX_ExecuteOn_def LPop_ExecuteOn_def
  RPop_ExecuteOn_def LMovePop_ExecuteOn_def LMovePush_ExecuteOn_def LRange_ExecuteOn_def LLen_ExecuteOn_def
  LTrim_ExecuteOn_def LIndex_ExecuteOn_def LInsert_ExecuteOn_def LPos_ExecuteOn_def LSet_ExecuteOn_def
  LRem_ExecuteOn_def BlockLPop_ExecuteOn_def on_list_def

lemmas list_commit_defs =
  LPush_CommitOn_def RPush_CommitOn_def LPushX_CommitOn_def RPushX_CommitOn_def LPop_CommitOn_def
  RPop_CommitOn_def LMovePop_CommitOn_def LMovePush_CommitOn_def LTrim_CommitOn_def LInsert_CommitOn_def
  LSet_CommitOn_def LRem_CommitOn_def BlockLPop_CommitOn_def commit_list_def kept_def

section \<open>What the commands mean\<close>

text \<open>The effect of a command on a list of byte strings.\<close>

definition popped :: "bool \<Rightarrow> nat \<Rightarrow> 'a list \<Rightarrow> 'a list" where
  "popped left n xs = (if left then drop n xs else take (length xs - n) xs)"

fun list_apply :: "list_cmd \<Rightarrow> bytes list \<Rightarrow> bytes list" where
  "list_apply (LPush es) xs = rev (map StringView es) @ xs"
| "list_apply (RPush es) xs = xs @ map StringView es"
| "list_apply (LPushX es) xs = rev (map StringView es) @ xs"
| "list_apply (RPushX es) xs = xs @ map StringView es"
| "list_apply (LPop n) xs = popped True (size_of_i64 (if n = -1 then 1 else n)) xs"
| "list_apply (RPop n) xs = popped False (size_of_i64 (if n = -1 then 1 else n)) xs"
| "list_apply (LMovePop left) xs = popped left 1 xs"
| "list_apply (LMovePush left e _) xs = (if left then StringView e # xs else xs @ [StringView e])"
| "list_apply (LTrim s e) xs = range_spec s e xs"
| "list_apply (LInsert before p e) xs = insert_spec before (StringView p) (StringView e) xs"
| "list_apply (LSet i e) xs = xs[nat (set_index (int (length xs)) i) := StringView e]"
| "list_apply (LRem c e) xs = lrem_spec c (StringView e) xs"
| "list_apply (BlockLPop _ left n) xs = popped left n xs"
| "list_apply _ xs = xs"

text \<open>The object while it is in the store.\<close>

definition list_state :: "list_obj \<Rightarrow> bool" where
  "list_state l \<longleftrightarrow> list_inv l \<and> list_bytes l \<le> unat MAX_OBJECT_SIZE"

text \<open>
  The arguments a command may have, and which commands need an element to be there.  A pop has no negative count
  but the -1 that stands for none.  The pushing half of \<^verbatim>\<open>LMOVE\<close> tests the size without the four bytes of the length
  field, and its commit asserts the size with them: the element has to fit with them.  \<^verbatim>\<open>LREM\<close> keeps a count of 32 bits.
\<close>

definition pushes_ok :: "eloq_string list \<Rightarrow> bool" where
  "pushes_ok es \<longleftrightarrow> es \<noteq> [] \<and> list_all arg_ok es \<and> bcosts (map StringView es) < 2 ^ 62"

fun list_ok :: "list_cmd \<Rightarrow> bytes list \<Rightarrow> bool" where
  "list_ok (LPush es) xs = pushes_ok es"
| "list_ok (RPush es) xs = pushes_ok es"
| "list_ok (LPushX es) xs = pushes_ok es"
| "list_ok (RPushX es) xs = pushes_ok es"
| "list_ok (LPop n) xs = (-1 \<le> n \<and> xs \<noteq> [])"
| "list_ok (RPop n) xs = (-1 \<le> n \<and> xs \<noteq> [])"
| "list_ok (LMovePush _ e _) xs = (arg_ok e \<and> 5 + bcosts xs + bcost (StringView e) \<le> unat MAX_OBJECT_SIZE)"
| "list_ok (LInsert _ p e) xs = (arg_ok e \<and> xs \<noteq> [])"
| "list_ok (LSet _ e) xs = (arg_ok e \<and> xs \<noteq> [])"
| "list_ok (LPos _ _ c _) xs = (-1 \<le> c \<and> xs \<noteq> [])"
| "list_ok (LRem c _) xs = (is_i32 \<bar>c\<bar> \<and> xs \<noteq> [])"
| "list_ok (BlockLPop op _ n) xs = (op = PopElement \<longrightarrow> xs \<noteq> [] \<and> 0 < n)"
| "list_ok _ xs = (xs \<noteq> [])"

lemma list_state_inv: "list_state l \<Longrightarrow> list_inv l"
  by (simp add: list_state_def)

lemma list_state_bcosts: "list_state l \<longleftrightarrow> list_inv l \<and> bcosts (elems l) \<le> 268435451"
  by (auto simp: list_state_def list_bytes_elems)

lemma list_state_length:
  assumes "list_state l"
  shows "length (elems l) < 2 ^ 31"
  using assms bcosts_length [of "elems l"] by (simp add: list_state_bcosts)

text \<open>What has to be shown of one command.\<close>

definition commits :: "list_cmd \<Rightarrow> list_cmd \<Rightarrow> list_obj \<Rightarrow> redis_object \<Rightarrow> bool" where
  "commits c c' l ob \<longleftrightarrow>
     (\<exists>l'. list_state l' \<and> elems l' = list_apply c (elems l) \<and>
        list_CommitOn c' ob = (if elems l' = [] then CRemove else CKeep (ob\<lparr>rvalue := VList l'\<rparr>)))"

lemma commitsI:
  assumes "list_inv l'" "elems l' = list_apply c (elems l)" "bcosts (list_apply c (elems l)) \<le> 268435451"
    and "list_CommitOn c' ob = (if elems l' = [] then CRemove else CKeep (ob\<lparr>rvalue := VList l'\<rparr>))"
  shows "commits c c' l ob"
  unfolding commits_def using assms by (intro exI [of _ l']) (simp add: list_state_bcosts)

subsection \<open>Pushes and inserts\<close>

lemma push_decides:
  assumes "list_state l" "pushes_ok es"
  shows "snd (Execute_RPush l es r) = Modified \<longleftrightarrow>
     5 + bcosts (elems l @ map StringView es) \<le> 268435456"
proof -
  have "snd (Execute_RPush l es r) =
      (if 5 + bcosts (elems l @ map StringView es) > 268435456 then NoChange else Modified)"
    using assms by (intro Execute_RPush_state) (simp_all add: list_state_bcosts pushes_ok_def)
  then show ?thesis by simp
qed

lemmas execute_pushes = Execute_LPush_def Execute_LPushX_def Execute_RPushX_def

lemma push_commits:
  assumes "list_state l" "pushes_ok es" "5 + bcosts (elems l @ map StringView es) \<le> 268435456"
    and "rvalue ob = VList l" "c \<in> {LPush es, RPush es, LPushX es, RPushX es}"
  shows "commits c c l ob"
proof -
  have i: "list_inv l" "list_all arg_ok es" "bcosts (elems l @ map StringView es) \<le> 268435451" "es \<noteq> []"
    using assms by (simp_all add: list_state_inv pushes_ok_def)
  from assms(5) consider "c = LPush es \<or> c = LPushX es" | "c = RPush es \<or> c = RPushX es" by auto
  then show ?thesis
  proof cases
    case 1
    obtain l' es' where "CommitLPush l es = Some (l', es')" "list_inv l'" "elems l' = rev (map StringView es) @ elems l"
      using CommitLPush_spec [OF i(1-3)] by blast
    with 1 i(3,4) assms(4) show ?thesis by (intro commitsI [of l']) (auto simp: list_commit_defs)
  next
    case 2
    obtain l' es' where "CommitRPush l es = Some (l', es')" "list_inv l'" "elems l' = elems l @ map StringView es"
      using CommitRPush_spec [OF i(1-3)] by blast
    with 2 i(3,4) assms(4) show ?thesis by (intro commitsI [of l']) (auto simp: list_commit_defs)
  qed
qed

lemma move_push_commits:
  assumes "list_state l" "arg_ok e" "rvalue ob = VList l"
  shows "if 5 + bcosts (elems l) + bcost (StringView e) \<le> unat MAX_OBJECT_SIZE
     then commits (LMovePush b e m) (LMovePush b e m) l ob
     else list_CommitOn (LMovePush b e m) ob = CUndefined"
proof -
  obtain l' e' where sp: "CommitLMovePush l b e m = size_assert (l', e')" "list_inv l'"
      "elems l' = list_apply (LMovePush b e m) (elems l)"
    using CommitLMovePush_spec [OF list_state_inv [OF assms(1)] assms(2), of b m] by auto
  have s: "bcosts (elems l') = bcosts (elems l) + bcost (StringView e)"
    by (simp add: sp(3))
  have "bcosts (elems l') < 2 ^ 63"
    using assms(1) arg_ok_length [OF assms(2)] assms(2) by (simp add: s list_state_bcosts bcost_def arg_ok_def es_short_def)
  note a = size_assert_spec [OF sp(2) this, of e']
  show ?thesis
  proof (cases "5 + bcosts (elems l) + bcost (StringView e) \<le> unat MAX_OBJECT_SIZE")
    case True
    then have b: "bcosts (elems l') \<le> 268435451" using s by simp
    have "commits (LMovePush b e m) (LMovePush b e m) l ob"
      by (rule commitsI [of l']) (use sp a b assms(3) in \<open>auto simp: list_commit_defs\<close>)
    then show ?thesis using True by simp
  next
    case False
    then show ?thesis using sp(1) a s assms(3) by (simp add: list_commit_defs)
  qed
qed

lemma insert_spec_props: "insert_spec b p x xs \<noteq> []" "bcosts (insert_spec b p x xs) = bcost x + bcosts xs"
  by (induction xs) auto

lemma insert_commits:
  assumes "list_state l" "arg_ok e" "rvalue ob = VList l"
    and "snd (Execute_LInsert l p e r) = Modified"
  shows "commits (LInsert b p e) (LInsert b p e) l ob"
proof -
  obtain l' e' where sp: "CommitLInsert l b p e = size_assert (l', e')" "list_inv l'"
      "elems l' = insert_spec b (StringView p) (StringView e) (elems l)"
    using CommitLInsert_spec [OF list_state_inv [OF assms(1)] assms(2), of b p] by auto
  let ?n = "5 + bcosts (elems l) + bcost (StringView e)"
  have b: "bcosts (elems l) \<le> 268435451" using assms(1) by (simp add: list_state_bcosts)
  have e: "length (StringView e) < 2 ^ 32" "es_length e = length (StringView e)"
    using arg_ok_length [OF assms(2)] assms(2) by (simp_all add: arg_ok_def es_short_def)
  have "list_slen l + 4 + of_nat (es_length e) = of_nat ?n"
    using list_slen_elems [OF list_state_inv [OF assms(1)]] e by (simp add: bcost_def)
  moreover have "?n < 2 ^ 64" using b e by (simp add: bcost_def)
  moreover have "\<not> list_slen l + 4 + of_nat (es_length e) > MAX_OBJECT_SIZE"
    using assms(4) by (auto simp: Execute_LInsert_def split: if_splits)
  ultimately have "?n \<le> 268435456" using of_nat_gt_MAX [of ?n] by (simp only: not_less)
  then have s: "bcosts (elems l') \<le> 268435451" by (simp add: sp(3) insert_spec_props)
  then show ?thesis
    using size_assert_spec [OF sp(2), of e']
    by (intro commitsI [of l']) (use sp assms(3) in \<open>simp_all add: list_commit_defs insert_spec_props\<close>)
qed

subsection \<open>Pops\<close>

lemma popped_props:
  "bcosts (popped b n xs) \<le> bcosts xs" "popped b n xs = [] \<longleftrightarrow> length xs \<le> n \<or> xs = []"
  by (auto simp: popped_def bcosts_take_drop)

lemma pop_decides:
  assumes "elems l \<noteq> []"
  shows "exec_of_state (pop_state l (min n (length (list_object l)))) =
     (if n = 0 then EFail else if popped b n (elems l) = [] then EDelete else EWrite)"
  using assms by (auto simp: pop_state_def popped_props length_list_object)

text \<open>A commit that asserts the size and leaves no more bytes than there were.\<close>

lemma shrink_commits:
  assumes "list_state l" "rvalue ob = VList l" "list_inv l'" "elems l' = list_apply c (elems l)"
    and "bcosts (list_apply c (elems l)) \<le> bcosts (elems l)"
    and "list_CommitOn c' ob = commit_list ob (\<lambda>l. size_assert (l', elems l' = []))"
  shows "commits c c' l ob"
proof -
  have b: "bcosts (elems l') \<le> 268435451" using assms(1,4,5) by (simp add: list_state_bcosts)
  have "size_assert (l', elems l' = []) = Some (l', elems l' = [])"
    using size_assert_spec [OF assms(3), of "elems l' = []"] b by simp
  then show ?thesis
    by (intro commitsI [OF assms(3,4)]) (use b assms(2,4,6) in \<open>simp_all add: commit_list_def\<close>)
qed

lemma pop_commits:
  assumes "list_state l" "rvalue ob = VList l" "c \<in> {LPop n, RPop n}"
  shows "commits c c l ob"
proof -
  let ?n = "if n = -1 then 1 else n"
  from assms(3) consider "c = LPop n" | "c = RPop n" by auto
  then show ?thesis
  proof cases
    case 1
    obtain l' where "CommitLPop l ?n = size_assert (l', elems l' = [])" "list_inv l'"
        "elems l' = popped True (size_of_i64 ?n) (elems l)"
      using CommitLPop_spec [OF list_state_inv [OF assms(1)], of ?n] by (auto simp: popped_def)
    with 1 show ?thesis
      by (intro shrink_commits [OF assms(1,2), of l']) (simp_all add: popped_props LPop_CommitOn_def commit_list_def assms(2))
  next
    case 2
    obtain l' where "CommitRPop l ?n = size_assert (l', elems l' = [])" "list_inv l'"
        "elems l' = popped False (size_of_i64 ?n) (elems l)"
      using CommitRPop_spec [OF list_state_inv [OF assms(1)], of ?n] by (auto simp: popped_def)
    with 2 show ?thesis
      by (intro shrink_commits [OF assms(1,2), of l']) (simp_all add: popped_props RPop_CommitOn_def commit_list_def assms(2))
  qed
qed

lemma move_pop_commits:
  assumes "list_state l" "rvalue ob = VList l" "elems l \<noteq> []"
  shows "commits (LMovePop b) (LMovePop b) l ob"
proof -
  have e: "popped b 1 (elems l) = (if b then tl (elems l) else butlast (elems l))"
    by (simp add: popped_def drop_Suc butlast_conv_take)
  obtain l' where sp: "CommitLMovePop l b = Some (l', elems l' = [])" "list_inv l'" "elems l' = popped b 1 (elems l)"
    using CommitLMovePop_spec [OF list_state_inv [OF assms(1)] assms(3), of b] e by auto
  have "bcosts (popped b 1 (elems l)) \<le> 268435451"
    using assms(1) popped_props(1) [of b 1 "elems l"] by (simp add: list_state_bcosts)
  then show ?thesis
    by (intro commitsI [of l']) (use sp assms(2) in \<open>simp_all add: list_commit_defs del: One_nat_def\<close>)
qed

lemma block_pop_commits:
  assumes "list_state l" "rvalue ob = VList l" "elems l \<noteq> []"
  shows "commits (BlockLPop op b n) (BlockLPop op b n) l ob"
proof -
  have "length (elems l) < 2 ^ 32" using list_state_length [OF assms(1)] by simp
  then obtain l' where sp: "CommitBlockPop l b n = size_assert (l', elems l' \<noteq> [])" "list_inv l'"
      "elems l' = popped b n (elems l)"
    using CommitBlockPop_spec [OF list_state_inv [OF assms(1)] _ assms(3), of b n] by (auto simp: popped_def)
  have "map_option (\<lambda>(l', not_empty). (l', \<not> not_empty)) (size_assert (l', elems l' \<noteq> [])) = size_assert (l', elems l' = [])"
    by (simp add: size_assert_def)
  with sp show ?thesis
    by (intro shrink_commits [OF assms(1,2), of l']) (simp_all add: popped_props BlockLPop_CommitOn_def commit_list_def assms(2))
qed

subsection \<open>Trimming, replacing, removing\<close>

lemma Normalize_idem:
  assumes "elems l \<noteq> []" "NormalizeLTrimRange l s e = (s', e')"
  shows "NormalizeLTrimRange l s' e' = (s', e')"
proof -
  have "0 < lsize l" using assms(1) by (simp add: lsize_elems)
  with assms(2) show ?thesis by (auto simp: NormalizeLTrimRange_def Let_def split: if_splits)
qed

lemma trim_commits:
  assumes "list_state l" "rvalue ob = VList l" "elems l \<noteq> []" "NormalizeLTrimRange l s e = (s', e')"
  shows "commits (LTrim s e) (LTrim s' e') l ob"
proof -
  obtain l' where sp: "CommitLTrim l s e = size_assert (l', elems l' = [])" "list_inv l'"
      "elems l' = range_spec s e (elems l)"
    using CommitLTrim_spec [OF list_state_inv [OF assms(1)] assms(3), of s e] by blast
  have "CommitLTrim l s' e' = CommitLTrim l s e"
    using Normalize_idem [OF assms(3,4)] assms(4) by (simp add: CommitLTrim_def)
  moreover have "bcosts (range_spec s e (elems l)) \<le> bcosts (elems l)"
    unfolding range_spec_def by (rule bcosts_nths)
  ultimately show ?thesis
    using sp by (intro shrink_commits [OF assms(1,2), of l']) (simp_all add: LTrim_CommitOn_def commit_list_def assms(2))
qed

lemma trim_decides:
  assumes "elems l \<noteq> []" "NormalizeLTrimRange l s e = (s', e')"
  shows "e' - s' + 1 \<le> 0 \<longleftrightarrow> range_spec s e (elems l) = []"
proof -
  have "0 < length (elems l)" using assms(1) by simp
  with assms(2) show ?thesis
    by (auto simp: NormalizeLTrimRange_def range_spec_take_drop from_end_def Let_def lsize_elems split: if_splits)
qed

lemma set_commits:
  assumes "list_state l" "rvalue ob = VList l" "arg_ok e"
    and "Execute_LSet l i e r = (r', Modified, i')"
  shows "commits (LSet i e) (LSet i' e) l ob"
proof -
  let ?k = "set_index (int (length (elems l))) i"
  have k: "i' = ?k" "0 \<le> ?k" "?k < int (length (elems l))"
      "\<not> list_slen l - of_nat (es_length (list_object l ! nat ?k)) + of_nat (es_length e) > MAX_OBJECT_SIZE"
    using assms(4) unfolding Execute_LSet_def set_index_Convert
    by (auto simp: Let_def lsize_elems split: if_splits)
  have kk: "set_index (int (length (elems l))) ?k = ?k" using k(2) by (simp add: set_index_def from_end_def)
  obtain l' e' where c: "CommitLSet l ?k e = size_assert (l', e')" "list_inv l'" "elems l' = (elems l)[nat ?k := StringView e]"
      and s: "list_slen l' = list_slen l - of_nat (es_length (list_object l ! nat ?k)) + of_nat (es_length e)"
    using CommitLSet_spec [OF list_state_inv [OF assms(1)] assms(3), of ?k] k kk by auto
  have "bcosts (elems l') \<le> bcosts (elems l) + bcost (StringView e)"
  proof -
    have "bcosts (xs[j := x]) \<le> bcosts xs + bcost x" for xs j x
      by (induction xs arbitrary: j) (auto split: nat.split simp: add.assoc)
    then show ?thesis unfolding c(3) .
  qed
  moreover have "bcosts (elems l) \<le> 268435451" "bcost (StringView e) < 2 ^ 33"
    using assms(1) arg_ok_length [OF assms(3)] assms(3)
    by (simp_all add: list_state_bcosts bcost_def arg_ok_def es_short_def)
  ultimately have "5 + bcosts (elems l') < 2 ^ 64" by simp
  then have "5 + bcosts (elems l') \<le> 268435456"
    using k(4) of_nat_gt_MAX [of "5 + bcosts (elems l')"] list_slen_elems [OF c(2)] s by simp
  moreover have "elems l' \<noteq> []" using k by (auto simp: c(3))
  moreover have "size_assert (l', e') = Some (l', e')" using k(4) by (simp add: size_assert_def s not_less)
  ultimately show ?thesis
    by (intro commitsI [of l']) (use c assms(2) k(1) in \<open>simp_all add: list_commit_defs\<close>)
qed

lemma remove_first_props: "bcosts (remove_first n x xs) \<le> bcosts xs" "length (remove_first n x xs) \<le> length xs"
  by (induction xs arbitrary: n) (auto simp: le_SucI trans_le_add2)

lemma lrem_cut_props: "bcosts (lrem_cut lim c x xs) \<le> bcosts xs" "length (lrem_cut lim c x xs) \<le> length xs"
  using remove_first_props(1) [of _ x "rev xs"] remove_first_props(2) [of _ x "rev xs"]
  by (auto simp: lrem_cut_def remove_first_props bcosts_filter)

lemmas lrem_spec_props = lrem_cut_props [of "\<bar>c\<bar>" c for c, folded lrem_spec_def]

text \<open>Whatever the count is, the commit removes the number of elements that it keeps of the count.\<close>

lemma rem_leaves:
  assumes "list_state l" "rvalue ob = VList l"
  shows "\<exists>l'. list_state l' \<and> elems l' = lrem_cut (to_signed 32 \<bar>c\<bar>) c (StringView e) (elems l) \<and>
     list_CommitOn (LRem c e) ob = (if elems l' = [] then CRemove else CKeep (ob\<lparr>rvalue := VList l'\<rparr>))"
proof -
  obtain l' where sp: "CommitLRem l c e = (l', elems l' = [])" "list_inv l'"
      "elems l' = lrem_cut (to_signed 32 \<bar>c\<bar>) c (StringView e) (elems l)"
    using CommitLRem_spec [OF list_state_inv [OF assms(1)], of c e] by blast
  moreover have "bcosts (elems l') \<le> 268435451"
    using assms(1) lrem_cut_props(1) [of "to_signed 32 \<bar>c\<bar>" c "StringView e" "elems l"]
    by (simp add: sp(3) list_state_bcosts)
  ultimately show ?thesis
    by (intro exI [of _ l']) (simp add: list_state_bcosts list_commit_defs assms(2))
qed

lemma rem_commits:
  assumes "list_state l" "rvalue ob = VList l" "is_i32 \<bar>c\<bar>"
  shows "commits (LRem c e) (LRem c e) l ob"
  using rem_leaves [OF assms(1,2), of c e] assms(3) by (simp add: commits_def lrem_spec_def)

lemma rem_decides:
  assumes "is_i32 \<bar>c\<bar>" "elems l \<noteq> []"
  shows "exec_of_state (snd (Execute_LRem l c e r)) = EDelete \<longleftrightarrow> lrem_spec c (StringView e) (elems l) = []"
proof -
  have "is_i64 \<bar>c\<bar>" using assms(1) by (simp add: is_i32_def is_i64_def)
  note ret = Execute_LRem_spec [OF this, of l e r]
  let ?n = "length (lrem_spec c (StringView e) (elems l))"
  have "snd (Execute_LRem l c e r) =
      (if lr_ret (fst (Execute_LRem l c e r)) = 0 then NoChange
       else if lr_ret (fst (Execute_LRem l c e r)) \<ge> lsize l then ModifiedToEmpty else Modified)"
    by (simp add: Execute_LRem_def Let_def)
  then have "snd (Execute_LRem l c e r) =
      (if length (elems l) = ?n then NoChange else if ?n = 0 then ModifiedToEmpty else Modified)"
    unfolding ret lsize_elems using lrem_spec_props(2) [of c "StringView e" "elems l"] by auto
  then show ?thesis using assms(2) by auto
qed

subsection \<open>Every command\<close>

lemma list_command_commits:
  assumes "list_state l" "rvalue ob = VList l" "list_ok c (elems l)"
    and "list_ExecuteOn c ob = (c', r, d)" "d = EWrite \<or> d = EDelete"
  shows "commits c c' l ob \<and> (d = EDelete \<longleftrightarrow> list_apply c (elems l) = [])"
proof -
  note p = push_decides [OF assms(1)] and m = push_commits [OF assms(1) _ _ assms(2)]
  have push: "commits c c' l ob \<and> (d = EDelete \<longleftrightarrow> list_apply c (elems l) = [])"
    if "c \<in> {LPush es, RPush es, LPushX es, RPushX es}" for es
    using that assms p [of es] m [of es c]
    by (auto simp: list_exec_defs execute_pushes split_beta Let_def pushes_ok_def)
  have pop: "commits c c' l ob \<and> (d = EDelete \<longleftrightarrow> list_apply c (elems l) = [])"
    if "c \<in> {LPop n, RPop n}" for n
    using that assms pop_commits [OF assms(1,2) that]
      pop_decides [of l "size_of_i64 (if n = -1 then 1 else n)" True]
      pop_decides [of l "size_of_i64 (if n = -1 then 1 else n)" False]
    by (auto simp: list_exec_defs split_beta Execute_LPop_def Execute_RPop_def pop_num_def Let_def
        split: if_splits)
  show ?thesis
  proof (cases c)
    case (LMovePop b)
    then show ?thesis
      using assms move_pop_commits [OF assms(1,2), of b]
      by (auto simp: list_exec_defs split_beta Execute_LMovePop_def elems_empty popped_props length_list_object
          le_Suc_eq split: if_splits)
  next
    case (LMovePush b e k)
    then show ?thesis
      using assms move_push_commits [OF assms(1) _ assms(2), of e b k]
      by (auto simp: list_exec_defs split_beta split: if_splits)
  next
    case (LTrim s e)
    then show ?thesis
      using assms trim_commits [OF assms(1,2), of s e] trim_decides [of l s e]
      by (auto simp: list_exec_defs split_beta Execute_LTrim_def Let_def split: if_splits prod.splits)
  next
    case (LInsert b q e)
    then show ?thesis
      using assms insert_commits [OF assms(1) _ assms(2)]
      by (auto simp: list_exec_defs split_beta insert_spec_props split: if_splits)
  next
    case (LSet i e)
    then show ?thesis
      using assms set_commits [OF assms(1,2)]
      by (auto simp: list_exec_defs split_beta prod_eq_iff split: if_splits)
  next
    case (LRem k e)
    then show ?thesis
      using assms rem_commits [OF assms(1,2)] rem_decides [of k l e "RedisListResult\<lparr>lr_err := RD_OK\<rparr>"]
      by (auto simp: list_exec_defs split_beta)
  next
    case (BlockLPop op b n)
    then show ?thesis
      using assms block_pop_commits [OF assms(1,2), of op b n]
      by (cases op)
         (auto simp: list_exec_defs split_beta Let_def Execute_BlockLPop_def elems_empty pop_state_def
            popped_props length_list_object split: if_splits)
  qed (use assms push pop in \<open>auto simp: list_exec_defs\<close>)
qed

section \<open>The contract\<close>

fun list_object_inv :: "redis_value \<Rightarrow> bool" where
  "list_object_inv (VList l) = list_state l"
| "list_object_inv _ = False"

fun list_value :: "redis_value \<Rightarrow> bytes list" where
  "list_value (VList l) = elems l"
| "list_value _ = []"

interpretation list_commands: ttl_keeping_command list_ExecuteOn list_CommitOn
  "\<lambda>c ob. list_ok c (list_value (rvalue ob))" "\<lambda>ob. list_object_inv (rvalue ob)"
  "\<lambda>ob. list_value (rvalue ob) = []"
proof unfold_locales
  fix ob :: redis_object and c c' r
  assume a: "list_object_inv (rvalue ob)" "list_ok c (list_value (rvalue ob))"
  then obtain l where l: "rvalue ob = VList l" "list_state l" "list_ok c (elems l)"
    by (cases "rvalue ob") auto
  note cm = list_command_commits [OF l(2,1,3)]
  show "\<exists>ob'. list_CommitOn c' ob = CKeep ob' \<and> list_object_inv (rvalue ob') \<and>
      list_value (rvalue ob') \<noteq> []"
    if "list_ExecuteOn c ob = (c', r, EWrite)"
    using cm [OF that] by (auto simp: commits_def)
  show "list_CommitOn c' ob = CRemove" if "list_ExecuteOn c ob = (c', r, EDelete)"
    using cm [OF that] by (auto simp: commits_def)
  show "rttl ob' = rttl ob" if "list_ExecuteOn c ob = (c', r, EWrite)" "list_CommitOn c' ob = CKeep ob'" for ob'
    using cm [OF that(1)] that(2) by (auto simp: commits_def split: if_splits)
qed

section \<open>Images\<close>

text \<open>The cases of \<^verbatim>\<open>RedisTableSchema::CreateTxCommand\<close> for this family.\<close>

definition CreateTxCommand_list :: "(nat \<Rightarrow> block_operation option) \<Rightarrow> list_cmd reader" where
  "CreateTxCommand_list of_code cmd_image =
     do { (ct, bs) \<leftarrow> get_u8 cmd_image;
          (if ct = cmd_type ''RPUSH'' then map_option (apfst RPush) (RPush_Deserialize bs)
           else if ct = cmd_type ''LPUSH'' then map_option (apfst LPush) (LPush_Deserialize bs)
           else if ct = cmd_type ''LPOP'' then map_option (apfst LPop) (LPop_Deserialize bs)
           else if ct = cmd_type ''RPOP'' then map_option (apfst RPop) (RPop_Deserialize bs)
           else if ct = cmd_type ''LTRIM'' then map_option (apfst (\<lambda>(s, e). LTrim s e)) (LTrim_Deserialize bs)
           else if ct = cmd_type ''LINDEX'' then map_option (apfst LIndex) (LIndex_Deserialize bs)
           else if ct = cmd_type ''LINSERT''
           then map_option (apfst (\<lambda>(b, p, e). LInsert b p e)) (LInsert_Deserialize bs)
           else if ct = cmd_type ''LPOS''
           then map_option (apfst (\<lambda>(e, r, c, n). LPos e r c n)) (LPos_Deserialize bs)
           else if ct = cmd_type ''LSET'' then map_option (apfst (\<lambda>(i, e). LSet i e)) (LSet_Deserialize bs)
           else if ct = cmd_type ''LREM'' then map_option (apfst (\<lambda>(c, e). LRem c e)) (LRem_Deserialize bs)
           else if ct = cmd_type ''LMOVEPOP'' then map_option (apfst LMovePop) (LMovePop_Deserialize bs)
           else if ct = cmd_type ''LMOVEPUSH''
           then map_option (apfst (\<lambda>(b, e). LMovePush b e False)) (LMovePush_Deserialize bs)
           else if ct = cmd_type ''LPUSHX'' then map_option (apfst LPushX) (LPushX_Deserialize bs)
           else if ct = cmd_type ''RPUSHX'' then map_option (apfst RPushX) (RPushX_Deserialize bs)
           else if ct = cmd_type ''LLEN'' then Some (LLen, bs)
           else if ct = cmd_type ''LRANGE'' then map_option (apfst (\<lambda>(s, e). LRange s e)) (LRange_Deserialize bs)
           else if ct = cmd_type ''BLOCKPOP''
           then map_option (apfst (\<lambda>(op, b, n). BlockLPop op b n)) (BlockLPop_Deserialize of_code bs)
           else None) }"

fun list_cmd_Serialize :: "(block_operation \<Rightarrow> nat) \<Rightarrow> list_cmd \<Rightarrow> bytes" where
  "list_cmd_Serialize code (LPush es) = LPush_Serialize es []"
| "list_cmd_Serialize code (RPush es) = RPush_Serialize es []"
| "list_cmd_Serialize code (LPushX es) = LPushX_Serialize es []"
| "list_cmd_Serialize code (RPushX es) = RPushX_Serialize es []"
| "list_cmd_Serialize code (LPop n) = LPop_Serialize n []"
| "list_cmd_Serialize code (RPop n) = RPop_Serialize n []"
| "list_cmd_Serialize code (LMovePop b) = LMovePop_Serialize b []"
| "list_cmd_Serialize code (LMovePush b e m) = LMovePush_Serialize b e []"
| "list_cmd_Serialize code (LRange s e) = LRange_Serialize s e []"
| "list_cmd_Serialize code LLen = LLen_Serialize []"
| "list_cmd_Serialize code (LTrim s e) = LTrim_Serialize s e []"
| "list_cmd_Serialize code (LIndex i) = LIndex_Serialize i []"
| "list_cmd_Serialize code (LInsert b p e) = LInsert_Serialize b p e []"
| "list_cmd_Serialize code (LPos e r c n) = LPos_Serialize e r c n []"
| "list_cmd_Serialize code (LSet i e) = LSet_Serialize i e []"
| "list_cmd_Serialize code (LRem c e) = LRem_Serialize c e []"
| "list_cmd_Serialize code (BlockLPop op b n) = BlockLPop_Serialize code op b n []"

lemmas list_image_defs =
  LPush_Serialize_def RPush_Serialize_def LPushX_Serialize_def RPushX_Serialize_def LPop_Serialize_def
  RPop_Serialize_def LMovePop_Serialize_def LMovePush_Serialize_def LRange_Serialize_def LLen_Serialize_def
  LTrim_Serialize_def LIndex_Serialize_def LInsert_Serialize_def LPos_Serialize_def LSet_Serialize_def
  LRem_Serialize_def BlockLPop_Serialize_def
  LPush_Deserialize_def RPush_Deserialize_def LPushX_Deserialize_def RPushX_Deserialize_def
  LPop_Deserialize_def RPop_Deserialize_def LMovePop_Deserialize_def LMovePush_Deserialize_def
  LRange_Deserialize_def LTrim_Deserialize_def LIndex_Deserialize_def LInsert_Deserialize_def
  LPos_Deserialize_def LSet_Deserialize_def LRem_Deserialize_def BlockLPop_Deserialize_def

text \<open>The commands as the log carries them.\<close>

fun list_cmd_wf :: "list_cmd \<Rightarrow> bool" where
  "list_cmd_wf (LPush es) = (list_all arg es \<and> length es < 2 ^ 32)"
| "list_cmd_wf (RPush es) = (list_all arg es \<and> length es < 2 ^ 32)"
| "list_cmd_wf (LPushX es) = (list_all arg es \<and> length es < 2 ^ 32)"
| "list_cmd_wf (RPushX es) = (list_all arg es \<and> length es < 2 ^ 32)"
| "list_cmd_wf (LPop n) = is_i64 n"
| "list_cmd_wf (RPop n) = is_i64 n"
| "list_cmd_wf (LMovePush _ e m) = (arg e \<and> \<not> m)"
| "list_cmd_wf (LRange s e) = (is_i32 s \<and> is_i32 e)"
| "list_cmd_wf (LTrim s e) = (is_i64 s \<and> is_i64 e)"
| "list_cmd_wf (LIndex i) = is_i64 i"
| "list_cmd_wf (LInsert _ p e) = (arg p \<and> arg e)"
| "list_cmd_wf (LPos e r c n) = (arg e \<and> is_i64 r \<and> is_i64 c \<and> n < 2 ^ 64)"
| "list_cmd_wf (LSet i e) = (is_i64 i \<and> arg e)"
| "list_cmd_wf (LRem c e) = (is_i64 c \<and> arg e)"
| "list_cmd_wf (BlockLPop _ _ n) = (n < 2 ^ 32)"
| "list_cmd_wf _ = True"

lemma list_cmd_numbers:
  "cmd_type ''RPUSH'' = 58"
  "cmd_type ''LPUSH'' = 47"
  "cmd_type ''LPOP'' = 46"
  "cmd_type ''RPOP'' = 56"
  "cmd_type ''LTRIM'' = 55"
  "cmd_type ''LINDEX'' = 42"
  "cmd_type ''LINSERT'' = 43"
  "cmd_type ''LPOS'' = 44"
  "cmd_type ''LSET'' = 54"
  "cmd_type ''LREM'' = 53"
  "cmd_type ''LMOVEPOP'' = 51"
  "cmd_type ''LMOVEPUSH'' = 52"
  "cmd_type ''LPUSHX'' = 48"
  "cmd_type ''RPUSHX'' = 59"
  "cmd_type ''LLEN'' = 45"
  "cmd_type ''LRANGE'' = 49"
  "cmd_type ''BLOCKPOP'' = 35"
  by code_simp+

lemma list_command_roundtrip:
  assumes "list_cmd_wf c" "\<And>op. of_code (code op) = Some op" "\<And>op. code op < 256"
  shows "CreateTxCommand_list of_code (list_cmd_Serialize code c @ rest) = Some (c, rest)"
  using assms
  by (cases c) (simp_all add: CreateTxCommand_list_def list_image_defs list_cmd_numbers)

section \<open>Replies\<close>

fun list_OutputResult :: "list_cmd \<Rightarrow> list_result \<Rightarrow> reply list option" where
  "list_OutputResult (LPush _) r = LPush_OutputResult r"
| "list_OutputResult (RPush _) r = RPush_OutputResult r"
| "list_OutputResult (LPushX _) r = LPushX_OutputResult r"
| "list_OutputResult (RPushX _) r = RPushX_OutputResult r"
| "list_OutputResult (LPop n) r = LPop_OutputResult n r"
| "list_OutputResult (RPop n) r = RPop_OutputResult n r"
| "list_OutputResult (LMovePop _) r = LMovePop_OutputResult r"
| "list_OutputResult (LMovePush _ _ _) r = LMovePush_OutputResult r"
| "list_OutputResult (LRange _ _) r = LRange_OutputResult r"
| "list_OutputResult LLen r = LLen_OutputResult r"
| "list_OutputResult (LTrim _ _) r = LTrim_OutputResult r"
| "list_OutputResult (LIndex _) r = LIndex_OutputResult r"
| "list_OutputResult (LInsert _ _ _) r = LInsert_OutputResult r"
| "list_OutputResult (LPos _ _ c _) r = LPos_OutputResult c r"
| "list_OutputResult (LSet _ _) r = LSet_OutputResult r"
| "list_OutputResult (LRem _ _) r = LRem_OutputResult r"
| "list_OutputResult (BlockLPop _ _ _) r = Some []"

lemmas list_output_defs =
  LPush_OutputResult_def RPush_OutputResult_def LPushX_OutputResult_def RPushX_OutputResult_def
  LPop_OutputResult_def RPop_OutputResult_def LMovePush_OutputResult_def LRange_OutputResult_def
  LLen_OutputResult_def LTrim_OutputResult_def LIndex_OutputResult_def LInsert_OutputResult_def
  LPos_OutputResult_def LSet_OutputResult_def LRem_OutputResult_def error_reply_def

text \<open>The commands that answer a client themselves: all but the two inner steps of \<^verbatim>\<open>LMOVE\<close> and \<^verbatim>\<open>BLPOP\<close>.\<close>

fun answers :: "list_cmd \<Rightarrow> bool" where
  "answers (LMovePop _) = False"
| "answers (BlockLPop _ _ _) = False"
| "answers _ = True"

lemma pop_num_pos:
  assumes "elems l \<noteq> []"
  shows "take (pop_num l 1) (map f (list_object l)) \<noteq> []" "take (pop_num l 1) (map f (rev (list_object l))) \<noteq> []"
  using assms by (simp_all add: pop_num_def size_of_i64_def elems_def)

lemma error_replies [simp]: "replies (error_reply r)"
  by (simp add: error_reply_def)

lemma pop_replies:
  assumes "elems l \<noteq> []"
  shows "replies (LPop_OutputResult n (fst (Execute_LPop l n r)))"
    and "replies (RPop_OutputResult n (fst (Execute_RPop l n r)))"
  using pop_num_pos [OF assms, of StringView]
  by (auto simp: LPop_OutputResult_def RPop_OutputResult_def Execute_LPop_def Execute_RPop_def Let_def
      first_of_some take_map)

text \<open>
  What a reply asks of the list: the counts that the assertions of \<^verbatim>\<open>Execute\<close> ask for and, but for the commands that
  create a list, an element.  The arguments do not matter.
\<close>

fun reply_ok :: "list_cmd \<Rightarrow> bytes list \<Rightarrow> bool" where
  "reply_ok (LPush _) xs = True"
| "reply_ok (RPush _) xs = True"
| "reply_ok (LMovePush _ _ _) xs = True"
| "reply_ok (LPop n) xs = (-1 \<le> n \<and> xs \<noteq> [])"
| "reply_ok (RPop n) xs = (-1 \<le> n \<and> xs \<noteq> [])"
| "reply_ok (LPos _ _ c _) xs = (-1 \<le> c \<and> xs \<noteq> [])"
| "reply_ok _ xs = (xs \<noteq> [])"

lemma list_replies:
  assumes "rvalue ob = VList l" "reply_ok c (elems l)" "list_ExecuteOn c ob = (c', r, d)" "answers c"
  shows "replies (list_OutputResult c' r)"
proof (cases c)
  case (LPop n)
  then show ?thesis using assms pop_replies by (auto simp: list_exec_defs split_beta)
next
  case (RPop n)
  then show ?thesis using assms pop_replies by (auto simp: list_exec_defs split_beta)
next
  case (LIndex i)
  then show ?thesis using assms by (auto simp: list_exec_defs Execute_LIndex_def Let_def list_output_defs)
next
  case (LPos e k n m)
  then show ?thesis
    using assms by (auto simp: list_exec_defs Execute_LPos_def Let_def list_output_defs first_of_some)
qed (use assms in \<open>auto simp: list_exec_defs list_output_defs split_beta Let_def
       Execute_RPush_def execute_pushes Execute_LMovePush_def Execute_LRange_def Execute_LLen_def
       Execute_LTrim_def Execute_LInsert_def Execute_LSet_def Execute_LRem_def RedisListResult_def\<close>)

text \<open>On a key of another type every command fails with the same error and changes nothing.\<close>

lemma list_wrong_type:
  assumes "\<And>l. rvalue ob \<noteq> VList l" "list_ExecuteOn c ob = (c', r, d)"
  shows "c' = c" "d = EFail" "lr_err r = RD_ERR_WRONG_TYPE"
    and "answers c \<Longrightarrow> list_OutputResult c' r = Some [OnError (redis_get_error_messages RD_ERR_WRONG_TYPE)]"
proof -
  have e: "list_ExecuteOn c ob = (c, RedisListResult\<lparr>lr_err := RD_ERR_WRONG_TYPE\<rparr>, EFail)"
    using assms(1) by (cases "rvalue ob"; cases c) (simp_all add: list_exec_defs)
  with assms(2) show "c' = c" "d = EFail" "lr_err r = RD_ERR_WRONG_TYPE"
    by auto
  show "list_OutputResult c' r = Some [OnError (redis_get_error_messages RD_ERR_WRONG_TYPE)]" if "answers c"
    using that assms(2) unfolding e by (cases c) (auto simp: list_output_defs)
qed

text \<open>So a command that answers a client does so on every object.  The inner steps do not: the reply of the popping
  half of \<^verbatim>\<open>LMOVE\<close> asks for the wrong alternative of its result, and the one of a blocking pop is empty.\<close>

lemma list_replies_any:
  assumes "\<And>l. rvalue ob = VList l \<Longrightarrow> reply_ok c (elems l)" "list_ExecuteOn c ob = (c', r, d)" "answers c"
  shows "replies (list_OutputResult c' r)"
proof (cases "\<exists>l. rvalue ob = VList l")
  case True
  then show ?thesis using list_replies [OF _ _ assms(2,3)] assms(1) by blast
next
  case False
  then show ?thesis using list_wrong_type(4) [OF _ assms(2,3)] by simp
qed

lemma list_inner_replies:
  assumes "list_ExecuteOn c ob = (c', r, d)"
  shows "c = LMovePop b \<Longrightarrow> rvalue ob = VList l \<Longrightarrow> elems l \<noteq> [] \<Longrightarrow> list_OutputResult c' r = None"
    and "c = BlockLPop op b n \<Longrightarrow> list_OutputResult c' r = Some []"
  using assms by (auto simp: list_exec_defs LMovePop_OutputResult_def Execute_LMovePop_def elems_empty split_beta Let_def)

end
