(* ===== verification/HashCommands.thy ===== *)
theory HashCommands
  imports Command
begin

text \<open>
  The hash commands (\<^verbatim>\<open>src/redis_command.cpp\<close>, \<^verbatim>\<open>HSetCommand\<close> to \<^verbatim>\<open>HSetNxCommand\<close>), in the style of the
  list commands.  \<^verbatim>\<open>HINCRBYFLOAT\<close>, \<^verbatim>\<open>HRANDFIELD\<close> and \<^verbatim>\<open>HSCAN\<close> are left out.
\<close>

section \<open>Shared parts\<close>

text \<open>\<^verbatim>\<open>HashCommand::CheckTypeMatch\<close> and the branch every \<^verbatim>\<open>ExecuteOn\<close> starts with.\<close>

definition on_hash :: "redis_object \<Rightarrow> hash_result \<Rightarrow> (hash_obj \<Rightarrow> hash_result \<times> exec_result) \<Rightarrow>
    hash_result \<times> exec_result" where
  "on_hash obj result f =
     (case rvalue obj of VHash h \<Rightarrow> f h | _ \<Rightarrow> (result\<lparr>hr_err := RD_ERR_WRONG_TYPE\<rparr>, EFail))"

definition hash_CreateObject :: redis_object where
  "hash_CreateObject = \<lparr>rvalue = VHash RedisHashObject, rttl = None\<rparr>"

definition commit_hash :: "redis_object \<Rightarrow> (hash_obj \<Rightarrow> hash_obj \<times> bool) \<Rightarrow> commit_result" where
  "commit_hash obj f =
     (case rvalue obj of
        VHash h \<Rightarrow> (let (h', emptied) = f h in if emptied then CRemove else CKeep (obj\<lparr>rvalue := VHash h'\<rparr>))
      | _ \<Rightarrow> CUndefined)"

definition pass_or_fail :: "bool \<Rightarrow> exec_result" where
  "pass_or_fail pass = (if pass then EWrite else EFail)"

fun get_hint :: "hash_payload \<Rightarrow> int option" where
  "get_hint (HInt n) = Some n"
| "get_hint _ = None"

fun get_hstring :: "hash_payload \<Rightarrow> bytes option" where
  "get_hstring (HString s) = Some s"
| "get_hstring _ = None"

fun get_hstrings :: "hash_payload \<Rightarrow> bytes list option" where
  "get_hstrings (HStrings xs) = Some xs"
| "get_hstrings _ = None"

fun get_hnilables :: "hash_payload \<Rightarrow> bytes option list option" where
  "get_hnilables (HNilables xs) = Some xs"
| "get_hnilables _ = None"

definition hash_error :: "hash_result \<Rightarrow> reply list option" where
  "hash_error result = Some [OnError (redis_get_error_messages (hr_err result))]"

section \<open>The commands\<close>

subsection \<open>HSET and HMSET\<close>

text \<open>Both lengths precede the two strings of a pair.\<close>

definition put_hset_pair :: "eloq_string \<times> eloq_string \<Rightarrow> bytes" where
  "put_hset_pair fv =
     put_u32 (es_length (fst fv)) @ put_u32 (es_length (snd fv)) @
     take (es_length (fst fv)) (StringView (fst fv)) @ take (es_length (snd fv)) (StringView (snd fv))"

definition get_hset_pair :: "(eloq_string \<times> eloq_string) reader" where
  "get_hset_pair bs =
     do { (field_size, bs1) \<leftarrow> get_u32 bs; (value_size, bs2) \<leftarrow> get_u32 bs1;
          (f, bs3) \<leftarrow> get_raw field_size bs2; (v, bs4) \<leftarrow> get_raw value_size bs3;
          Some ((es_make f, es_make v), bs4) }"

definition HSet_ExecuteOn :: "field_map \<Rightarrow> redis_object \<Rightarrow> hash_result \<Rightarrow> hash_result \<times> exec_result" where
  "HSet_ExecuteOn field_value_pairs obj result =
     on_hash obj result (\<lambda>h.
       let (r, pass) = Execute_HSet h field_value_pairs result in (r, pass_or_fail pass))"

definition HSet_CommitOn :: "field_map \<Rightarrow> redis_object \<Rightarrow> commit_result" where
  "HSet_CommitOn field_value_pairs obj =
     commit_hash obj (\<lambda>h. (fst (CommitHset h field_value_pairs), False))"

definition HSet_Serialize :: "field_map \<Rightarrow> bytes \<Rightarrow> bytes" where
  "HSet_Serialize field_value_pairs str =
     str @ put_u8 (cmd_type ''HSET'') @ put_vec put_hset_pair field_value_pairs"

definition HSet_Deserialize :: "field_map reader" where
  "HSet_Deserialize = get_vec get_hset_pair"

text \<open>\<^verbatim>\<open>SubType::HMSET\<close> answers with a status instead of the number of new fields.\<close>

definition HSet_OutputResult :: "bool \<Rightarrow> hash_result \<Rightarrow> reply list option" where
  "HSet_OutputResult is_hmset result =
     (if hr_err result = RD_OK
      then if \<not> is_hmset then map_option (\<lambda>n. [OnInt n]) (get_hint (hr_result result))
           else Some [OnStatus (redis_get_error_messages RD_OK)]
      else hash_error result)"

subsection \<open>HLEN\<close>

definition HLen_ExecuteOn :: "redis_object \<Rightarrow> hash_result \<Rightarrow> hash_result \<times> exec_result" where
  "HLen_ExecuteOn obj result =
     on_hash obj result (\<lambda>h.
       (Execute_HLen h result, ERead))"

definition HLen_Serialize :: "bytes \<Rightarrow> bytes" where
  "HLen_Serialize str = str @ put_u8 (cmd_type ''HLEN'')"

definition HLen_OutputResult :: "hash_result \<Rightarrow> reply list option" where
  "HLen_OutputResult result =
     (if hr_err result = RD_OK then map_option (\<lambda>n. [OnInt n]) (get_hint (hr_result result))
      else if hr_err result = RD_NIL then Some [OnInt 0]
      else hash_error result)"

subsection \<open>HSTRLEN\<close>

definition HStrLen_ExecuteOn :: "eloq_string \<Rightarrow> redis_object \<Rightarrow> hash_result \<Rightarrow> hash_result \<times> exec_result" where
  "HStrLen_ExecuteOn field obj result =
     on_hash obj result (\<lambda>h.
       (Execute_HStrLen h field result, ERead))"

definition HStrLen_Serialize :: "eloq_string \<Rightarrow> bytes \<Rightarrow> bytes" where
  "HStrLen_Serialize field str = str @ put_u8 (cmd_type ''HSTRLEN'') @ put_string field"

definition HStrLen_Deserialize :: "eloq_string reader" where
  "HStrLen_Deserialize = get_string"

definition HStrLen_OutputResult :: "hash_result \<Rightarrow> reply list option" where
  "HStrLen_OutputResult result =
     (if hr_err result = RD_OK then map_option (\<lambda>n. [OnInt n]) (get_hint (hr_result result))
      else if hr_err result = RD_NIL then Some [OnInt 0]
      else hash_error result)"

subsection \<open>HGET\<close>

definition HGet_ExecuteOn :: "eloq_string \<Rightarrow> redis_object \<Rightarrow> hash_result \<Rightarrow> hash_result \<times> exec_result" where
  "HGet_ExecuteOn field obj result =
     on_hash obj result (\<lambda>h.
       (Execute_HGet h field result, ERead))"

definition HGet_Serialize :: "eloq_string \<Rightarrow> bytes \<Rightarrow> bytes" where
  "HGet_Serialize field str = str @ put_u8 (cmd_type ''HGET'') @ put_string field"

definition HGet_Deserialize :: "eloq_string reader" where
  "HGet_Deserialize = get_string"

definition HGet_OutputResult :: "hash_result \<Rightarrow> reply list option" where
  "HGet_OutputResult result =
     (if hr_err result = RD_OK then map_option (\<lambda>s. [OnString s]) (get_hstring (hr_result result))
      else if hr_err result = RD_NIL then Some [OnNil]
      else hash_error result)"

subsection \<open>HEXISTS\<close>

definition HExists_ExecuteOn :: "eloq_string \<Rightarrow> redis_object \<Rightarrow> hash_result \<Rightarrow> hash_result \<times> exec_result" where
  "HExists_ExecuteOn key obj result =
     on_hash obj result (\<lambda>h.
       (Execute_HExists h key result, ERead))"

definition HExists_Serialize :: "eloq_string \<Rightarrow> bytes \<Rightarrow> bytes" where
  "HExists_Serialize key str = str @ put_u8 (cmd_type ''HEXISTS'') @ put_string key"

definition HExists_Deserialize :: "eloq_string reader" where
  "HExists_Deserialize = get_string"

definition HExists_OutputResult :: "hash_result \<Rightarrow> reply list option" where
  "HExists_OutputResult result =
     (if hr_err result = RD_NIL then Some [OnInt 0]
      else if hr_err result = RD_OK then Some [OnInt 1]
      else hash_error result)"

subsection \<open>HDEL\<close>

definition HDel_ExecuteOn :: "eloq_string list \<Rightarrow> redis_object \<Rightarrow> hash_result \<Rightarrow> hash_result \<times> exec_result" where
  "HDel_ExecuteOn del_list obj result =
     on_hash obj result (\<lambda>h.
       let (r, st) = Execute_HDel h del_list result in (r, exec_of_state st))"

definition HDel_CommitOn :: "eloq_string list \<Rightarrow> redis_object \<Rightarrow> commit_result" where
  "HDel_CommitOn del_list obj = commit_hash obj (\<lambda>h. CommitHdel h del_list)"

definition HDel_Serialize :: "eloq_string list \<Rightarrow> bytes \<Rightarrow> bytes" where
  "HDel_Serialize del_list str = str @ put_u8 (cmd_type ''HDEL'') @ put_vec put_string del_list"

definition HDel_Deserialize :: "eloq_string list reader" where
  "HDel_Deserialize = get_vec get_string"

definition HDel_OutputResult :: "hash_result \<Rightarrow> reply list option" where
  "HDel_OutputResult result =
     (if hr_err result = RD_NIL then Some [OnInt 0]
      else if hr_err result = RD_OK then map_option (\<lambda>n. [OnInt n]) (get_hint (hr_result result))
      else hash_error result)"

subsection \<open>HGETALL\<close>

definition HGetAll_ExecuteOn :: "redis_object \<Rightarrow> hash_result \<Rightarrow> hash_result \<times> exec_result" where
  "HGetAll_ExecuteOn obj result =
     on_hash obj result (\<lambda>h.
       (Execute_HGetAll h result, ERead))"

definition HGetAll_Serialize :: "bytes \<Rightarrow> bytes" where
  "HGetAll_Serialize str = str @ put_u8 (cmd_type ''HGETALL'')"

definition HGetAll_OutputResult :: "hash_result \<Rightarrow> reply list option" where
  "HGetAll_OutputResult result =
     (if hr_err result = RD_OK
      then map_option (\<lambda>xs. array_reply (map OnString xs)) (get_hstrings (hr_result result))
      else if hr_err result = RD_NIL then Some (array_reply [])
      else hash_error result)"

subsection \<open>HKEYS\<close>

definition HKeys_ExecuteOn :: "redis_object \<Rightarrow> hash_result \<Rightarrow> hash_result \<times> exec_result" where
  "HKeys_ExecuteOn obj result =
     on_hash obj result (\<lambda>h.
       (Execute_HKeys h result, ERead))"

definition HKeys_Serialize :: "bytes \<Rightarrow> bytes" where
  "HKeys_Serialize str = str @ put_u8 (cmd_type ''HKEYS'')"

definition HKeys_OutputResult :: "hash_result \<Rightarrow> reply list option" where
  "HKeys_OutputResult result =
     (if hr_err result = RD_OK
      then map_option (\<lambda>xs. array_reply (map OnString xs)) (get_hstrings (hr_result result))
      else if hr_err result = RD_NIL then Some (array_reply [])
      else hash_error result)"

subsection \<open>HVALS\<close>

definition HVals_ExecuteOn :: "redis_object \<Rightarrow> hash_result \<Rightarrow> hash_result \<times> exec_result" where
  "HVals_ExecuteOn obj result =
     on_hash obj result (\<lambda>h.
       (Execute_HVals h result, ERead))"

definition HVals_Serialize :: "bytes \<Rightarrow> bytes" where
  "HVals_Serialize str = str @ put_u8 (cmd_type ''HVALS'')"

definition HVals_OutputResult :: "hash_result \<Rightarrow> reply list option" where
  "HVals_OutputResult result =
     (if hr_err result = RD_OK
      then map_option (\<lambda>xs. array_reply (map OnString xs)) (get_hstrings (hr_result result))
      else if hr_err result = RD_NIL then Some (array_reply [])
      else hash_error result)"

subsection \<open>HINCRBY\<close>

definition HIncrBy_ExecuteOn :: "eloq_string \<Rightarrow> int \<Rightarrow> redis_object \<Rightarrow> hash_result \<Rightarrow> hash_result \<times> exec_result" where
  "HIncrBy_ExecuteOn field score obj result =
     on_hash obj result (\<lambda>h.
       let (r, pass) = Execute_HIncrBy h field score result in (r, pass_or_fail pass))"

definition HIncrBy_CommitOn :: "eloq_string \<Rightarrow> int \<Rightarrow> redis_object \<Rightarrow> commit_result" where
  "HIncrBy_CommitOn field score obj = commit_hash obj (\<lambda>h. (fst (CommitHincrby h field score), False))"

definition HIncrBy_Serialize :: "eloq_string \<Rightarrow> int \<Rightarrow> bytes \<Rightarrow> bytes" where
  "HIncrBy_Serialize field score str = str @ put_u8 (cmd_type ''HINCRBY'') @ put_string field @ put_i64 score"

definition HIncrBy_Deserialize :: "(eloq_string \<times> int) reader" where
  "HIncrBy_Deserialize bs =
     do { (field, bs1) \<leftarrow> get_string bs; (score, bs2) \<leftarrow> get_i64 bs1; Some ((field, score), bs2) }"

definition HIncrBy_OutputResult :: "hash_result \<Rightarrow> reply list option" where
  "HIncrBy_OutputResult result =
     (if hr_err result = RD_OK then map_option (\<lambda>n. [OnInt n]) (get_hint (hr_result result))
      else hash_error result)"

subsection \<open>HMGET\<close>

definition HMGet_ExecuteOn :: "eloq_string list \<Rightarrow> redis_object \<Rightarrow> hash_result \<Rightarrow> hash_result \<times> exec_result" where
  "HMGet_ExecuteOn field_list obj result =
     on_hash obj result (\<lambda>h.
       (Execute_HMGet h field_list result, ERead))"

definition HMGet_Serialize :: "eloq_string list \<Rightarrow> bytes \<Rightarrow> bytes" where
  "HMGet_Serialize field_list str = str @ put_u8 (cmd_type ''HMGET'') @ put_vec put_string field_list"

definition HMGet_Deserialize :: "eloq_string list reader" where
  "HMGet_Deserialize = get_vec get_string"

definition nilable :: "bytes option \<Rightarrow> reply" where
  "nilable v = (case v of Some s \<Rightarrow> OnString s | None \<Rightarrow> OnNil)"

definition HMGet_OutputResult :: "eloq_string list \<Rightarrow> hash_result \<Rightarrow> reply list option" where
  "HMGet_OutputResult field_list result =
     (if hr_err result = RD_OK
      then map_option (\<lambda>vs. array_reply (map nilable vs)) (get_hnilables (hr_result result))
      else if hr_err result = RD_NIL then Some (array_reply (map (\<lambda>_. OnNil) field_list))
      else hash_error result)"

subsection \<open>HSETNX\<close>

definition HSetNx_ExecuteOn :: "eloq_string \<Rightarrow> eloq_string \<Rightarrow> redis_object \<Rightarrow> hash_result \<Rightarrow> hash_result \<times> exec_result" where
  "HSetNx_ExecuteOn key val obj result =
     on_hash obj result (\<lambda>h.
       let (r, pass) = Execute_HSetNx h key val result in (r, pass_or_fail pass))"

definition HSetNx_CommitOn :: "eloq_string \<Rightarrow> eloq_string \<Rightarrow> redis_object \<Rightarrow> commit_result" where
  "HSetNx_CommitOn key val obj = commit_hash obj (\<lambda>h. (fst (CommitHSetNx h key val), False))"

definition HSetNx_Serialize :: "eloq_string \<Rightarrow> eloq_string \<Rightarrow> bytes \<Rightarrow> bytes" where
  "HSetNx_Serialize key val str = str @ put_u8 (cmd_type ''HSETNX'') @ put_string key @ put_string val"

definition HSetNx_Deserialize :: "(eloq_string \<times> eloq_string) reader" where
  "HSetNx_Deserialize bs =
     do { (key, bs1) \<leftarrow> get_string bs; (val, bs2) \<leftarrow> get_string bs1; Some ((key, val), bs2) }"

definition HSetNx_OutputResult :: "hash_result \<Rightarrow> reply list option" where
  "HSetNx_OutputResult result =
     (if hr_err result = RD_OK then Some [OnInt 1]
      else if hr_err result = RD_NIL then Some [OnInt 0]
      else hash_error result)"

section \<open>The family\<close>

datatype hash_cmd =
    HSet bool field_map
  | HLen
  | HStrLen eloq_string
  | HGet eloq_string
  | HExists eloq_string
  | HDel "eloq_string list"
  | HGetAll
  | HKeys
  | HVals
  | HIncrBy eloq_string int
  | HMGet "eloq_string list"
  | HSetNx eloq_string eloq_string

fun hash_ExecuteOn :: "hash_cmd \<Rightarrow> redis_object \<Rightarrow> hash_cmd \<times> hash_result \<times> exec_result" where
  "hash_ExecuteOn (HSet b kvs) obj = (HSet b kvs, HSet_ExecuteOn kvs obj RedisHashResult)"
| "hash_ExecuteOn HLen obj = (HLen, HLen_ExecuteOn obj RedisHashResult)"
| "hash_ExecuteOn (HStrLen f) obj = (HStrLen f, HStrLen_ExecuteOn f obj RedisHashResult)"
| "hash_ExecuteOn (HGet f) obj = (HGet f, HGet_ExecuteOn f obj RedisHashResult)"
| "hash_ExecuteOn (HExists f) obj = (HExists f, HExists_ExecuteOn f obj RedisHashResult)"
| "hash_ExecuteOn (HDel ks) obj = (HDel ks, HDel_ExecuteOn ks obj RedisHashResult)"
| "hash_ExecuteOn HGetAll obj = (HGetAll, HGetAll_ExecuteOn obj RedisHashResult)"
| "hash_ExecuteOn HKeys obj = (HKeys, HKeys_ExecuteOn obj RedisHashResult)"
| "hash_ExecuteOn HVals obj = (HVals, HVals_ExecuteOn obj RedisHashResult)"
| "hash_ExecuteOn (HIncrBy f n) obj = (HIncrBy f n, HIncrBy_ExecuteOn f n obj RedisHashResult)"
| "hash_ExecuteOn (HMGet fs) obj = (HMGet fs, HMGet_ExecuteOn fs obj RedisHashResult)"
| "hash_ExecuteOn (HSetNx k v) obj = (HSetNx k v, HSetNx_ExecuteOn k v obj RedisHashResult)"

fun hash_CommitOn :: "hash_cmd \<Rightarrow> redis_object \<Rightarrow> commit_result" where
  "hash_CommitOn (HSet b kvs) obj = HSet_CommitOn kvs obj"
| "hash_CommitOn (HDel ks) obj = HDel_CommitOn ks obj"
| "hash_CommitOn (HIncrBy f n) obj = HIncrBy_CommitOn f n obj"
| "hash_CommitOn (HSetNx k v) obj = HSetNx_CommitOn k v obj"
| "hash_CommitOn _ obj = CUndefined"

lemmas hash_exec_defs =
  HSet_ExecuteOn_def HLen_ExecuteOn_def HStrLen_ExecuteOn_def HGet_ExecuteOn_def HExists_ExecuteOn_def
  HDel_ExecuteOn_def HGetAll_ExecuteOn_def HKeys_ExecuteOn_def HVals_ExecuteOn_def HIncrBy_ExecuteOn_def
  HMGet_ExecuteOn_def HSetNx_ExecuteOn_def on_hash_def

lemmas hash_commit_defs =
  HSet_CommitOn_def HDel_CommitOn_def HIncrBy_CommitOn_def HSetNx_CommitOn_def commit_hash_def

section \<open>What the commands mean\<close>

definition views :: "field_map \<Rightarrow> (bytes \<times> bytes) list" where
  "views kvs = map (\<lambda>(k, v). (StringView k, StringView v)) kvs"

text \<open>The integer that counts for \<^verbatim>\<open>HINCRBY\<close>.\<close>

definition old_int :: "(bytes \<Rightarrow> bytes option) \<Rightarrow> bytes \<Rightarrow> int" where
  "old_int m f = (case m f of None \<Rightarrow> 0 | Some b \<Rightarrow> (case string2ll b of Some n \<Rightarrow> n | None \<Rightarrow> 0))"

fun hash_apply :: "hash_cmd \<Rightarrow> (bytes \<Rightarrow> bytes option) \<Rightarrow> (bytes \<Rightarrow> bytes option)" where
  "hash_apply (HSet _ kvs) m = m ++ map_of (rev (views kvs))"
| "hash_apply (HDel ks) m = m |` (- StringView ` set ks)"
| "hash_apply (HIncrBy f n) m = m(StringView f \<mapsto> to_string (old_int m (StringView f) + n))"
| "hash_apply (HSetNx k v) m = m(StringView k \<mapsto> StringView v)"
| "hash_apply _ m = m"

definition hash_state :: "hash_obj \<Rightarrow> bool" where
  "hash_state h \<longleftrightarrow> hash_inv h \<and> hash_fits h"

text \<open>The arguments as the parsers build them: distinct names, and a size that a request can have.\<close>

definition pairs_size :: "field_map \<Rightarrow> nat" where
  "pairs_size kvs = (\<Sum>kv \<leftarrow> kvs. length (put_pair kv))"

fun hash_ok :: "hash_cmd \<Rightarrow> (bytes \<Rightarrow> bytes option) \<Rightarrow> bool" where
  "hash_ok (HSet _ kvs) m = (kvs \<noteq> [] \<and> list_all pair_ok kvs \<and> distinct (map (\<lambda>kv. StringView (fst kv)) kvs) \<and>
     pairs_size kvs < 2 ^ 62)"
| "hash_ok (HDel ks) m = (distinct (map StringView ks) \<and> m \<noteq> Map.empty)"
| "hash_ok (HIncrBy f n) m = (arg_ok f \<and> is_i64 n)"
| "hash_ok (HSetNx k v) m = pair_ok (k, v)"
| "hash_ok _ m = (m \<noteq> Map.empty)"

lemma fm_assign_bytes:
  "length (concat (map put_pair (fm_assign k v m))) \<le> length (concat (map put_pair m)) + length (put_pair (k, v))"
  by (induction m) (auto simp: put_pair_def)

lemma SetField_bytes:
  assumes "pair_ok (f, v)"
  shows "hash_bytes (fst (SetField h f v)) \<le> hash_bytes h + length (put_pair (f, v))"
proof -
  have "length (put_pair (stored f v)) = length (put_pair (f, v))"
    using stored_props(3,4) [OF assms] by (simp add: put_pair_def es_length_def)
  with fm_assign_bytes [of "fst (stored f v)" "snd (stored f v)" "hash_map h"] show ?thesis
    by (simp add: SetField_map hash_bytes_def hash_body_def put_vec_def)
qed

lemma CommitHset_bytes:
  "list_all pair_ok kvs \<Longrightarrow> hash_bytes (fst (CommitHset h kvs)) \<le> hash_bytes h + pairs_size kvs"
proof (induction kvs arbitrary: h)
  case (Cons kv kvs)
  obtain f v where kv: "kv = (f, v)" by (cases kv)
  let ?h = "fst (SetField h f v)"
  have "hash_bytes (fst (CommitHset ?h kvs)) \<le> hash_bytes ?h + pairs_size kvs" using Cons by simp
  moreover have "hash_bytes ?h \<le> hash_bytes h + length (put_pair (f, v))"
    using Cons.prems kv by (intro SetField_bytes) simp
  ultimately show ?case by (simp add: kv Let_def split_beta pairs_size_def)
qed (simp add: pairs_size_def)

text \<open>The size test in 64-bit arithmetic is exact while the sizes are below the wrap-around.\<close>

lemma hash_fitsI:
  assumes "hash_inv h" "hash_bytes h < 2 ^ 64" "\<not> hash_slen h > MAX_OBJECT_SIZE"
  shows "hash_state h"
  using assms of_nat_gt_MAX [OF assms(2)] by (simp add: hash_state_def hash_fits_def hash_slen_bytes)

definition hash_commits :: "hash_cmd \<Rightarrow> hash_obj \<Rightarrow> redis_object \<Rightarrow> bool" where
  "hash_commits c h ob \<longleftrightarrow>
     (\<exists>h'. hash_state h' \<and> hfields h' = hash_apply c (hfields h) \<and>
        hash_CommitOn c ob = (if hfields h' = Map.empty then CRemove else CKeep (ob\<lparr>rvalue := VHash h'\<rparr>)))"

lemma hash_commitsI:
  assumes "hash_state h'" "hfields h' = hash_apply c (hfields h)"
    and "hash_CommitOn c ob = (if hfields h' = Map.empty then CRemove else CKeep (ob\<lparr>rvalue := VHash h'\<rparr>))"
  shows "hash_commits c h ob"
  unfolding hash_commits_def using assms by (intro exI [of _ h']) simp

subsection \<open>Each command\<close>

lemma hset_nonempty: "kvs \<noteq> [] \<Longrightarrow> m ++ map_of (rev (views kvs)) \<noteq> Map.empty"
proof
  assume k: "kvs \<noteq> []" and "m ++ map_of (rev (views kvs)) = Map.empty"
  then have "dom (m ++ map_of (rev (views kvs))) = {}" by simp
  with k show False by (simp add: dom_map_of_conv_image_fst views_def)
qed

lemma hset_commits:
  assumes "hash_state h" "rvalue ob = VHash h" "hash_ok (HSet b kvs) m" "snd (Execute_HSet h kvs r)"
  shows "hash_commits (HSet b kvs) h ob"
proof -
  let ?h = "fst (CommitHset h kvs)"
  have k: "hash_inv h" "list_all pair_ok kvs" "distinct (map (\<lambda>kv. StringView (fst kv)) kvs)" "kvs \<noteq> []"
    using assms(1,3) by (simp_all add: hash_state_def)
  note sp = CommitHset_spec [OF k(1,2)]
  have "hash_bytes ?h < 2 ^ 64"
    using CommitHset_bytes [OF k(2), of h] assms(1,3) by (simp add: hash_state_def hash_fits_def)
  moreover have "\<not> hash_slen ?h > MAX_OBJECT_SIZE"
    using assms(4) Execute_HSet_size [OF k(2,3), of h]
    by (auto simp: Execute_HSet_def Let_def split_beta split: if_splits)
  ultimately have "hash_state ?h" using sp(1) by (intro hash_fitsI)
  then show ?thesis
    by (rule hash_commitsI)
       (use sp assms(2) hset_nonempty [OF k(4)] in \<open>simp_all add: hash_commit_defs views_def\<close>)
qed

lemma CommitHdel_bytes: "hash_bytes (fst (CommitHdel h ks)) \<le> hash_bytes h"
proof (induction h ks rule: CommitHdel.induct)
  case (2 h k ks)
  have "length (concat (map put_pair (fm_erase k m))) \<le> length (concat (map put_pair m))" for m
    by (induction m) (auto simp: fm_erase_def)
  then have e: "hash_bytes \<lparr>hash_map = fm_erase k (hash_map h), hash_slen = n\<rparr> \<le> hash_bytes h" for n
    by (simp add: hash_bytes_def hash_body_def put_vec_def)
  show ?case
  proof (cases "fm_find k (hash_map h)")
    case None
    with 2 show ?thesis by simp
  next
    case (Some p)
    obtain k' v' where p: "p = (k', v')" by (cases p)
    show ?thesis using order_trans [OF "2.IH"(2) [OF Some p [symmetric]] e] Some p by simp
  qed
qed simp

lemma hdel_commits:
  assumes "hash_state h" "rvalue ob = VHash h"
  shows "hash_commits (HDel ks) h ob"
proof -
  have i: "hash_inv h" using assms(1) by (simp add: hash_state_def)
  note sp = CommitHdel_spec [OF i, of ks]
  have "hash_state (fst (CommitHdel h ks))"
    using sp(1) assms(1) CommitHdel_bytes [of h ks] by (simp add: hash_state_def hash_fits_def)
  then show ?thesis
    by (rule hash_commitsI) (use sp assms(2) in \<open>simp_all add: hash_commit_defs split_beta\<close>)
qed

lemma hsetnx_commits:
  assumes "hash_state h" "rvalue ob = VHash h" "pair_ok (k, v)" "snd (Execute_HSetNx h k v r)"
  shows "hash_commits (HSetNx k v) h ob"
proof -
  let ?h = "fst (SetField h k v)"
  have n: "fm_find k (hash_map h) = None"
      "\<not> hash_slen h + 8 + of_nat (es_length k) + of_nat (es_length v) > MAX_OBJECT_SIZE"
    using assms(4) by (auto simp: Execute_HSetNx_def split: if_splits)
  have i: "hash_inv h" using assms(1) by (simp add: hash_state_def)
  note sp = hash_put [OF i assms(3)]
  have "hash_slen ?h = hash_slen h + 8 + of_nat (es_length k) + of_nat (es_length v)"
    using n(1) by (simp add: SetField_map cost_def)
  moreover have "hash_bytes ?h < 2 ^ 64"
  proof -
    have "length (put_pair (k, v)) < 2 ^ 34"
      by (simp add: put_pair_def es_length_def)
    then show ?thesis
      using SetField_bytes [OF assms(3), of h] assms(1) by (simp add: hash_state_def hash_fits_def)
  qed
  ultimately have "hash_state ?h" using sp(1) n(2) by (intro hash_fitsI) simp_all
  then show ?thesis
    by (rule hash_commitsI)
       (use sp assms(2) CommitHSetNx_put [OF n(1)] in \<open>simp_all add: hash_commit_defs\<close>)
qed

lemma hincrby_commits:
  assumes "hash_state h" "rvalue ob = VHash h" "arg_ok f" "is_i64 n" "snd (Execute_HIncrBy h f n r)"
  shows "hash_commits (HIncrBy f n) h ob"
proof -
  have i: "hash_inv h" using assms(1) by (simp add: hash_state_def)
  obtain r' where x: "Execute_HIncrBy h f n r = (r', True)" using assms(5) by (cases "Execute_HIncrBy h f n r") simp
  obtain m where m: "hash_int h (StringView f) = Some m" "is_i64 (m + n)"
    using Execute_HIncrBy_True [OF i assms(4) x] by blast
  let ?h = "fst (CommitHincrby h f n)" and ?t = "to_string (m + n)"
  note sp = CommitHincrby_map [OF i assms(3) m]
  have t: "length ?t \<le> 20" by (rule length_to_string [OF m(2)])
  have "hash_slen ?h + of_nat (20 - length ?t) =
      hash_slen h + of_int ((case fm_find f (hash_map h) of
          Some (_, v) \<Rightarrow> - int (es_length v) | None \<Rightarrow> 8 + int (es_length f)) + 20)"
    using t m i
    by (auto simp: CommitHincrby_def hash_int_find Let_def split_beta of_nat_diff split: option.splits)
  moreover have "\<not> hash_slen h + of_int ((case fm_find f (hash_map h) of
          Some (_, v) \<Rightarrow> - int (es_length v) | None \<Rightarrow> 8 + int (es_length f)) + 20) > MAX_OBJECT_SIZE"
    using x by (auto simp: Execute_HIncrBy_def Let_def split: option.splits if_splits)
  ultimately have le: "\<not> of_nat (hash_bytes ?h + (20 - length ?t)) > MAX_OBJECT_SIZE"
    by (simp only: hash_slen_bytes [OF sp(1)] of_nat_add simp_thms)
  have "hash_bytes ?h \<le> hash_bytes h + (8 + 2 ^ 33)"
  proof -
    obtain k where k: "hash_map ?h = fm_assign k (es_make ?t) (hash_map h)"
      using m i by (auto simp: CommitHincrby_def hash_int_find Let_def split_beta split: option.splits)
    have "length (put_pair (k, es_make ?t)) \<le> 8 + 2 ^ 33" by (simp add: put_pair_def es_length_def)
    then show ?thesis
      using fm_assign_bytes [of k "es_make ?t" "hash_map h"]
      by (simp add: hash_bytes_def hash_body_def put_vec_def k)
  qed
  then have "hash_bytes ?h + (20 - length ?t) < 2 ^ 64"
    using assms(1) by (simp add: hash_state_def hash_fits_def) linarith
  then have "hash_state ?h"
    using le of_nat_gt_MAX [of "hash_bytes ?h + (20 - length ?t)"] sp(1)
    by (simp add: hash_state_def hash_fits_def)
  moreover have "old_int (hfields h) (StringView f) = m"
    using m(1) by (auto simp: old_int_def hash_int_def split: option.splits)
  ultimately show ?thesis
    by (intro hash_commitsI [of ?h]) (use sp assms(2) in \<open>simp_all add: hash_commit_defs\<close>)
qed

lemma pass_or_fail_simps [simp]:
  "pass_or_fail b = EWrite \<longleftrightarrow> b" "pass_or_fail b \<noteq> EDelete" "EDelete \<noteq> pass_or_fail b"
  by (simp_all add: pass_or_fail_def)

lemma hash_command_commits:
  assumes "hash_state h" "rvalue ob = VHash h" "hash_ok c (hfields h)"
    and "hash_ExecuteOn c ob = (c', r, d)" "d = EWrite \<or> d = EDelete"
  shows "c' = c \<and> hash_commits c h ob \<and> (d = EDelete \<longleftrightarrow> hash_apply c (hfields h) = Map.empty)"
proof (cases c)
  case (HSet b kvs)
  then show ?thesis
    using assms hset_commits [OF assms(1,2), of b kvs] hset_nonempty [of kvs "hfields h"]
    by (auto simp: hash_exec_defs split_beta)
next
  case (HDel ks)
  have "exec_of_state (snd (Execute_HDel h ks RedisHashResult)) = EDelete \<longleftrightarrow>
      hfields h |` (- StringView ` set ks) = Map.empty"
  proof -
    have "exec_of_state st = EDelete \<longleftrightarrow> st = ModifiedToEmpty" for st by (cases st) simp_all
    then show ?thesis
      using assms(1,3) HDel Execute_HDel_empty [of h ks] by (auto simp: hash_state_def hash_empty)
  qed
  then show ?thesis using HDel assms hdel_commits [OF assms(1,2)] by (auto simp: hash_exec_defs split_beta)
next
  case (HIncrBy f n)
  then show ?thesis
    using assms hincrby_commits [OF assms(1,2)] by (auto simp: hash_exec_defs split_beta)
next
  case (HSetNx k v)
  then show ?thesis
    using assms hsetnx_commits [OF assms(1,2)] by (auto simp: hash_exec_defs split_beta)
qed (use assms in \<open>auto simp: hash_exec_defs\<close>)

section \<open>The contract\<close>

fun hash_object_inv :: "redis_value \<Rightarrow> bool" where
  "hash_object_inv (VHash h) = hash_state h"
| "hash_object_inv _ = False"

fun hash_value :: "redis_value \<Rightarrow> bytes \<Rightarrow> bytes option" where
  "hash_value (VHash h) = hfields h"
| "hash_value _ = Map.empty"

interpretation hash_commands: ttl_keeping_command hash_ExecuteOn hash_CommitOn
  "\<lambda>c ob. hash_ok c (hash_value (rvalue ob))" "\<lambda>ob. hash_object_inv (rvalue ob)"
  "\<lambda>ob. hash_value (rvalue ob) = Map.empty"
proof unfold_locales
  fix ob :: redis_object and c c' r
  assume a: "hash_object_inv (rvalue ob)" "hash_ok c (hash_value (rvalue ob))"
  then obtain h where h: "rvalue ob = VHash h" "hash_state h" "hash_ok c (hfields h)"
    by (cases "rvalue ob") auto
  note cm = hash_command_commits [OF h(2,1,3)]
  show "\<exists>ob'. hash_CommitOn c' ob = CKeep ob' \<and> hash_object_inv (rvalue ob') \<and>
      hash_value (rvalue ob') \<noteq> Map.empty"
    if "hash_ExecuteOn c ob = (c', r, EWrite)"
    using cm [OF that] by (auto simp: hash_commits_def)
  show "hash_CommitOn c' ob = CRemove" if "hash_ExecuteOn c ob = (c', r, EDelete)"
    using cm [OF that] by (auto simp: hash_commits_def)
  show "rttl ob' = rttl ob" if "hash_ExecuteOn c ob = (c', r, EWrite)" "hash_CommitOn c' ob = CKeep ob'" for ob'
    using cm [OF that(1)] that(2) by (auto simp: hash_commits_def split: if_splits)
qed

section \<open>Images\<close>

text \<open>The cases of \<^verbatim>\<open>RedisTableSchema::CreateTxCommand\<close> for this family; \<^verbatim>\<open>HMSET\<close> is read back as \<^verbatim>\<open>HSET\<close>.\<close>

definition CreateTxCommand_hash :: "hash_cmd reader" where
  "CreateTxCommand_hash cmd_image =
     do { (ct, bs) \<leftarrow> get_u8 cmd_image;
          (if ct = cmd_type ''HSET'' then map_option (apfst (HSet False)) (HSet_Deserialize bs)
           else if ct = cmd_type ''HDEL'' then map_option (apfst HDel) (HDel_Deserialize bs)
           else if ct = cmd_type ''HINCRBY'' then map_option (apfst (\<lambda>(f, n). HIncrBy f n)) (HIncrBy_Deserialize bs)
           else if ct = cmd_type ''HSETNX'' then map_option (apfst (\<lambda>(k, v). HSetNx k v)) (HSetNx_Deserialize bs)
           else if ct = cmd_type ''HMGET'' then map_option (apfst HMGet) (HMGet_Deserialize bs)
           else if ct = cmd_type ''HVALS'' then Some (HVals, bs)
           else if ct = cmd_type ''HGET'' then map_option (apfst HGet) (HGet_Deserialize bs)
           else if ct = cmd_type ''HLEN'' then Some (HLen, bs)
           else if ct = cmd_type ''HSTRLEN'' then map_option (apfst HStrLen) (HStrLen_Deserialize bs)
           else if ct = cmd_type ''HKEYS'' then Some (HKeys, bs)
           else if ct = cmd_type ''HGETALL'' then Some (HGetAll, bs)
           else if ct = cmd_type ''HEXISTS'' then map_option (apfst HExists) (HExists_Deserialize bs)
           else None) }"

fun hash_cmd_Serialize :: "hash_cmd \<Rightarrow> bytes" where
  "hash_cmd_Serialize (HSet b kvs) = HSet_Serialize kvs []"
| "hash_cmd_Serialize HLen = HLen_Serialize []"
| "hash_cmd_Serialize (HStrLen f) = HStrLen_Serialize f []"
| "hash_cmd_Serialize (HGet f) = HGet_Serialize f []"
| "hash_cmd_Serialize (HExists f) = HExists_Serialize f []"
| "hash_cmd_Serialize (HDel ks) = HDel_Serialize ks []"
| "hash_cmd_Serialize HGetAll = HGetAll_Serialize []"
| "hash_cmd_Serialize HKeys = HKeys_Serialize []"
| "hash_cmd_Serialize HVals = HVals_Serialize []"
| "hash_cmd_Serialize (HIncrBy f n) = HIncrBy_Serialize f n []"
| "hash_cmd_Serialize (HMGet fs) = HMGet_Serialize fs []"
| "hash_cmd_Serialize (HSetNx k v) = HSetNx_Serialize k v []"

lemmas hash_image_defs =
  HSet_Serialize_def HLen_Serialize_def HStrLen_Serialize_def HGet_Serialize_def HExists_Serialize_def
  HDel_Serialize_def HGetAll_Serialize_def HKeys_Serialize_def HVals_Serialize_def HIncrBy_Serialize_def
  HMGet_Serialize_def HSetNx_Serialize_def HSet_Deserialize_def HStrLen_Deserialize_def HGet_Deserialize_def
  HExists_Deserialize_def HDel_Deserialize_def HIncrBy_Deserialize_def HMGet_Deserialize_def
  HSetNx_Deserialize_def

fun hash_cmd_wf :: "hash_cmd \<Rightarrow> bool" where
  "hash_cmd_wf (HSet b kvs) = (\<not> b \<and> list_all (\<lambda>kv. arg (fst kv) \<and> arg (snd kv)) kvs \<and> length kvs < 2 ^ 32)"
| "hash_cmd_wf (HStrLen f) = arg f"
| "hash_cmd_wf (HGet f) = arg f"
| "hash_cmd_wf (HExists f) = arg f"
| "hash_cmd_wf (HDel ks) = (list_all arg ks \<and> length ks < 2 ^ 32)"
| "hash_cmd_wf (HIncrBy f n) = (arg f \<and> is_i64 n)"
| "hash_cmd_wf (HMGet fs) = (list_all arg fs \<and> length fs < 2 ^ 32)"
| "hash_cmd_wf (HSetNx k v) = (arg k \<and> arg v)"
| "hash_cmd_wf _ = True"

interpretation hset_pair: codec put_hset_pair get_hset_pair "\<lambda>kv. arg (fst kv) \<and> arg (snd kv)"
proof unfold_locales
  fix kv rest
  assume a: "arg (fst kv) \<and> arg (snd kv)"
  then have "es_short (fst kv)" "es_short (snd kv)" by (simp_all add: arg_def)
  then have "get_hset_pair (put_hset_pair kv @ rest) = Some ((es_make (StringView (fst kv)), es_make (StringView (snd kv))), rest)"
    by (simp add: put_hset_pair_def get_hset_pair_def es_short_def)
  moreover have "es_make (StringView e) = e" if "arg e" for e
    using arg_make [OF that] that by (simp add: arg_def)
  ultimately show "get_hset_pair (put_hset_pair kv @ rest) = Some (kv, rest)" using a by simp
qed

lemma hash_cmd_numbers:
  "cmd_type ''HSET'' = 62"
  "cmd_type ''HDEL'' = 73"
  "cmd_type ''HINCRBY'' = 66"
  "cmd_type ''HSETNX'' = 63"
  "cmd_type ''HMGET'' = 68"
  "cmd_type ''HVALS'' = 70"
  "cmd_type ''HGET'' = 61"
  "cmd_type ''HLEN'' = 64"
  "cmd_type ''HSTRLEN'' = 65"
  "cmd_type ''HKEYS'' = 69"
  "cmd_type ''HGETALL'' = 71"
  "cmd_type ''HEXISTS'' = 72"
  by code_simp+

lemma hash_command_roundtrip:
  assumes "hash_cmd_wf c"
  shows "CreateTxCommand_hash (hash_cmd_Serialize c @ rest) = Some (c, rest)"
  using assms hset_pair.get_vec_put_vec
  by (cases c) (simp_all add: CreateTxCommand_hash_def hash_image_defs hash_cmd_numbers)

section \<open>Replies\<close>

fun hash_OutputResult :: "hash_cmd \<Rightarrow> hash_result \<Rightarrow> reply list option" where
  "hash_OutputResult (HSet b _) r = HSet_OutputResult b r"
| "hash_OutputResult HLen r = HLen_OutputResult r"
| "hash_OutputResult (HStrLen _) r = HStrLen_OutputResult r"
| "hash_OutputResult (HGet _) r = HGet_OutputResult r"
| "hash_OutputResult (HExists _) r = HExists_OutputResult r"
| "hash_OutputResult (HDel _) r = HDel_OutputResult r"
| "hash_OutputResult HGetAll r = HGetAll_OutputResult r"
| "hash_OutputResult HKeys r = HKeys_OutputResult r"
| "hash_OutputResult HVals r = HVals_OutputResult r"
| "hash_OutputResult (HIncrBy _ _) r = HIncrBy_OutputResult r"
| "hash_OutputResult (HMGet fs) r = HMGet_OutputResult fs r"
| "hash_OutputResult (HSetNx _ _) r = HSetNx_OutputResult r"

lemmas hash_output_defs =
  HSet_OutputResult_def HLen_OutputResult_def HStrLen_OutputResult_def HGet_OutputResult_def
  HExists_OutputResult_def HDel_OutputResult_def HGetAll_OutputResult_def HKeys_OutputResult_def
  HVals_OutputResult_def HIncrBy_OutputResult_def HMGet_OutputResult_def HSetNx_OutputResult_def
  hash_error_def

lemma scalar_nilables [simp]: "list_all scalar_reply (map nilable vs)" "list_all scalar_reply (map (\<lambda>_. OnNil) xs)"
  by (auto simp: list_all_iff nilable_def split: option.split)

lemma scalar_nilables_comp [simp]: "list_all scalar_reply (map (nilable \<circ> f) vs)"
  by (auto simp: list_all_iff nilable_def split: option.split)

lemma hash_wrong_type:
  assumes "\<And>h. rvalue ob \<noteq> VHash h"
  shows "hash_ExecuteOn c ob = (c, RedisHashResult\<lparr>hr_err := RD_ERR_WRONG_TYPE\<rparr>, EFail)"
  using assms by (cases "rvalue ob"; cases c) (simp_all add: hash_exec_defs)

lemma hash_replies:
  assumes "hash_ExecuteOn c ob = (c', r, d)"
  shows "replies (hash_OutputResult c' r)"
proof (cases "\<exists>h. rvalue ob = VHash h")
  case True
  then obtain h where h: "rvalue ob = VHash h" by blast
  show ?thesis
    using assms h
    by (cases c)
       (auto simp: hash_exec_defs hash_output_defs split_beta Let_def Execute_HSet_def Execute_HLen_def
          Execute_HStrLen_def Execute_HGet_def Execute_HExists_def Execute_HDel_def Execute_HGetAll_def
          Execute_HKeys_def Execute_HVals_def Execute_HIncrBy_def Execute_HMGet_def Execute_HSetNx_def
          RedisHashResult_def split: option.splits)
next
  case False
  then show ?thesis
    using assms hash_wrong_type [of ob c] by (cases c) (auto simp: hash_output_defs)
qed

end
