(* ===== verification/SetCommands.thy ===== *)
theory SetCommands
  imports Command
begin

text \<open>
  The set commands (\<^verbatim>\<open>src/redis_command.cpp\<close>, \<^verbatim>\<open>SAddCommand\<close> to \<^verbatim>\<open>SPopCommand\<close>), in the style of the list
  commands.  The random source and the bucket count of the container are parameters of the two
  sampling commands; \<^verbatim>\<open>None\<close> as the outcome of an execution stands for a sampling loop that does not
  end, which is excluded below.  \<^verbatim>\<open>SSCAN\<close>, \<^verbatim>\<open>SZSCAN\<close> and the commands on several keys are left out.
\<close>

section \<open>Shared parts\<close>

definition on_set :: "redis_object \<Rightarrow> set_result \<Rightarrow> (set_obj \<Rightarrow> set_result \<times> exec_result) \<Rightarrow>
    set_result \<times> exec_result" where
  "on_set obj result f =
     (case rvalue obj of VSet s \<Rightarrow> f s | _ \<Rightarrow> (result\<lparr>sr_err := RD_ERR_WRONG_TYPE\<rparr>, EFail))"

definition set_CreateObject :: redis_object where
  "set_CreateObject = \<lparr>rvalue = VSet RedisHashSetObject, rttl = None\<rparr>"

definition commit_set :: "redis_object \<Rightarrow> (set_obj \<Rightarrow> set_obj \<times> bool) \<Rightarrow> commit_result" where
  "commit_set obj f =
     (case rvalue obj of
        VSet s \<Rightarrow> (let (s', emptied) = f s in if emptied then CRemove else CKeep (obj\<lparr>rvalue := VSet s'\<rparr>))
      | _ \<Rightarrow> CUndefined)"

definition set_error :: "set_result \<Rightarrow> reply list option" where
  "set_error result = Some [OnError (redis_get_error_messages (sr_err result))]"

definition strings_reply :: "eloq_string list \<Rightarrow> reply list" where
  "strings_reply xs = array_reply (map (\<lambda>s. OnString (StringView s)) xs)"

section \<open>The commands\<close>

subsection \<open>SADD\<close>

text \<open>\<^verbatim>\<open>force_remove_add_\<close> replaces whatever is there; its size test counts eight bytes per element.\<close>

definition SAdd_ExecuteOn :: "bool \<Rightarrow> eloq_string list \<Rightarrow> redis_object \<Rightarrow> set_result \<Rightarrow> set_result \<times> exec_result" where
  "SAdd_ExecuteOn force paras obj result =
     (if force
      then let len = (\<Sum>str \<leftarrow> paras. 8 + of_nat (es_length str) :: u64) in
           if len > MAX_OBJECT_SIZE then (result\<lparr>sr_err := RD_ERR_OBJECT_TOO_BIG\<rparr>, EFail)
           else (result\<lparr>sr_err := RD_OK, sr_ret := int (length paras)\<rparr>,
                 if paras = [] then EDelete else EWrite)
      else on_set obj result (\<lambda>s. let (r, st) = Execute_SAdd s paras result in (r, write_or_fail st)))"

definition SAdd_CommitOn :: "bool \<Rightarrow> eloq_string list \<Rightarrow> bool \<Rightarrow> redis_object \<Rightarrow> commit_result" where
  "SAdd_CommitOn force paras middle obj =
     (if force
      then if paras = [] then CRemove
           else commit_set set_CreateObject (\<lambda>s. let (s', emp, _) = CommitSAdd s paras middle in (s', emp))
      else commit_set obj (\<lambda>s. let (s', emp, _) = CommitSAdd s paras middle in (s', emp)))"

definition SAdd_Serialize :: "bool \<Rightarrow> eloq_string list \<Rightarrow> bytes \<Rightarrow> bytes" where
  "SAdd_Serialize force paras str =
     str @ put_u8 (cmd_type ''SADD'') @ put_u8 (if force then 1 else 0) @ put_vec put_string paras"

definition SAdd_Deserialize :: "(bool \<times> eloq_string list) reader" where
  "SAdd_Deserialize bs =
     do { (b, bs1) \<leftarrow> get_u8 bs; (paras, bs2) \<leftarrow> get_vec get_string bs1; Some ((b = 1, paras), bs2) }"

definition SAdd_OutputResult :: "set_result \<Rightarrow> reply list option" where
  "SAdd_OutputResult result =
     (if sr_err result = RD_OK then Some [OnInt (sr_ret result)] else set_error result)"

subsection \<open>SMEMBERS\<close>

definition SMembers_ExecuteOn :: "redis_object \<Rightarrow> set_result \<Rightarrow> set_result \<times> exec_result" where
  "SMembers_ExecuteOn obj result =
     on_set obj result (\<lambda>s.
       (Execute_SMembers s result, ERead))"

definition SMembers_Serialize :: "bytes \<Rightarrow> bytes" where
  "SMembers_Serialize str = str @ put_u8 (cmd_type ''SMEMBERS'')"

definition SMembers_OutputResult :: "set_result \<Rightarrow> reply list option" where
  "SMembers_OutputResult result =
     (if sr_err result = RD_OK \<or> sr_err result = RD_NIL then Some (strings_reply (sr_list result))
      else set_error result)"

subsection \<open>SREM\<close>

definition SRem_ExecuteOn :: "eloq_string list \<Rightarrow> redis_object \<Rightarrow> set_result \<Rightarrow> set_result \<times> exec_result" where
  "SRem_ExecuteOn paras obj result =
     on_set obj result (\<lambda>s.
       let (r, st) = Execute_SRem s paras result in (r, exec_of_state st))"

definition SRem_CommitOn :: "eloq_string list \<Rightarrow> redis_object \<Rightarrow> commit_result" where
  "SRem_CommitOn paras obj = commit_set obj (\<lambda>s. CommitSRem s paras)"

definition SRem_Serialize :: "eloq_string list \<Rightarrow> bytes \<Rightarrow> bytes" where
  "SRem_Serialize paras str = str @ put_u8 (cmd_type ''SREM'') @ put_vec put_string paras"

definition SRem_Deserialize :: "eloq_string list reader" where
  "SRem_Deserialize = get_vec get_string"

definition SRem_OutputResult :: "set_result \<Rightarrow> reply list option" where
  "SRem_OutputResult result =
     (if sr_err result = RD_OK then Some [OnInt (sr_ret result)] else set_error result)"

subsection \<open>SCARD and SISMEMBER\<close>

definition SCard_ExecuteOn :: "redis_object \<Rightarrow> set_result \<Rightarrow> set_result \<times> exec_result" where
  "SCard_ExecuteOn obj result =
     on_set obj result (\<lambda>s.
       (Execute_SCard s result, ERead))"

definition SCard_Serialize :: "bytes \<Rightarrow> bytes" where
  "SCard_Serialize str = str @ put_u8 (cmd_type ''SCARD'')"

definition SCard_OutputResult :: "set_result \<Rightarrow> reply list option" where
  "SCard_OutputResult result =
     (if sr_err result = RD_OK \<or> sr_err result = RD_NIL then Some [OnInt (sr_ret result)]
      else set_error result)"

definition SIsMember_ExecuteOn :: "eloq_string \<Rightarrow> redis_object \<Rightarrow> set_result \<Rightarrow> set_result \<times> exec_result" where
  "SIsMember_ExecuteOn str_member obj result =
     on_set obj result (\<lambda>s.
       (Execute_SIsMember s str_member result, ERead))"

definition SIsMember_Serialize :: "eloq_string \<Rightarrow> bytes \<Rightarrow> bytes" where
  "SIsMember_Serialize str_member str = str @ put_u8 (cmd_type ''SISMEMBER'') @ put_string str_member"

definition SIsMember_Deserialize :: "eloq_string reader" where
  "SIsMember_Deserialize = get_string"

definition SIsMember_OutputResult :: "set_result \<Rightarrow> reply list option" where
  "SIsMember_OutputResult result =
     (if sr_err result = RD_OK \<or> sr_err result = RD_NIL then Some [OnInt (sr_ret result)]
      else set_error result)"

subsection \<open>SMISMEMBER\<close>

definition SMIsMember_ExecuteOn :: "eloq_string list \<Rightarrow> redis_object \<Rightarrow> set_result \<Rightarrow> set_result \<times> exec_result" where
  "SMIsMember_ExecuteOn mems obj result =
     on_set obj result (\<lambda>s.
       (Execute_SMIsMember s mems result, ERead))"

definition SMIsMember_Serialize :: "eloq_string list \<Rightarrow> bytes \<Rightarrow> bytes" where
  "SMIsMember_Serialize mems str = str @ put_u8 (cmd_type ''SMISMEMBER'') @ put_vec put_string mems"

definition SMIsMember_Deserialize :: "eloq_string list reader" where
  "SMIsMember_Deserialize = get_vec get_string"

definition SMIsMember_OutputResult :: "eloq_string list \<Rightarrow> set_result \<Rightarrow> reply list option" where
  "SMIsMember_OutputResult mems result =
     (if sr_err result = RD_OK
      then map_option (\<lambda>cs. array_reply (map (\<lambda>c. OnInt (if c = CHR ''1'' then 1 else 0)) cs))
             (those (map (\<lambda>str. first_of (StringView str)) (sr_list result)))
      else if sr_err result = RD_NIL then Some (array_reply (map (\<lambda>_. OnInt 0) mems))
      else set_error result)"

subsection \<open>SRANDMEMBER\<close>

definition SRandMember_ExecuteOn :: "int \<Rightarrow> int \<Rightarrow> (nat \<Rightarrow> nat) \<Rightarrow> redis_object \<Rightarrow> set_result \<Rightarrow> (set_result \<times> exec_result) option" where
  "SRandMember_ExecuteOn count0 buckets rnd obj result =
     (case rvalue obj of
        VSet s \<Rightarrow> map_option (\<lambda>r. (r, ERead)) (Execute_SRandMember s count0 buckets rnd result)
      | _ \<Rightarrow> Some (result\<lparr>sr_err := RD_ERR_WRONG_TYPE\<rparr>, EFail))"

definition SRandMember_Serialize :: "int \<Rightarrow> bytes \<Rightarrow> bytes" where
  "SRandMember_Serialize count0 str = str @ put_u8 (cmd_type ''SRANDMEMBER'') @ put_i64 count0"

definition SRandMember_Deserialize :: "int reader" where
  "SRandMember_Deserialize = get_i64"

definition SRandMember_OutputResult :: "bool \<Rightarrow> set_result \<Rightarrow> reply list option" where
  "SRandMember_OutputResult count_provided result =
     (if sr_err result = RD_OK
      then if count_provided then Some (strings_reply (sr_list result))
           else map_option (\<lambda>s. [OnString (StringView s)]) (first_of (sr_list result))
      else if sr_err result = RD_NIL
      then Some (if count_provided then array_reply [] else [OnNil])
      else set_error result)"

subsection \<open>SPOP\<close>

text \<open>The members that were popped stay in the command: the log needs them.\<close>

definition SPop_ExecuteOn :: "int \<Rightarrow> int \<Rightarrow> (nat \<Rightarrow> nat) \<Rightarrow> redis_object \<Rightarrow> set_result \<Rightarrow> (set_result \<times> exec_result) option" where
  "SPop_ExecuteOn count0 buckets rnd obj result =
     (case rvalue obj of
        VSet s \<Rightarrow> map_option (\<lambda>(r, st). (r, exec_of_state st)) (Execute_SPop s count0 buckets rnd result)
      | _ \<Rightarrow> Some (result\<lparr>sr_err := RD_ERR_WRONG_TYPE\<rparr>, EFail))"

definition SPop_CommitOn :: "eloq_string list \<Rightarrow> redis_object \<Rightarrow> commit_result" where
  "SPop_CommitOn string_list obj = commit_set obj (\<lambda>s. CommitSPop s string_list)"

definition SPop_Serialize :: "int \<Rightarrow> eloq_string list \<Rightarrow> bytes \<Rightarrow> bytes" where
  "SPop_Serialize count0 string_list str =
     str @ put_u8 (cmd_type ''SPOP'') @ put_i64 count0 @ put_vec put_string string_list"

definition SPop_Deserialize :: "(int \<times> eloq_string list) reader" where
  "SPop_Deserialize bs =
     do { (count0, bs1) \<leftarrow> get_i64 bs; (string_list, bs2) \<leftarrow> get_vec get_string bs1;
          Some ((count0, string_list), bs2) }"

definition SPop_OutputResult :: "int \<Rightarrow> set_result \<Rightarrow> reply list option" where
  "SPop_OutputResult count0 result =
     (if sr_err result = RD_OK
      then if count0 \<noteq> -1 then Some (strings_reply (sr_list result))
           else map_option (\<lambda>s. [OnString (StringView s)]) (first_of (sr_list result))
      else if sr_err result = RD_NIL
      then Some (if count0 \<noteq> -1 then array_reply [] else [OnNil])
      else set_error result)"

section \<open>The family\<close>

text \<open>\<^verbatim>\<open>SPOP\<close> carries the members it popped, \<^verbatim>\<open>SADD\<close> the two flags of the class.\<close>

datatype set_cmd =
    SAdd bool "eloq_string list" bool
  | SMembers
  | SRem "eloq_string list"
  | SCard
  | SIsMember eloq_string
  | SMIsMember "eloq_string list"
  | SPop int "eloq_string list"

definition spop_run :: "int \<Rightarrow> (set_result \<times> exec_result) option \<Rightarrow> set_cmd \<times> set_result \<times> exec_result" where
  "spop_run n out = (case out of
     Some (r, d) \<Rightarrow> (SPop n (sr_list r), r, d) | None \<Rightarrow> (SPop n [], RedisHashSetResult, EFail))"

fun set_ExecuteOn :: "int \<Rightarrow> (nat \<Rightarrow> nat) \<Rightarrow> set_cmd \<Rightarrow> redis_object \<Rightarrow> set_cmd \<times> set_result \<times> exec_result" where
  "set_ExecuteOn buckets rnd (SAdd f es m) obj = (SAdd f es m, SAdd_ExecuteOn f es obj RedisHashSetResult)"
| "set_ExecuteOn buckets rnd SMembers obj = (SMembers, SMembers_ExecuteOn obj RedisHashSetResult)"
| "set_ExecuteOn buckets rnd (SRem es) obj = (SRem es, SRem_ExecuteOn es obj RedisHashSetResult)"
| "set_ExecuteOn buckets rnd SCard obj = (SCard, SCard_ExecuteOn obj RedisHashSetResult)"
| "set_ExecuteOn buckets rnd (SIsMember e) obj = (SIsMember e, SIsMember_ExecuteOn e obj RedisHashSetResult)"
| "set_ExecuteOn buckets rnd (SMIsMember es) obj = (SMIsMember es, SMIsMember_ExecuteOn es obj RedisHashSetResult)"
| "set_ExecuteOn buckets rnd (SPop n es) obj = spop_run n (SPop_ExecuteOn n buckets rnd obj RedisHashSetResult)"

fun set_CommitOn :: "set_cmd \<Rightarrow> redis_object \<Rightarrow> commit_result" where
  "set_CommitOn (SAdd f es m) obj = SAdd_CommitOn f es m obj"
| "set_CommitOn (SRem es) obj = SRem_CommitOn es obj"
| "set_CommitOn (SPop n es) obj = SPop_CommitOn es obj"
| "set_CommitOn _ obj = CUndefined"

lemmas set_exec_defs =
  SAdd_ExecuteOn_def SMembers_ExecuteOn_def SRem_ExecuteOn_def SCard_ExecuteOn_def SIsMember_ExecuteOn_def
  SMIsMember_ExecuteOn_def SPop_ExecuteOn_def on_set_def

lemmas set_commit_defs = SAdd_CommitOn_def SRem_CommitOn_def SPop_CommitOn_def commit_set_def

section \<open>What the commands mean\<close>

fun set_apply :: "set_cmd \<Rightarrow> bytes set \<Rightarrow> bytes set" where
  "set_apply (SAdd force es _) S = (if force then {} else S) \<union> StringView ` set es"
| "set_apply (SRem es) S = S - StringView ` set es"
| "set_apply (SPop _ es) S = S - StringView ` set es"
| "set_apply _ S = S"

text \<open>A set stored by the replacing form of \<^verbatim>\<open>SADD\<close> may exceed the limit by one byte.\<close>

definition set_state :: "set_obj \<Rightarrow> bool" where
  "set_state s \<longleftrightarrow> set_inv s \<and> set_bytes s \<le> unat MAX_OBJECT_SIZE + 1"

definition adds_ok :: "eloq_string list \<Rightarrow> bool" where
  "adds_ok es \<longleftrightarrow> list_all arg_ok es \<and> distinct (map StringView es) \<and> bcosts (map StringView es) < 2 ^ 62"

fun set_ok :: "set_cmd \<Rightarrow> bytes set \<Rightarrow> bool" where
  "set_ok (SAdd force es _) S = (\<not> force \<and> adds_ok es)"
| "set_ok (SRem es) S = (distinct (map StringView es) \<and> S \<noteq> {})"
| "set_ok (SPop n _) S = ((n = -1 \<or> 0 \<le> n) \<and> S \<noteq> {})"
| "set_ok _ S = (S \<noteq> {})"

lemma set_bytes_bcosts: "set_inv s \<Longrightarrow> set_bytes s = 5 + bcosts (map StringView (hash_set s))"
  by (simp add: set_bytes_def set_body_def put_vec_def length_put_strings set_inv_short)

lemma set_state_length:
  assumes "set_state s"
  shows "length (hash_set s) < 2 ^ 31"
  using assms bcosts_length [of "map StringView (hash_set s)"] set_bytes_bcosts [of s]
  by (auto simp: set_state_def)

definition set_commits :: "set_cmd \<Rightarrow> set_obj \<Rightarrow> redis_object \<Rightarrow> bool" where
  "set_commits c s ob \<longleftrightarrow>
     (\<exists>s'. set_state s' \<and> members s' = set_apply c (members s) \<and>
        set_CommitOn c ob = (if members s' = {} then CRemove else CKeep (ob\<lparr>rvalue := VSet s'\<rparr>)))"

lemma set_commitsI:
  assumes "set_state s'" "members s' = set_apply c (members s)"
    and "set_CommitOn c ob = (if members s' = {} then CRemove else CKeep (ob\<lparr>rvalue := VSet s'\<rparr>))"
  shows "set_commits c s ob"
  unfolding set_commits_def using assms by (intro exI [of _ s']) simp

lemma sadd_commits:
  assumes "set_state s" "rvalue ob = VSet s" "adds_ok es" "snd (Execute_SAdd s es r) = Modified"
  shows "set_commits (SAdd False es m) s ob \<and> members s \<union> StringView ` set es \<noteq> {}"
proof -
  let ?s = "fst (CommitSAdd s es m)" and ?fresh = "filter (\<lambda>e. \<not> hs_mem e (hash_set s)) es"
  have k: "set_inv s" "list_all arg_ok es" "distinct (map StringView es)"
    using assms(1,3) by (simp_all add: set_state_def adds_ok_def)
  note sp = CommitSAdd_spec [OF k(1,2), of m]
  have ne: "es \<noteq> []" using assms(4) by (auto simp: Execute_SAdd_def Let_def split: if_splits)
  have f: "list_all es_short ?fresh" using k(2) by (auto simp: list_all_iff arg_ok_def)
  have "bcosts (map StringView ?fresh) \<le> bcosts (map StringView es)"
    by (induction es) auto
  then have b: "set_bytes s + bcosts (map StringView ?fresh) < 2 ^ 64"
    using assms(1,3) by (simp add: set_state_def adds_ok_def)
  have slen: "set_slen ?s = of_nat (set_bytes s + bcosts (map StringView ?fresh))"
    using Execute_SAdd_size [OF k(2,3), of s m] costs_bcosts [OF f] set_slen_bytes [OF k(1)] by simp
  have "\<not> set_slen ?s > MAX_OBJECT_SIZE"
    using assms(4) Execute_SAdd_size [OF k(2,3), of s m]
    by (auto simp: Execute_SAdd_def Let_def split: if_splits)
  then have le: "set_bytes s + bcosts (map StringView ?fresh) \<le> 268435456"
    using of_nat_gt_MAX [OF b] unfolding slen by simp
  have "set_bytes ?s \<le> 268435456"
  proof -
    have "bcosts (map StringView (hash_set ?s)) \<le> bcosts (map StringView (hash_set s)) + bcosts (map StringView es)"
      using k(2)
    proof (induction es arbitrary: s)
      case (Cons e es)
      have "bcosts (map StringView (hash_set (fst (sadd_one m s e)))) \<le>
          bcosts (map StringView (hash_set s)) + bcost (StringView e)"
        using Cons.prems by (auto simp: sadd_one_def split_beta)
      with Cons show ?case by (force simp: Let_def split_beta intro: order_trans)
    qed simp
    then have "set_bytes ?s < 2 ^ 64"
      using assms(1,3) sp(1) k(1) by (simp add: set_bytes_bcosts set_state_def adds_ok_def)
    then have "unat (set_slen ?s) = set_bytes ?s" using unat_set_slen [OF sp(1)] by simp
    moreover have "unat (set_slen ?s) = set_bytes s + bcosts (map StringView ?fresh)"
      unfolding slen by (rule unat_u64 [OF b])
    ultimately show ?thesis using le by simp
  qed
  then have st: "set_state ?s" using sp(1) by (simp add: set_state_def)
  have mm: "members ?s \<noteq> {}" using sp(2) ne by simp
  show ?thesis
    using st sp(2) assms(2) mm CommitSAdd_flag [of s es m]
    by (intro conjI set_commitsI [of ?s]) (auto simp: set_commit_defs split_beta Let_def members_empty)
qed

lemma foldl_srem_bytes: "bcosts (map StringView (hash_set (foldl srem_one s es))) \<le> bcosts (map StringView (hash_set s))"
proof (induction es arbitrary: s)
  case (Cons e es)
  have "bcosts (map StringView (filter P xs)) \<le> bcosts (map StringView xs)" for P and xs :: "eloq_string list"
    by (induction xs) auto
  then have "bcosts (map StringView (hash_set (srem_one s e))) \<le> bcosts (map StringView (hash_set s))"
    by (simp add: srem_one_def)
  with Cons.IH [of "srem_one s e"] show ?case by simp
qed simp

lemma srem_commits:
  assumes "set_state s" "rvalue ob = VSet s" "c = SRem es \<or> c = SPop n es"
  shows "set_commits c s ob"
proof -
  have i: "set_inv s" using assms(1) by (simp add: set_state_def)
  note sp = CommitSRem_spec [OF i, of es]
  have "set_bytes (fst (CommitSRem s es)) \<le> set_bytes s"
    using foldl_srem_bytes [of s es] i sp(1) by (simp add: set_bytes_bcosts) (simp add: CommitSRem_def Let_def)
  then have "set_state (fst (CommitSRem s es))" using sp(1) assms(1) by (simp add: set_state_def)
  then show ?thesis
    by (rule set_commitsI)
       (use sp assms(2,3) in \<open>auto simp: set_commit_defs split_beta CommitSPop_eq\<close>)
qed

text \<open>Without a count \<^verbatim>\<open>SPOP\<close> is \<^verbatim>\<open>SPOP\<close> of one member.\<close>

lemma Execute_SPop_one:
  assumes "hash_set s \<noteq> []" "length (hash_set s) < 2 ^ 31"
  shows "Execute_SPop s (-1) buckets rnd r = Execute_SPop s 1 buckets rnd r"
proof -
  let ?n = "length (hash_set s)"
  have sz: "to_signed 32 (int ?n) = int ?n" using assms(2) by (simp add: is_i32_def)
  have n: "1 \<le> ?n" using assms(1) by (simp add: Suc_le_eq)
  then have c: "(if int ?n < 1 then int ?n else 1) = 1" "nat (if 1 < int ?n then 1 else int ?n) = 1" by auto
  obtain m where m: "GenRandMap ?n 1 False rnd = Some m" "length m = 1"
    using GenRandMap_distinct [of 1 ?n rnd] n by auto
  then have "m \<noteq> []" by auto
  then show ?thesis
    unfolding Execute_SPop_def Let_def sz
    by (simp only: c m(1) simp_thms if_True if_False option.map one_neq_neg_one nat_int)
qed

lemma spop_decides:
  assumes "set_state s" "members s \<noteq> {}" "n = -1 \<or> 0 \<le> n"
  shows "\<exists>r' st. Execute_SPop s n buckets rnd r = Some (r', st) \<and>
     (st = ModifiedToEmpty \<longleftrightarrow> members s - StringView ` set (sr_list r') = {}) \<and> sr_err r' = RD_OK \<and>
     (n = -1 \<longrightarrow> sr_list r' \<noteq> [])"
proof -
  define k where "k = (if n = -1 then 1 else n)"
  have l: "length (hash_set s) < 2 ^ 31" by (rule set_state_length [OF assms(1)])
  have ne: "hash_set s \<noteq> []" using assms(2) by (simp add: members_empty)
  have i: "set_inv s" and k: "0 \<le> k" using assms(1,3) by (auto simp: set_state_def k_def)
  have e: "Execute_SPop s n buckets rnd r = Execute_SPop s k buckets rnd r"
    using Execute_SPop_one [OF ne l] by (simp add: k_def)
  obtain r' st where x: "Execute_SPop s k buckets rnd r = Some (r', st)"
      "StringView ` set (sr_list r') \<subseteq> members s" "distinct (map StringView (sr_list r'))"
      "length (sr_list r') = min (nat k) (card (members s))" "sr_err r' = RD_OK"
      "st = ModifiedToEmpty \<longleftrightarrow> k \<noteq> 0 \<and> card (members s) \<le> nat k"
    using Execute_SPop_spec [OF i ne l k, of buckets rnd r] by blast
  let ?P = "StringView ` set (sr_list r')"
  have c: "card ?P = min (nat k) (card (members s))"
    using distinct_card [OF x(3)] x(4) by simp
  have pos: "0 < card (members s)" using assms(2) by (simp add: card_gt_0_iff)
  have "members s - ?P = {} \<longleftrightarrow> members s = ?P" using x(2) by auto
  also have "\<dots> \<longleftrightarrow> card (members s) \<le> card ?P"
    using card_seteq [OF finite_members x(2)] by auto
  also have "\<dots> \<longleftrightarrow> k \<noteq> 0 \<and> card (members s) \<le> nat k" using c pos by auto
  finally have "st = ModifiedToEmpty \<longleftrightarrow> members s - ?P = {}" using x(6) by simp
  moreover have "n = -1 \<longrightarrow> sr_list r' \<noteq> []" using x(4) pos by (auto simp: k_def)
  ultimately show ?thesis using x(1,5) e by auto
qed

lemma exec_of_state_iff [simp]: "exec_of_state st = EDelete \<longleftrightarrow> st = ModifiedToEmpty"
  by (cases st) simp_all

lemma set_command_commits:
  assumes "set_state s" "rvalue ob = VSet s" "set_ok c (members s)"
    and "set_ExecuteOn buckets rnd c ob = (c', r, d)" "d = EWrite \<or> d = EDelete"
  shows "set_commits c' s ob \<and> (d = EDelete \<longleftrightarrow> set_apply c' (members s) = {})"
proof (cases c)
  case (SAdd force es m)
  then show ?thesis
    using assms sadd_commits [OF assms(1,2), of es _ m] by (auto simp: set_exec_defs split_beta)
next
  case (SRem es)
  have "set_inv s" "hash_set s \<noteq> []" using assms(1,3) SRem by (simp_all add: set_state_def members_empty)
  then show ?thesis
    using assms SRem srem_commits [OF assms(1,2), of c es] Execute_SRem_empty [of s es]
    by (auto simp: set_exec_defs split_beta)
next
  case (SPop n es)
  obtain r' st where x: "Execute_SPop s n buckets rnd RedisHashSetResult = Some (r', st)"
      "st = ModifiedToEmpty \<longleftrightarrow> members s - StringView ` set (sr_list r') = {}"
    using spop_decides [OF assms(1), of n buckets rnd RedisHashSetResult] assms(3) SPop by auto
  then have c': "c' = SPop n (sr_list r')" "d = exec_of_state st"
    using assms(2,4) SPop by (auto simp: set_exec_defs spop_run_def)
  then show ?thesis using srem_commits [OF assms(1,2), of c' "sr_list r'" n] x(2) by auto
qed (use assms in \<open>auto simp: set_exec_defs\<close>)

section \<open>The contract\<close>

fun set_object_inv :: "redis_value \<Rightarrow> bool" where
  "set_object_inv (VSet s) = set_state s"
| "set_object_inv _ = False"

fun set_value :: "redis_value \<Rightarrow> bytes set" where
  "set_value (VSet s) = members s"
| "set_value _ = {}"

interpretation set_commands: ttl_keeping_command "set_ExecuteOn buckets rnd" set_CommitOn
  "\<lambda>c ob. set_ok c (set_value (rvalue ob))" "\<lambda>ob. set_object_inv (rvalue ob)"
  "\<lambda>ob. set_value (rvalue ob) = {}"
  for buckets rnd
proof unfold_locales
  fix ob :: redis_object and c c' r
  assume a: "set_object_inv (rvalue ob)" "set_ok c (set_value (rvalue ob))"
  then obtain s where s: "rvalue ob = VSet s" "set_state s" "set_ok c (members s)"
    by (cases "rvalue ob") auto
  note cm = set_command_commits [OF s(2,1,3)]
  show "\<exists>ob'. set_CommitOn c' ob = CKeep ob' \<and> set_object_inv (rvalue ob') \<and>
      set_value (rvalue ob') \<noteq> {}"
    if w: "set_ExecuteOn buckets rnd c ob = (c', r, EWrite)"
  proof -
    obtain s' where "set_state s'" "members s' \<noteq> {}" "set_CommitOn c' ob = CKeep (ob\<lparr>rvalue := VSet s'\<rparr>)"
      using cm [OF w] by (auto simp: set_commits_def split: if_splits)
    then show ?thesis by simp
  qed
  show "set_CommitOn c' ob = CRemove" if "set_ExecuteOn buckets rnd c ob = (c', r, EDelete)"
    using cm [OF that] by (auto simp: set_commits_def)
  show "rttl ob' = rttl ob" if "set_ExecuteOn buckets rnd c ob = (c', r, EWrite)" "set_CommitOn c' ob = CKeep ob'" for ob'
    using cm [OF that(1)] that(2) by (auto simp: set_commits_def split: if_splits)
qed

text \<open>The replacing form works on an object of any type and forgets its time to live.\<close>

lemma sadd_force:
  assumes "adds_ok es" "es \<noteq> []" "set_ExecuteOn buckets rnd (SAdd True es m) ob = (c', r, d)"
  shows "if (\<Sum>b \<leftarrow> map StringView es. 8 + length b) > 268435456 then d = EFail
         else d = EWrite \<and> (\<exists>s. set_CommitOn c' ob = CKeep \<lparr>rvalue = VSet s, rttl = None\<rparr> \<and> set_state s \<and>
                members s = StringView ` set es)"
proof -
  let ?n = "\<Sum>b \<leftarrow> map StringView es. 8 + length b" and ?s = "fst (CommitSAdd RedisHashSetObject es m)"
  have a: "list_all arg_ok es" "distinct (map StringView es)" "bcosts (map StringView es) < 2 ^ 62"
    using assms(1) by (simp_all add: adds_ok_def)
  have "(\<Sum>str \<leftarrow> xs. 8 + of_nat (es_length str) :: u64) = of_nat (\<Sum>b \<leftarrow> map StringView xs. 8 + length b)"
      if "list_all arg_ok xs" for xs
    using that by (induction xs) (simp_all add: arg_ok_def)
  note len = this [OF a(1)]
  have n: "bcosts xs + 4 * length xs = (\<Sum>b \<leftarrow> xs. 8 + length b)" for xs
    by (induction xs) (simp_all add: bcost_def)
  have small: "?n < 2 ^ 64"
    using n [of "map StringView es"] bcosts_length [of "map StringView es"] a(3) by simp
  note sp = CommitSAdd_spec [OF set_inv_new(1) a(1), of m]
  have "set_slen ?s = 5 + costs es"
    using Execute_SAdd_size [OF a(1,2), of RedisHashSetObject m]
    by (simp add: RedisHashSetObject_def hs_mem_def)
  then have "of_nat (set_bytes ?s) = (of_nat (5 + bcosts (map StringView es)) :: u64)"
    using set_slen_bytes [OF sp(1)] costs_bcosts [of es] a(1) by (simp add: list_all_iff arg_ok_def)
  moreover have "set_bytes ?s < 2 ^ 64"
  proof -
    have "distinct (map StringView (hash_set ?s))" "set (map StringView (hash_set ?s)) = set (map StringView es)"
      using sp by (simp_all add: set_inv_def members_def RedisHashSetObject_def)
    then have "mset (map StringView (hash_set ?s)) = mset (map StringView es)"
      using a(2) set_eq_iff_mset_eq_distinct by metis
    then have "bcosts (map StringView (hash_set ?s)) = bcosts (map StringView es)"
      unfolding bcosts_def by (metis mset_map sum_mset_sum_list)
    then show ?thesis using set_bytes_bcosts [OF sp(1)] a(3) by simp
  qed
  ultimately have b: "set_bytes ?s = 5 + bcosts (map StringView es)"
    using unat_u64 [of "set_bytes ?s"] unat_u64 [of "5 + bcosts (map StringView es)"] a(3) by simp
  have st: "set_state ?s" if "?n \<le> 268435456"
  proof -
    have "1 \<le> length es" using assms(2) by (simp add: Suc_le_eq)
    then have "5 + bcosts (map StringView es) \<le> 268435457" using that n [of "map StringView es"] by simp
    then show ?thesis using sp(1) by (simp add: set_state_def b)
  qed
  have x: "(c', r, d) = (SAdd True es m, if (of_nat ?n :: u64) > MAX_OBJECT_SIZE
       then (RedisHashSetResult\<lparr>sr_err := RD_ERR_OBJECT_TOO_BIG\<rparr>, EFail)
       else (RedisHashSetResult\<lparr>sr_err := RD_OK, sr_ret := int (length es)\<rparr>, EWrite))"
    using assms(2,3) by (simp add: SAdd_ExecuteOn_def len Let_def split: if_splits)
  have cm: "set_CommitOn (SAdd True es m) ob = CKeep \<lparr>rvalue = VSet ?s, rttl = None\<rparr>"
    using assms(2) CommitSAdd_flag [of RedisHashSetObject es m] sp(2)
    by (simp add: set_commit_defs set_CreateObject_def split_beta Let_def members_empty)
  show ?thesis
    using x of_nat_gt_MAX [OF small] cm st sp(2) by (auto split: if_splits)
qed

section \<open>Images\<close>

definition CreateTxCommand_set :: "set_cmd reader" where
  "CreateTxCommand_set cmd_image =
     do { (ct, bs) \<leftarrow> get_u8 cmd_image;
          (if ct = cmd_type ''SADD'' then map_option (apfst (\<lambda>(b, es). SAdd b es False)) (SAdd_Deserialize bs)
           else if ct = cmd_type ''SREM'' then map_option (apfst SRem) (SRem_Deserialize bs)
           else if ct = cmd_type ''SCARD'' then Some (SCard, bs)
           else if ct = cmd_type ''SPOP'' then map_option (apfst (\<lambda>(n, es). SPop n es)) (SPop_Deserialize bs)
           else if ct = cmd_type ''SMEMBERS'' then Some (SMembers, bs)
           else if ct = cmd_type ''SISMEMBER'' then map_option (apfst SIsMember) (SIsMember_Deserialize bs)
           else if ct = cmd_type ''SMISMEMBER'' then map_option (apfst SMIsMember) (SMIsMember_Deserialize bs)
           else None) }"

fun set_cmd_Serialize :: "set_cmd \<Rightarrow> bytes" where
  "set_cmd_Serialize (SAdd f es _) = SAdd_Serialize f es []"
| "set_cmd_Serialize SMembers = SMembers_Serialize []"
| "set_cmd_Serialize (SRem es) = SRem_Serialize es []"
| "set_cmd_Serialize SCard = SCard_Serialize []"
| "set_cmd_Serialize (SIsMember e) = SIsMember_Serialize e []"
| "set_cmd_Serialize (SMIsMember es) = SMIsMember_Serialize es []"
| "set_cmd_Serialize (SPop n es) = SPop_Serialize n es []"

lemmas set_image_defs =
  SAdd_Serialize_def SMembers_Serialize_def SRem_Serialize_def SCard_Serialize_def SIsMember_Serialize_def
  SMIsMember_Serialize_def SPop_Serialize_def SAdd_Deserialize_def SRem_Deserialize_def
  SIsMember_Deserialize_def SMIsMember_Deserialize_def SPop_Deserialize_def

fun set_cmd_wf :: "set_cmd \<Rightarrow> bool" where
  "set_cmd_wf (SAdd _ es m) = (list_all arg es \<and> length es < 2 ^ 32 \<and> \<not> m)"
| "set_cmd_wf (SRem es) = (list_all arg es \<and> length es < 2 ^ 32)"
| "set_cmd_wf (SIsMember e) = arg e"
| "set_cmd_wf (SMIsMember es) = (list_all arg es \<and> length es < 2 ^ 32)"
| "set_cmd_wf (SPop n es) = (is_i64 n \<and> list_all arg es \<and> length es < 2 ^ 32)"
| "set_cmd_wf _ = True"

lemma set_cmd_numbers:
  "cmd_type ''SADD'' = 108"
  "cmd_type ''SREM'' = 110"
  "cmd_type ''SCARD'' = 111"
  "cmd_type ''SPOP'' = 120"
  "cmd_type ''SMEMBERS'' = 109"
  "cmd_type ''SISMEMBER'' = 117"
  "cmd_type ''SMISMEMBER'' = 118"
  by code_simp+

lemma set_command_roundtrip:
  assumes "set_cmd_wf c"
  shows "CreateTxCommand_set (set_cmd_Serialize c @ rest) = Some (c, rest)"
  using assms by (cases c) (simp_all add: CreateTxCommand_set_def set_image_defs set_cmd_numbers)

section \<open>Replies\<close>

fun set_OutputResult :: "set_cmd \<Rightarrow> set_result \<Rightarrow> reply list option" where
  "set_OutputResult (SAdd _ _ _) r = SAdd_OutputResult r"
| "set_OutputResult SMembers r = SMembers_OutputResult r"
| "set_OutputResult (SRem _) r = SRem_OutputResult r"
| "set_OutputResult SCard r = SCard_OutputResult r"
| "set_OutputResult (SIsMember _) r = SIsMember_OutputResult r"
| "set_OutputResult (SMIsMember es) r = SMIsMember_OutputResult es r"
| "set_OutputResult (SPop n _) r = SPop_OutputResult n r"

lemmas set_output_defs =
  SAdd_OutputResult_def SMembers_OutputResult_def SRem_OutputResult_def SCard_OutputResult_def
  SIsMember_OutputResult_def SMIsMember_OutputResult_def SPop_OutputResult_def set_error_def

lemma strings_reply_one [simp]: "one_reply (strings_reply xs)"
  by (auto simp: strings_reply_def list_all_iff)

lemma set_replies:
  assumes "set_state s" "rvalue ob = VSet s" "\<And>n es. c = SPop n es \<Longrightarrow> (n = -1 \<or> 0 \<le> n) \<and> members s \<noteq> {}"
    and "set_ExecuteOn buckets rnd c ob = (c', r, d)"
  shows "replies (set_OutputResult c' r)"
proof (cases c)
  case (SPop n es)
  obtain r' st where x: "Execute_SPop s n buckets rnd RedisHashSetResult = Some (r', st)"
      "sr_err r' = RD_OK" "n = -1 \<longrightarrow> sr_list r' \<noteq> []"
    using spop_decides [OF assms(1), of n buckets rnd RedisHashSetResult] assms(3) SPop by auto
  then show ?thesis
    using assms(2,4) SPop by (auto simp: set_exec_defs spop_run_def set_output_defs first_of_some)
next
  case (SMIsMember es)
  let ?f = "\<lambda>e. es_make (if hs_mem e (hash_set s) then ''1'' else ''0'')"
  have "those (map (\<lambda>e. first_of (StringView (?f e))) es) =
      Some (map (\<lambda>e. if hs_mem e (hash_set s) then CHR ''1'' else CHR ''0'') es)"
    by (induction es) auto
  then show ?thesis
    using assms(2,4) SMIsMember
    by (auto simp: set_exec_defs Execute_SMIsMember_def RedisHashSetResult_def set_output_defs comp_def list_all_iff)
qed (use assms in \<open>auto simp: set_exec_defs set_output_defs split_beta Let_def Execute_SAdd_def
       Execute_SMembers_def Execute_SRem_def Execute_SCard_def Execute_SIsMember_def\<close>)

text \<open>On an object of another type every set command fails, except \<^verbatim>\<open>SADD\<close> with the flag that replaces.\<close>

lemma set_wrong_type:
  assumes "\<And>s. rvalue ob \<noteq> VSet s" "\<And>es m. c \<noteq> SAdd True es m"
  shows "\<exists>c' r. set_ExecuteOn buckets rnd c ob = (c', r, EFail) \<and> sr_err r = RD_ERR_WRONG_TYPE"
proof (cases c)
  case (SAdd f es m)
  with assms show ?thesis by (cases f; cases "rvalue ob") (auto simp: set_exec_defs)
qed (use assms(1) in \<open>cases "rvalue ob"; auto simp: set_exec_defs spop_run_def\<close>)+

lemma set_replies_any:
  assumes "\<And>s. rvalue ob = VSet s \<Longrightarrow> set_state s"
    and "\<And>s n es. rvalue ob = VSet s \<Longrightarrow> c = SPop n es \<Longrightarrow> (n = -1 \<or> 0 \<le> n) \<and> members s \<noteq> {}"
    and "set_ExecuteOn buckets rnd c ob = (c', r, d)"
  shows "replies (set_OutputResult c' r)"
proof -
  consider es m where "c = SAdd True es m" | s where "rvalue ob = VSet s" "\<nexists>es m. c = SAdd True es m"
    | "\<And>s. rvalue ob \<noteq> VSet s" "\<And>es m. c \<noteq> SAdd True es m"
    by blast
  then show ?thesis
  proof cases
    case 1
    then show ?thesis using assms(3) by (auto simp: SAdd_ExecuteOn_def set_output_defs Let_def split: if_splits)
  next
    case 2
    then show ?thesis using set_replies [OF _ _ _ assms(3)] assms(1,2) by blast
  next
    case 3
    then have "sr_err r = RD_ERR_WRONG_TYPE" using set_wrong_type [OF 3, of buckets rnd] assms(3) by auto
    then show ?thesis by (cases c') (simp_all add: set_output_defs)
  qed
qed

end
