(* ===== verification/StringCommands.thy ===== *)
theory StringCommands
  imports Command
begin

unbundle bit_operations_syntax

text \<open>
  The string commands (\<^verbatim>\<open>src/redis_command.cpp\<close>): \<^verbatim>\<open>SET\<close> with its options, \<^verbatim>\<open>GET\<close>, \<^verbatim>\<open>GETDEL\<close>, \<^verbatim>\<open>GETEX\<close>,
  \<^verbatim>\<open>STRLEN\<close>, \<^verbatim>\<open>APPEND\<close>, the ranges, the bit commands and \<^verbatim>\<open>INCRBY\<close>, in the style of the list commands.
  \<^verbatim>\<open>INCRBYFLOAT\<close> formats floating point numbers and is left out.
\<close>

section \<open>Shared parts\<close>

text \<open>\<^verbatim>\<open>StringCommand::CheckTypeMatch\<close> and the branch that most \<^verbatim>\<open>ExecuteOn\<close> start with.\<close>

definition on_string :: "redis_object \<Rightarrow> string_result \<Rightarrow> (string_obj \<Rightarrow> string_result \<times> exec_result) \<Rightarrow>
    string_result \<times> exec_result" where
  "on_string obj result f =
     (case rvalue obj of VString s \<Rightarrow> f s | _ \<Rightarrow> (result\<lparr>st_err := RD_ERR_WRONG_TYPE\<rparr>, EFail))"

definition string_CreateObject :: redis_object where
  "string_CreateObject = \<lparr>rvalue = VString RedisStringObject, rttl = None\<rparr>"

text \<open>A \<^verbatim>\<open>static_cast\<close> of an object of another type is undefined.\<close>

definition commit_string :: "redis_object \<Rightarrow> (string_obj \<Rightarrow> string_obj) \<Rightarrow> commit_result" where
  "commit_string obj f =
     (case rvalue obj of VString s \<Rightarrow> CKeep (obj\<lparr>rvalue := VString (f s)\<rparr>) | _ \<Rightarrow> CUndefined)"

definition success_or_fail :: "bool \<Rightarrow> exec_result" where
  "success_or_fail success = (if success then EWrite else EFail)"

definition string_error :: "string_result \<Rightarrow> reply list" where
  "string_error result = [OnError (redis_get_error_messages (st_err result))]"

text \<open>\<^verbatim>\<open>UINT64_MAX\<close> stands for an object that never expires.\<close>

definition UINT64_MAX :: nat where
  "UINT64_MAX = 2 ^ 64 - 1"

section \<open>SET\<close>

text \<open>The options; \<^verbatim>\<open>OBJ_SET_EX\<close> has the same bit as \<^verbatim>\<open>OBJ_SET_KEEPTTL\<close>.\<close>

definition OBJ_SET_NX :: int where "OBJ_SET_NX = 1"
definition OBJ_SET_XX :: int where "OBJ_SET_XX = 2"
definition OBJ_SET_SETNX :: int where "OBJ_SET_SETNX = 4"
definition OBJ_GET_SET :: int where "OBJ_GET_SET = 8"
definition OBJ_SET_EX :: int where "OBJ_SET_EX = 16"
definition OBJ_SET_KEEPTTL :: int where "OBJ_SET_KEEPTTL = 16"

definition has_flag :: "int \<Rightarrow> int \<Rightarrow> bool" where
  "has_flag flag opt \<longleftrightarrow> flag AND opt \<noteq> 0"

text \<open>Whether the engine runs the command on a missing key and on an existing one.\<close>

definition Set_ProceedOnNonExistentObject :: "int \<Rightarrow> bool" where
  "Set_ProceedOnNonExistentObject flag \<longleftrightarrow> \<not> has_flag flag OBJ_SET_XX"

definition Set_ProceedOnExistentObject :: "int \<Rightarrow> bool" where
  "Set_ProceedOnExistentObject flag \<longleftrightarrow> \<not> (has_flag flag OBJ_SET_NX \<and> \<not> has_flag flag OBJ_GET_SET)"

definition Set_ExecuteOn :: "eloq_string \<Rightarrow> int \<Rightarrow> redis_object \<Rightarrow> string_result \<Rightarrow> string_result \<times> exec_result" where
  "Set_ExecuteOn val flag obj result =
     (if has_flag flag OBJ_GET_SET
      then on_string obj result (\<lambda>s.
        if is_null (str_obj s)
        then (result\<lparr>st_err := RD_NIL\<rparr>, if has_flag flag OBJ_SET_XX then ERead else EWrite)
        else let r = result\<lparr>st_str := StringView (str_obj s), st_err := RD_OK\<rparr> in
             if has_flag flag OBJ_SET_NX then (r, ERead)
             else if \<not> CheckSerializedLength (es_length val) then (r\<lparr>st_err := RD_ERR_OBJECT_TOO_BIG\<rparr>, ERead)
             else (r, EWrite))
      else if \<not> CheckSerializedLength (es_length val) then (result\<lparr>st_err := RD_ERR_OBJECT_TOO_BIG\<rparr>, EFail)
      else (result\<lparr>st_err := RD_OK, st_int := 1\<rparr>, EWrite))"

text \<open>
  A string is changed in place.  An object of another type is replaced: the new object gets the value
  twice, the second time whatever the first \<^verbatim>\<open>CommitSet\<close> left in the command.
\<close>

definition Set_CommitOn :: "eloq_string \<Rightarrow> int \<Rightarrow> nat \<Rightarrow> redis_object \<Rightarrow> commit_result" where
  "Set_CommitOn val flag obj_expire_ts obj =
     (case rvalue obj of
        VString s \<Rightarrow>
          (let ob1 = obj\<lparr>rvalue := VString (fst (CommitSet s val))\<rparr> in
           CKeep (if obj_expire_ts \<noteq> UINT64_MAX
                  then if HasTTL ob1 then SetTTL ob1 obj_expire_ts else AddTTL ob1 obj_expire_ts
                  else if HasTTL ob1 \<and> \<not> has_flag flag OBJ_SET_KEEPTTL then RemoveTTL ob1 else ob1))
      | _ \<Rightarrow>
          (let (s1, val1) = CommitSet RedisStringObject val; (s2, _) = CommitSet s1 val1 in
           CKeep \<lparr>rvalue = VString s2, rttl = (if obj_expire_ts \<noteq> UINT64_MAX then Some obj_expire_ts else None)\<rparr>))"

definition Set_Serialize :: "eloq_string \<Rightarrow> int \<Rightarrow> nat \<Rightarrow> bytes \<Rightarrow> bytes" where
  "Set_Serialize val flag obj_expire_ts str =
     str @ put_u8 (cmd_type ''SET'') @ put_i32 flag @ put_string val @ put_u64 obj_expire_ts"

definition Set_Deserialize :: "(eloq_string \<times> int \<times> nat) reader" where
  "Set_Deserialize bs =
     do { (flag, bs1) \<leftarrow> get_i32 bs; (val, bs2) \<leftarrow> get_string bs1; (ts, bs3) \<leftarrow> get_u64 bs2;
          Some ((val, flag, ts), bs3) }"

definition Set_OutputResult :: "int \<Rightarrow> string_result \<Rightarrow> reply list" where
  "Set_OutputResult flag result =
     (if has_flag flag OBJ_SET_SETNX then [OnInt (st_int result)]
      else if has_flag flag OBJ_GET_SET
      then if st_err result = RD_OK then [OnString (st_str result)]
           else if st_err result = RD_NIL then [OnNil] else string_error result
      else if st_err result = RD_OK then [OnStatus (redis_get_error_messages RD_OK)]
      else if st_err result = RD_NIL then [OnNil] else string_error result)"

section \<open>The other commands\<close>

subsection \<open>GET, GETDEL, STRLEN\<close>

definition Get_ExecuteOn :: "redis_object \<Rightarrow> string_result \<Rightarrow> string_result \<times> exec_result" where
  "Get_ExecuteOn obj result = on_string obj result (\<lambda>s. (Execute_Get s result, ERead))"

definition Get_Serialize :: "bytes \<Rightarrow> bytes" where
  "Get_Serialize str = str @ put_u8 (cmd_type ''GET'')"

definition Get_OutputResult :: "string_result \<Rightarrow> reply list" where
  "Get_OutputResult result =
     (if st_err result = RD_OK then [OnString (st_str result)]
      else if st_err result = RD_NIL then [OnNil] else string_error result)"

definition GetDel_ExecuteOn :: "redis_object \<Rightarrow> string_result \<Rightarrow> string_result \<times> exec_result" where
  "GetDel_ExecuteOn obj result = on_string obj result (\<lambda>s. (Execute_GetDel s result, EDelete))"

definition GetDel_CommitOn :: "redis_object \<Rightarrow> commit_result" where
  "GetDel_CommitOn obj = CRemove"

definition GetDel_Serialize :: "bytes \<Rightarrow> bytes" where
  "GetDel_Serialize str = str @ put_u8 (cmd_type ''GETDEL'')"

definition GetDel_OutputResult :: "string_result \<Rightarrow> reply list" where
  "GetDel_OutputResult result =
     (if st_err result = RD_OK then [OnString (st_str result)]
      else if st_err result = RD_NIL then [OnNil] else string_error result)"

definition StrLen_ExecuteOn :: "redis_object \<Rightarrow> string_result \<Rightarrow> string_result \<times> exec_result" where
  "StrLen_ExecuteOn obj result = on_string obj result (\<lambda>s. (Execute_StrLen s result, ERead))"

definition StrLen_Serialize :: "bytes \<Rightarrow> bytes" where
  "StrLen_Serialize str = str @ put_u8 (cmd_type ''STRLEN'')"

definition StrLen_OutputResult :: "string_result \<Rightarrow> reply list" where
  "StrLen_OutputResult result =
     (if st_err result = RD_OK then [OnInt (st_int result)]
      else if st_err result = RD_NIL then [OnInt 0] else string_error result)"

subsection \<open>GETEX\<close>

text \<open>The third component of the result is the image that the \<^verbatim>\<open>RECOVER\<close> record keeps.\<close>

definition GetEx_ExecuteOn :: "nat \<Rightarrow> bool \<Rightarrow> redis_object \<Rightarrow> string_result \<Rightarrow>
    string_result \<times> exec_result \<times> bytes option" where
  "GetEx_ExecuteOn expire_ts is_persist obj result =
     (case rvalue obj of
        VString s \<Rightarrow>
          (let r = Execute_Get s result in
           if (expire_ts = UINT64_MAX \<and> \<not> is_persist) \<or> (is_persist \<and> \<not> HasTTL obj) then (r, ERead, None)
           else (r\<lparr>st_err := RD_OK\<rparr>, EWrite, Some (robj_Serialize obj [])))
      | _ \<Rightarrow> (result\<lparr>st_err := RD_ERR_WRONG_TYPE\<rparr>, EFail, None))"

text \<open>\<^verbatim>\<open>RemoveTTL\<close> on an object without a time to live is a cast to the wrong class.\<close>

definition GetEx_CommitOn :: "nat \<Rightarrow> bool \<Rightarrow> redis_object \<Rightarrow> commit_result" where
  "GetEx_CommitOn expire_ts is_persist obj =
     (if \<not> (case rvalue obj of VString _ \<Rightarrow> True | _ \<Rightarrow> False) then CUndefined
      else if expire_ts < UINT64_MAX
      then CKeep (if HasTTL obj then SetTTL obj expire_ts else AddTTL obj expire_ts)
      else if is_persist then if HasTTL obj then CKeep (RemoveTTL obj) else CUndefined
      else CUndefined)"

definition GetEx_Serialize :: "nat \<Rightarrow> bool \<Rightarrow> bytes \<Rightarrow> bytes" where
  "GetEx_Serialize expire_ts is_persist str =
     str @ put_u8 (cmd_type ''GETEX'') @ put_u64 expire_ts @ put_bool is_persist"

definition GetEx_Deserialize :: "(nat \<times> bool) reader" where
  "GetEx_Deserialize bs =
     do { (ts, bs1) \<leftarrow> get_u64 bs; (p, bs2) \<leftarrow> get_bool bs1; Some ((ts, p), bs2) }"

subsection \<open>Ranges and APPEND\<close>

text \<open>The command keeps the range that \<^verbatim>\<open>Execute\<close> has normalised.\<close>

definition GetRange_ExecuteOn :: "int \<Rightarrow> int \<Rightarrow> redis_object \<Rightarrow> string_result \<Rightarrow>
    (int \<times> int) \<times> string_result \<times> exec_result" where
  "GetRange_ExecuteOn start end0 obj result =
     (case rvalue obj of
        VString s \<Rightarrow> (let (r, st, en) = Execute_GetRange s start end0 result in ((st, en), r, ERead))
      | _ \<Rightarrow> ((start, end0), result\<lparr>st_err := RD_ERR_WRONG_TYPE\<rparr>, EFail))"

definition GetRange_Serialize :: "int \<Rightarrow> int \<Rightarrow> bytes \<Rightarrow> bytes" where
  "GetRange_Serialize start end0 str = str @ put_u8 (cmd_type ''GETRANGE'') @ put_i64 start @ put_i64 end0"

definition GetRange_Deserialize :: "(int \<times> int) reader" where
  "GetRange_Deserialize bs =
     do { (s, bs1) \<leftarrow> get_i64 bs; (e, bs2) \<leftarrow> get_i64 bs1; Some ((s, e), bs2) }"

definition GetRange_OutputResult :: "string_result \<Rightarrow> reply list" where
  "GetRange_OutputResult result =
     (if st_err result = RD_OK \<or> st_err result = RD_NIL then [OnString (st_str result)] else string_error result)"

definition SetRange_ExecuteOn :: "nat \<Rightarrow> eloq_string \<Rightarrow> redis_object \<Rightarrow> string_result \<Rightarrow> string_result \<times> exec_result" where
  "SetRange_ExecuteOn offset val obj result =
     on_string obj result (\<lambda>s. let (r, success) = Execute_SetRange s offset val result in (r, success_or_fail success))"

definition SetRange_CommitOn :: "nat \<Rightarrow> eloq_string \<Rightarrow> redis_object \<Rightarrow> commit_result" where
  "SetRange_CommitOn offset val obj = commit_string obj (\<lambda>s. CommitSetRange s offset val)"

definition SetRange_Serialize :: "nat \<Rightarrow> eloq_string \<Rightarrow> bytes \<Rightarrow> bytes" where
  "SetRange_Serialize offset val str =
     str @ put_u8 (cmd_type ''SETRANGE'') @ put_i64 (int offset) @ put_string val"

definition SetRange_Deserialize :: "(nat \<times> eloq_string) reader" where
  "SetRange_Deserialize bs =
     do { (i, bs1) \<leftarrow> get_i64 bs; (v, bs2) \<leftarrow> get_string bs1; Some ((nat i, v), bs2) }"

definition SetRange_OutputResult :: "string_result \<Rightarrow> reply list" where
  "SetRange_OutputResult result =
     (if st_err result = RD_OK \<or> st_err result = RD_NIL then [OnInt (st_int result)] else string_error result)"

definition Append_ExecuteOn :: "eloq_string \<Rightarrow> redis_object \<Rightarrow> string_result \<Rightarrow> string_result \<times> exec_result" where
  "Append_ExecuteOn val obj result =
     on_string obj result (\<lambda>s.
       let (r, success) = Execute_Append (HasTTL obj) s val result in (r, success_or_fail success))"

definition Append_CommitOn :: "eloq_string \<Rightarrow> redis_object \<Rightarrow> commit_result" where
  "Append_CommitOn val obj = commit_string obj (\<lambda>s. CommitAppend s val)"

definition Append_Serialize :: "eloq_string \<Rightarrow> bytes \<Rightarrow> bytes" where
  "Append_Serialize val str = str @ put_u8 (cmd_type ''APPEND'') @ put_string val"

definition Append_Deserialize :: "eloq_string reader" where
  "Append_Deserialize = get_string"

definition Append_OutputResult :: "string_result \<Rightarrow> reply list" where
  "Append_OutputResult result =
     (if st_err result = RD_OK then [OnInt (st_int result)] else string_error result)"

subsection \<open>Bits\<close>

definition GetBit_ExecuteOn :: "nat \<Rightarrow> redis_object \<Rightarrow> string_result \<Rightarrow> string_result \<times> exec_result" where
  "GetBit_ExecuteOn offset obj result = on_string obj result (\<lambda>s. (Execute_GetBit s offset result, ERead))"

definition GetBit_Serialize :: "nat \<Rightarrow> bytes \<Rightarrow> bytes" where
  "GetBit_Serialize offset str = str @ put_u8 (cmd_type ''GETBIT'') @ put_i64 (int offset)"

definition GetBit_Deserialize :: "nat reader" where
  "GetBit_Deserialize bs = map_option (apfst nat) (get_i64 bs)"

definition GetBit_OutputResult :: "string_result \<Rightarrow> reply list" where
  "GetBit_OutputResult result =
     (if st_err result = RD_OK then [OnInt (st_int result)]
      else if st_err result = RD_NIL then [OnInt 0] else string_error result)"

definition SetBit_ExecuteOn :: "nat \<Rightarrow> redis_object \<Rightarrow> string_result \<Rightarrow> string_result \<times> exec_result" where
  "SetBit_ExecuteOn offset obj result =
     on_string obj result (\<lambda>s. let (r, success) = Execute_SetBit s offset result in (r, success_or_fail success))"

definition SetBit_CommitOn :: "nat \<Rightarrow> int \<Rightarrow> redis_object \<Rightarrow> commit_result" where
  "SetBit_CommitOn offset val obj = commit_string obj (\<lambda>s. CommitSetBit s offset val)"

definition SetBit_Serialize :: "nat \<Rightarrow> int \<Rightarrow> bytes \<Rightarrow> bytes" where
  "SetBit_Serialize offset val str =
     str @ put_u8 (cmd_type ''SETBIT'') @ put_i64 (int offset) @ put_u8 (nat (val mod 256))"

definition SetBit_Deserialize :: "(nat \<times> int) reader" where
  "SetBit_Deserialize bs =
     do { (i, bs1) \<leftarrow> get_i64 bs; (v, bs2) \<leftarrow> get_u8 bs1; Some ((nat i, to_signed 8 (int v)), bs2) }"

definition SetBit_OutputResult :: "string_result \<Rightarrow> reply list" where
  "SetBit_OutputResult result =
     (if st_err result = RD_OK then [OnInt (st_int result)] else string_error result)"

definition BitCount_ExecuteOn :: "int \<Rightarrow> int \<Rightarrow> bool \<Rightarrow> redis_object \<Rightarrow> string_result \<Rightarrow> string_result \<times> exec_result" where
  "BitCount_ExecuteOn start end0 by_bit obj result =
     on_string obj result (\<lambda>s. (Execute_BitCount s start end0 by_bit result, ERead))"

text \<open>\<^verbatim>\<open>OffsetType::BIT\<close> is 0 and \<^verbatim>\<open>OffsetType::BYTE\<close> is 1.\<close>

definition BitCount_Serialize :: "int \<Rightarrow> int \<Rightarrow> bool \<Rightarrow> bytes \<Rightarrow> bytes" where
  "BitCount_Serialize start end0 by_bit str =
     str @ put_u8 (cmd_type ''BITCOUNT'') @ put_i64 start @ put_i64 end0 @ put_u8 (if by_bit then 0 else 1)"

definition BitCount_Deserialize :: "(int \<times> int \<times> bool) reader" where
  "BitCount_Deserialize bs =
     do { (s, bs1) \<leftarrow> get_i64 bs; (e, bs2) \<leftarrow> get_i64 bs1; (t, bs3) \<leftarrow> get_u8 bs2; Some ((s, e, t = 0), bs3) }"

definition BitCount_OutputResult :: "string_result \<Rightarrow> reply list" where
  "BitCount_OutputResult result =
     (if st_err result = RD_OK \<or> st_err result = RD_NIL then [OnInt (st_int result)] else string_error result)"

subsection \<open>BITFIELD\<close>

text \<open>Where the source shifts by the width of the type there is no outcome.\<close>

definition BitField_ExecuteOn :: "sub_command list \<Rightarrow> redis_object \<Rightarrow> string_result \<Rightarrow>
    (string_result \<times> exec_result) option" where
  "BitField_ExecuteOn vct obj result =
     (case rvalue obj of
        VString s \<Rightarrow> map_option (\<lambda>(r, u). (r, if u then EWrite else ERead)) (Execute_BitField s vct result)
      | _ \<Rightarrow> Some (result\<lparr>st_err := RD_ERR_WRONG_TYPE\<rparr>, EFail))"

definition BitField_CommitOn :: "sub_command list \<Rightarrow> redis_object \<Rightarrow> commit_result" where
  "BitField_CommitOn vct obj =
     (case rvalue obj of
        VString s \<Rightarrow> (case CommitBitField s vct of
            Some s' \<Rightarrow> CKeep (obj\<lparr>rvalue := VString s'\<rparr>) | None \<Rightarrow> CUndefined)
      | _ \<Rightarrow> CUndefined)"

text \<open>
  The image holds the structs as they are in memory: four one-byte members, four bytes of padding
  (whatever they hold, a parameter) and the two 64-bit members.
\<close>

definition op_code :: "bf_op \<Rightarrow> nat" where
  "op_code t = (case t of BF_GET \<Rightarrow> 0 | BF_SET \<Rightarrow> 1 | BF_INCR \<Rightarrow> 2)"

definition op_of_code :: "nat \<Rightarrow> bf_op option" where
  "op_of_code n = (if n = 0 then Some BF_GET else if n = 1 then Some BF_SET else if n = 2 then Some BF_INCR else None)"

definition ovf_code :: "overflow \<Rightarrow> nat" where
  "ovf_code t = (case t of WRAP \<Rightarrow> 0 | SAT \<Rightarrow> 1 | FAIL \<Rightarrow> 2)"

definition ovf_of_code :: "nat \<Rightarrow> overflow option" where
  "ovf_of_code n = (if n = 0 then Some WRAP else if n = 1 then Some SAT else if n = 2 then Some FAIL else None)"

definition put_sub :: "bytes \<Rightarrow> sub_command \<Rightarrow> bytes" where
  "put_sub pad c =
     put_u8 (op_code (bf_type c)) @ put_bool (bf_signed c) @ put_u8 (bf_bits c) @ put_u8 (ovf_code (bf_ovf c)) @
     pad @ put_i64 (int (bf_offset c)) @ put_u64 (unat (bf_value c))"

definition get_sub :: "sub_command reader" where
  "get_sub bs =
     do { (t, bs1) \<leftarrow> get_u8 bs; (sg, bs2) \<leftarrow> get_bool bs1; (n, bs3) \<leftarrow> get_u8 bs2; (v, bs4) \<leftarrow> get_u8 bs3;
          (_, bs5) \<leftarrow> get_raw 4 bs4; (off, bs6) \<leftarrow> get_i64 bs5; (val, bs7) \<leftarrow> get_u64 bs6;
          op \<leftarrow> op_of_code t; ov \<leftarrow> ovf_of_code v;
          Some (\<lparr>bf_type = op, bf_signed = sg, bf_bits = n, bf_ovf = ov, bf_offset = nat off,
                 bf_value = of_nat val\<rparr>, bs7) }"

definition BitField_Serialize :: "bytes \<Rightarrow> sub_command list \<Rightarrow> bytes \<Rightarrow> bytes" where
  "BitField_Serialize pad vct str = str @ put_u8 (cmd_type ''BITFIELD'') @ put_vec (put_sub pad) vct"

definition BitField_Deserialize :: "sub_command list reader" where
  "BitField_Deserialize = get_vec get_sub"

definition BitField_OutputResult :: "string_result \<Rightarrow> reply list" where
  "BitField_OutputResult result =
     (if st_err result = RD_OK
      then array_reply (map (\<lambda>(b, n). if b then OnInt n else OnNil) (st_vct result))
      else string_error result)"

subsection \<open>BITPOS\<close>

definition BitPos_ExecuteOn :: "nat \<Rightarrow> int \<Rightarrow> int \<Rightarrow> redis_object \<Rightarrow> string_result \<Rightarrow>
    (int \<times> int) \<times> string_result \<times> exec_result" where
  "BitPos_ExecuteOn bit_val start end0 obj result =
     (case rvalue obj of
        VString s \<Rightarrow> (let (r, st, en) = Execute_BitPos s bit_val start end0 (result\<lparr>st_err := RD_OK\<rparr>)
                      in ((st, en), r, ERead))
      | _ \<Rightarrow> ((start, end0), result\<lparr>st_err := RD_ERR_WRONG_TYPE\<rparr>, EFail))"

definition BitPos_Serialize :: "nat \<Rightarrow> int \<Rightarrow> int \<Rightarrow> bytes \<Rightarrow> bytes" where
  "BitPos_Serialize bit_val start end0 str =
     str @ put_u8 (cmd_type ''BITPOS'') @ put_u8 bit_val @ put_i64 start @ put_i64 end0"

definition BitPos_Deserialize :: "(nat \<times> int \<times> int) reader" where
  "BitPos_Deserialize bs =
     do { (b, bs1) \<leftarrow> get_u8 bs; (s, bs2) \<leftarrow> get_i64 bs1; (e, bs3) \<leftarrow> get_i64 bs2; Some ((b, s, e), bs3) }"

definition BitPos_OutputResult :: "nat \<Rightarrow> string_result \<Rightarrow> reply list" where
  "BitPos_OutputResult bit_val result =
     (if st_err result = RD_OK then [OnInt (st_int result)]
      else if st_err result = RD_NIL then if bit_val = 0 then [OnInt 0] else [OnInt (-1)]
      else string_error result)"

subsection \<open>INCRBY\<close>

text \<open>\<^verbatim>\<open>INCR\<close>, \<^verbatim>\<open>DECR\<close> and \<^verbatim>\<open>DECRBY\<close> are this command with another increment.\<close>

definition IntOp_ExecuteOn :: "int \<Rightarrow> redis_object \<Rightarrow> int_result \<Rightarrow> int_result \<times> exec_result" where
  "IntOp_ExecuteOn incr obj result =
     (case rvalue obj of
        VString s \<Rightarrow> (let (r, success) = Execute_IntOp s incr result in (r, success_or_fail success))
      | _ \<Rightarrow> (result\<lparr>ir_err := RD_ERR_WRONG_TYPE\<rparr>, EFail))"

definition IntOp_CommitOn :: "int \<Rightarrow> redis_object \<Rightarrow> commit_result" where
  "IntOp_CommitOn incr obj = commit_string obj (\<lambda>s. CommitIncrDecr s incr)"

definition IntOp_Serialize :: "int \<Rightarrow> bytes \<Rightarrow> bytes" where
  "IntOp_Serialize incr str = str @ put_u8 (cmd_type ''INCRBY'') @ put_i64 incr"

definition IntOp_Deserialize :: "int reader" where
  "IntOp_Deserialize = get_i64"

definition IntOp_OutputResult :: "int_result \<Rightarrow> reply list" where
  "IntOp_OutputResult result =
     (if ir_err result = RD_OK then [OnInt (ir_val result)]
      else [OnError (redis_get_error_messages (ir_err result))])"

section \<open>The family\<close>

datatype string_cmd =
    Set eloq_string int nat
  | Get
  | GetDel
  | GetEx nat bool
  | StrLen
  | GetRange int int
  | SetRange nat eloq_string
  | Append eloq_string
  | GetBit nat
  | SetBit nat int
  | BitCount int int bool
  | BitField "sub_command list"
  | BitPos nat int int
  | IntOp int

text \<open>The two result types of the family.\<close>

datatype string_or_int = SRes string_result | IRes int_result

fun string_ExecuteOn :: "string_cmd \<Rightarrow> redis_object \<Rightarrow> string_cmd \<times> string_or_int option \<times> exec_result" where
  "string_ExecuteOn (Set v f ts) obj = (Set v f ts, apfst (Some \<circ> SRes) (Set_ExecuteOn v f obj RedisStringResult))"
| "string_ExecuteOn Get obj = (Get, apfst (Some \<circ> SRes) (Get_ExecuteOn obj RedisStringResult))"
| "string_ExecuteOn GetDel obj = (GetDel, apfst (Some \<circ> SRes) (GetDel_ExecuteOn obj RedisStringResult))"
| "string_ExecuteOn (GetEx ts p) obj =
     (GetEx ts p, (let (r, d, _) = GetEx_ExecuteOn ts p obj RedisStringResult in (Some (SRes r), d)))"
| "string_ExecuteOn StrLen obj = (StrLen, apfst (Some \<circ> SRes) (StrLen_ExecuteOn obj RedisStringResult))"
| "string_ExecuteOn (GetRange s e) obj =
     (let ((s', e'), r, d) = GetRange_ExecuteOn s e obj RedisStringResult in (GetRange s' e', Some (SRes r), d))"
| "string_ExecuteOn (SetRange i v) obj =
     (SetRange i v, apfst (Some \<circ> SRes) (SetRange_ExecuteOn i v obj RedisStringResult))"
| "string_ExecuteOn (Append v) obj = (Append v, apfst (Some \<circ> SRes) (Append_ExecuteOn v obj RedisStringResult))"
| "string_ExecuteOn (GetBit i) obj = (GetBit i, apfst (Some \<circ> SRes) (GetBit_ExecuteOn i obj RedisStringResult))"
| "string_ExecuteOn (SetBit i v) obj = (SetBit i v, apfst (Some \<circ> SRes) (SetBit_ExecuteOn i obj RedisStringResult))"
| "string_ExecuteOn (BitCount s e b) obj =
     (BitCount s e b, apfst (Some \<circ> SRes) (BitCount_ExecuteOn s e b obj RedisStringResult))"
| "string_ExecuteOn (BitField vct) obj =
     (BitField vct, (case BitField_ExecuteOn vct obj RedisStringResult of
        Some (r, d) \<Rightarrow> (Some (SRes r), d) | None \<Rightarrow> (None, EFail)))"
| "string_ExecuteOn (BitPos b s e) obj =
     (let ((s', e'), r, d) = BitPos_ExecuteOn b s e obj RedisStringResult in (BitPos b s' e', Some (SRes r), d))"
| "string_ExecuteOn (IntOp n) obj = (IntOp n, apfst (Some \<circ> IRes) (IntOp_ExecuteOn n obj RedisIntResult))"

fun string_CommitOn :: "string_cmd \<Rightarrow> redis_object \<Rightarrow> commit_result" where
  "string_CommitOn (Set v f ts) obj = Set_CommitOn v f ts obj"
| "string_CommitOn GetDel obj = GetDel_CommitOn obj"
| "string_CommitOn (GetEx ts p) obj = GetEx_CommitOn ts p obj"
| "string_CommitOn (SetRange i v) obj = SetRange_CommitOn i v obj"
| "string_CommitOn (Append v) obj = Append_CommitOn v obj"
| "string_CommitOn (SetBit i v) obj = SetBit_CommitOn i v obj"
| "string_CommitOn (BitField vct) obj = BitField_CommitOn vct obj"
| "string_CommitOn (IntOp n) obj = IntOp_CommitOn n obj"
| "string_CommitOn _ obj = CUndefined"

lemmas string_exec_defs =
  Set_ExecuteOn_def Get_ExecuteOn_def GetDel_ExecuteOn_def GetEx_ExecuteOn_def StrLen_ExecuteOn_def
  GetRange_ExecuteOn_def SetRange_ExecuteOn_def Append_ExecuteOn_def GetBit_ExecuteOn_def SetBit_ExecuteOn_def
  BitCount_ExecuteOn_def BitField_ExecuteOn_def BitPos_ExecuteOn_def IntOp_ExecuteOn_def on_string_def

lemmas string_commit_defs =
  Set_CommitOn_def GetDel_CommitOn_def GetEx_CommitOn_def SetRange_CommitOn_def Append_CommitOn_def
  SetBit_CommitOn_def BitField_CommitOn_def IntOp_CommitOn_def commit_string_def

section \<open>What the commands mean\<close>

text \<open>The string with one bit set, zero-extended to hold the bit.\<close>

definition setbit_spec :: "nat \<Rightarrow> bool \<Rightarrow> bytes \<Rightarrow> bytes" where
  "setbit_spec i b xs = put_bit_at (xs @ replicate (i div 8 + 1 - length xs) (CHR 0x00)) i b"

definition int_of :: "bytes \<Rightarrow> int" where
  "int_of b = (if b = [] then 0 else case string2ll b of Some n \<Rightarrow> n | None \<Rightarrow> 0)"

fun string_apply :: "string_cmd \<Rightarrow> bytes \<Rightarrow> bytes" where
  "string_apply (Set v _ _) b = StringView v"
| "string_apply (SetRange i v) b = setrange_spec i (StringView v) b"
| "string_apply (Append v) b = b @ StringView v"
| "string_apply (SetBit i v) b = setbit_spec i (v \<noteq> 0) b"
| "string_apply (BitField vct) b = (case bf_commit_all (bf_buffer b vct) vct of Some (p, _) \<Rightarrow> p | None \<Rightarrow> b)"
| "string_apply (IntOp n) b = to_string (int_of b + n)"
| "string_apply _ b = b"

text \<open>The time to live afterwards.\<close>

fun string_ttl :: "string_cmd \<Rightarrow> nat option \<Rightarrow> nat option" where
  "string_ttl (Set _ flag ts) t =
     (if ts \<noteq> UINT64_MAX then Some ts else if has_flag flag OBJ_SET_KEEPTTL then t else None)"
| "string_ttl (GetEx ts _) t = (if ts < UINT64_MAX then Some ts else None)"
| "string_ttl _ t = t"

definition string_state :: "string_obj \<Rightarrow> bool" where
  "string_state s \<longleftrightarrow> string_inv s \<and> 5 + length (sval s) \<le> unat MAX_OBJECT_SIZE"

text \<open>
  The arguments a command may have.  Two commands store without testing the size of the result: \<^verbatim>\<open>SET\<close>
  with \<^verbatim>\<open>GET\<close> on a string that is not there yet, and \<^verbatim>\<open>BITFIELD\<close>.
\<close>

fun string_ok :: "string_cmd \<Rightarrow> string_obj \<Rightarrow> bool" where
  "string_ok (Set v flag ts) s = (arg_ok v \<and> ts < 2 ^ 64 \<and>
     (has_flag flag OBJ_GET_SET \<and> is_null (str_obj s) \<longrightarrow> 5 + length (StringView v) \<le> unat MAX_OBJECT_SIZE))"
| "string_ok (GetEx ts p) s = (ts < 2 ^ 64 \<and> (p \<longrightarrow> ts = UINT64_MAX) \<and> \<not> is_null (str_obj s))"
| "string_ok (SetRange i v) s = (i < 2 ^ 62 \<and> arg_ok v)"
| "string_ok (Append v) s = arg_ok v"
| "string_ok (SetBit i v) s = (i < 2 ^ 62)"
| "string_ok (BitField vct) s = (5 + bf_len vct \<le> unat MAX_OBJECT_SIZE)"
| "string_ok (IntOp n) s = is_i64 n"
| "string_ok _ s = (\<not> is_null (str_obj s))"

definition string_commits :: "string_cmd \<Rightarrow> string_obj \<Rightarrow> redis_object \<Rightarrow> bool" where
  "string_commits c s ob \<longleftrightarrow>
     (\<exists>s'. string_state s' \<and> \<not> is_null (str_obj s') \<and> sval s' = string_apply c (sval s) \<and>
        string_CommitOn c ob = CKeep \<lparr>rvalue = VString s', rttl = string_ttl c (rttl ob)\<rparr>)"

lemma string_commitsI:
  assumes "string_inv s'" "\<not> is_null (str_obj s')" "sval s' = string_apply c (sval s)"
    and "5 + length (string_apply c (sval s)) \<le> 268435456"
    and "string_CommitOn c ob = CKeep \<lparr>rvalue = VString s', rttl = string_ttl c (rttl ob)\<rparr>"
  shows "string_commits c s ob"
  unfolding string_commits_def using assms by (intro exI [of _ s']) (simp add: string_state_def)

lemma not_null [simp]:
  "storable e \<Longrightarrow> \<not> is_null e" "\<not> is_null (es_make b)" "StringView e \<noteq> [] \<Longrightarrow> \<not> is_null e"
  "\<not> is_null (Clone e)"
proof -
  show m: "\<not> is_null (es_make b)" for b by (simp add: es_make_def InitHeap_def Let_def)
  show "\<not> is_null (Clone e)" using m by (simp add: Clone_def)
qed (cases e; simp add: storable_def owned_def)+

lemma sval_update [simp]: "sval (s\<lparr>str_obj := e\<rparr>) = StringView e"
  by (simp add: sval_def)

lemma ob_update_string [simp]:
  "ob\<lparr>rvalue := VString s\<rparr> = \<lparr>rvalue = VString s, rttl = rttl ob\<rparr>"
  by (cases ob) simp

subsection \<open>SET and GETEX\<close>

lemma string_inv_storable: "string_inv s \<Longrightarrow> \<not> is_null (str_obj s) \<Longrightarrow> storable (str_obj s)"
  by (auto simp: string_inv_def)

lemma moved_string:
  assumes "storable e"
  shows "storable (fst (es_move e))" "\<not> is_null (fst (es_move e))"
proof -
  show s: "storable (fst (es_move e))" using assms by (simp add: storable_def es_move_inv)
  show "\<not> is_null (fst (es_move e))" using s by (rule not_null)
qed

lemma string_TTL:
  assumes "storable (str_obj s)" "rvalue ob = VString s"
  shows "\<exists>s'. AddTTL ob ts = \<lparr>rvalue = VString s', rttl = Some ts\<rparr> \<and> storable (str_obj s') \<and> sval s' = sval s"
    and "\<exists>s'. RemoveTTL ob = \<lparr>rvalue = VString s', rttl = None\<rparr> \<and> storable (str_obj s') \<and> sval s' = sval s"
  using moved_string(1) [OF assms(1)] assms(2) by (simp_all add: AddTTL_def RemoveTTL_def sval_def)

lemma set_fits:
  assumes "arg_ok v" "CheckSerializedLength (es_length v)"
  shows "5 + length (StringView v) \<le> 268435456"
  using assms arg_ok_length [OF assms(1)] by (simp add: CheckSerializedLength_iff arg_ok_def es_short_def)

lemma set_commits_string:
  assumes "arg_ok v" "5 + length (StringView v) \<le> 268435456" "rvalue ob = VString s"
  shows "string_commits (Set v flag ts) s ob"
proof -
  let ?s = "fst (CommitSet s v)" and ?ob = "\<lparr>rvalue = VString (fst (CommitSet s v)), rttl = rttl ob\<rparr>"
  have st: "storable (str_obj ?s)" "sval ?s = StringView v" using CommitSet_spec [OF assms(1)] by auto
  obtain a r where a: "AddTTL ?ob ts = \<lparr>rvalue = VString a, rttl = Some ts\<rparr>" "storable (str_obj a)" "sval a = StringView v"
    and r: "RemoveTTL ?ob = \<lparr>rvalue = VString r, rttl = None\<rparr>" "storable (str_obj r)" "sval r = StringView v"
    using string_TTL(1) [of ?s ?ob ts] string_TTL(2) [of ?s ?ob] st by auto
  define s' where "s' = (if ts \<noteq> UINT64_MAX then if HasTTL ?ob then ?s else a
      else if HasTTL ?ob \<and> \<not> has_flag flag OBJ_SET_KEEPTTL then r else ?s)"
  have s': "storable (str_obj s')" "sval s' = StringView v" using st a r by (simp_all add: s'_def)
  show ?thesis
  proof (rule string_commitsI [of s'])
    show "string_CommitOn (Set v flag ts) ob =
        CKeep \<lparr>rvalue = VString s', rttl = string_ttl (Set v flag ts) (rttl ob)\<rparr>"
      using assms(3) a(1) r(1) by (auto simp: Set_CommitOn_def s'_def Let_def SetTTL_def HasTTL_def)
  qed (use s' assms(2) in \<open>simp_all add: string_inv_def\<close>)
qed

lemma getex_commits:
  assumes "string_state s" "rvalue ob = VString s" "string_ok (GetEx ts p) s"
    and "string_ExecuteOn (GetEx ts p) ob = (c', r, EWrite)"
  shows "string_commits (GetEx ts p) s ob"
proof -
  have st: "storable (str_obj s)" using assms(1,3) by (intro string_inv_storable) (simp_all add: string_state_def)
  have d: "ts < UINT64_MAX \<or> p \<and> HasTTL ob"
    using assms(2,3,4) by (auto simp: GetEx_ExecuteOn_def UINT64_MAX_def Let_def split: if_splits)
  obtain a q where a: "AddTTL ob ts = \<lparr>rvalue = VString a, rttl = Some ts\<rparr>" "storable (str_obj a)" "sval a = sval s"
    and q: "RemoveTTL ob = \<lparr>rvalue = VString q, rttl = None\<rparr>" "storable (str_obj q)" "sval q = sval s"
    using string_TTL(1) [OF st assms(2), of ts] string_TTL(2) [OF st assms(2)] by auto
  define s' where "s' = (if ts < UINT64_MAX then if HasTTL ob then s else a else q)"
  have "storable (str_obj s')" "sval s' = sval s" using st a q by (simp_all add: s'_def)
  moreover have "string_CommitOn (GetEx ts p) ob = CKeep \<lparr>rvalue = VString s', rttl = string_ttl (GetEx ts p) (rttl ob)\<rparr>"
    using assms(2) d a(1) q(1) by (cases ob) (auto simp: GetEx_CommitOn_def s'_def SetTTL_def)
  ultimately show ?thesis
    using assms(1) by (intro string_commitsI [of s']) (simp_all add: string_inv_def string_state_def)
qed

subsection \<open>Ranges\<close>

lemma setrange_spec_length: "length (setrange_spec i v b) = max (length b) (i + length v)"
  by (auto simp: setrange_spec_def)

lemma setrange_commits:
  assumes "string_state s" "rvalue ob = VString s" "i < 2 ^ 62" "arg_ok v" "snd (Execute_SetRange s i v r)"
  shows "string_commits (SetRange i v) s ob"
proof -
  have inv: "string_inv s" using assms(1) by (simp add: string_state_def)
  note sp = CommitSetRange_spec [OF inv assms(4,5,3)]
  have l: "es_length v = length (StringView v)" "length (StringView v) < 2 ^ 32"
    using arg_ok_length [OF assms(4)] assms(4) by (simp_all add: arg_ok_def es_short_def)
  have "i + length (StringView v) \<le> length (sval s) \<or> CheckSerializedLength (i + length (StringView v))"
    using assms(5) l slength_sval [OF inv] by (auto simp: Execute_SetRange_def Let_def split: if_splits)
  then have "i + length (StringView v) \<le> length (sval s) \<or> 5 + (i + length (StringView v)) \<le> 268435456"
    using assms(3) l(2) by (subst (asm) CheckSerializedLength_iff) auto
  then have "5 + length (setrange_spec i (StringView v) (sval s)) \<le> 268435456"
    using assms(1) by (auto simp: setrange_spec_length string_state_def)
  moreover have "\<not> is_null (str_obj (CommitSetRange s i v))"
  proof (cases "i + es_length v \<ge> es_length (str_obj s)")
    case False
    then have "sval (CommitSetRange s i v) \<noteq> []"
      using l(1) string_inv_short [OF inv] unfolding sp(2)
      by (metis es_length_short length_0_conv le_add2 max.cobounded1 not_less_zero not_le_imp_less setrange_spec_length
          sval_def le_zero_eq)
    then show ?thesis by (simp add: sval_def)
  qed (simp add: CommitSetRange_def Let_def)
  ultimately show ?thesis
    using sp assms(2) by (intro string_commitsI [of "CommitSetRange s i v"]) (simp_all add: SetRange_CommitOn_def commit_string_def)
qed

lemma append_commits:
  assumes "string_state s" "rvalue ob = VString s" "arg_ok v" "snd (Execute_Append h s v r)"
  shows "string_commits (Append v) s ob"
proof -
  have inv: "string_inv s" using assms(1) by (simp add: string_state_def)
  note sp = CommitAppend_spec [OF inv assms(3,4)]
  have l: "es_length v = length (StringView v)" "length (StringView v) < 2 ^ 32" "es_length (str_obj s) = length (sval s)"
    using arg_ok_length [OF assms(3)] assms(3) string_inv_short [OF inv]
    by (simp_all add: arg_ok_def es_short_def sval_def)
  let ?n = "(if h then 8 else 0) + (5 + length (sval s)) + length (StringView v)"
  have "string_SerializedLength h s + of_nat (es_length v) = of_nat ?n"
    using l by (simp add: string_SerializedLength_def)
  moreover have "?n < 2 ^ 64" using l assms(1) by (auto simp: string_state_def)
  ultimately have "?n \<le> 268435456"
    using assms(4) of_nat_gt_MAX [of ?n] by (auto simp: Execute_Append_def split: if_splits)
  then have "5 + length (sval s @ StringView v) \<le> 268435456" by (simp split: if_splits)
  then show ?thesis
    using sp assms(2)
    by (intro string_commitsI [of "CommitAppend s v"]) (simp_all add: Append_CommitOn_def commit_string_def CommitAppend_def)
qed

subsection \<open>Bits and numbers\<close>

lemma setbit_spec_length: "length (setbit_spec i b xs) = max (length xs) (i div 8 + 1)"
  by (auto simp: setbit_spec_def)

lemma put_bit_at_zero:
  assumes "i div 8 < length p" "p ! (i div 8) = CHR 0x00"
  shows "put_bit_at p i False = p"
proof -
  have "char_of (0 :: nat) = CHR 0x00" by code_simp
  then have "byte_put (CHR 0x00) k False = CHR 0x00" for k by (simp add: byte_put_def)
  with assms show ?thesis by (simp add: put_bit_at_def list_update_same_conv)
qed

lemma sval_CommitSetBit:
  assumes "string_inv s" "snd (Execute_SetBit s i r)" "i < 2 ^ 62"
  shows "sval (CommitSetBit s i v) = setbit_spec i (v \<noteq> 0) (sval s)"
proof (cases "i div 8 \<ge> length (sval s)")
  case True
  let ?str = "sval s @ replicate (i div 8 + 1 - length (sval s)) (CHR 0x00)"
  have n: "length (if v \<noteq> 0 then put_bit_at ?str i True else ?str) < 2 ^ 32"
    using True CommitSetBit_spec(2) [OF assms, of v] string_inv_length [OF CommitSetBit_spec(1) [OF assms], of v] by auto
  have "put_bit_at ?str i False = ?str"
    using True by (intro put_bit_at_zero) (auto simp: nth_append)
  then have q: "(if v \<noteq> 0 then put_bit_at ?str i True else ?str) = setbit_spec i (v \<noteq> 0) (sval s)"
    by (simp add: setbit_spec_def)
  have "CommitSetBit s i v = s\<lparr>str_obj := es_make (if v \<noteq> 0 then put_bit_at ?str i True else ?str)\<rparr>"
    using True by (simp only: CommitSetBit_cases Let_def if_True)
  then show ?thesis using sval_make [OF n, of s] unfolding q by simp
next
  case False
  then have "put_bit_at (sval s) i (v \<noteq> 0) \<noteq> []" "i div 8 + 1 - length (sval s) = 0"
    by (metis length_put_bit_at list.size(3) not_less0 not_less) (use False in simp)
  with False assms(1) show ?thesis by (simp add: CommitSetBit_cases setbit_spec_def overwrite_commit del: sval_update)
qed

lemma setbit_commits:
  assumes "string_state s" "rvalue ob = VString s" "i < 2 ^ 62" "snd (Execute_SetBit s i r)"
  shows "string_commits (SetBit i v) s ob"
proof -
  have inv: "string_inv s" using assms(1) by (simp add: string_state_def)
  note sp = CommitSetBit_spec(1) [OF inv assms(4,3)] sval_CommitSetBit [OF inv assms(4,3)]
  have "i div 8 < length (sval s) \<or> CheckSerializedLength (i div 8 + 1)"
    using assms(4) by (auto simp: Execute_SetBit_def Let_def sval_def split: if_splits)
  then have "i div 8 < length (sval s) \<or> 5 + (i div 8 + 1) \<le> 268435456"
    using assms(3) by (subst (asm) CheckSerializedLength_iff) auto
  then have "5 + length (setbit_spec i (v \<noteq> 0) (sval s)) \<le> 268435456"
    using assms(1) by (auto simp: setbit_spec_length string_state_def)
  moreover have "sval (CommitSetBit s i v) \<noteq> []"
    using setbit_spec_length [of i "v \<noteq> 0" "sval s"] unfolding sp(2) by auto
  then have "\<not> is_null (str_obj (CommitSetBit s i v))" by (simp add: sval_def)
  ultimately show ?thesis
    using sp assms(2) by (intro string_commitsI [of "CommitSetBit s i v"]) (simp_all add: SetBit_CommitOn_def commit_string_def)
qed

lemma bf_commit_length: "bf_commit p c = Some (p', u) \<Longrightarrow> length p' = length p"
  by (auto simp: bf_commit_def split: bf_op.splits option.splits if_splits)

lemma bf_commit_all_length: "bf_commit_all p vct = Some (p', u) \<Longrightarrow> length p' = length p"
  by (induction vct arbitrary: p p' u) (auto split: Option.bind_splits simp: bf_commit_length)

lemma length_bf_buffer: "length (bf_buffer b vct) = max (length b) (bf_len vct)"
  by (auto simp: bf_buffer_def)

lemma bitfield_commits:
  assumes "string_state s" "rvalue ob = VString s" "5 + bf_len vct \<le> 268435456"
    and "Execute_BitField s vct r = Some (r', True)"
  shows "string_commits (BitField vct) s ob"
proof -
  obtain p es where x: "bf_exec_all (bf_buffer (sval s) vct) vct = Some (p, es, True)"
    using assms(4) by (auto simp: Execute_BitField_def sval_def split: Option.bind_splits)
  then obtain u where u: "bf_commit_all (bf_buffer (sval s) vct) vct = Some (p, u)" "u"
    using bf_commit_exec_all by blast
  have n: "5 + length p \<le> 268435456"
    using bf_commit_all_length [OF u(1)] assms(1,3) by (auto simp: length_bf_buffer string_state_def)
  have c: "CommitBitField s vct = Some (s\<lparr>str_obj := es_make p\<rparr>)"
    using u by (simp add: CommitBitField_def sval_def [symmetric])
  have "StringView (es_make p) = p" using n sval_make [of p s] by simp
  then show ?thesis
    using c n u(1) assms(2)
    by (intro string_commitsI [of "s\<lparr>str_obj := es_make p\<rparr>"]) (simp_all add: BitField_CommitOn_def)
qed

lemma int_of_string_int: "string_int s = Some n \<Longrightarrow> int_of (sval s) = n"
  by (auto simp: string_int_def int_of_def split: if_splits)

lemma intop_commits:
  assumes "rvalue ob = VString s" "is_i64 n" "Execute_IntOp s n r = (r', True)"
  shows "string_commits (IntOp n) s ob"
proof -
  obtain k where k: "string_int s = Some k" "is_i64 (k + n)" "string_inv (CommitIncrDecr s n)"
      "sval (CommitIncrDecr s n) = to_string (k + n)"
    using IntOp_commit [OF assms(2,3)] by blast
  have "dec_digits m \<noteq> []" for m by (subst dec_digits.simps) simp
  then have l: "length (to_string (k + n)) \<le> 20" "to_string (k + n) \<noteq> []"
    using length_to_string [OF k(2)] by (auto simp: to_string_def)
  then have "\<not> is_null (str_obj (CommitIncrDecr s n))" using k(4) by (simp add: sval_def)
  then show ?thesis
    using k l(1) assms(1) int_of_string_int [OF k(1)]
    by (intro string_commitsI [of "CommitIncrDecr s n"]) (simp_all add: IntOp_CommitOn_def commit_string_def)
qed

subsection \<open>Every command\<close>

lemma set_decides:
  assumes "string_ok (Set v flag ts) s" "rvalue ob = VString s" "string_ExecuteOn (Set v flag ts) ob = (c', r, EWrite)"
  shows "5 + length (StringView v) \<le> 268435456"
proof -
  have "(has_flag flag OBJ_GET_SET \<and> is_null (str_obj s)) \<or> CheckSerializedLength (es_length v)"
    using assms(2,3) by (auto simp: Set_ExecuteOn_def on_string_def Let_def split: if_splits)
  then show ?thesis using assms(1) set_fits [of v] by auto
qed

lemma string_command_commits:
  assumes "string_state s" "rvalue ob = VString s" "string_ok c s"
    and "string_ExecuteOn c ob = (c', r, EWrite)"
  shows "c' = c \<and> string_commits c s ob"
proof (cases c)
  case (Set v flag ts)
  have "5 + length (StringView v) \<le> 268435456"
    using assms(3,4) unfolding Set by (rule set_decides [OF _ assms(2)])
  moreover have "c' = c" "arg_ok v" using assms(3,4) Set by simp_all
  ultimately show ?thesis using set_commits_string [OF _ _ assms(2), of v flag ts] Set by simp
next
  case (GetEx ts p)
  have "string_commits (GetEx ts p) s ob"
    using assms(3,4) unfolding GetEx by (rule getex_commits [OF assms(1,2)])
  moreover have "c' = c" using assms(4) GetEx by simp
  ultimately show ?thesis using GetEx by simp
next
  case (SetRange i v)
  then show ?thesis
    using assms setrange_commits [OF assms(1,2), of i v RedisStringResult]
    by (auto simp: string_exec_defs split_beta success_or_fail_def split: if_splits)
next
  case (Append v)
  then show ?thesis
    using assms append_commits [OF assms(1,2), of v "HasTTL ob" RedisStringResult]
    by (auto simp: string_exec_defs split_beta success_or_fail_def split: if_splits)
next
  case (SetBit i v)
  then show ?thesis
    using assms setbit_commits [OF assms(1,2), of i RedisStringResult v]
    by (auto simp: string_exec_defs split_beta success_or_fail_def split: if_splits)
next
  case (BitField vct)
  then show ?thesis
    using assms bitfield_commits [OF assms(1,2), of vct RedisStringResult]
    by (auto simp: string_exec_defs split: option.splits if_splits)
next
  case (IntOp n)
  then show ?thesis
    using assms intop_commits [OF assms(2), of n RedisIntResult]
    by (auto simp: string_exec_defs split_beta success_or_fail_def prod_eq_iff split: if_splits)
qed (use assms in \<open>auto simp: string_exec_defs split_beta Let_def\<close>)

lemma string_deletes:
  assumes "rvalue ob = VString s" "string_ExecuteOn c ob = (c', r, EDelete)"
  shows "c' = GetDel"
  using assms
  by (cases c) (auto simp: string_exec_defs split_beta Let_def success_or_fail_def split: if_splits option.splits)

section \<open>The contract\<close>

fun string_object_inv :: "redis_value \<Rightarrow> bool" where
  "string_object_inv (VString s) = string_state s"
| "string_object_inv _ = False"

fun string_object_ok :: "string_cmd \<Rightarrow> redis_value \<Rightarrow> bool" where
  "string_object_ok c (VString s) = string_ok c s"
| "string_object_ok _ _ = False"

fun string_object_null :: "redis_value \<Rightarrow> bool" where
  "string_object_null (VString s) = is_null (str_obj s)"
| "string_object_null _ = False"

interpretation string_commands: object_command string_ExecuteOn string_CommitOn
  "\<lambda>c ob. string_object_ok c (rvalue ob)" "\<lambda>ob. string_object_inv (rvalue ob)"
  "\<lambda>ob. string_object_null (rvalue ob)"
proof unfold_locales
  fix ob :: redis_object and c c' r
  assume a: "string_object_inv (rvalue ob)" "string_object_ok c (rvalue ob)"
  then obtain s where s: "rvalue ob = VString s" "string_state s" "string_ok c s"
    by (cases "rvalue ob") auto
  show "\<exists>ob'. string_CommitOn c' ob = CKeep ob' \<and> string_object_inv (rvalue ob') \<and> \<not> string_object_null (rvalue ob')"
    if "string_ExecuteOn c ob = (c', r, EWrite)"
    using string_command_commits [OF s(2,1,3) that] by (auto simp: string_commits_def)
  show "string_CommitOn c' ob = CRemove" if "string_ExecuteOn c ob = (c', r, EDelete)"
    using string_deletes [OF s(1) that] by (simp add: GetDel_CommitOn_def)
qed

text \<open>All but \<^verbatim>\<open>SET\<close> and \<^verbatim>\<open>GETEX\<close> leave the time to live alone.\<close>

fun keeps_ttl :: "string_cmd \<Rightarrow> bool" where
  "keeps_ttl (Set _ _ _) = False"
| "keeps_ttl (GetEx _ _) = False"
| "keeps_ttl _ = True"

text \<open>\<^verbatim>\<open>BITFIELD\<close> is the one command that grows the string without a test of its size.\<close>

fun tests_size :: "string_cmd \<Rightarrow> bool" where
  "tests_size (BitField _) = False"
| "tests_size _ = True"

lemma keeps_ttl_ttl: "keeps_ttl c \<Longrightarrow> string_ttl c t = t"
  by (cases c) simp_all

interpretation in_place: ttl_keeping_command string_ExecuteOn string_CommitOn
  "\<lambda>c ob. keeps_ttl c \<and> tests_size c \<and> string_object_ok c (rvalue ob)" "\<lambda>ob. string_object_inv (rvalue ob)"
  "\<lambda>ob. string_object_null (rvalue ob)"
proof unfold_locales
  fix ob ob' :: redis_object and c c' r
  assume a: "string_object_inv (rvalue ob)" "keeps_ttl c \<and> tests_size c \<and> string_object_ok c (rvalue ob)"
  then obtain s where s: "rvalue ob = VString s" "string_state s" "string_ok c s" "keeps_ttl c"
    by (cases "rvalue ob") auto
  show "rttl ob' = rttl ob"
    if "string_ExecuteOn c ob = (c', r, EWrite)" "string_CommitOn c' ob = CKeep ob'"
    using string_command_commits [OF s(2,1,3) that(1)] that(2) keeps_ttl_ttl [OF s(4)]
    by (auto simp: string_commits_def)
qed (use string_commands.write_keeps string_commands.delete_removes in \<open>blast+\<close>)

section \<open>Images\<close>

definition CreateTxCommand_string :: "string_cmd reader" where
  "CreateTxCommand_string cmd_image =
     do { (ct, bs) \<leftarrow> get_u8 cmd_image;
          (if ct = cmd_type ''SET'' then map_option (apfst (\<lambda>(v, f, ts). Set v f ts)) (Set_Deserialize bs)
           else if ct = cmd_type ''SETBIT'' then map_option (apfst (\<lambda>(i, v). SetBit i v)) (SetBit_Deserialize bs)
           else if ct = cmd_type ''GETBIT'' then map_option (apfst GetBit) (GetBit_Deserialize bs)
           else if ct = cmd_type ''SETRANGE'' then map_option (apfst (\<lambda>(i, v). SetRange i v)) (SetRange_Deserialize bs)
           else if ct = cmd_type ''GETRANGE'' \<or> ct = cmd_type ''SUBSTR''
           then map_option (apfst (\<lambda>(s, e). GetRange s e)) (GetRange_Deserialize bs)
           else if ct = cmd_type ''BITCOUNT''
           then map_option (apfst (\<lambda>(s, e, b). BitCount s e b)) (BitCount_Deserialize bs)
           else if ct = cmd_type ''APPEND'' then map_option (apfst Append) (Append_Deserialize bs)
           else if ct = cmd_type ''BITFIELD'' \<or> ct = cmd_type ''BITFIELD_RO''
           then map_option (apfst BitField) (BitField_Deserialize bs)
           else if ct = cmd_type ''BITPOS''
           then map_option (apfst (\<lambda>(b, s, e). BitPos b s e)) (BitPos_Deserialize bs)
           else if ct = cmd_type ''GET'' then Some (Get, bs)
           else if ct = cmd_type ''GETDEL'' then Some (GetDel, bs)
           else if ct = cmd_type ''STRLEN'' then Some (StrLen, bs)
           else if ct = cmd_type ''GETEX'' then map_option (apfst (\<lambda>(ts, p). GetEx ts p)) (GetEx_Deserialize bs)
           else if ct \<in> {cmd_type ''INCR'', cmd_type ''INCRBY'', cmd_type ''DECR'', cmd_type ''DECRBY''}
           then map_option (apfst IntOp) (IntOp_Deserialize bs)
           else None) }"

fun string_cmd_Serialize :: "bytes \<Rightarrow> string_cmd \<Rightarrow> bytes" where
  "string_cmd_Serialize pad (Set v f ts) = Set_Serialize v f ts []"
| "string_cmd_Serialize pad Get = Get_Serialize []"
| "string_cmd_Serialize pad GetDel = GetDel_Serialize []"
| "string_cmd_Serialize pad (GetEx ts p) = GetEx_Serialize ts p []"
| "string_cmd_Serialize pad StrLen = StrLen_Serialize []"
| "string_cmd_Serialize pad (GetRange s e) = GetRange_Serialize s e []"
| "string_cmd_Serialize pad (SetRange i v) = SetRange_Serialize i v []"
| "string_cmd_Serialize pad (Append v) = Append_Serialize v []"
| "string_cmd_Serialize pad (GetBit i) = GetBit_Serialize i []"
| "string_cmd_Serialize pad (SetBit i v) = SetBit_Serialize i v []"
| "string_cmd_Serialize pad (BitCount s e b) = BitCount_Serialize s e b []"
| "string_cmd_Serialize pad (BitField vct) = BitField_Serialize pad vct []"
| "string_cmd_Serialize pad (BitPos b s e) = BitPos_Serialize b s e []"
| "string_cmd_Serialize pad (IntOp n) = IntOp_Serialize n []"

lemmas string_image_defs =
  Set_Serialize_def Get_Serialize_def GetDel_Serialize_def GetEx_Serialize_def StrLen_Serialize_def
  GetRange_Serialize_def SetRange_Serialize_def Append_Serialize_def GetBit_Serialize_def SetBit_Serialize_def
  BitCount_Serialize_def BitField_Serialize_def BitPos_Serialize_def IntOp_Serialize_def
  Set_Deserialize_def GetEx_Deserialize_def GetRange_Deserialize_def SetRange_Deserialize_def
  Append_Deserialize_def GetBit_Deserialize_def SetBit_Deserialize_def BitCount_Deserialize_def
  BitField_Deserialize_def BitPos_Deserialize_def IntOp_Deserialize_def

definition sub_wf :: "sub_command \<Rightarrow> bool" where
  "sub_wf c \<longleftrightarrow> bf_bits c < 256 \<and> bf_offset c < 2 ^ 63"

fun string_cmd_wf :: "string_cmd \<Rightarrow> bool" where
  "string_cmd_wf (Set v f ts) = (arg v \<and> is_i32 f \<and> ts < 2 ^ 64)"
| "string_cmd_wf (GetEx ts p) = (ts < 2 ^ 64)"
| "string_cmd_wf (GetRange s e) = (is_i64 s \<and> is_i64 e)"
| "string_cmd_wf (SetRange i v) = (i < 2 ^ 63 \<and> arg v)"
| "string_cmd_wf (Append v) = arg v"
| "string_cmd_wf (GetBit i) = (i < 2 ^ 63)"
| "string_cmd_wf (SetBit i v) = (i < 2 ^ 63 \<and> (v = 0 \<or> v = 1))"
| "string_cmd_wf (BitCount s e b) = (is_i64 s \<and> is_i64 e)"
| "string_cmd_wf (BitField vct) = (list_all sub_wf vct \<and> length vct < 2 ^ 32)"
| "string_cmd_wf (BitPos b s e) = (b < 256 \<and> is_i64 s \<and> is_i64 e)"
| "string_cmd_wf (IntOp n) = is_i64 n"
| "string_cmd_wf _ = True"

lemma offset_image: "i < 2 ^ 63 \<Longrightarrow> is_i64 (int i)"
  by (simp add: is_i64_def)

lemma get_put_sub:
  assumes "sub_wf c" "length pad = 4"
  shows "get_sub (put_sub pad c @ rest) = Some (c, rest)"
proof -
  have "op_of_code (op_code t) = Some t" "op_code t < 256" for t
    by (cases t; simp add: op_of_code_def op_code_def)+
  moreover have "ovf_of_code (ovf_code t) = Some t" "ovf_code t < 256" for t
    by (cases t; simp add: ovf_of_code_def ovf_code_def)+
  moreover have "get_raw 4 (pad @ bs) = Some (pad, bs)" for bs using assms(2) by (simp add: get_raw_def)
  moreover have "unat v < 2 ^ 64" for v :: u64 using unsigned_less [of v] by simp
  ultimately show ?thesis
    using assms(1) by (cases c) (simp add: sub_wf_def get_sub_def put_sub_def offset_image)
qed

interpretation sub: codec "put_sub pad" get_sub "\<lambda>c. sub_wf c \<and> length pad = 4" for pad
  by unfold_locales (simp add: get_put_sub)

lemma string_cmd_numbers:
  "cmd_type ''SET'' = 9"
  "cmd_type ''SETBIT'' = 22"
  "cmd_type ''GETBIT'' = 19"
  "cmd_type ''SETRANGE'' = 23"
  "cmd_type ''GETRANGE'' = 20"
  "cmd_type ''SUBSTR'' = 25"
  "cmd_type ''BITCOUNT'' = 30"
  "cmd_type ''APPEND'' = 24"
  "cmd_type ''BITFIELD'' = 31"
  "cmd_type ''BITFIELD_RO'' = 32"
  "cmd_type ''BITPOS'' = 33"
  "cmd_type ''GET'' = 8"
  "cmd_type ''GETDEL'' = 10"
  "cmd_type ''STRLEN'' = 16"
  "cmd_type ''GETEX'' = 166"
  "cmd_type ''INCR'' = 26"
  "cmd_type ''INCRBY'' = 27"
  "cmd_type ''DECR'' = 28"
  "cmd_type ''DECRBY'' = 29"
  by code_simp+

lemma string_command_roundtrip:
  assumes "string_cmd_wf c" "length pad = 4"
  shows "CreateTxCommand_string (string_cmd_Serialize pad c @ rest) = Some (c, rest)"
proof (cases c)
  case (BitField vct)
  have "get_vec get_sub (put_vec (put_sub pad) vct @ rest) = Some (vct, rest)"
    using assms BitField by (intro sub.get_vec_put_vec) simp_all
  then show ?thesis
    using BitField by (simp add: CreateTxCommand_string_def string_image_defs string_cmd_numbers)
next
  case (SetBit i v)
  then show ?thesis
    using assms
    by (auto simp: CreateTxCommand_string_def string_image_defs string_cmd_numbers offset_image to_signed_def)
qed (use assms in \<open>simp_all add: CreateTxCommand_string_def string_image_defs string_cmd_numbers offset_image\<close>)

section \<open>Replies\<close>

fun string_OutputResult :: "string_cmd \<Rightarrow> string_or_int \<Rightarrow> reply list option" where
  "string_OutputResult (Set _ f _) (SRes r) = Some (Set_OutputResult f r)"
| "string_OutputResult Get (SRes r) = Some (Get_OutputResult r)"
| "string_OutputResult GetDel (SRes r) = Some (GetDel_OutputResult r)"
| "string_OutputResult (GetEx _ _) (SRes r) = Some (Get_OutputResult r)"
| "string_OutputResult StrLen (SRes r) = Some (StrLen_OutputResult r)"
| "string_OutputResult (GetRange _ _) (SRes r) = Some (GetRange_OutputResult r)"
| "string_OutputResult (SetRange _ _) (SRes r) = Some (SetRange_OutputResult r)"
| "string_OutputResult (Append _) (SRes r) = Some (Append_OutputResult r)"
| "string_OutputResult (GetBit _) (SRes r) = Some (GetBit_OutputResult r)"
| "string_OutputResult (SetBit _ _) (SRes r) = Some (SetBit_OutputResult r)"
| "string_OutputResult (BitCount _ _ _) (SRes r) = Some (BitCount_OutputResult r)"
| "string_OutputResult (BitField _) (SRes r) = Some (BitField_OutputResult r)"
| "string_OutputResult (BitPos b _ _) (SRes r) = Some (BitPos_OutputResult b r)"
| "string_OutputResult (IntOp _) (IRes r) = Some (IntOp_OutputResult r)"
| "string_OutputResult _ _ = None"

lemmas string_output_defs =
  Set_OutputResult_def Get_OutputResult_def GetDel_OutputResult_def StrLen_OutputResult_def
  GetRange_OutputResult_def SetRange_OutputResult_def Append_OutputResult_def GetBit_OutputResult_def
  SetBit_OutputResult_def BitCount_OutputResult_def BitField_OutputResult_def BitPos_OutputResult_def
  IntOp_OutputResult_def string_error_def

lemma string_replies:
  assumes "string_ExecuteOn c ob = (c', Some r, d)"
  shows "replies (string_OutputResult c' r)"
proof -
  have "list_all scalar_reply (map (\<lambda>(b, n). if b then OnInt n else OnNil) xs)" for xs :: "(bool \<times> int) list"
    by (auto simp: list_all_iff)
  then have arr: "one_reply (array_reply (map (\<lambda>(b, n). if b then OnInt n else OnNil) xs))" for xs
    by (rule replies_simps)
  show ?thesis
    using assms
    by (cases c) (auto simp: apfst_def map_prod_def split_beta Let_def string_output_defs arr split: option.splits)
qed

section \<open>Other types\<close>

text \<open>On a key of another type every command but \<^verbatim>\<open>SET\<close> fails with the same error.\<close>

fun is_set :: "string_cmd \<Rightarrow> bool" where
  "is_set (Set _ flag _) = (\<not> has_flag flag OBJ_GET_SET)"
| "is_set _ = False"

lemma string_wrong_type:
  assumes "\<And>s. rvalue ob \<noteq> VString s" "\<not> is_set c" "string_ExecuteOn c ob = (c', r, d)"
  shows "c' = c \<and> d = EFail \<and>
     r \<in> {Some (SRes (RedisStringResult\<lparr>st_err := RD_ERR_WRONG_TYPE\<rparr>)),
          Some (IRes (RedisIntResult\<lparr>ir_err := RD_ERR_WRONG_TYPE\<rparr>))}"
  using assms by (cases "rvalue ob"; cases c) (auto simp: string_exec_defs)

text \<open>
  \<^verbatim>\<open>SET\<close> replaces an object of another type.  The value survives only if the command holds a view of it;
  a command that owns its value, as one read from the log does, has it moved out by the first
  \<^verbatim>\<open>CommitSet\<close>, and the second one stores the empty rest.
\<close>

lemma set_replaces:
  assumes "\<And>s. rvalue ob \<noteq> VString s" "arg_ok v"
  shows "\<exists>s. Set_CommitOn v flag ts ob =
       CKeep \<lparr>rvalue = VString s, rttl = (if ts \<noteq> UINT64_MAX then Some ts else None)\<rparr> \<and> string_inv s \<and>
     sval s = (if es_type v = ST_View then StringView v else [])"
proof -
  let ?s1 = "fst (CommitSet RedisStringObject v)" and ?v1 = "snd (CommitSet RedisStringObject v)"
  have c: "Set_CommitOn v flag ts ob =
      CKeep \<lparr>rvalue = VString (fst (CommitSet ?s1 ?v1)), rttl = (if ts \<noteq> UINT64_MAX then Some ts else None)\<rparr>"
    using assms(1) by (cases "rvalue ob") (blast, simp_all add: Set_CommitOn_def split_beta)
  have "?v1 = (if es_type v = ST_View then v else Stack [])"
    by (simp add: CommitSet_def es_assign_move_def)
  moreover have "arg_ok (Stack [])" by (simp add: arg_ok_def es_short_def)
  ultimately have "storable (str_obj (fst (CommitSet ?s1 ?v1))) \<and>
      sval (fst (CommitSet ?s1 ?v1)) = (if es_type v = ST_View then StringView v else [])"
    using CommitSet_spec [of ?v1 ?s1] assms(2) by (auto split: if_splits)
  with c show ?thesis by (auto simp: string_inv_def)
qed

text \<open>A command read from its image owns its value.\<close>

lemma get_string_owned: "get_string bs = Some (v, bs') \<Longrightarrow> es_type v \<noteq> ST_View"
  by (auto simp: get_string_def split: Option.bind_splits)

lemma Set_Deserialize_owned: "Set_Deserialize bs = Some ((v, flag, ts), bs') \<Longrightarrow> es_type v \<noteq> ST_View"
  by (auto simp: Set_Deserialize_def split: Option.bind_splits simp: get_string_owned)

text \<open>The size of the new value is not tested when \<^verbatim>\<open>SET\<close> with \<^verbatim>\<open>GET\<close> creates the string.\<close>

lemma set_get_unchecked:
  assumes "has_flag flag OBJ_GET_SET" "\<not> has_flag flag OBJ_SET_XX" "arg_ok v"
  shows "snd (Set_ExecuteOn v flag string_CreateObject r) = EWrite"
    and "\<exists>s. Set_CommitOn v flag ts string_CreateObject =
           CKeep \<lparr>rvalue = VString s, rttl = (if ts \<noteq> UINT64_MAX then Some ts else None)\<rparr> \<and> sval s = StringView v"
proof -
  show "snd (Set_ExecuteOn v flag string_CreateObject r) = EWrite"
    using assms by (simp add: Set_ExecuteOn_def on_string_def string_CreateObject_def RedisStringObject_def)
  let ?s = "fst (CommitSet RedisStringObject v)"
  have st: "storable (str_obj ?s)" "sval ?s = StringView v" using CommitSet_spec [OF assms(3)] by auto
  obtain a where "AddTTL \<lparr>rvalue = VString ?s, rttl = None\<rparr> ts = \<lparr>rvalue = VString a, rttl = Some ts\<rparr>" "sval a = StringView v"
    using string_TTL(1) [of ?s "\<lparr>rvalue = VString ?s, rttl = None\<rparr>" ts] st by auto
  then show "\<exists>s. Set_CommitOn v flag ts string_CreateObject =
           CKeep \<lparr>rvalue = VString s, rttl = (if ts \<noteq> UINT64_MAX then Some ts else None)\<rparr> \<and> sval s = StringView v"
    using st by (auto simp: Set_CommitOn_def string_CreateObject_def HasTTL_def Let_def)
qed

end
