(* ===== verification/ZsetOps.thy ===== *)
theory ZsetOps
  imports ZsetObject
begin

text \<open>
  The operations of \<^verbatim>\<open>RedisZsetObject\<close> (\<^verbatim>\<open>src/redis_zset_object.cpp\<close>): what \<^verbatim>\<open>ZADD\<close> keeps of its arguments, the
  commit functions, and ranges by rank, score and name.  An iterator of the node set is an index into the nodes in
  order; a walk from one iterator to another that lies before it never arrives and is \<open>None\<close>, as are a failed
  assertion and a failed \<^verbatim>\<open>std::get\<close>.  The digits of a score are the parameter \<open>dtoa\<close> (\<^verbatim>\<open>fpconv_dtoa\<close>).
\<close>

unbundle bit_operations_syntax

section \<open>Doubles\<close>

text \<open>
  A finite double is a multiple of \<open>2\<^sup>-\<^sup>1\<^sup>0\<^sup>7\<^sup>4\<close>; a sum is rounded to the nearest double, ties to even.  The bits of a
  positive double are \<open>k * 2\<^sup>5\<^sup>2 + q\<close> when its value is \<open>q * 2\<^sup>k\<close> units and \<open>q\<close> has 53 bits, or \<open>k = 0\<close> and \<open>q\<close> has fewer.
\<close>

definition dbl_inf :: "u64 \<Rightarrow> bool" where
  "dbl_inf d \<longleftrightarrow> unat (take_bit 63 d) = 0x7FF0000000000000"

definition dbl_mag :: "u64 \<Rightarrow> nat" where
  "dbl_mag d =
     (let m = unat (take_bit 63 d); e = m div 2 ^ 52; f = m mod 2 ^ 52
      in if e = 0 then f else (2 ^ 52 + f) * 2 ^ (e - 1))"

definition dbl_units :: "u64 \<Rightarrow> int" where
  "dbl_units d = (if bit d 63 then - int (dbl_mag d) else int (dbl_mag d))"

fun bit_length :: "nat \<Rightarrow> nat" where
  "bit_length n = (if n = 0 then 0 else Suc (bit_length (n div 2)))"

declare bit_length.simps [simp del]

definition dbl_round :: "nat \<Rightarrow> nat" where
  "dbl_round m =
     (let k = bit_length m - 53; q = m div 2 ^ k; r = m mod 2 ^ k;
          q' = (if 2 * r > 2 ^ k \<or> (2 * r = 2 ^ k \<and> odd q) then q + 1 else q)
      in min (k * 2 ^ 52 + q') 0x7FF0000000000000)"

definition dbl_sign :: "bool \<Rightarrow> nat \<Rightarrow> u64" where
  "dbl_sign neg m = of_nat ((if neg then 2 ^ 63 else 0) + m)"

definition dbl_add :: "u64 \<Rightarrow> u64 \<Rightarrow> u64" where
  "dbl_add a b =
     (if dbl_nan a then a else if dbl_nan b then b
      else if dbl_inf a then (if dbl_inf b \<and> bit a 63 \<noteq> bit b 63 then 0x7FF8000000000000 else a)
      else if dbl_inf b then b
      else let s = dbl_units a + dbl_units b in
           if s = 0 then dbl_sign (bit a 63 \<and> bit b 63) 0 else dbl_sign (s < 0) (dbl_round (nat \<bar>s\<bar>)))"

definition d2string :: "(u64 \<Rightarrow> bytes) \<Rightarrow> u64 \<Rightarrow> bytes" where
  "d2string dtoa d =
     (if dbl_nan d then ''nan''
      else if dbl_inf d then (if bit d 63 then ''-inf'' else ''inf'')
      else if dbl_ord d = 0 then ''0'' else dtoa d)"

section \<open>What ZADD keeps\<close>

type_synonym zelem = "u64 \<times> eloq_string"

datatype zelements = ZMono | ZPair zelem | ZVector "zelem list"

text \<open>The bits of \<^verbatim>\<open>ZParams::flags\<close>.\<close>

definition zflag :: "nat \<Rightarrow> nat \<Rightarrow> bool" where
  "zflag n flags = odd (flags div 2 ^ n)"

abbreviation z_INCR :: "nat \<Rightarrow> bool" where "z_INCR \<equiv> zflag 0"
abbreviation z_NX :: "nat \<Rightarrow> bool" where "z_NX \<equiv> zflag 1"
abbreviation z_XX :: "nat \<Rightarrow> bool" where "z_XX \<equiv> zflag 2"
abbreviation z_GT :: "nat \<Rightarrow> bool" where "z_GT \<equiv> zflag 3"
abbreviation z_LT :: "nat \<Rightarrow> bool" where "z_LT \<equiv> zflag 4"
abbreviation z_CH :: "nat \<Rightarrow> bool" where "z_CH \<equiv> zflag 5"
abbreviation z_ForceClear :: "nat \<Rightarrow> bool" where "z_ForceClear \<equiv> zflag 6"

text \<open>
  One turn of each loop: from the new score, the score in the object and the score given earlier in the same command,
  \<open>None\<close> when the element is dropped, otherwise whether it is counted and whether it modifies.
\<close>

type_synonym zdecide = "u64 \<Rightarrow> u64 option \<Rightarrow> u64 option \<Rightarrow> (bool \<times> bool) option"

definition ZAddXX :: "bool \<Rightarrow> zdecide" where
  "ZAddXX ch num hash used =
     (if used = None \<and> hash = None then None
      else case used of
             Some c \<Rightarrow> Some (ch \<and> dbl_ne num c, dbl_ne num c)
           | None \<Rightarrow> (case hash of
                       Some c \<Rightarrow> Some (ch \<and> dbl_ne num c, dbl_ne num c)
                     | None \<Rightarrow> None))"

definition ZAddNX :: zdecide where
  "ZAddNX num hash used = (if used = None \<and> hash = None then Some (True, True) else None)"

definition zadd_cmp :: "(u64 \<Rightarrow> u64 \<Rightarrow> bool) \<Rightarrow> bool \<Rightarrow> bool \<Rightarrow> zdecide" where
  "zadd_cmp better ch xx num hash used =
     (let lt = (case used of
                  Some c \<Rightarrow> better num c
                | None \<Rightarrow> (case hash of Some c \<Rightarrow> better num c | None \<Rightarrow> True))
      in if \<not> lt \<or> (xx \<and> used = None \<and> hash = None) then None
         else case used of
                None \<Rightarrow> (case hash of
                           None \<Rightarrow> Some (True, True)
                         | Some c \<Rightarrow> Some (ch \<and> better num c, better num c))
              | Some c \<Rightarrow> Some (ch \<and> better num c, better num c))"

definition ZAddLT :: "bool \<Rightarrow> bool \<Rightarrow> zdecide" where
  "ZAddLT = zadd_cmp (\<lambda>num c. dbl_less num c)"

definition ZAddGT :: "bool \<Rightarrow> bool \<Rightarrow> zdecide" where
  "ZAddGT = zadd_cmp (\<lambda>num c. dbl_less c num)"

definition ZAdd_plain :: "bool \<Rightarrow> zdecide" where
  "ZAdd_plain ch num hash used =
     (case used of
        None \<Rightarrow> (case hash of
                  None \<Rightarrow> Some (True, True)
                | Some c \<Rightarrow> Some (ch \<and> dbl_ne c num, dbl_ne c num))
      | Some c \<Rightarrow> Some (ch \<and> dbl_ne c num, dbl_ne c num))"

text \<open>The dispatch of \<^verbatim>\<open>Execute(ZAddCommand &)\<close> and of \<^verbatim>\<open>CommitZAdd\<close>.\<close>

definition zadd_decide :: "nat \<Rightarrow> zdecide" where
  "zadd_decide flags =
     (if z_LT flags then ZAddLT (z_CH flags) (z_XX flags)
      else if z_GT flags then ZAddGT (z_CH flags) (z_XX flags)
      else if z_NX flags then ZAddNX
      else if z_XX flags then ZAddXX (z_CH flags)
      else ZAdd_plain (z_CH flags))"

text \<open>
  The loop: \<open>it\<close> and \<open>result\<close> are the two positions in the vector.  The keys of \<^verbatim>\<open>used_field\<close> are views of the strings in
  the vector; \<open>views\<close> has the keys that view a string held in place, by position.  Moving an element to the front leaves
  the bytes of its own place as they are and overwrites those at \<open>result\<close>.  When they belong to a key, the key changes under
  the hash table, which its contract forbids: \<open>None\<close>.
\<close>

definition overwrites :: "bytes option \<Rightarrow> eloq_string \<Rightarrow> bool" where
  "overwrites key field =
     (case key of
        None \<Rightarrow> False
      | Some old \<Rightarrow> (case fst (es_move field) of
                      Stack b \<Rightarrow> take (length old) b \<noteq> take (length b) old
                    | _ \<Rightarrow> True))"

fun zadd_loop :: "zdecide \<Rightarrow> (bytes \<Rightarrow> u64 option) \<Rightarrow> nat \<Rightarrow> nat \<Rightarrow> (bytes \<Rightarrow> u64 option) \<Rightarrow> (nat \<Rightarrow> bytes option) \<Rightarrow>
    zelem list \<Rightarrow> (zelem list \<times> int \<times> bool) option" where
  "zadd_loop d hash it result used views [] = Some ([], 0, False)"
| "zadd_loop d hash it result used views ((num, field) # es) =
     (let b = StringView field in
      case d num (hash b) (used b) of
        None \<Rightarrow> zadd_loop d hash (Suc it) result used views es
      | Some (counted, modifies) \<Rightarrow>
          if result \<noteq> it \<and> overwrites (views result) field then None
          else map_option (\<lambda>(ks, cnt, modified).
                   ((num, if result = it then field else fst (es_move field)) # ks,
                    (if counted then 1 else 0) + cnt, modifies \<or> modified))
                 (zadd_loop d hash (Suc it) (Suc result) (used(b \<mapsto> num))
                    (if used b = None \<and> es_type field = ST_Stack then views(it \<mapsto> b) else views) es))"

definition ZAdd_elements :: "nat \<Rightarrow> zset_obj \<Rightarrow> zelem list \<Rightarrow> (zelem list \<times> int \<times> bool) option" where
  "ZAdd_elements flags z es = zadd_loop (zadd_decide flags) (map_of (z_hash_map z)) 0 0 Map.empty Map.empty es"

section \<open>Results\<close>

datatype zpayload =
    ZStr eloq_string
  | ZInt int
  | ZStrs "eloq_string list"
  | ZRanked int bytes

record zset_result =
  zr_err :: rd_err
  zr_result :: zpayload

definition RedisZsetResult :: zset_result where
  "RedisZsetResult = \<lparr>zr_err = RD_NIL, zr_result = ZStr NullView\<rparr>"

text \<open>The form that increments: error code, answer, whether it modifies; an element that is not kept becomes \<open>ZMono\<close>.\<close>

definition inf_signed :: "bool \<Rightarrow> u64 \<Rightarrow> bool" where
  "inf_signed neg d \<longleftrightarrow> dbl_inf d \<and> bit d 63 = neg"

definition dbl_le :: "u64 \<Rightarrow> u64 \<Rightarrow> bool" where
  "dbl_le a b \<longleftrightarrow> \<not> dbl_nan a \<and> \<not> dbl_nan b \<and> dbl_ord a \<le> dbl_ord b"

definition ZAddIncr :: "(u64 \<Rightarrow> bytes) \<Rightarrow> zset_obj \<Rightarrow> zelem \<Rightarrow> nat \<Rightarrow> zelements \<times> rd_err \<times> eloq_string \<times> bool" where
  "ZAddIncr dtoa z e flags =
     (let (num, field) = e;
          hash = map_of (z_hash_map z) (StringView field)
      in if z_NX flags \<and> hash \<noteq> None then (ZMono, RD_NIL, NullView, False)
         else if z_GT flags \<and> (case hash of None \<Rightarrow> True | Some c \<Rightarrow> dbl_le (dbl_add c num) c)
         then (ZMono, RD_NIL, NullView, False)
         else if z_LT flags \<and> (case hash of None \<Rightarrow> True | Some c \<Rightarrow> dbl_le c (dbl_add c num))
         then (ZMono, RD_NIL, NullView, False)
         else case hash of
                None \<Rightarrow>
                  if z_XX flags then (ZMono, RD_ERR_SCORE_NAN, NullView, False)
                  else (ZPair e, RD_OK, es_make (d2string dtoa num), True)
              | Some c \<Rightarrow>
                  if (inf_signed True num \<or> inf_signed True c) \<and> (inf_signed False num \<or> inf_signed False c)
                  then (ZMono, RD_ERR_SCORE_NAN, NullView, False)
                  else (ZPair e, RD_OK, es_make (d2string dtoa (dbl_add num c)), True))"

fun elements_size :: "zelements \<Rightarrow> u64" where
  "elements_size ZMono = 0"
| "elements_size (ZPair (num, field)) = 8 + 4 + of_nat (es_length field)"
| "elements_size (ZVector es) = (\<Sum>e \<leftarrow> es. 8 + 4 + of_nat (es_length (snd e)))"

definition changed_state :: "bool \<Rightarrow> command_execute_state" where
  "changed_state modified = (if modified then Modified else NoChange)"

definition Execute_ZAdd :: "(u64 \<Rightarrow> bytes) \<Rightarrow> zset_obj \<Rightarrow> zelements \<Rightarrow> nat \<Rightarrow> zset_result \<Rightarrow>
    (zelements \<times> zset_result \<times> command_execute_state) option" where
  "Execute_ZAdd dtoa z elements flags result =
     (if zset_slen z + elements_size elements > MAX_OBJECT_SIZE
      then Some (elements, result\<lparr>zr_err := RD_ERR_OBJECT_TOO_BIG\<rparr>, NoChange)
      else if z_INCR flags
      then (case elements of
              ZPair e \<Rightarrow>
                (let (elements', err, ans, modified) = ZAddIncr dtoa z e flags
                 in Some (elements', result\<lparr>zr_err := err, zr_result := ZStr ans\<rparr>, changed_state modified))
            | _ \<Rightarrow> None)
      else (case elements of
              ZVector es \<Rightarrow>
                map_option (\<lambda>(ks, cnt, modified).
                    (ZVector ks, result\<lparr>zr_err := RD_OK, zr_result := ZInt cnt\<rparr>, changed_state modified))
                  (ZAdd_elements flags z es)
            | _ \<Rightarrow> None))"

section \<open>Adding and removing\<close>

definition zequiv :: "znode \<Rightarrow> znode \<Rightarrow> bool" where
  "zequiv a b \<longleftrightarrow> \<not> zcmp a b \<and> \<not> zcmp b a"

text \<open>\<^verbatim>\<open>z_ordered_set_.erase(z_ordered_set_.find(...))\<close>: the end iterator cannot be erased.\<close>

definition zs_erase :: "znode \<Rightarrow> znode list \<Rightarrow> znode list option" where
  "zs_erase n xs = map_option (\<lambda>x. remove1 x xs) (find (zequiv n) xs)"

definition zh_erase :: "bytes \<Rightarrow> (bytes \<times> u64) list \<Rightarrow> (bytes \<times> u64) list" where
  "zh_erase k m = filter (\<lambda>p. fst p \<noteq> k) m"

definition node_size :: "eloq_string \<Rightarrow> u64" where
  "node_size field = 8 + 4 + of_nat (es_length field)"

definition update_element :: "bool \<Rightarrow> bool \<Rightarrow> zelem \<Rightarrow> zset_obj \<Rightarrow> zset_obj option" where
  "update_element incr keep e z =
     (let (num, field) = e;
          hash = map_of (z_hash_map z) (StringView field);
          num' = (if incr then dbl_add num (case hash of None \<Rightarrow> 0 | Some c \<Rightarrow> c) else num)
      in do { nodes \<leftarrow> (case hash of None \<Rightarrow> Some (z_ordered_set z) | Some c \<Rightarrow> zs_erase (field, c) (z_ordered_set z));
              Some \<lparr>z_ordered_set = zs_insert (fst (adopt keep field), num') nodes,
                    z_hash_map = zh_erase (StringView field) (z_hash_map z) @ [(StringView field, num')],
                    zset_slen = (if hash = None then zset_slen z + node_size field else zset_slen z)\<rparr> })"

fun update_elements :: "bool \<Rightarrow> bool \<Rightarrow> zelem list \<Rightarrow> zset_obj \<Rightarrow> zset_obj option" where
  "update_elements incr keep [] z = Some z"
| "update_elements incr keep (e # es) z = update_element incr keep e z \<bind> update_elements incr keep es"

definition within_limit :: "zset_obj \<Rightarrow> zset_obj option" where
  "within_limit z = (if zset_slen z \<le> MAX_OBJECT_SIZE then Some z else None)"

definition CommitZAdd :: "zset_obj \<Rightarrow> zelements \<Rightarrow> nat \<Rightarrow> bool \<Rightarrow> zset_obj option" where
  "CommitZAdd z elements flags keep =
     (case elements of
        ZVector es \<Rightarrow>
          do { es' \<leftarrow> (if \<not> z_INCR flags \<and> (z_LT flags \<or> z_GT flags \<or> z_NX flags \<or> z_XX flags)
                      then map_option fst (ZAdd_elements flags z es) else Some es);
               z' \<leftarrow> update_elements (z_INCR flags) keep es' z;
               within_limit z' }
      | ZPair e \<Rightarrow> update_element (z_INCR flags) keep e z \<bind> within_limit
      | ZMono \<Rightarrow> within_limit z)"

definition Execute_ZRem :: "zset_obj \<Rightarrow> eloq_string list \<Rightarrow> zset_result \<Rightarrow> zset_result \<times> command_execute_state" where
  "Execute_ZRem z elements result =
     (let ans = length (filter (\<lambda>e. map_of (z_hash_map z) (StringView e) \<noteq> None) elements)
      in (result\<lparr>zr_err := RD_OK, zr_result := ZInt (int ans)\<rparr>,
          if ans = 0 then NoChange
          else if ans \<ge> length (z_ordered_set z) then ModifiedToEmpty else Modified))"

fun zrem_loop :: "eloq_string list \<Rightarrow> zset_obj \<Rightarrow> zset_obj option" where
  "zrem_loop [] z = Some z"
| "zrem_loop (e # es) z =
     (case map_of (z_hash_map z) (StringView e) of
        None \<Rightarrow> zrem_loop es z
      | Some c \<Rightarrow>
          do { nodes \<leftarrow> zs_erase (e, c) (z_ordered_set z);
               zrem_loop es \<lparr>z_ordered_set = nodes, z_hash_map = zh_erase (StringView e) (z_hash_map z),
                             zset_slen = zset_slen z - node_size e\<rparr> })"

definition emptied :: "zset_obj \<Rightarrow> (zset_obj \<times> bool) option" where
  "emptied z = map_option (\<lambda>z'. (z', z_ordered_set z' = [])) (within_limit z)"

definition CommitZRem :: "zset_obj \<Rightarrow> eloq_string list \<Rightarrow> (zset_obj \<times> bool) option" where
  "CommitZRem z elements = zrem_loop elements z \<bind> emptied"

definition with_scores :: "(u64 \<Rightarrow> bytes) \<Rightarrow> znode list \<Rightarrow> eloq_string list" where
  "with_scores dtoa xs = concat (map (\<lambda>n. [Clone (fst n), es_make (d2string dtoa (snd n))]) xs)"

definition Execute_ZPop :: "(u64 \<Rightarrow> bytes) \<Rightarrow> zset_obj \<Rightarrow> bool \<Rightarrow> int \<Rightarrow> zset_result \<Rightarrow> zset_result \<times> command_execute_state" where
  "Execute_ZPop dtoa z popmin cnt result =
     (let ns = take (nat cnt) (if popmin then z_ordered_set z else rev (z_ordered_set z))
      in (result\<lparr>zr_err := RD_OK, zr_result := ZStrs (with_scores dtoa ns)\<rparr>,
          if ns = [] then NoChange
          else if length ns \<ge> length (z_ordered_set z) then ModifiedToEmpty else Modified))"

text \<open>The nodes at the positions from \<open>i\<close> up to \<open>j\<close> leave the set, the map and the running length.\<close>

definition erase_between :: "nat \<Rightarrow> nat \<Rightarrow> zset_obj \<Rightarrow> zset_obj" where
  "erase_between i j z =
     (let ns = take (j - i) (drop i (z_ordered_set z)) in
      \<lparr>z_ordered_set = take i (z_ordered_set z) @ drop j (z_ordered_set z),
       z_hash_map = fold (\<lambda>n. zh_erase (StringView (fst n))) ns (z_hash_map z),
       zset_slen = zset_slen z - (\<Sum>n \<leftarrow> ns. node_size (fst n))\<rparr>)"

text \<open>A negative count would move an iterator before the first node.\<close>

definition CommitZPop :: "zset_obj \<Rightarrow> bool \<Rightarrow> int \<Rightarrow> (zset_obj \<times> bool) option" where
  "CommitZPop z popmin cnt =
     (let n = length (z_ordered_set z) in
      if cnt \<ge> int n then Some (RedisZsetObject, True)
      else if cnt < 0 then None
      else emptied (if popmin then erase_between 0 (nat cnt) z else erase_between (n - nat cnt) n z))"

section \<open>Ranges\<close>

datatype zrange_type = ZRANGE_AUTO | ZRANGE_RANK | ZRANGE_SCORE | ZRANGE_LEX

datatype zbound = ZBInt int | ZBDouble u64 | ZBStr eloq_string

record zrange_spec =
  null :: bool
  minex :: bool
  maxex :: bool
  negative :: bool
  positive :: bool
  opt_start :: zbound
  opt_end :: zbound

datatype zrange_direction = DIRECTION_AUTO | DIRECTION_FORWARD | DIRECTION_REVERSE

record zrange_constraint =
  opt_withscores :: bool
  opt_offset :: int
  opt_limit :: int
  rangetype :: zrange_type
  direction :: zrange_direction

abbreviation dir_reverse :: "zrange_constraint \<Rightarrow> bool" where
  "dir_reverse arg \<equiv> direction arg = DIRECTION_REVERSE"

text \<open>\<^verbatim>\<open>std::get\<close> on the two bounds.\<close>

fun get_ints :: "zrange_spec \<Rightarrow> (int \<times> int) option" where
  "get_ints spec = (case (opt_start spec, opt_end spec) of (ZBInt a, ZBInt b) \<Rightarrow> Some (a, b) | _ \<Rightarrow> None)"

fun get_doubles :: "zrange_spec \<Rightarrow> (u64 \<times> u64) option" where
  "get_doubles spec = (case (opt_start spec, opt_end spec) of (ZBDouble a, ZBDouble b) \<Rightarrow> Some (a, b) | _ \<Rightarrow> None)"

fun get_strs :: "zrange_spec \<Rightarrow> (bytes \<times> bytes) option" where
  "get_strs spec =
     (case (opt_start spec, opt_end spec) of (ZBStr a, ZBStr b) \<Rightarrow> Some (StringView a, StringView b) | _ \<Rightarrow> None)"

declare get_ints.simps [simp del] get_doubles.simps [simp del] get_strs.simps [simp del]

text \<open>\<^verbatim>\<open>lower_bound\<close> and \<^verbatim>\<open>upper_bound\<close> of a score and of a node.\<close>

definition lower_score :: "u64 \<Rightarrow> znode list \<Rightarrow> nat" where
  "lower_score d xs = length (takeWhile (\<lambda>n. dbl_less (snd n) d) xs)"

definition upper_score :: "u64 \<Rightarrow> znode list \<Rightarrow> nat" where
  "upper_score d xs = length (takeWhile (\<lambda>n. \<not> dbl_less d (snd n)) xs)"

definition lower_node :: "znode \<Rightarrow> znode list \<Rightarrow> nat" where
  "lower_node q xs = length (takeWhile (\<lambda>n. zcmp n q) xs)"

definition upper_node :: "znode \<Rightarrow> znode list \<Rightarrow> nat" where
  "upper_node q xs = length (takeWhile (\<lambda>n. \<not> zcmp q n) xs)"

definition dist :: "nat \<Rightarrow> nat \<Rightarrow> nat option" where
  "dist i j = (if i \<le> j then Some (j - i) else None)"

definition members_of :: "(u64 \<Rightarrow> bytes) \<Rightarrow> bool \<Rightarrow> znode list \<Rightarrow> eloq_string list" where
  "members_of dtoa withscores xs = (if withscores then with_scores dtoa xs else map (\<lambda>n. Clone (fst n)) xs)"

text \<open>
  The loop over the nodes from a position on, with \<^verbatim>\<open>limit == -1\<close> for no limit; the offset and the limit are references
  and are returned.  A negative offset moves the first position out of the range, and out of the set when it is large.
\<close>

definition limited :: "int \<Rightarrow> znode list \<Rightarrow> znode list \<times> int" where
  "limited lim xs =
     (if lim = -1 then (xs, lim)
      else if lim > 0 then (take (nat lim) xs, lim - int (length (take (nat lim) xs)))
      else ([], lim))"

definition EmplaceForwardElements :: "znode list \<Rightarrow> nat \<Rightarrow> nat \<Rightarrow> int \<Rightarrow> int \<Rightarrow> (znode list \<times> int \<times> int) option" where
  "EmplaceForwardElements xs i j offset lim =
     do { sz \<leftarrow> dist i j;
          (if int sz \<le> offset then Some ([], offset - int sz, lim)
           else let i' = int i + offset in
                if i' < 0 then None
                else let (ns, lim') = limited lim (take (j - nat i') (drop (nat i') xs)) in Some (ns, 0, lim')) }"

definition EmplaceRevElements :: "znode list \<Rightarrow> nat \<Rightarrow> nat \<Rightarrow> int \<Rightarrow> int \<Rightarrow> (znode list \<times> int \<times> int) option" where
  "EmplaceRevElements xs i j offset lim =
     do { sz \<leftarrow> dist i j;
          (if int sz \<le> offset then Some ([], offset - int sz, lim)
           else let j' = int j - offset in
                if j' > int (length xs) then None
                else let (ns, lim') = limited lim (rev (take (nat j' - i) (drop i xs))) in Some (ns, 0, lim')) }"

definition Emplace :: "bool \<Rightarrow> znode list \<Rightarrow> nat \<Rightarrow> nat \<Rightarrow> int \<Rightarrow> int \<Rightarrow> (znode list \<times> int \<times> int) option" where
  "Emplace reverse = (if reverse then EmplaceRevElements else EmplaceForwardElements)"

subsection \<open>By rank\<close>

text \<open>
  The positions that two ranks select, the same in the answer, the count and the commit: \<open>Some None\<close> when they select
  none.  The negation of the least \<^verbatim>\<open>int\<close> overflows.
\<close>

definition rank_range :: "zrange_spec \<Rightarrow> nat \<Rightarrow> (nat \<times> nat) option option" where
  "rank_range spec n =
     do { (start, stop) \<leftarrow> get_ints spec;
          let size = int n;
              pos_start = (if start < 0 then max 0 (start + size) else start) in
          if start > 0 \<and> start \<ge> size then Some None
          else if stop = - (2 ^ 31) then None
          else if stop < 0 \<and> - stop > size then Some None
          else let pos_end = (if stop < 0 then stop + size else if stop \<ge> size then size - 1 else stop) + 1 in
               if pos_start \<ge> pos_end then Some None else Some (Some (nat pos_start, nat pos_end)) }"

definition ZRangeByRank :: "(u64 \<Rightarrow> bytes) \<Rightarrow> zset_obj \<Rightarrow> zrange_constraint \<Rightarrow> zrange_spec \<Rightarrow> eloq_string list option" where
  "ZRangeByRank dtoa z arg spec =
     (let xs = z_ordered_set z in
      if \<not> (opt_limit arg = -1 \<and> opt_offset arg = 0) then None
      else do { rg \<leftarrow> rank_range spec (length xs);
                (case rg of
                   None \<Rightarrow> Some []
                 | Some (i, j) \<Rightarrow>
                     if dir_reverse arg
                     then Some (members_of dtoa (opt_withscores arg) (take (j - i) (drop i (rev xs))))
                     else map_option (\<lambda>(ns, _). members_of dtoa (opt_withscores arg) ns)
                            (EmplaceForwardElements xs i j (opt_offset arg) (opt_limit arg))) })"

subsection \<open>By score\<close>

definition score_range :: "zrange_spec \<Rightarrow> znode list \<Rightarrow> (nat \<times> nat) option option" where
  "score_range spec xs =
     do { (a, b) \<leftarrow> get_doubles spec;
          Some (if dbl_less b a then None
                else Some (if minex spec then upper_score a xs else lower_score a xs,
                           if maxex spec then lower_score b xs else upper_score b xs)) }"

definition ZRangeByScore :: "(u64 \<Rightarrow> bytes) \<Rightarrow> zset_obj \<Rightarrow> zrange_constraint \<Rightarrow> zrange_spec \<Rightarrow> eloq_string list option" where
  "ZRangeByScore dtoa z arg spec =
     do { rg \<leftarrow> score_range spec (z_ordered_set z);
          (case rg of
             None \<Rightarrow> Some []
           | Some (i, j) \<Rightarrow>
               map_option (\<lambda>(ns, _). members_of dtoa (opt_withscores arg) ns)
                 (Emplace (dir_reverse arg) (z_ordered_set z) i j (opt_offset arg) (opt_limit arg))) }"

definition range_size :: "(nat \<times> nat) option \<Rightarrow> nat option" where
  "range_size rg = (case rg of None \<Rightarrow> Some 0 | Some (i, j) \<Rightarrow> dist i j)"

definition ZCount :: "zset_obj \<Rightarrow> zrange_spec \<Rightarrow> nat option" where
  "ZCount z spec = score_range spec (z_ordered_set z) \<bind> range_size"

subsection \<open>By name\<close>

definition GetRangeByLexForCurrentScore :: "znode list \<Rightarrow> u64 \<Rightarrow> zrange_spec \<Rightarrow> (bool \<times> nat \<times> nat) option" where
  "GetRangeByLexForCurrentScore xs score spec =
     do { (start_sv, end_sv) \<leftarrow> get_strs spec;
          let pos_start = (if negative spec then lower_score score xs
                           else if minex spec then upper_node (View start_sv, score) xs
                           else lower_node (View start_sv, score) xs);
              pos_end = (if positive spec then upper_score score xs
                         else if maxex spec then lower_node (View end_sv, score) xs
                         else upper_node (View end_sv, score) xs) in
          Some (\<not> (pos_start = length xs \<or> dbl_less score (snd (xs ! pos_start)) \<or>
                   (bytes_less end_sv (StringView (fst (xs ! pos_start))) \<and> \<not> positive spec)),
                pos_start, pos_end) }"

definition lex_trivial :: "zrange_spec \<Rightarrow> bytes \<Rightarrow> bytes \<Rightarrow> bool" where
  "lex_trivial spec a b \<longleftrightarrow>
     \<not> negative spec \<and> \<not> positive spec \<and> (bytes_less b a \<or> (a = b \<and> (minex spec \<or> maxex spec)))"

text \<open>
  The walks from score to score.  Each turn goes past every node of the current score, so that as many turns as there are
  nodes are enough.
\<close>

fun lex_forward :: "nat \<Rightarrow> znode list \<Rightarrow> zrange_spec \<Rightarrow> nat \<Rightarrow> int \<Rightarrow> int \<Rightarrow> znode list option" where
  "lex_forward fuel xs spec i offset lim =
     (if i \<ge> length xs \<or> lim = 0 then Some []
      else case fuel of
             0 \<Rightarrow> None
           | Suc fuel' \<Rightarrow>
               do { (succeed, fs, fe) \<leftarrow> GetRangeByLexForCurrentScore xs (snd (xs ! i)) spec;
                    (ns, offset', lim') \<leftarrow> (if succeed then EmplaceForwardElements xs fs fe offset lim
                                           else Some ([], offset, lim));
                    rest \<leftarrow> lex_forward fuel' xs spec (upper_score (snd (xs ! i)) xs) offset' lim';
                    Some (ns @ rest) })"

text \<open>The reverse iterator \<open>i\<close> stands for the node before it.\<close>

fun lex_reverse :: "nat \<Rightarrow> znode list \<Rightarrow> zrange_spec \<Rightarrow> nat \<Rightarrow> int \<Rightarrow> int \<Rightarrow> znode list option" where
  "lex_reverse fuel xs spec i offset lim =
     (if i = 0 \<or> lim = 0 then Some []
      else case fuel of
             0 \<Rightarrow> None
           | Suc fuel' \<Rightarrow>
               do { (succeed, fs, fe) \<leftarrow> GetRangeByLexForCurrentScore xs (snd (xs ! (i - 1))) spec;
                    (ns, offset', lim') \<leftarrow> (if succeed then EmplaceRevElements xs fs fe offset lim
                                           else Some ([], offset, lim));
                    rest \<leftarrow> lex_reverse fuel' xs spec (lower_score (snd (xs ! (i - 1))) xs) offset' lim';
                    Some (ns @ rest) })"

definition ZRangeByLex :: "(u64 \<Rightarrow> bytes) \<Rightarrow> zset_obj \<Rightarrow> zrange_constraint \<Rightarrow> zrange_spec \<Rightarrow> eloq_string list option" where
  "ZRangeByLex dtoa z arg spec =
     (let xs = z_ordered_set z in
      if null spec then Some []
      else do { (a, b) \<leftarrow> get_strs spec;
                (if lex_trivial spec a b then Some []
                 else map_option (members_of dtoa (opt_withscores arg))
                        (if dir_reverse arg then lex_reverse (length xs) xs spec (length xs) (opt_offset arg) (opt_limit arg)
                         else lex_forward (length xs) xs spec 0 (opt_offset arg) (opt_limit arg))) })"

text \<open>The count, the same in \<^verbatim>\<open>ZLEXCOUNT\<close> and \<^verbatim>\<open>ZRemRangeByLex\<close>.\<close>

fun lex_count :: "nat \<Rightarrow> znode list \<Rightarrow> zrange_spec \<Rightarrow> nat \<Rightarrow> nat option" where
  "lex_count fuel xs spec i =
     (if i \<ge> length xs then Some 0
      else case fuel of
             0 \<Rightarrow> None
           | Suc fuel' \<Rightarrow>
               do { (succeed, fs, fe) \<leftarrow> GetRangeByLexForCurrentScore xs (snd (xs ! i)) spec;
                    n \<leftarrow> (if succeed then dist fs fe else Some 0);
                    rest \<leftarrow> lex_count fuel' xs spec (upper_score (snd (xs ! i)) xs);
                    Some (n + rest) })"

declare lex_forward.simps [simp del] lex_reverse.simps [simp del] lex_count.simps [simp del]

definition ZRemRangeByLex :: "zset_obj \<Rightarrow> zrange_spec \<Rightarrow> nat option" where
  "ZRemRangeByLex z spec =
     (if null spec then Some 0
      else do { (a, b) \<leftarrow> get_strs spec;
                (if lex_trivial spec a b then Some 0
                 else lex_count (length (z_ordered_set z)) (z_ordered_set z) spec 0) })"

definition GetZrangeResult :: "(u64 \<Rightarrow> bytes) \<Rightarrow> zset_obj \<Rightarrow> zrange_constraint \<Rightarrow> zrange_spec \<Rightarrow> eloq_string list option" where
  "GetZrangeResult dtoa z arg spec =
     (case rangetype arg of
        ZRANGE_AUTO \<Rightarrow> None
      | ZRANGE_RANK \<Rightarrow> ZRangeByRank dtoa z arg spec
      | ZRANGE_SCORE \<Rightarrow> ZRangeByScore dtoa z arg spec
      | ZRANGE_LEX \<Rightarrow> ZRangeByLex dtoa z arg spec)"

section \<open>Removing ranges\<close>

definition zremrange_count :: "zset_obj \<Rightarrow> zrange_type \<Rightarrow> zrange_spec \<Rightarrow> nat option" where
  "zremrange_count z ty spec =
     (case ty of
        ZRANGE_AUTO \<Rightarrow> None
      | ZRANGE_SCORE \<Rightarrow> score_range spec (z_ordered_set z) \<bind> range_size
      | ZRANGE_LEX \<Rightarrow> ZRemRangeByLex z spec
      | ZRANGE_RANK \<Rightarrow> rank_range spec (length (z_ordered_set z)) \<bind> range_size)"

definition Execute_ZRemRange :: "zset_obj \<Rightarrow> zrange_type \<Rightarrow> zrange_spec \<Rightarrow> zset_result \<Rightarrow>
    (zset_result \<times> command_execute_state) option" where
  "Execute_ZRemRange z ty spec result =
     map_option (\<lambda>n. (result\<lparr>zr_err := RD_OK, zr_result := ZInt (int n)\<rparr>,
                      if n = 0 then NoChange
                      else if n \<ge> length (z_ordered_set z) then ModifiedToEmpty else Modified))
       (zremrange_count z ty spec)"

text \<open>The erasing loop; every node must be in the map.\<close>

definition erase_checked :: "nat \<Rightarrow> nat \<Rightarrow> zset_obj \<Rightarrow> zset_obj option" where
  "erase_checked i j z =
     (if i \<le> j \<and> list_all (\<lambda>n. map_of (z_hash_map z) (StringView (fst n)) \<noteq> None) (take (j - i) (drop i (z_ordered_set z)))
      then Some (erase_between i j z) else None)"

fun lex_erase :: "nat \<Rightarrow> zrange_spec \<Rightarrow> nat \<Rightarrow> zset_obj \<Rightarrow> zset_obj option" where
  "lex_erase fuel spec i z =
     (if i \<ge> length (z_ordered_set z) then Some z
      else case fuel of
             0 \<Rightarrow> None
           | Suc fuel' \<Rightarrow>
               do { (succeed, fs, fe) \<leftarrow> GetRangeByLexForCurrentScore (z_ordered_set z) (snd (z_ordered_set z ! i)) spec;
                    z' \<leftarrow> (if succeed then erase_checked fs fe z else Some z);
                    lex_erase fuel' spec (upper_score (snd (z_ordered_set z ! i)) (z_ordered_set z')) z' })"

declare lex_erase.simps [simp del]

definition CommitZRemRange :: "zset_obj \<Rightarrow> zrange_type \<Rightarrow> zrange_spec \<Rightarrow> (zset_obj \<times> bool) option" where
  "CommitZRemRange z ty spec =
     (let positions = (\<lambda>rg. case rg of None \<Rightarrow> Some (z, False) | Some (i, j) \<Rightarrow> erase_checked i j z \<bind> emptied) in
      case ty of
        ZRANGE_AUTO \<Rightarrow> None
      | ZRANGE_SCORE \<Rightarrow> score_range spec (z_ordered_set z) \<bind> positions
      | ZRANGE_RANK \<Rightarrow> rank_range spec (length (z_ordered_set z)) \<bind> positions
      | ZRANGE_LEX \<Rightarrow>
          do { (a, b) \<leftarrow> get_strs spec;
               (if lex_trivial spec a b then Some (z, False)
                else lex_erase (length (z_ordered_set z)) spec 0 z \<bind> emptied) })"

section \<open>Reading\<close>

definition Execute_ZScore :: "(u64 \<Rightarrow> bytes) \<Rightarrow> zset_obj \<Rightarrow> eloq_string \<Rightarrow> zset_result \<Rightarrow> zset_result" where
  "Execute_ZScore dtoa z element result =
     (case map_of (z_hash_map z) (StringView element) of
        None \<Rightarrow> result\<lparr>zr_err := RD_NIL\<rparr>
      | Some d \<Rightarrow> result\<lparr>zr_err := RD_OK, zr_result := ZStr (es_make (d2string dtoa d))\<rparr>)"

definition Execute_ZMScore :: "(u64 \<Rightarrow> bytes) \<Rightarrow> zset_obj \<Rightarrow> eloq_string list \<Rightarrow> zset_result \<Rightarrow> zset_result" where
  "Execute_ZMScore dtoa z vct_elm result =
     result\<lparr>zr_err := RD_OK,
            zr_result := ZStrs (map (\<lambda>e. case map_of (z_hash_map z) (StringView e) of
                                           None \<Rightarrow> NullView | Some d \<Rightarrow> es_make (d2string dtoa d)) vct_elm)\<rparr>"

definition Execute_ZCard :: "zset_obj \<Rightarrow> zset_result \<Rightarrow> zset_result" where
  "Execute_ZCard z result = result\<lparr>zr_err := RD_OK, zr_result := ZInt (int (length (z_ordered_set z)))\<rparr>"

text \<open>\<^verbatim>\<open>find\<close> gives the end when there is no such node; the rank is then the distance to it.\<close>

definition node_find :: "znode \<Rightarrow> znode list \<Rightarrow> nat" where
  "node_find q xs = length (takeWhile (\<lambda>n. \<not> zequiv q n) xs)"

definition Execute_ZRank :: "(u64 \<Rightarrow> bytes) \<Rightarrow> zset_obj \<Rightarrow> eloq_string \<Rightarrow> bool \<Rightarrow> bool \<Rightarrow> zset_result \<Rightarrow> zset_result" where
  "Execute_ZRank dtoa z member is_rev with_score result =
     (case map_of (z_hash_map z) (StringView member) of
        None \<Rightarrow> result\<lparr>zr_err := RD_NIL\<rparr>
      | Some d \<Rightarrow>
          (let i = node_find (member, d) (z_ordered_set z);
               rank = (if is_rev then int (length (z_ordered_set z) - i) - 1 else int i)
           in result\<lparr>zr_err := RD_OK, zr_result := (if with_score then ZRanked rank (d2string dtoa d) else ZInt rank)\<rparr>))"

definition Execute_ZRange :: "(u64 \<Rightarrow> bytes) \<Rightarrow> zset_obj \<Rightarrow> zrange_constraint \<Rightarrow> zrange_spec \<Rightarrow> zset_result \<Rightarrow> zset_result option" where
  "Execute_ZRange dtoa z arg spec result =
     map_option (\<lambda>ans. result\<lparr>zr_err := RD_OK, zr_result := ZStrs ans\<rparr>) (GetZrangeResult dtoa z arg spec)"

definition Execute_ZCount :: "zset_obj \<Rightarrow> zrange_spec \<Rightarrow> zset_result \<Rightarrow> zset_result option" where
  "Execute_ZCount z spec result =
     map_option (\<lambda>n. result\<lparr>zr_err := RD_OK, zr_result := ZInt (int n)\<rparr>) (ZCount z spec)"

definition Execute_ZLexCount :: "zset_obj \<Rightarrow> zrange_spec \<Rightarrow> zset_result \<Rightarrow> zset_result option" where
  "Execute_ZLexCount z spec result =
     map_option (\<lambda>n. result\<lparr>zr_err := RD_OK, zr_result := ZInt (int n)\<rparr>) (ZRemRangeByLex z spec)"

end
