(* ===== verification/ZsetLaws.thy ===== *)
theory ZsetLaws
  imports ZsetOps
begin

text \<open>
  What the operations of a sorted set do.  A sorted set stands for the list of its members with their scores, in order
  (\<^term>\<open>ranking\<close>).  A range is then the part of that list that satisfies the bounds, a removal takes it out, and \<^verbatim>\<open>ZADD\<close> is
  a fold over its arguments on the map from members to scores.
\<close>

section \<open>Sorted nodes\<close>

definition nodes_ok :: "znode list \<Rightarrow> bool" where
  "nodes_ok xs \<longleftrightarrow> sorted_wrt zcmp xs \<and> list_all (\<lambda>n. storable (fst n) \<and> \<not> dbl_nan (snd n)) xs"

lemma zcmp_iff:
  assumes "\<not> dbl_nan (snd a)" "\<not> dbl_nan (snd b)"
  shows "zcmp a b \<longleftrightarrow> dbl_ord (snd a) < dbl_ord (snd b) \<or>
    (dbl_ord (snd a) = dbl_ord (snd b) \<and> bytes_less (StringView (fst a)) (StringView (fst b)))"
  using assms by (auto simp: zcmp_def dbl_ne_def dbl_less_def)

lemma dbl_less_iff: "\<not> dbl_nan a \<Longrightarrow> \<not> dbl_nan b \<Longrightarrow> dbl_less a b \<longleftrightarrow> dbl_ord a < dbl_ord b"
  by (simp add: dbl_less_def)

lemma zcmp_irrefl [simp]: "\<not> zcmp a a"
  by (auto simp: zcmp_def dbl_less_def)

lemma zcmp_trans:
  assumes "\<not> dbl_nan (snd a)" "\<not> dbl_nan (snd b)" "\<not> dbl_nan (snd c)" "zcmp a b" "zcmp b c"
  shows "zcmp a c"
  using assms by (auto simp: zcmp_iff intro: bytes_less_trans)

lemma nodes_ok_simps [simp]:
  "nodes_ok []"
  "nodes_ok (x # xs) \<longleftrightarrow> storable (fst x) \<and> \<not> dbl_nan (snd x) \<and> (\<forall>y \<in> set xs. zcmp x y) \<and> nodes_ok xs"
  by (auto simp: nodes_ok_def)

lemma nodes_okD: "nodes_ok xs \<Longrightarrow> n \<in> set xs \<Longrightarrow> storable (fst n) \<and> \<not> dbl_nan (snd n)"
  by (auto simp: nodes_ok_def list_all_iff)

lemma nodes_ok_filter: "nodes_ok xs \<Longrightarrow> nodes_ok (filter P xs)"
  by (induction xs) auto

lemma nodes_ok_distinct: "nodes_ok xs \<Longrightarrow> distinct xs"
  by (induction xs) auto

lemma nodes_ok_insert:
  assumes "nodes_ok xs" "storable (fst n)" "\<not> dbl_nan (snd n)"
  shows "nodes_ok (zs_insert n xs)"
proof -
  have s: "set (zs_insert n ys) \<subseteq> insert n (set ys)" for ys by (induction ys) auto
  show ?thesis
    using assms(1)
  proof (induction xs)
    case (Cons x xs)
    then have x: "\<not> dbl_nan (snd x)" "\<forall>y \<in> set xs. \<not> dbl_nan (snd y) \<and> zcmp x y" by (auto dest: nodes_okD)
    show ?case
    proof (cases "zcmp n x")
      case True
      then have "\<forall>y \<in> set xs. zcmp n y" using x assms(3) zcmp_trans [of n x] by blast
      with True Cons.prems assms show ?thesis by simp
    next
      case False
      with Cons s [of xs] show ?thesis by auto
    qed
  qed (use assms in simp)
qed

text \<open>A predicate that holds of a node only if it holds of every earlier one cuts the list in two.\<close>

definition initial :: "('a \<Rightarrow> bool) \<Rightarrow> 'a list \<Rightarrow> bool" where
  "initial P xs \<longleftrightarrow> sorted_wrt (\<lambda>x y. P y \<longrightarrow> P x) xs"

lemma initial_takeWhile: "initial P xs \<Longrightarrow> takeWhile P xs = filter P xs"
  by (induction xs) (auto simp: initial_def filter_empty_conv [symmetric])

lemma initial_split: "initial P xs \<Longrightarrow> filter P xs @ filter (\<lambda>x. \<not> P x) xs = xs"
proof (induction xs)
  case (Cons x xs)
  show ?case
  proof (cases "P x")
    case False
    then have "\<forall>y \<in> set xs. \<not> P y" using Cons.prems by (auto simp: initial_def)
    with False show ?thesis by simp
  qed (use Cons in \<open>simp add: initial_def\<close>)
qed simp

lemma initial_between:
  assumes "initial P xs" "initial Q xs" "\<And>x. x \<in> set xs \<Longrightarrow> P x \<Longrightarrow> Q x"
    and "i = length (takeWhile P xs)" "j = length (takeWhile Q xs)"
  shows "i \<le> j \<and> take (j - i) (drop i xs) = filter (\<lambda>x. \<not> P x \<and> Q x) xs \<and>
         take i xs @ drop j xs = filter (\<lambda>x. P x \<or> \<not> Q x) xs"
proof -
  have i: "i = length (filter P xs)" and j: "j = length (filter Q xs)"
    using assms(4,5) initial_takeWhile [OF assms(1)] initial_takeWhile [OF assms(2)] by simp_all
  have p: "take i xs = filter P xs" and q: "take j xs = filter Q xs" "drop j xs = filter (\<lambda>x. \<not> Q x) xs"
    using initial_split [OF assms(1)] initial_split [OF assms(2)] i j by (metis append_eq_conv_conj)+
  have pq: "filter Q (filter P xs) = filter P xs"
    using assms(3) by (induction xs) auto
  have "filter Q xs = filter Q (filter P xs) @ filter Q (filter (\<lambda>x. \<not> P x) xs)"
    by (subst initial_split [OF assms(1), symmetric]) simp
  then have f: "filter Q xs = filter P xs @ filter (\<lambda>x. \<not> P x \<and> Q x) xs" unfolding pq by (simp add: conj_commute)
  then have le: "i \<le> j" using i j by simp
  have "take (j - i) (drop i xs) = drop i (take j xs)" by (simp add: take_drop le)
  also have "\<dots> = filter (\<lambda>x. \<not> P x \<and> Q x) xs" unfolding q(1) f using i by simp
  finally have m: "take (j - i) (drop i xs) = filter (\<lambda>x. \<not> P x \<and> Q x) xs" .
  have "filter (\<lambda>x. P x \<or> \<not> Q x) xs =
      filter (\<lambda>x. P x \<or> \<not> Q x) (filter Q xs) @ filter (\<lambda>x. P x \<or> \<not> Q x) (filter (\<lambda>x. \<not> Q x) xs)"
    by (subst initial_split [OF assms(2), symmetric]) simp
  also have "filter (\<lambda>x. P x \<or> \<not> Q x) (filter (\<lambda>x. \<not> Q x) xs) = filter (\<lambda>x. \<not> Q x) xs"
    by (induction xs) auto
  also have "filter (\<lambda>x. P x \<or> \<not> Q x) (filter Q xs) = filter P xs"
    using assms(3) by (induction xs) auto
  finally show ?thesis using le m p q(2) by simp
qed

lemma initial_mono:
  assumes "nodes_ok xs" "\<And>x y. x \<in> set xs \<Longrightarrow> y \<in> set xs \<Longrightarrow> zcmp x y \<Longrightarrow> P y \<Longrightarrow> P x"
  shows "initial P xs"
  unfolding initial_def
proof (rule sorted_wrt_mono_rel [of _ zcmp])
  show "sorted_wrt zcmp xs" using assms(1) by (simp add: nodes_ok_def)
qed (use assms(2) in blast)

text \<open>The four kinds of bounds.\<close>

lemma initial_bounds:
  assumes "nodes_ok xs" "\<not> dbl_nan d"
  shows "initial (\<lambda>n. dbl_less (snd n) d) xs" "initial (\<lambda>n. \<not> dbl_less d (snd n)) xs"
    and "initial (\<lambda>n. zcmp n (f, d)) xs" "initial (\<lambda>n. \<not> zcmp (f, d) n) xs"
proof -
  have n: "\<not> dbl_nan (snd x)" if "x \<in> set xs" for x using nodes_okD [OF assms(1) that] by simp
  show "initial (\<lambda>n. dbl_less (snd n) d) xs" "initial (\<lambda>n. \<not> dbl_less d (snd n)) xs"
    by (rule initial_mono [OF assms(1)], use n assms(2) in \<open>auto simp: zcmp_iff dbl_less_iff\<close>)+
  have d: "\<not> dbl_nan (snd (f, d))" using assms(2) by simp
  show "initial (\<lambda>n. zcmp n (f, d)) xs"
    by (rule initial_mono [OF assms(1)]) (rule zcmp_trans [OF n n d])
  show "initial (\<lambda>n. \<not> zcmp (f, d) n) xs"
    by (rule initial_mono [OF assms(1)]) (use zcmp_trans [OF d n n] in blast)
qed

section \<open>Ranges\<close>

text \<open>A pair of positions selects the nodes with a property.\<close>

definition selects :: "(nat \<times> nat) option \<Rightarrow> znode list \<Rightarrow> (znode \<Rightarrow> bool) \<Rightarrow> bool" where
  "selects rg xs P \<longleftrightarrow>
     (case rg of
        None \<Rightarrow> filter P xs = []
      | Some (i, j) \<Rightarrow> i \<le> j \<and> j \<le> length xs \<and> take (j - i) (drop i xs) = filter P xs \<and>
          take i xs @ drop j xs = filter (\<lambda>n. \<not> P n) xs)"

lemma selects_bounds:
  assumes "initial P xs" "initial Q xs" "\<And>x. x \<in> set xs \<Longrightarrow> P x \<Longrightarrow> Q x"
    and "\<And>x. x \<in> set xs \<Longrightarrow> R x \<longleftrightarrow> \<not> P x \<and> Q x"
  shows "selects (Some (length (takeWhile P xs), length (takeWhile Q xs))) xs R"
proof -
  have "filter R xs = filter (\<lambda>x. \<not> P x \<and> Q x) xs" "filter (\<lambda>x. \<not> R x) xs = filter (\<lambda>x. P x \<or> \<not> Q x) xs"
    using assms(4) by (auto intro!: filter_cong)
  then show ?thesis
    using initial_between [OF assms(1-3) refl refl] by (simp add: selects_def length_takeWhile_le)
qed

lemma selects_size: "selects rg xs P \<Longrightarrow> range_size rg = Some (length (filter P xs))"
  by (auto simp: selects_def range_size_def dist_def split: option.splits dest: arg_cong [where f = length])

text \<open>A page of a list: from an offset on, at most a number of elements, or all with \<open>-1\<close>.\<close>

definition page :: "int \<Rightarrow> int \<Rightarrow> 'a list \<Rightarrow> 'a list" where
  "page offset lim xs = (if lim = -1 then drop (nat offset) xs else take (nat lim) (drop (nat offset) xs))"

definition left_over :: "int \<Rightarrow> nat \<Rightarrow> int" where
  "left_over lim n = (if lim = -1 then -1 else lim - int n)"

lemma page_append:
  assumes "0 \<le> offset"
  shows "page offset lim (xs @ ys) = page offset lim xs @
    page (max 0 (offset - int (length xs))) (left_over lim (length (page offset lim xs))) ys"
  using assms by (auto simp: page_def left_over_def nat_diff_distrib min_def max_def)

lemma limited_page:
  "limited lim (drop (nat offset) xs) = (page offset lim xs, left_over lim (length (page offset lim xs)))"
  by (auto simp: limited_def page_def left_over_def)

definition turned :: "bool \<Rightarrow> 'a list \<Rightarrow> 'a list" where
  "turned reverse xs = (if reverse then rev xs else xs)"

lemma turned_simps [simp]:
  "turned False xs = xs" "length (turned r xs) = length xs" "set (turned r xs) = set xs" "turned r [] = []"
  by (simp_all add: turned_def)

lemma Emplace_page:
  assumes "selects (Some (i, j)) xs P" "0 \<le> offset"
  shows "Emplace r xs i j offset lim =
    (let ns = page offset lim (turned r (filter P xs)) in
     Some (ns, max 0 (offset - int (length (filter P xs))), left_over lim (length ns)))"
proof -
  have ij: "i \<le> j" "j \<le> length xs" and f: "take (j - i) (drop i xs) = filter P xs"
    using assms(1) by (auto simp: selects_def)
  have sz: "length (filter P xs) = j - i" using arg_cong [OF f, of length] ij by simp
  show ?thesis
  proof (cases "int (j - i) \<le> offset")
    case True
    then have "page offset lim (turned r (filter P xs)) = []" using sz by (auto simp: page_def)
    with True ij show ?thesis
      by (simp add: Emplace_def EmplaceForwardElements_def EmplaceRevElements_def dist_def sz left_over_def)
  next
    case False
    then have k: "nat offset < j - i" "\<not> int j - int i \<le> offset" using assms(2) ij by auto
    have fw: "take (j - nat (int i + offset)) (drop (nat (int i + offset)) xs) = drop (nat offset) (filter P xs)"
      unfolding f [symmetric] using assms(2) ij by (simp add: drop_take nat_add_distrib add.commute)
    have "drop (nat offset) (rev (filter P xs)) = rev (take (j - i - nat offset) (filter P xs))"
      by (simp add: rev_take [symmetric] drop_rev sz)
    also have "\<dots> = rev (take (nat (int j - offset) - i) (drop i xs))"
      unfolding f [symmetric] using assms(2) k(1) ij by (simp add: min_def nat_diff_distrib' add.commute)
    finally have bw: "rev (take (nat (int j - offset) - i) (drop i xs)) = drop (nat offset) (rev (filter P xs))" by simp
    show ?thesis
      using k False ij assms(2) limited_page [of lim offset "turned r (filter P xs)"] fw bw
      by (cases r)
         (simp_all add: Emplace_def EmplaceForwardElements_def EmplaceRevElements_def dist_def sz turned_def Let_def)
  qed
qed

subsection \<open>By score\<close>

definition score_in :: "zrange_spec \<Rightarrow> u64 \<Rightarrow> u64 \<Rightarrow> znode \<Rightarrow> bool" where
  "score_in spec a b n \<longleftrightarrow>
     (if minex spec then dbl_less a (snd n) else \<not> dbl_less (snd n) a) \<and>
     (if maxex spec then dbl_less (snd n) b else \<not> dbl_less b (snd n))"

text \<open>Both bounds exclude the same score, and a member has it.\<close>

definition score_crossed :: "zrange_spec \<Rightarrow> u64 \<Rightarrow> u64 \<Rightarrow> znode list \<Rightarrow> bool" where
  "score_crossed spec a b xs \<longleftrightarrow> minex spec \<and> maxex spec \<and> \<not> dbl_ne a b \<and> list_ex (\<lambda>n. \<not> dbl_ne (snd n) a) xs"

lemma score_range_selects:
  assumes "nodes_ok xs" "get_doubles spec = Some (a, b)" "\<not> dbl_nan a" "\<not> dbl_nan b" "\<not> score_crossed spec a b xs"
  shows "\<exists>rg. score_range spec xs = Some rg \<and> selects rg xs (score_in spec a b)"
proof (cases "dbl_less b a")
  case True
  have "\<not> score_in spec a b n" if "n \<in> set xs" for n
    using True assms(3,4) nodes_okD [OF assms(1) that] by (auto simp: score_in_def dbl_less_iff)
  with True show ?thesis by (simp add: score_range_def assms(2) selects_def)
next
  case False
  let ?P = "\<lambda>n. if minex spec then \<not> dbl_less a (snd n) else dbl_less (snd n) a"
  let ?Q = "\<lambda>n. if maxex spec then dbl_less (snd n) b else \<not> dbl_less b (snd n)"
  have "selects (Some (length (takeWhile ?P xs), length (takeWhile ?Q xs))) xs (score_in spec a b)"
  proof (rule selects_bounds)
    show "initial ?P xs" using initial_bounds [OF assms(1,3)] by (cases "minex spec") simp_all
    show "initial ?Q xs" using initial_bounds [OF assms(1,4)] by (cases "maxex spec") simp_all
    show "?Q n" if "n \<in> set xs" "?P n" for n
      using that False assms(3-5) nodes_okD [OF assms(1) that(1)]
      by (force simp: dbl_less_iff score_crossed_def dbl_ne_def list_ex_iff split: if_splits)
  qed (auto simp: score_in_def)
  moreover have "score_range spec xs = Some (Some (length (takeWhile ?P xs), length (takeWhile ?Q xs)))"
    using False by (simp add: score_range_def assms(2) lower_score_def upper_score_def)
  ultimately show ?thesis by blast
qed

text \<open>Otherwise the first position lies behind the last one.\<close>

lemma score_range_crossed:
  assumes "nodes_ok xs" "get_doubles spec = Some (a, b)" "\<not> dbl_nan a" "\<not> dbl_nan b" "score_crossed spec a b xs"
  shows "\<exists>i j. score_range spec xs = Some (Some (i, j)) \<and> j < i"
proof -
  have c: "minex spec" "maxex spec" "dbl_ord a = dbl_ord b"
    using assms(3-5) by (simp_all add: score_crossed_def dbl_ne_def)
  obtain m where m: "m \<in> set xs" "dbl_ord (snd m) = dbl_ord a"
    using assms(5) unfolding score_crossed_def dbl_ne_def list_ex_iff by blast
  let ?P = "\<lambda>n. dbl_less (snd n) b" and ?Q = "\<lambda>n. \<not> dbl_less a (snd n)"
  have "selects (Some (length (takeWhile ?P xs), length (takeWhile ?Q xs))) xs (\<lambda>n. dbl_ord (snd n) = dbl_ord a)"
    using initial_bounds [OF assms(1,3)] initial_bounds [OF assms(1,4)] assms(3,4) c(3) nodes_okD [OF assms(1)]
    by (intro selects_bounds) (auto simp: dbl_less_iff)
  moreover have "filter (\<lambda>n. dbl_ord (snd n) = dbl_ord a) xs \<noteq> []" using m by (auto simp: filter_empty_conv)
  ultimately have "length (takeWhile ?P xs) < length (takeWhile ?Q xs)"
    by (cases "length (takeWhile ?P xs) < length (takeWhile ?Q xs)") (auto simp: selects_def)
  moreover have "\<not> dbl_less b a" using c(3) by (simp add: dbl_less_def)
  ultimately show ?thesis
    using c(1,2) by (simp add: score_range_def assms(2) lower_score_def upper_score_def)
qed

subsection \<open>By name\<close>

definition lex_in :: "zrange_spec \<Rightarrow> bytes \<Rightarrow> bytes \<Rightarrow> bytes \<Rightarrow> bool" where
  "lex_in spec a b x \<longleftrightarrow>
     (negative spec \<or> (if minex spec then bytes_less a x else \<not> bytes_less x a)) \<and>
     (positive spec \<or> (if maxex spec then bytes_less x b else \<not> bytes_less b x))"

abbreviation lex_node :: "zrange_spec \<Rightarrow> bytes \<Rightarrow> bytes \<Rightarrow> znode \<Rightarrow> bool" where
  "lex_node spec a b n \<equiv> lex_in spec a b (StringView (fst n))"

lemma bytes_less_antisym: "bytes_less a b \<Longrightarrow> \<not> bytes_less b a"
  using bytes_less_trans [of a b a] by auto

lemma bytes_le_less: "\<not> bytes_less b a \<Longrightarrow> bytes_less b c \<Longrightarrow> bytes_less a c"
  using bytes_less_total [of a b] bytes_less_trans [of a b c] by auto

lemma bytes_less_le: "bytes_less a b \<Longrightarrow> \<not> bytes_less c b \<Longrightarrow> bytes_less a c"
  using bytes_less_total [of b c] bytes_less_trans [of a b c] by auto

text \<open>The nodes before the first position within one score, and before the last one.\<close>

definition lex_before :: "zrange_spec \<Rightarrow> bytes \<Rightarrow> u64 \<Rightarrow> znode \<Rightarrow> bool" where
  "lex_before spec a d n =
     (if negative spec then dbl_less (snd n) d else if minex spec then \<not> zcmp (View a, d) n else zcmp n (View a, d))"

definition lex_upto :: "zrange_spec \<Rightarrow> bytes \<Rightarrow> u64 \<Rightarrow> znode \<Rightarrow> bool" where
  "lex_upto spec b d n =
     (if positive spec then \<not> dbl_less d (snd n) else if maxex spec then zcmp n (View b, d) else \<not> zcmp (View b, d) n)"

lemma lex_initial:
  assumes "nodes_ok xs" "\<not> dbl_nan d"
  shows "initial (lex_before spec a d) xs" "initial (lex_upto spec b d) xs"
  using initial_bounds [OF assms]
  by (cases "negative spec"; cases "minex spec"; simp add: lex_before_def [abs_def])
     (cases "positive spec"; cases "maxex spec"; simp add: lex_upto_def [abs_def] initial_bounds [OF assms])

lemma GetRangeByLex_positions:
  assumes "get_strs spec = Some (a, b)"
  shows "GetRangeByLexForCurrentScore xs d spec =
    (let i = length (takeWhile (lex_before spec a d) xs) in
     Some (\<not> (i = length xs \<or> dbl_less d (snd (xs ! i)) \<or>
              (bytes_less b (StringView (fst (xs ! i))) \<and> \<not> positive spec)),
           i, length (takeWhile (lex_upto spec b d) xs)))"
proof -
  have p: "(if negative spec then lower_score d xs else if minex spec then upper_node (View a, d) xs
            else lower_node (View a, d) xs) = length (takeWhile (lex_before spec a d) xs)"
    by (cases "negative spec"; cases "minex spec";
        simp add: lower_score_def upper_node_def lower_node_def lex_before_def [abs_def])
  have q: "(if positive spec then upper_score d xs else if maxex spec then lower_node (View b, d) xs
            else upper_node (View b, d) xs) = length (takeWhile (lex_upto spec b d) xs)"
    by (cases "positive spec"; cases "maxex spec";
        simp add: upper_score_def upper_node_def lower_node_def lex_upto_def [abs_def])
  show ?thesis unfolding GetRangeByLexForCurrentScore_def assms(1) by (simp only: Option.bind.simps prod.case Let_def p q)
qed

lemma lex_before_upto:
  assumes "\<not> dbl_nan d" "\<not> dbl_nan (snd n)" "\<not> lex_trivial spec a b" "lex_before spec a d n"
  shows "lex_upto spec b d n"
proof (cases "negative spec \<or> positive spec")
  case True
  then show ?thesis
    using assms by (auto simp: lex_before_def lex_upto_def zcmp_iff dbl_less_iff split: if_splits)
next
  case False
  let ?x = "StringView (fst n)"
  have ab: "\<not> bytes_less b a" "minex spec \<or> maxex spec \<Longrightarrow> bytes_less a b"
    using False assms(3) bytes_less_total [of a b] by (auto simp: lex_trivial_def)
  show ?thesis
    using False assms(1,2,4) ab bytes_le_less [of b a ?x] bytes_less_le [of ?x a b] bytes_less_trans [of ?x a b]
      bytes_less_trans [of a b ?x] bytes_le_less [of a ?x b] bytes_less_antisym [of ?x a] bytes_less_antisym [of ?x b]
    by (auto simp: lex_before_def lex_upto_def zcmp_iff split: if_splits)
qed

lemma lex_positions:
  assumes "nodes_ok xs" "\<not> dbl_nan d" "\<not> lex_trivial spec a b"
  shows "selects (Some (length (takeWhile (lex_before spec a d) xs), length (takeWhile (lex_upto spec b d) xs))) xs
           (\<lambda>n. dbl_ord (snd n) = dbl_ord d \<and> lex_node spec a b n)"
proof (rule selects_bounds)
  show "initial (lex_before spec a d) xs" "initial (lex_upto spec b d) xs"
    by (rule lex_initial [OF assms(1,2)])+
  fix n assume n: "n \<in> set xs"
  note nn = conjunct2 [OF nodes_okD [OF assms(1) n]]
  show "lex_upto spec b d n" if "lex_before spec a d n" by (rule lex_before_upto [OF assms(2) nn assms(3) that])
  show "dbl_ord (snd n) = dbl_ord d \<and> lex_node spec a b n \<longleftrightarrow> \<not> lex_before spec a d n \<and> lex_upto spec b d n"
    using assms(2) nn
    by (cases "negative spec"; cases "positive spec"; cases "minex spec"; cases "maxex spec")
       (auto simp: lex_before_def lex_upto_def zcmp_iff dbl_less_iff lex_in_def)
qed

text \<open>Nothing follows a node of the score or above it that lies beyond the range.\<close>

lemma lex_beyond:
  assumes "\<not> dbl_nan d" "\<not> dbl_nan (snd n)" "\<not> dbl_nan (snd m)" "\<not> lex_before spec a d n" "m = n \<or> zcmp n m"
    and "dbl_less d (snd n) \<or> (bytes_less b (StringView (fst n)) \<and> \<not> positive spec)"
  shows "\<not> (dbl_ord (snd m) = dbl_ord d \<and> lex_node spec a b m)"
proof -
  let ?x = "StringView (fst n)" and ?y = "StringView (fst m)"
  have d: "dbl_ord d \<le> dbl_ord (snd n)"
    using assms(1,2,4) by (auto simp: lex_before_def zcmp_iff dbl_less_iff split: if_splits)
  show ?thesis
  proof (cases "dbl_ord d < dbl_ord (snd n)")
    case True
    then show ?thesis using assms(2,3,5) by (auto simp: zcmp_iff)
  next
    case False
    then have b: "bytes_less b ?x" "\<not> positive spec" and e: "dbl_ord (snd n) = dbl_ord d"
      using assms(1,2,6) d by (auto simp: dbl_less_iff)
    have "bytes_less b ?y" if "dbl_ord (snd m) = dbl_ord d"
      using that assms(2,3,5) b(1) e bytes_less_trans [of b ?x ?y] by (auto simp: zcmp_iff)
    then show ?thesis using b(2) bytes_less_antisym [of b ?y] by (auto simp: lex_in_def)
  qed
qed

lemma lex_nothing:
  fixes xs spec a b d
  defines "i \<equiv> length (takeWhile (lex_before spec a d) xs)"
  assumes "nodes_ok xs" "\<not> dbl_nan d" "\<not> lex_trivial spec a b"
    and "i = length xs \<or> dbl_less d (snd (xs ! i)) \<or> (bytes_less b (StringView (fst (xs ! i))) \<and> \<not> positive spec)"
  shows "filter (\<lambda>n. dbl_ord (snd n) = dbl_ord d \<and> lex_node spec a b n) xs = []"
proof -
  let ?R = "\<lambda>n. dbl_ord (snd n) = dbl_ord d \<and> lex_node spec a b n"
  let ?j = "length (takeWhile (lex_upto spec b d) xs)"
  have f: "filter ?R xs = take (?j - i) (drop i xs)"
    using lex_positions [OF assms(2-4)] by (simp add: selects_def i_def)
  show ?thesis
  proof (cases "i < length xs")
    case True
    have nn: "\<not> dbl_nan (snd (xs ! i))" using nodes_okD [OF assms(2)] True by simp
    have out: "\<not> lex_before spec a d (xs ! i)"
      using nth_length_takeWhile [of "lex_before spec a d" xs] True by (simp add: i_def)
    have beyond: "dbl_less d (snd (xs ! i)) \<or> (bytes_less b (StringView (fst (xs ! i))) \<and> \<not> positive spec)"
      using assms(5) True by simp
    have "\<not> ?R m" if m: "m \<in> set (drop i xs)" for m
    proof -
      have "m \<in> set xs" using m by (rule in_set_dropD)
      then have mn: "\<not> dbl_nan (snd m)" using nodes_okD [OF assms(2)] by blast
      have s: "sorted_wrt zcmp (drop i xs)" using assms(2) by (simp add: nodes_ok_def sorted_wrt_drop)
      have "m = xs ! i \<or> zcmp (xs ! i) m"
        using m s unfolding Cons_nth_drop_Suc [OF True, symmetric] by auto
      then show ?thesis using lex_beyond [OF assms(3) nn mn out _ beyond] by blast
    qed
    then have "\<forall>m \<in> set (filter ?R xs). \<not> ?R m" unfolding f by (auto dest: in_set_takeD)
    then show ?thesis by (simp add: filter_empty_conv)
  next
    case False
    then show ?thesis unfolding f by simp
  qed
qed

lemma lex_current_score:
  assumes "nodes_ok xs" "\<not> dbl_nan d" "get_strs spec = Some (a, b)" "\<not> lex_trivial spec a b"
  obtains succeed fs fe where "GetRangeByLexForCurrentScore xs d spec = Some (succeed, fs, fe)"
    and "selects (Some (fs, fe)) xs (\<lambda>n. dbl_ord (snd n) = dbl_ord d \<and> lex_node spec a b n)"
    and "succeed \<or> filter (\<lambda>n. dbl_ord (snd n) = dbl_ord d \<and> lex_node spec a b n) xs = []"
  using GetRangeByLex_positions [OF assms(3), of xs d] lex_positions [OF assms(1,2,4)] lex_nothing [OF assms(1,2,4)]
  unfolding Let_def by blast

text \<open>The walks stop at the borders between scores; a border and the nodes of one score.\<close>

definition border :: "znode list \<Rightarrow> nat \<Rightarrow> bool" where
  "border xs i \<longleftrightarrow> i \<le> length xs \<and> (i < length xs \<longrightarrow> i = lower_score (snd (xs ! i)) xs)"

lemma score_block:
  assumes "nodes_ok xs" "\<not> dbl_nan d"
  shows "drop (lower_score d xs) xs = filter (\<lambda>n. dbl_ord (snd n) = dbl_ord d) xs @ drop (upper_score d xs) xs"
    and "take (upper_score d xs) xs = take (lower_score d xs) xs @ filter (\<lambda>n. dbl_ord (snd n) = dbl_ord d) xs"
    and "lower_score d xs \<le> upper_score d xs" "upper_score d xs \<le> length xs"
proof -
  let ?i = "lower_score d xs" and ?j = "upper_score d xs"
  have "selects (Some (?i, ?j)) xs (\<lambda>n. dbl_ord (snd n) = dbl_ord d)"
    unfolding lower_score_def upper_score_def
    by (rule selects_bounds) (use initial_bounds [OF assms] assms(2) nodes_okD [OF assms(1)] in \<open>auto simp: dbl_less_iff\<close>)
  then have s: "?i \<le> ?j" "?j \<le> length xs" "take (?j - ?i) (drop ?i xs) = filter (\<lambda>n. dbl_ord (snd n) = dbl_ord d) xs"
    by (simp_all add: selects_def)
  show "?i \<le> ?j" "?j \<le> length xs" using s by simp_all
  show "drop ?i xs = filter (\<lambda>n. dbl_ord (snd n) = dbl_ord d) xs @ drop ?j xs"
    unfolding s(3) [symmetric] using s(1) append_take_drop_id [of "?j - ?i" "drop ?i xs"] by simp
  show "take ?j xs = take ?i xs @ filter (\<lambda>n. dbl_ord (snd n) = dbl_ord d) xs"
    unfolding s(3) [symmetric] using s(1) by (simp add: take_add [symmetric])
qed

lemma border_upper:
  assumes "nodes_ok xs" "\<not> dbl_nan d"
  shows "border xs (upper_score d xs)"
proof -
  let ?j = "upper_score d xs"
  have "?j = lower_score (snd (xs ! ?j)) xs" if j: "?j < length xs"
  proof -
    let ?n = "xs ! ?j"
    have nn: "\<not> dbl_nan (snd ?n)" using nodes_okD [OF assms(1)] j by simp
    have up: "dbl_less d (snd ?n)" using nth_length_takeWhile [of "\<lambda>n. \<not> dbl_less d (snd n)" xs] j
      by (simp add: upper_score_def)
    have "takeWhile (\<lambda>n. \<not> dbl_less d (snd n)) xs = takeWhile (\<lambda>n. dbl_less (snd n) (snd ?n)) xs"
    proof (rule sym, rule takeWhile_eq_take_P_nth [THEN trans])
      fix k assume k: "k < ?j" "k < length xs"
      then have "xs ! k \<in> set (takeWhile (\<lambda>n. \<not> dbl_less d (snd n)) xs)"
        by (metis nth_mem takeWhile_nth upper_score_def)
      then have "\<not> dbl_less d (snd (xs ! k))" by (rule set_takeWhileD [THEN conjunct2])
      then show "dbl_less (snd (xs ! k)) (snd ?n)"
        using up nn assms(2) nodes_okD [OF assms(1) nth_mem [OF k(2)]] by (simp add: dbl_less_iff)
    next
      show "\<not> dbl_less (snd ?n) (snd ?n)" by (simp add: dbl_less_def)
    next
      show "take ?j xs = takeWhile (\<lambda>n. \<not> dbl_less d (snd n)) xs"
        by (simp add: upper_score_def takeWhile_eq_take [symmetric])
    qed
    then show ?thesis by (simp add: upper_score_def lower_score_def)
  qed
  then show ?thesis using score_block(4) [OF assms] by (simp add: border_def)
qed

lemma border_0: "nodes_ok xs \<Longrightarrow> border xs 0"
  by (cases xs) (auto simp: border_def lower_score_def dbl_less_def)

text \<open>One turn goes past the nodes of the score at the border.\<close>

lemma border_step:
  assumes "nodes_ok xs" "border xs i" "i < length xs"
  shows "i < upper_score (snd (xs ! i)) xs"
    and "drop i xs = filter (\<lambda>n. dbl_ord (snd n) = dbl_ord (snd (xs ! i))) xs @ drop (upper_score (snd (xs ! i)) xs) xs"
proof -
  let ?d = "snd (xs ! i)"
  have d: "\<not> dbl_nan ?d" using nodes_okD [OF assms(1)] assms(3) by simp
  have low: "i = lower_score ?d xs" using assms(2,3) by (simp add: border_def)
  note blk = score_block [OF assms(1) d, folded low]
  show e: "drop i xs = filter (\<lambda>n. dbl_ord (snd n) = dbl_ord ?d) xs @ drop (upper_score ?d xs) xs" by (rule blk(1))
  have "filter (\<lambda>n. dbl_ord (snd n) = dbl_ord ?d) xs \<noteq> []" using assms(3) by (auto simp: filter_empty_conv)
  then have "drop i xs \<noteq> drop (upper_score ?d xs) xs" using e by simp
  then show "i < upper_score ?d xs" using blk(3) by (cases "upper_score ?d xs = i") auto
qed

lemma lex_forward_page:
  assumes "nodes_ok xs" "get_strs spec = Some (a, b)" "\<not> lex_trivial spec a b"
    and "border xs i" "length xs - i \<le> fuel" "0 \<le> offset"
  shows "lex_forward fuel xs spec i offset lim = Some (page offset lim (filter (lex_node spec a b) (drop i xs)))"
  using assms(4-6)
proof (induction fuel arbitrary: i offset lim)
  case 0
  then show ?case by (subst lex_forward.simps) (simp add: page_def)
next
  case (Suc fuel)
  show ?case
  proof (cases "i \<ge> length xs \<or> lim = 0")
    case False
    then have i: "i < length xs" "lim \<noteq> 0" by auto
    let ?d = "snd (xs ! i)"
    let ?R = "\<lambda>n. dbl_ord (snd n) = dbl_ord ?d \<and> lex_node spec a b n"
    have d: "\<not> dbl_nan ?d" using nodes_okD [OF assms(1)] i by simp
    obtain ok fs fe where g: "GetRangeByLexForCurrentScore xs ?d spec = Some (ok, fs, fe)"
        "selects (Some (fs, fe)) xs ?R" "ok \<or> filter ?R xs = []"
      using lex_current_score [OF assms(1) d assms(2,3)] by blast
    let ?ns = "page offset lim (filter ?R xs)" and ?off = "max 0 (offset - int (length (filter ?R xs)))"
    let ?lim = "left_over lim (length ?ns)"
    have em: "(if ok then EmplaceForwardElements xs fs fe offset lim else Some ([], offset, lim)) = Some (?ns, ?off, ?lim)"
      using Emplace_page [OF g(2) Suc.prems(3), of False] g(3) Suc.prems(3)
      by (auto simp: Emplace_def Let_def page_def left_over_def)
    note st = border_step [OF assms(1) Suc.prems(1) i(1)]
    have ih: "lex_forward fuel xs spec (upper_score ?d xs) ?off ?lim =
        Some (page ?off ?lim (filter (lex_node spec a b) (drop (upper_score ?d xs) xs)))"
      using Suc.prems st(1)
      by (intro Suc.IH) (auto simp: border_upper [OF assms(1) d])
    have "filter (lex_node spec a b) (drop i xs) =
        filter ?R xs @ filter (lex_node spec a b) (drop (upper_score ?d xs) xs)"
      by (subst st(2)) (simp add: conj_commute)
    then have "page offset lim (filter (lex_node spec a b) (drop i xs)) =
        ?ns @ page ?off ?lim (filter (lex_node spec a b) (drop (upper_score ?d xs) xs))"
      using page_append [OF Suc.prems(3)] by simp
    then show ?thesis
      using False by (subst lex_forward.simps) (simp add: g(1) em ih)
  qed (subst lex_forward.simps, auto simp: page_def)
qed

lemma border_lower:
  assumes "nodes_ok xs" "\<not> dbl_nan d"
  shows "border xs (lower_score d xs)"
proof -
  let ?i = "lower_score d xs"
  have "?i = lower_score (snd (xs ! ?i)) xs" if i: "?i < length xs"
  proof -
    let ?n = "xs ! ?i"
    have nn: "\<not> dbl_nan (snd ?n)" using nodes_okD [OF assms(1)] i by simp
    have "\<not> dbl_less (snd ?n) d" using nth_length_takeWhile [of "\<lambda>n. dbl_less (snd n) d" xs] i
      by (simp add: lower_score_def)
    then have low: "dbl_less (snd (xs ! k)) (snd ?n)" if "k < ?i" for k
      using that i nn assms(2) nodes_okD [OF assms(1), of "xs ! k"] nth_mem [of k "takeWhile (\<lambda>n. dbl_less (snd n) d) xs"]
      by (auto simp: lower_score_def takeWhile_nth dbl_less_iff dest!: set_takeWhileD)
    have "takeWhile (\<lambda>n. dbl_less (snd n) (snd ?n)) xs = take ?i xs"
      by (rule takeWhile_eq_take_P_nth) (use low in \<open>auto simp: dbl_less_def\<close>)
    then show ?thesis using i by (simp add: lower_score_def)
  qed
  then show ?thesis using score_block(3,4) [OF assms] by (simp add: border_def)
qed

lemma border_upper_before:
  assumes "nodes_ok xs" "border xs i" "0 < i"
  shows "upper_score (snd (xs ! (i - 1))) xs = i"
proof -
  have i: "i \<le> length xs" "i - 1 < length xs" using assms(2,3) by (auto simp: border_def)
  let ?d = "snd (xs ! (i - 1))"
  have nn: "\<not> dbl_nan (snd (xs ! k))" if "k < length xs" for k using nodes_okD [OF assms(1)] that by simp
  have "takeWhile (\<lambda>n. \<not> dbl_less ?d (snd n)) xs = take i xs"
  proof (rule takeWhile_eq_take_P_nth)
    fix k assume k: "k < i" "k < length xs"
    then have "k = i - 1 \<or> zcmp (xs ! k) (xs ! (i - 1))"
      using assms(1) i sorted_wrt_nth_less [of zcmp xs k "i - 1"] by (cases "k < i - 1") (auto simp: nodes_ok_def)
    then show "\<not> dbl_less ?d (snd (xs ! k))" using nn [OF k(2)] nn [OF i(2)] by (auto simp: zcmp_iff dbl_less_iff)
  next
    assume "i < length xs"
    then have "i = length (takeWhile (\<lambda>n. dbl_less (snd n) (snd (xs ! i))) xs)"
      using assms(2) by (simp add: border_def lower_score_def)
    then have "xs ! (i - 1) \<in> set (takeWhile (\<lambda>n. dbl_less (snd n) (snd (xs ! i))) xs)"
      using assms(3) by (metis diff_less less_numeral_extra(1) nth_mem takeWhile_nth)
    then show "\<not> \<not> dbl_less ?d (snd (xs ! i))" by (auto dest: set_takeWhileD)
  qed
  then show ?thesis using i by (simp add: upper_score_def)
qed

lemma border_length: "border xs (length xs)"
  by (simp add: border_def)

lemma lex_reverse_page:
  assumes "nodes_ok xs" "get_strs spec = Some (a, b)" "\<not> lex_trivial spec a b"
    and "border xs i" "i \<le> fuel" "0 \<le> offset"
  shows "lex_reverse fuel xs spec i offset lim = Some (page offset lim (rev (filter (lex_node spec a b) (take i xs))))"
  using assms(4-6)
proof (induction fuel arbitrary: i offset lim)
  case 0
  then show ?case by (subst lex_reverse.simps) (simp add: page_def)
next
  case (Suc fuel)
  show ?case
  proof (cases "i = 0 \<or> lim = 0")
    case False
    then have i: "0 < i" "i - 1 < length xs" "lim \<noteq> 0" using Suc.prems(1) by (auto simp: border_def)
    let ?d = "snd (xs ! (i - 1))"
    let ?R = "\<lambda>n. dbl_ord (snd n) = dbl_ord ?d \<and> lex_node spec a b n"
    have d: "\<not> dbl_nan ?d" using nodes_okD [OF assms(1)] i by simp
    obtain ok fs fe where g: "GetRangeByLexForCurrentScore xs ?d spec = Some (ok, fs, fe)"
        "selects (Some (fs, fe)) xs ?R" "ok \<or> filter ?R xs = []"
      using lex_current_score [OF assms(1) d assms(2,3)] by blast
    let ?ns = "page offset lim (rev (filter ?R xs))" and ?off = "max 0 (offset - int (length (filter ?R xs)))"
    let ?lim = "left_over lim (length ?ns)"
    have em: "(if ok then EmplaceRevElements xs fs fe offset lim else Some ([], offset, lim)) = Some (?ns, ?off, ?lim)"
      using Emplace_page [OF g(2) Suc.prems(3), of True] g(3) Suc.prems(3)
      by (auto simp: Emplace_def Let_def page_def left_over_def turned_def)
    note blk = score_block [OF assms(1) d, unfolded border_upper_before [OF assms(1) Suc.prems(1) i(1)]]
    have "\<not> dbl_less ?d ?d" by (simp add: dbl_less_def)
    then have "lower_score ?d xs \<noteq> i"
      using i nth_mem [of "i - 1" "takeWhile (\<lambda>n. dbl_less (snd n) ?d) xs"]
      by (auto simp: lower_score_def takeWhile_nth dest!: set_takeWhileD)
    then have ih: "lex_reverse fuel xs spec (lower_score ?d xs) ?off ?lim =
        Some (page ?off ?lim (rev (filter (lex_node spec a b) (take (lower_score ?d xs) xs))))"
      using Suc.prems blk(3) border_lower [OF assms(1) d]
      by (intro Suc.IH) auto
    have "rev (filter (lex_node spec a b) (take i xs)) =
        rev (filter ?R xs) @ rev (filter (lex_node spec a b) (take (lower_score ?d xs) xs))"
      by (subst blk(2)) (simp add: conj_commute)
    then have "page offset lim (rev (filter (lex_node spec a b) (take i xs))) =
        ?ns @ page ?off ?lim (rev (filter (lex_node spec a b) (take (lower_score ?d xs) xs)))"
      using page_append [OF Suc.prems(3), of lim "rev (filter ?R xs)"] by simp
    then show ?thesis
      using False by (subst lex_reverse.simps) (simp add: g(1) em ih del: One_nat_def)
  qed (subst lex_reverse.simps, auto simp: page_def)
qed

lemma lex_count_length:
  assumes "nodes_ok xs" "get_strs spec = Some (a, b)" "\<not> lex_trivial spec a b"
    and "border xs i" "length xs - i \<le> fuel"
  shows "lex_count fuel xs spec i = Some (length (filter (lex_node spec a b) (drop i xs)))"
  using assms(4-5)
proof (induction fuel arbitrary: i)
  case 0
  then show ?case by (subst lex_count.simps) simp
next
  case (Suc fuel)
  show ?case
  proof (cases "i \<ge> length xs")
    case False
    let ?d = "snd (xs ! i)"
    let ?R = "\<lambda>n. dbl_ord (snd n) = dbl_ord ?d \<and> lex_node spec a b n"
    have d: "\<not> dbl_nan ?d" using nodes_okD [OF assms(1)] False by simp
    obtain ok fs fe where g: "GetRangeByLexForCurrentScore xs ?d spec = Some (ok, fs, fe)"
        "selects (Some (fs, fe)) xs ?R" "ok \<or> filter ?R xs = []"
      using lex_current_score [OF assms(1) d assms(2,3)] by blast
    have n: "(if ok then dist fs fe else Some 0) = Some (length (filter ?R xs))"
      using selects_size [OF g(2)] g(3) by (auto simp: range_size_def)
    note st = border_step [OF assms(1) Suc.prems(1)]
    have "filter (lex_node spec a b) (drop i xs) =
        filter ?R xs @ filter (lex_node spec a b) (drop (upper_score ?d xs) xs)"
      using False by (subst st(2)) (simp_all add: conj_commute)
    moreover have "lex_count fuel xs spec (upper_score ?d xs) =
        Some (length (filter (lex_node spec a b) (drop (upper_score ?d xs) xs)))"
      using Suc.prems st(1) False by (intro Suc.IH) (auto simp: border_upper [OF assms(1) d])
    ultimately show ?thesis using False by (subst lex_count.simps) (simp add: g(1) n)
  qed (subst lex_count.simps, auto)
qed

section \<open>States\<close>

abbreviation name_of :: "znode \<Rightarrow> bytes" where
  "name_of n \<equiv> StringView (fst n)"

definition ranking :: "zset_obj \<Rightarrow> (bytes \<times> u64) list" where
  "ranking z = map node_pair (z_ordered_set z)"

definition zset_wf :: "zset_obj \<Rightarrow> bool" where
  "zset_wf z \<longleftrightarrow> zset_inv z \<and> nodes_ok (z_ordered_set z)"

definition zbytes :: "bytes list \<Rightarrow> nat" where
  "zbytes bs = 5 + (\<Sum>b \<leftarrow> bs. 12 + length b)"

definition zset_state :: "zset_obj \<Rightarrow> bool" where
  "zset_state z \<longleftrightarrow> zset_wf z \<and> zbytes (map fst (ranking z)) \<le> 268435456"

lemma sum_list_mset: "mset m = mset m' \<Longrightarrow> (\<Sum>x \<leftarrow> m. f x) = (\<Sum>x \<leftarrow> m'. f x :: u64)"
  by (drule arg_cong [where f = "\<lambda>M. sum_mset (image_mset f M)"]) (simp only: sum_mset_sum_list mset_map [symmetric])

lemma zset_wfD:
  assumes "zset_wf z"
  shows "distinct (map name_of (z_ordered_set z))" "scores z = map_of (ranking z)"
    and "n \<in> set (z_ordered_set z) \<Longrightarrow> scores z (name_of n) = Some (snd n)"
    and "zset_slen z = of_nat (zbytes (map fst (ranking z)))"
    and "length (z_hash_map z) = length (z_ordered_set z)"
proof -
  have m: "mset (ranking z) = mset (z_hash_map z)" and p: "pairs_ok (z_hash_map z)"
    and l: "zset_slen z = 5 + (\<Sum>fs \<leftarrow> z_hash_map z. 12 + of_nat (length (fst fs)))"
    using assms by (simp_all add: zset_wf_def zset_inv_def ranking_def)
  have "distinct (map fst (ranking z))" using pairs_ok_mset [OF m] p by (simp add: pairs_ok_def)
  moreover have f: "map fst (ranking z) = map name_of (z_ordered_set z)" by (simp add: ranking_def node_pair_def)
  ultimately show d: "distinct (map name_of (z_ordered_set z))" by simp
  show s: "scores z = map_of (ranking z)"
    using map_of_mset [OF m [symmetric]] p by (simp add: scores_def pairs_ok_def)
  show "scores z (name_of n) = Some (snd n)" if "n \<in> set (z_ordered_set z)"
    unfolding s using d that by (intro map_of_is_SomeI) (auto simp: ranking_def node_pair_def comp_def)
  have "(\<Sum>fs \<leftarrow> ps. 12 + of_nat (length (fst fs))) = (of_nat (\<Sum>b \<leftarrow> map fst ps. 12 + length b) :: u64)"
    for ps :: "(bytes \<times> u64) list" by (induction ps) simp_all
  moreover have "(\<Sum>fs \<leftarrow> ranking z. 12 + of_nat (length (fst fs)) :: u64) =
      (\<Sum>fs \<leftarrow> z_hash_map z. 12 + of_nat (length (fst fs)))"
    by (rule sum_list_mset [OF m])
  ultimately show "zset_slen z = of_nat (zbytes (map fst (ranking z)))" using l by (simp add: zbytes_def)
  show "length (z_hash_map z) = length (z_ordered_set z)" using mset_eq_length [OF m] by (simp add: ranking_def)
qed

lemma zset_wfI:
  assumes "nodes_ok xs" "distinct (map name_of xs)" "mset m = mset (map node_pair xs)"
    and "slen = of_nat (zbytes (map name_of xs))"
  shows "zset_wf \<lparr>z_ordered_set = xs, z_hash_map = m, zset_slen = slen\<rparr>"
proof -
  have s: "storable (fst n) \<and> \<not> dbl_nan (snd n)" if "n \<in> set xs" for n by (rule nodes_okD [OF assms(1) that])
  have "pairs_ok (map node_pair xs)"
    using assms(2) s by (auto simp: pairs_ok_def node_pair_def comp_def list_all_iff storable_def es_short_def)
  then have p: "pairs_ok m" using pairs_ok_mset [OF assms(3)] by simp
  have "(\<Sum>fs \<leftarrow> m. 12 + of_nat (length (fst fs)) :: u64) = (\<Sum>fs \<leftarrow> map node_pair xs. 12 + of_nat (length (fst fs)))"
    by (rule sum_list_mset [OF assms(3)])
  also have "\<dots> = of_nat (\<Sum>b \<leftarrow> map name_of xs. 12 + length b)" by (induction xs) (simp_all add: node_pair_def)
  finally show ?thesis using assms(1,3,4) p by (simp add: zset_wf_def zset_inv_def zbytes_def)
qed

lemma zset_state_new [simp]: "zset_state RedisZsetObject" "ranking RedisZsetObject = []"
  by (simp_all add: zset_state_def zset_wf_def zset_inv_def RedisZsetObject_def pairs_ok_def ranking_def zbytes_def)

lemma zset_state_limit: "zset_state z \<Longrightarrow> within_limit z = Some z"
  using of_nat_gt_MAX [of "zbytes (map fst (ranking z))"] zset_wfD(4) [of z]
  by (auto simp: zset_state_def within_limit_def not_less)

section \<open>Removing\<close>

lemma zbytes_filter: "zbytes (map f (filter P xs)) \<le> zbytes (map f xs)"
  by (induction xs) (auto simp: zbytes_def)

lemma fold_zh_erase: "fold (\<lambda>n. zh_erase (name_of n)) ns m = filter (\<lambda>p. fst p \<notin> name_of ` set ns) m"
  by (induction ns arbitrary: m) (auto simp: zh_erase_def intro!: filter_cong)

lemma node_size_short: "storable f \<Longrightarrow> node_size f = of_nat (12 + length (StringView f))"
  by (simp add: node_size_def es_length_def storable_def es_short_def)

text \<open>Taking the nodes with a property out of the set, the map and the length.\<close>

lemma remove_nodes:
  assumes "zset_wf z"
  shows "zset_wf \<lparr>z_ordered_set = filter (\<lambda>n. \<not> P n) (z_ordered_set z),
      z_hash_map = filter (\<lambda>p. fst p \<notin> name_of ` set (filter P (z_ordered_set z))) (z_hash_map z),
      zset_slen = zset_slen z - (\<Sum>n \<leftarrow> filter P (z_ordered_set z). node_size (fst n))\<rparr>"
proof (rule zset_wfI)
  let ?xs = "z_ordered_set z" and ?Q = "\<lambda>p :: bytes \<times> u64. fst p \<notin> name_of ` set (filter P (z_ordered_set z))"
  have n: "nodes_ok ?xs" and m: "mset (map node_pair ?xs) = mset (z_hash_map z)"
    using assms by (simp_all add: zset_wf_def zset_inv_def)
  note d = zset_wfD(1) [OF assms]
  show "nodes_ok (filter (\<lambda>n. \<not> P n) ?xs)" by (rule nodes_ok_filter [OF n])
  show "distinct (map name_of (filter (\<lambda>n. \<not> P n) ?xs))" using d by (rule distinct_map_filter)
  have "\<not> P x \<longleftrightarrow> ?Q (node_pair x)" if "x \<in> set ?xs" for x
    using d that by (auto simp: node_pair_def distinct_map inj_on_def)
  then have "map node_pair (filter (\<lambda>n. \<not> P n) ?xs) = filter ?Q (map node_pair ?xs)"
    unfolding filter_map comp_def by (intro arg_cong [where f = "map node_pair"] filter_cong refl)
  then show "mset (filter ?Q (z_hash_map z)) = mset (map node_pair (filter (\<lambda>n. \<not> P n) ?xs))"
    by (simp only: mset_filter m)
  have st: "storable (fst x)" if "x \<in> set ?xs" for x using nodes_okD [OF n that] by simp
  have "(\<Sum>n \<leftarrow> filter P ys. node_size (fst n)) + of_nat (zbytes (map name_of (filter (\<lambda>n. \<not> P n) ys))) =
      (of_nat (zbytes (map name_of ys)) :: u64)" if "\<And>x. x \<in> set ys \<Longrightarrow> storable (fst x)" for ys
    using that by (induction ys) (auto simp: zbytes_def node_size_short algebra_simps)
  from this [of ?xs] st show "zset_slen z - (\<Sum>n \<leftarrow> filter P ?xs. node_size (fst n)) =
      of_nat (zbytes (map name_of (filter (\<lambda>n. \<not> P n) ?xs)))"
    using zset_wfD(4) [OF assms] by (simp add: ranking_def node_pair_def comp_def algebra_simps)
qed

lemma erase_between_removes:
  assumes "zset_wf z" "selects (Some (i, j)) (z_ordered_set z) P"
  shows "zset_wf (erase_between i j z)" "z_ordered_set (erase_between i j z) = filter (\<lambda>n. \<not> P n) (z_ordered_set z)"
  using remove_nodes [OF assms(1), of P] assms(2) by (simp_all add: erase_between_def selects_def Let_def fold_zh_erase)

lemma zset_state_filter:
  assumes "zset_state z" "zset_wf z'" "z_ordered_set z' = filter P (z_ordered_set z)"
  shows "zset_state z'"
  using assms zbytes_filter [of "fst \<circ> node_pair" P "z_ordered_set z"] by (simp add: zset_state_def ranking_def)

lemma erase_checked_removes:
  assumes "zset_state z" "selects (Some (i, j)) (z_ordered_set z) P"
  obtains z' where "erase_checked i j z = Some z'" "zset_state z'"
    and "z_ordered_set z' = filter (\<lambda>n. \<not> P n) (z_ordered_set z)"
proof -
  have wf: "zset_wf z" using assms(1) by (simp add: zset_state_def)
  have "map_of (z_hash_map z) (name_of n) \<noteq> None" if "n \<in> set (take (j - i) (drop i (z_ordered_set z)))" for n
    using zset_wfD(3) [OF wf, of n] that by (auto simp: scores_def dest!: in_set_takeD in_set_dropD)
  then have "erase_checked i j z = Some (erase_between i j z)"
    using assms(2) by (auto simp: erase_checked_def list_all_iff selects_def)
  with erase_between_removes [OF wf assms(2)] zset_state_filter [OF assms(1)] that show thesis by metis
qed

lemma zset_state_emptied: "zset_state z \<Longrightarrow> emptied z = Some (z, z_ordered_set z = [])"
  by (simp add: emptied_def zset_state_limit)

text \<open>Erasing within one score moves the border behind that score to the end of what is left of it.\<close>

lemma score_rest:
  assumes "nodes_ok xs" "border xs i" "i < length xs"
    and d_def: "d = snd (xs ! i)" and ys_def: "ys = filter (\<lambda>n. \<not> (dbl_ord (snd n) = dbl_ord (snd (xs ! i)) \<and> Q n)) xs"
  shows "border ys (upper_score d ys)" "drop (upper_score d ys) ys = drop (upper_score d xs) xs"
    and "take (upper_score d ys) ys = take i xs @ filter (\<lambda>n. \<not> Q n) (filter (\<lambda>n. dbl_ord (snd n) = dbl_ord d) xs)"
proof -
  define R where "R = (\<lambda>n. dbl_ord (snd n) = dbl_ord (snd (xs ! i)) \<and> Q n)"
  note ys_def = ys_def [folded R_def]
  have d: "\<not> dbl_nan d" using nodes_okD [OF assms(1)] assms(3) by (simp add: d_def)
  have i: "i = lower_score d xs" using assms(2,3) by (simp add: border_def d_def)
  have ok: "nodes_ok ys" unfolding ys_def by (rule nodes_ok_filter [OF assms(1)])
  show "border ys (upper_score d ys)" by (rule border_upper [OF ok d])
  have cut: "drop (upper_score d zs) zs = filter (\<lambda>n. dbl_less d (snd n)) zs"
      "take (upper_score d zs) zs = filter (\<lambda>n. \<not> dbl_less d (snd n)) zs" if "nodes_ok zs" for zs
    using initial_split [OF initial_bounds(2) [OF that d]] initial_takeWhile [OF initial_bounds(2) [OF that d]]
    by (simp_all add: upper_score_def) (metis append_eq_conv_conj)+
  have "filter (\<lambda>n. dbl_less d (snd n)) ys = filter (\<lambda>n. dbl_less d (snd n)) xs"
    unfolding ys_def filter_filter
    by (rule filter_cong) (auto simp: R_def d_def [symmetric] dbl_less_def)
  then show "drop (upper_score d ys) ys = drop (upper_score d xs) xs" using cut [OF ok] cut [OF assms(1)] by simp
  have low: "take i xs = filter (\<lambda>n. dbl_less (snd n) d) xs"
    using initial_split [OF initial_bounds(1) [OF assms(1) d]] initial_takeWhile [OF initial_bounds(1) [OF assms(1) d]]
    by (simp add: i lower_score_def) (metis append_eq_conv_conj)
  have "take (upper_score d ys) ys = filter (\<lambda>n. \<not> R n) (take (upper_score d xs) xs)"
    unfolding cut(2) [OF ok] cut(2) [OF assms(1)] unfolding ys_def filter_filter by (rule filter_cong) (auto simp: R_def)
  also have "\<dots> = filter (\<lambda>n. \<not> R n) (take i xs) @
      filter (\<lambda>n. \<not> R n) (filter (\<lambda>n. dbl_ord (snd n) = dbl_ord d) xs)"
    unfolding score_block(2) [OF assms(1) d] i by simp
  also have "filter (\<lambda>n. \<not> R n) (take i xs) = take i xs"
    unfolding low filter_filter by (rule filter_cong) (auto simp: R_def d_def [symmetric] dbl_less_def)
  also have "filter (\<lambda>n. \<not> R n) (filter (\<lambda>n. dbl_ord (snd n) = dbl_ord d) xs) =
      filter (\<lambda>n. \<not> Q n) (filter (\<lambda>n. dbl_ord (snd n) = dbl_ord d) xs)"
    unfolding filter_filter by (rule filter_cong) (auto simp: R_def d_def)
  finally show "take (upper_score d ys) ys =
      take i xs @ filter (\<lambda>n. \<not> Q n) (filter (\<lambda>n. dbl_ord (snd n) = dbl_ord d) xs)" .
qed

lemma lex_erase_removes:
  assumes "get_strs spec = Some (a, b)" "\<not> lex_trivial spec a b"
    and "zset_state z" "border (z_ordered_set z) i" "length (z_ordered_set z) - i \<le> fuel"
  shows "\<exists>z'. lex_erase fuel spec i z = Some z' \<and> zset_state z' \<and>
    z_ordered_set z' = take i (z_ordered_set z) @ filter (\<lambda>n. \<not> lex_node spec a b n) (drop i (z_ordered_set z))"
  using assms(3-5)
proof (induction fuel arbitrary: i z)
  case 0
  then show ?case by (subst lex_erase.simps) simp
next
  case (Suc fuel)
  let ?xs = "z_ordered_set z"
  have ok: "nodes_ok ?xs" using Suc.prems(1) by (simp add: zset_state_def zset_wf_def)
  show ?case
  proof (cases "i < length ?xs")
    case True
    let ?d = "snd (?xs ! i)"
    let ?R = "\<lambda>n. dbl_ord (snd n) = dbl_ord ?d \<and> lex_node spec a b n"
    have d: "\<not> dbl_nan ?d" using nodes_okD [OF ok] True by simp
    obtain succ fs fe where g: "GetRangeByLexForCurrentScore ?xs ?d spec = Some (succ, fs, fe)"
        "selects (Some (fs, fe)) ?xs ?R" "succ \<or> filter ?R ?xs = []"
      using lex_current_score [OF ok d assms(1,2)] by blast
    obtain z1 where e: "erase_checked fs fe z = Some z1" "zset_state z1"
        "z_ordered_set z1 = filter (\<lambda>n. \<not> ?R n) ?xs"
      using erase_checked_removes [OF Suc.prems(1) g(2)] by blast
    obtain z2 where z2: "(if succ then erase_checked fs fe z else Some z) = Some z2" "zset_state z2"
        "z_ordered_set z2 = filter (\<lambda>n. \<not> ?R n) ?xs"
    proof (cases succ)
      case True
      then show thesis using e by (intro that [of z1]) simp_all
    next
      case False
      then have "filter (\<lambda>n. \<not> ?R n) ?xs = ?xs" using g(3) by (auto simp: filter_empty_conv filter_id_conv)
      then show thesis using False Suc.prems(1) by (intro that [of z]) simp_all
    qed
    let ?j = "upper_score ?d (z_ordered_set z2)"
    note rest = score_rest [OF ok Suc.prems(2) True refl z2(3)]
    note st = border_step [OF ok Suc.prems(2) True]
    have len: "length (z_ordered_set z2) - ?j = length ?xs - upper_score ?d ?xs"
      using arg_cong [OF rest(2), of length] by simp
    obtain z' where z': "lex_erase fuel spec ?j z2 = Some z'" "zset_state z'"
        "z_ordered_set z' = take ?j (z_ordered_set z2) @ filter (\<lambda>n. \<not> lex_node spec a b n) (drop ?j (z_ordered_set z2))"
    proof -
      have "length (z_ordered_set z2) - ?j \<le> fuel" using len Suc.prems(3) st(1) True by simp
      from Suc.IH [OF z2(2) rest(1) this] that show thesis by blast
    qed
    have "z_ordered_set z' = take i ?xs @ filter (\<lambda>n. \<not> lex_node spec a b n) (drop i ?xs)"
      unfolding z'(3) rest(2,3) using arg_cong [OF st(2), of "filter (\<lambda>n. \<not> lex_node spec a b n)"] by simp
    moreover have "lex_erase (Suc fuel) spec i z = Some z'"
      using True by (subst lex_erase.simps) (simp add: g(1) z2(1) z'(1))
    ultimately show ?thesis using z'(2) by blast
  qed (subst lex_erase.simps, use Suc.prems in simp)
qed

section \<open>The three kinds of ranges\<close>

text \<open>The positions that two ranks name; negative ranks count from the end.\<close>

definition rank_in :: "int \<Rightarrow> int \<Rightarrow> nat \<Rightarrow> nat \<Rightarrow> bool" where
  "rank_in start stop n k \<longleftrightarrow>
     (if start < 0 then start + int n else start) \<le> int k \<and> int k \<le> (if stop < 0 then stop + int n else stop)"

text \<open>The members in a range, in order.\<close>

definition zrange_list :: "zrange_type \<Rightarrow> zrange_spec \<Rightarrow> znode list \<Rightarrow> znode list" where
  "zrange_list ty spec xs =
     (case ty of
        ZRANGE_AUTO \<Rightarrow> []
      | ZRANGE_RANK \<Rightarrow> (case get_ints spec of None \<Rightarrow> [] | Some (a, b) \<Rightarrow> nths xs {k. rank_in a b (length xs) k})
      | ZRANGE_SCORE \<Rightarrow> (case get_doubles spec of None \<Rightarrow> [] | Some (a, b) \<Rightarrow> filter (score_in spec a b) xs)
      | ZRANGE_LEX \<Rightarrow> (case get_strs spec of None \<Rightarrow> [] | Some (a, b) \<Rightarrow>
                         if null spec then [] else filter (lex_node spec a b) xs))"

text \<open>What the parser and the type of the range give, and that two excluded equal scores are not the score of a member.\<close>

definition zrange_ok :: "zrange_type \<Rightarrow> zrange_spec \<Rightarrow> znode list \<Rightarrow> bool" where
  "zrange_ok ty spec xs =
     (case ty of
        ZRANGE_AUTO \<Rightarrow> False
      | ZRANGE_RANK \<Rightarrow> (case get_ints spec of None \<Rightarrow> False | Some (a, b) \<Rightarrow> - (2 ^ 31) < b)
      | ZRANGE_SCORE \<Rightarrow> (case get_doubles spec of None \<Rightarrow> False | Some (a, b) \<Rightarrow>
                           \<not> dbl_nan a \<and> \<not> dbl_nan b \<and> \<not> score_crossed spec a b xs)
      | ZRANGE_LEX \<Rightarrow> null spec \<or> get_strs spec \<noteq> None)"

lemma nths_between: "i \<le> j \<Longrightarrow> nths xs {k. i \<le> k \<and> k < j} = take (j - i) (drop i xs)"
proof (induction xs arbitrary: i j)
  case (Cons x xs)
  show ?case
  proof (cases i)
    case 0
    show ?thesis
    proof (cases j)
      case (Suc j')
      have "{k. 0 \<le> Suc k \<and> Suc k < j} = {k. 0 \<le> k \<and> k < j'}" using Suc by auto
      with Cons.IH [of 0 j'] 0 Suc show ?thesis by (simp add: nths_Cons)
    qed (use 0 in \<open>simp add: nths_Cons\<close>)
  next
    case (Suc i')
    then obtain j' where j': "j = Suc j'" using Cons.prems by (cases j) auto
    have "{k. i \<le> Suc k \<and> Suc k < j} = {k. i' \<le> k \<and> k < j'}" using Suc j' by auto
    with Cons.IH [of i' j'] Cons.prems Suc j' show ?thesis by (simp add: nths_Cons)
  qed
qed simp

lemma nths_same: "(\<And>k. k < length xs \<Longrightarrow> k \<in> A \<longleftrightarrow> k \<in> B) \<Longrightarrow> nths xs A = nths xs B"
  unfolding nths_def by (intro arg_cong [where f = "map fst"] filter_cong refl) (auto dest!: set_zip_rightD)

lemma rank_range_positions:
  assumes "get_ints spec = Some (a, b)" "- (2 ^ 31) < b"
  obtains (none) "rank_range spec (length xs) = Some None" "nths xs {k. rank_in a b (length xs) k} = []"
  | (some) i j where "rank_range spec (length xs) = Some (Some (i, j))" "i \<le> j" "j \<le> length xs"
    and "nths xs {k. rank_in a b (length xs) k} = take (j - i) (drop i xs)"
proof -
  let ?n = "int (length xs)"
  define lo where "lo = (if a < 0 then max 0 (a + ?n) else a)"
  define hi where "hi = (if b < 0 then b + ?n else if b \<ge> ?n then ?n - 1 else b) + 1"
  have r: "rank_range spec (length xs) =
      (if a > 0 \<and> a \<ge> ?n \<or> b < 0 \<and> - b > ?n \<or> lo \<ge> hi then Some None else Some (Some (nat lo, nat hi)))"
    unfolding rank_range_def assms(1) Let_def lo_def [symmetric] hi_def [symmetric] using assms(2)
    by (simp add: lo_def [symmetric] hi_def [symmetric])
  have k: "rank_in a b (length xs) k \<longleftrightarrow> lo \<le> int k \<and> int k < hi" if "k < length xs" for k
    using that by (auto simp: rank_in_def lo_def hi_def)
  show thesis
  proof (cases "lo < hi \<and> \<not> (a > 0 \<and> a \<ge> ?n) \<and> \<not> (b < 0 \<and> - b > ?n)")
    case True
    then have 1: "0 \<le> lo" "hi \<le> ?n" by (auto simp: lo_def hi_def)
    have "nths xs {k. rank_in a b (length xs) k} = nths xs {k. nat lo \<le> k \<and> k < nat hi}"
      by (rule nths_same) (use k 1 True in auto)
    also have "\<dots> = take (nat hi - nat lo) (drop (nat lo) xs)" using True by (intro nths_between) auto
    finally show thesis using True 1 r by (intro some [of "nat lo" "nat hi"]) auto
  next
    case False
    then have "nths xs {k. rank_in a b (length xs) k} = nths xs {}"
      by (intro nths_same) (auto simp: k lo_def hi_def)
    then show thesis using False r by (intro none) auto
  qed
qed

lemma lex_trivial_none:
  assumes "lex_trivial spec a b"
  shows "\<not> lex_in spec a b x"
proof
  assume "lex_in spec a b x"
  then have l: "\<not> bytes_less x a" "minex spec \<Longrightarrow> bytes_less a x" and u: "\<not> bytes_less b x" "maxex spec \<Longrightarrow> bytes_less x b"
    using assms bytes_less_antisym [of a x] bytes_less_antisym [of x b]
    by (auto simp: lex_trivial_def lex_in_def split: if_splits)
  then show False using assms bytes_less_le [of b a x] by (auto simp: lex_trivial_def)
qed

text \<open>What the three walks of an answer give.\<close>

lemma ZRangeByRank_answers:
  assumes "zset_state z" "zrange_ok ZRANGE_RANK spec (z_ordered_set z)" "opt_offset arg = 0" "opt_limit arg = -1"
  shows "ZRangeByRank dtoa z arg spec =
    Some (members_of dtoa (opt_withscores arg) (zrange_list ZRANGE_RANK spec (turned (dir_reverse arg) (z_ordered_set z))))"
proof -
  let ?ys = "turned (dir_reverse arg) (z_ordered_set z)"
  obtain a b where g: "get_ints spec = Some (a, b)" "- (2 ^ 31) < b"
    using assms(2) by (auto simp: zrange_ok_def split: option.splits)
  from g show ?thesis
  proof (cases rule: rank_range_positions [where xs = ?ys])
    case none
    then show ?thesis using assms(3,4) g by (simp add: ZRangeByRank_def zrange_list_def members_of_def with_scores_def)
  next
    case (some i j)
    then show ?thesis
      using assms(3,4) g
      by (auto simp: ZRangeByRank_def zrange_list_def turned_def EmplaceForwardElements_def dist_def limited_def)
  qed
qed

lemma ZRangeByScore_answers:
  assumes "zset_state z" "zrange_ok ZRANGE_SCORE spec (z_ordered_set z)" "0 \<le> opt_offset arg"
  shows "ZRangeByScore dtoa z arg spec = Some (members_of dtoa (opt_withscores arg)
    (page (opt_offset arg) (opt_limit arg) (turned (dir_reverse arg) (zrange_list ZRANGE_SCORE spec (z_ordered_set z)))))"
proof -
  obtain a b where g: "get_doubles spec = Some (a, b)" "\<not> dbl_nan a" "\<not> dbl_nan b"
      "\<not> score_crossed spec a b (z_ordered_set z)"
    using assms(2) by (auto simp: zrange_ok_def split: option.splits)
  have "nodes_ok (z_ordered_set z)" using assms(1) by (simp add: zset_state_def zset_wf_def)
  from score_range_selects [OF this g] obtain rg where
    rg: "score_range spec (z_ordered_set z) = Some rg" "selects rg (z_ordered_set z) (score_in spec a b)" by blast
  show ?thesis
  proof (cases rg)
    case None
    with rg g(1) show ?thesis
      by (simp add: ZRangeByScore_def zrange_list_def selects_def page_def members_of_def with_scores_def)
  next
    case (Some ij)
    obtain i j where "ij = (i, j)" by (cases ij)
    with Some rg g(1) Emplace_page [OF _ assms(3), of i j "z_ordered_set z" "score_in spec a b" "dir_reverse arg"]
    show ?thesis by (simp add: ZRangeByScore_def zrange_list_def Let_def)
  qed
qed

lemma ZRangeByLex_answers:
  assumes "zset_state z" "zrange_ok ZRANGE_LEX spec (z_ordered_set z)" "0 \<le> opt_offset arg"
  shows "ZRangeByLex dtoa z arg spec = Some (members_of dtoa (opt_withscores arg)
    (page (opt_offset arg) (opt_limit arg) (turned (dir_reverse arg) (zrange_list ZRANGE_LEX spec (z_ordered_set z)))))"
proof -
  let ?xs = "z_ordered_set z"
  have ok: "nodes_ok ?xs" using assms(1) by (simp add: zset_state_def zset_wf_def)
  consider "null spec" | a b where "\<not> null spec" "get_strs spec = Some (a, b)" "lex_trivial spec a b"
    | a b where "\<not> null spec" "get_strs spec = Some (a, b)" "\<not> lex_trivial spec a b"
    using assms(2) by (auto simp: zrange_ok_def)
  then show ?thesis
  proof cases
    case 1
    then show ?thesis
      by (simp add: ZRangeByLex_def zrange_list_def page_def members_of_def with_scores_def split: option.split prod.split)
  next
    case (2 a b)
    note g = 2(2)
    show ?thesis
      using lex_trivial_none [OF 2(3)] 2
      by (simp add: ZRangeByLex_def zrange_list_def g page_def members_of_def with_scores_def)
  next
    case (3 a b)
    note g = 3(2)
    show ?thesis
      using lex_reverse_page [OF ok g 3(3) border_length order_refl assms(3)]
        lex_forward_page [OF ok g 3(3) border_0 [OF ok] _ assms(3), of "length ?xs"] 3
      by (simp add: ZRangeByLex_def zrange_list_def g turned_def)
  qed
qed

text \<open>How many members a removal takes out, and which are left.\<close>

lemma zremrange_counts:
  assumes "zset_state z" "zrange_ok ty spec (z_ordered_set z)"
  shows "zremrange_count z ty spec = Some (length (zrange_list ty spec (z_ordered_set z)))"
proof -
  let ?xs = "z_ordered_set z"
  have ok: "nodes_ok ?xs" using assms(1) by (simp add: zset_state_def zset_wf_def)
  show ?thesis
  proof (cases ty)
    case ZRANGE_AUTO
    then show ?thesis using assms(2) by (simp add: zrange_ok_def)
  next
    case ZRANGE_RANK
    then obtain a b where g: "get_ints spec = Some (a, b)" "- (2 ^ 31) < b"
      using assms(2) by (auto simp: zrange_ok_def split: option.splits)
    then show ?thesis
      by (cases rule: rank_range_positions [where xs = ?xs])
         (simp_all add: g ZRANGE_RANK zremrange_count_def zrange_list_def range_size_def dist_def)
  next
    case ZRANGE_SCORE
    then obtain a b where g: "get_doubles spec = Some (a, b)" "\<not> dbl_nan a" "\<not> dbl_nan b" "\<not> score_crossed spec a b ?xs"
      using assms(2) by (auto simp: zrange_ok_def split: option.splits)
    obtain rg where "score_range spec ?xs = Some rg" "selects rg ?xs (score_in spec a b)"
      using score_range_selects [OF ok g] by blast
    then show ?thesis by (simp add: ZRANGE_SCORE zremrange_count_def zrange_list_def g(1) selects_size)
  next
    case ZRANGE_LEX
    show ?thesis
    proof (cases "null spec")
      case True
      then show ?thesis
        by (simp add: ZRANGE_LEX zremrange_count_def ZRemRangeByLex_def zrange_list_def split: option.split prod.split)
    next
      case False
      then obtain a b where g: "get_strs spec = Some (a, b)" using assms(2) ZRANGE_LEX by (auto simp: zrange_ok_def)
      show ?thesis
        using False lex_trivial_none [of spec a b] lex_count_length [OF ok g _ border_0 [OF ok], of "length ?xs"]
        by (auto simp: ZRANGE_LEX zremrange_count_def ZRemRangeByLex_def zrange_list_def g)
    qed
  qed
qed

lemma filter_middle:
  assumes "distinct (us @ ms @ vs)"
  shows "filter (\<lambda>n. n \<in> set ms) (us @ ms @ vs) = ms" "filter (\<lambda>n. n \<notin> set ms) (us @ ms @ vs) = us @ vs"
proof -
  have "\<forall>n \<in> set us \<union> set vs. n \<notin> set ms" using assms by auto
  then have "filter (\<lambda>n. n \<in> set ms) us = []" "filter (\<lambda>n. n \<in> set ms) vs = []"
      "filter (\<lambda>n. n \<notin> set ms) us = us" "filter (\<lambda>n. n \<notin> set ms) vs = vs"
    by (simp_all add: filter_empty_conv filter_id_conv)
  then show "filter (\<lambda>n. n \<in> set ms) (us @ ms @ vs) = ms" "filter (\<lambda>n. n \<notin> set ms) (us @ ms @ vs) = us @ vs"
    by simp_all
qed

lemma selects_positions:
  assumes "distinct xs" "i \<le> j" "j \<le> length xs"
  shows "selects (Some (i, j)) xs (\<lambda>n. n \<in> set (take (j - i) (drop i xs)))"
proof -
  let ?m = "take (j - i) (drop i xs)"
  have x: "take i xs @ ?m @ drop j xs = xs"
    using assms(2) append_take_drop_id [of i xs] append_take_drop_id [of "j - i" "drop i xs"] by simp
  show ?thesis
    using filter_middle [of "take i xs" ?m "drop j xs", unfolded x, OF assms(1)] assms(2,3) by (simp add: selects_def)
qed

text \<open>A commit of positions takes them out.\<close>

lemma positions_removed:
  assumes "zset_state z" "selects (Some (i, j)) (z_ordered_set z) P"
  shows "\<exists>z'. erase_checked i j z \<bind> emptied = Some (z', z_ordered_set z' = []) \<and> zset_state z' \<and>
    z_ordered_set z' = filter (\<lambda>n. n \<notin> set (filter P (z_ordered_set z))) (z_ordered_set z)"
proof -
  obtain z' where z': "erase_checked i j z = Some z'" "zset_state z'"
      "z_ordered_set z' = filter (\<lambda>n. \<not> P n) (z_ordered_set z)"
    using erase_checked_removes [OF assms] by blast
  moreover have "filter (\<lambda>n. n \<notin> set (filter P xs)) xs = filter (\<lambda>n. \<not> P n) xs" for xs
    by (rule filter_cong) auto
  ultimately show ?thesis using zset_state_emptied [OF z'(2)] by auto
qed

lemma CommitZRemRange_removes:
  assumes "zset_state z" "zrange_ok ty spec (z_ordered_set z)" "zrange_list ty spec (z_ordered_set z) \<noteq> []"
  shows "\<exists>z'. CommitZRemRange z ty spec = Some (z', z_ordered_set z' = []) \<and> zset_state z' \<and>
    z_ordered_set z' = filter (\<lambda>n. n \<notin> set (zrange_list ty spec (z_ordered_set z))) (z_ordered_set z)"
proof -
  let ?xs = "z_ordered_set z"
  have ok: "nodes_ok ?xs" using assms(1) by (simp add: zset_state_def zset_wf_def)
  show ?thesis
  proof (cases ty)
    case ZRANGE_AUTO
    then show ?thesis using assms(2) by (simp add: zrange_ok_def)
  next
    case ZRANGE_RANK
    then obtain a b where g: "get_ints spec = Some (a, b)" "- (2 ^ 31) < b"
      using assms(2) by (auto simp: zrange_ok_def split: option.splits)
    then show ?thesis
    proof (cases rule: rank_range_positions [where xs = ?xs])
      case none
      then show ?thesis using assms(3) ZRANGE_RANK g by (simp add: zrange_list_def)
    next
      case (some i j)
      note sel = selects_positions [OF nodes_ok_distinct [OF ok] some(2,3)]
      then have "filter (\<lambda>n. n \<in> set (take (j - i) (drop i ?xs))) ?xs = zrange_list ty spec ?xs"
        using some(4) ZRANGE_RANK g(1) by (simp add: selects_def zrange_list_def)
      with positions_removed [OF assms(1) sel] some(1) ZRANGE_RANK show ?thesis by (simp add: CommitZRemRange_def)
    qed
  next
    case ZRANGE_SCORE
    then obtain a b where g: "get_doubles spec = Some (a, b)" "\<not> dbl_nan a" "\<not> dbl_nan b" "\<not> score_crossed spec a b ?xs"
      using assms(2) by (auto simp: zrange_ok_def split: option.splits)
    have l: "zrange_list ty spec ?xs = filter (score_in spec a b) ?xs" by (simp add: ZRANGE_SCORE zrange_list_def g(1))
    obtain rg where rg: "score_range spec ?xs = Some rg" "selects rg ?xs (score_in spec a b)"
      using score_range_selects [OF ok g] by blast
    obtain i j where "rg = Some (i, j)"
      using rg(2) assms(3) unfolding l by (cases rg) (auto simp: selects_def)
    with positions_removed [OF assms(1), of i j "score_in spec a b"] rg ZRANGE_SCORE l show ?thesis
      by (simp add: CommitZRemRange_def)
  next
    case ZRANGE_LEX
    then obtain a b where g: "get_strs spec = Some (a, b)"
      using assms(2,3) by (auto simp: zrange_ok_def zrange_list_def split: option.splits)
    have n: "\<not> null spec" and l: "zrange_list ty spec ?xs = filter (lex_node spec a b) ?xs"
      using assms(3) by (auto simp: ZRANGE_LEX zrange_list_def g split: if_splits)
    have t: "\<not> lex_trivial spec a b" using assms(3) lex_trivial_none [of spec a b] unfolding l by auto
    obtain z' where z': "lex_erase (length ?xs) spec 0 z = Some z'" "zset_state z'"
        "z_ordered_set z' = filter (\<lambda>n. \<not> lex_node spec a b n) ?xs"
      using lex_erase_removes [OF g t assms(1) border_0 [OF ok], of "length ?xs"] by auto
    moreover have "filter (\<lambda>n. n \<notin> set (filter (lex_node spec a b) ?xs)) ?xs = filter (\<lambda>n. \<not> lex_node spec a b n) ?xs"
      by (rule filter_cong) auto
    ultimately show ?thesis using zset_state_emptied [OF z'(2)] g t unfolding l by (simp add: ZRANGE_LEX CommitZRemRange_def)
  qed
qed

end
