(* ===== verification/ZsetAdd.thy ===== *)
theory ZsetAdd
  imports ZsetLaws "HOL-Library.Sublist"
begin

text \<open>
  Adding to a sorted set and removing from it by name or from an end.  \<^verbatim>\<open>ZADD\<close> filters its arguments when it executes
  and again when it commits; both filters are one fold over the map from members to scores.
\<close>

section \<open>One node\<close>

definition lacks :: "zset_obj \<Rightarrow> bytes \<Rightarrow> zset_obj" where
  "lacks z b =
     \<lparr>z_ordered_set = filter (\<lambda>n. name_of n \<noteq> b) (z_ordered_set z), z_hash_map = zh_erase b (z_hash_map z),
      zset_slen = (if scores z b = None then zset_slen z else zset_slen z - of_nat (12 + length b))\<rparr>"

lemma filter_one:
  assumes "distinct (map f xs)" "x \<in> set xs"
  shows "filter (\<lambda>y. f y = f x) xs = [x]" "filter (\<lambda>y. f y \<noteq> f x) xs = remove1 x xs"
proof -
  obtain us vs where xs: "xs = us @ [x] @ vs" using split_list [OF assms(2)] by auto
  then have n: "\<forall>y \<in> set us \<union> set vs. f y \<noteq> f x" using assms(1) by (auto simp: image_iff eq_commute)
  then have "x \<notin> set us" by auto
  with n show "filter (\<lambda>y. f y = f x) xs = [x]" "filter (\<lambda>y. f y \<noteq> f x) xs = remove1 x xs"
    by (simp_all add: xs filter_empty_conv filter_id_conv remove1_append)
qed

lemma scores_node:
  assumes "zset_wf z" "scores z b = Some c"
  obtains n where "n \<in> set (z_ordered_set z)" "name_of n = b" "snd n = c"
  using assms(2) unfolding zset_wfD(2) [OF assms(1)]
  by (auto simp: ranking_def node_pair_def dest!: map_of_SomeD)

lemma scores_none:
  assumes "zset_wf z"
  shows "scores z b = None \<longleftrightarrow> b \<notin> name_of ` set (z_ordered_set z)"
  unfolding zset_wfD(2) [OF assms] map_of_eq_None_iff by (force simp: ranking_def node_pair_def)

lemma map_of_zh_erase: "map_of (zh_erase b m) = (map_of m)(b := None)"
  by (induction m) (auto simp: zh_erase_def fun_eq_iff)

lemma find_self: "x \<in> set xs \<Longrightarrow> find (\<lambda>y. y = x) xs = Some x"
  by (induction xs) auto

lemma lacks_none:
  assumes "zset_wf z" "scores z b = None"
  shows "lacks z b = z"
proof -
  have "b \<notin> name_of ` set (z_ordered_set z)" "b \<notin> fst ` set (z_hash_map z)"
    using assms scores_none by (auto simp: scores_def map_of_eq_None_iff)
  then show ?thesis
    using assms(2) by (cases z) (auto simp: lacks_def zh_erase_def filter_id_conv)
qed

lemma lacks_wf:
  assumes "zset_wf z"
  shows "zset_wf (lacks z b)" "scores (lacks z b) = (scores z)(b := None)"
proof -
  let ?xs = "z_ordered_set z"
  show wf: "zset_wf (lacks z b)"
  proof (cases "scores z b")
    case None
    then show ?thesis using assms by (simp add: lacks_none)
  next
    case (Some c)
    obtain n where n: "n \<in> set ?xs" "name_of n = b" using scores_node [OF assms Some] by blast
    have "filter (\<lambda>m. name_of m = b) ?xs = [n]" using filter_one(1) [OF zset_wfD(1) [OF assms] n(1)] n(2) by simp
    moreover have "storable (fst n)" using assms nodes_okD [OF _ n(1)] by (simp add: zset_wf_def)
    ultimately show ?thesis
      using remove_nodes [OF assms, of "\<lambda>m. name_of m = b"] Some n(2)
      by (simp add: lacks_def zh_erase_def node_size_short)
  qed
  show "scores (lacks z b) = (scores z)(b := None)"
    by (simp add: scores_def lacks_def map_of_zh_erase)
qed

text \<open>\<^verbatim>\<open>find\<close> and \<^verbatim>\<open>erase\<close> by a node that views the name.\<close>

lemma zs_erase_name:
  assumes "zset_wf z" "scores z (StringView f) = Some c"
  shows "zs_erase (f, c) (z_ordered_set z) = Some (filter (\<lambda>n. name_of n \<noteq> StringView f) (z_ordered_set z))"
proof -
  let ?xs = "z_ordered_set z"
  obtain n where n: "n \<in> set ?xs" "name_of n = StringView f" "snd n = c" using scores_node [OF assms] by blast
  have nan: "\<not> dbl_nan (snd m)" if "m \<in> set ?xs" for m
    using assms(1) nodes_okD [OF _ that] by (simp add: zset_wf_def)
  have eq: "zequiv (f, c) m \<longleftrightarrow> m = n" if "m \<in> set ?xs" for m
  proof
    assume "zequiv (f, c) m"
    then have "name_of m = name_of n"
      using zcmp_total [of "(f, c)" m] nan [OF that] nan [OF n(1)] n(2,3) by (auto simp: zequiv_def)
    then show "m = n" using zset_wfD(1) [OF assms(1)] that n(1) by (auto simp: distinct_map dest: inj_onD)
  next
    assume "m = n"
    then show "zequiv (f, c) m" using n(2,3) nan [OF n(1)] by (auto simp: zequiv_def zcmp_iff)
  qed
  have "find (zequiv (f, c)) ?xs = find (\<lambda>m. m = n) ?xs" by (rule find_cong [OF refl]) (rule eq)
  also have "\<dots> = Some n" by (rule find_self [OF n(1)])
  finally show ?thesis
    using filter_one(2) [OF zset_wfD(1) [OF assms(1)] n(1)] n(2) by (simp add: zs_erase_def)
qed

lemma insert_wf:
  assumes "zset_wf z" "scores z (StringView f) = None" "arg_ok f" "\<not> dbl_nan d"
  shows "zset_wf \<lparr>z_ordered_set = zs_insert (fst (adopt keep f), d) (z_ordered_set z),
      z_hash_map = z_hash_map z @ [(StringView f, d)], zset_slen = zset_slen z + node_size f\<rparr>"
proof (rule zset_wfI)
  let ?n = "(fst (adopt keep f), d)" and ?xs = "z_ordered_set z"
  have ok: "nodes_ok ?xs" and m: "mset (map node_pair ?xs) = mset (z_hash_map z)"
    using assms(1) by (simp_all add: zset_wf_def zset_inv_def)
  show "nodes_ok (zs_insert ?n ?xs)" using assms(3,4) by (intro nodes_ok_insert [OF ok]) simp_all
  have fresh: "StringView f \<notin> name_of ` set ?xs" using scores_none [OF assms(1)] assms(2) by blast
  then have i: "mset (zs_insert ?n ?xs) = add_mset ?n (mset ?xs)"
    using assms(3,4) nodes_okD [OF ok] by (intro mset_zs_insert) (auto simp: image_iff)
  then show "mset (z_hash_map z @ [(StringView f, d)]) = mset (map node_pair (zs_insert ?n ?xs))"
    using m assms(3) by (simp add: node_pair_def)
  have names: "mset (map name_of (zs_insert ?n ?xs)) = mset (StringView f # map name_of ?xs)" using i assms(3) by simp
  then show "distinct (map name_of (zs_insert ?n ?xs))"
    using mset_eq_imp_distinct_iff [OF names] zset_wfD(1) [OF assms(1)] fresh by simp
  have "zbytes (map name_of (zs_insert ?n ?xs)) = zbytes (map name_of ?xs) + (12 + length (StringView f))"
    using arg_cong [OF names, of "\<lambda>M. sum_mset (image_mset (\<lambda>b. 12 + length b) M)"]
    by (simp only: sum_mset_sum_list mset_map [symmetric]) (simp add: zbytes_def)
  then show "zset_slen z + node_size f = of_nat (zbytes (map name_of (zs_insert ?n ?xs)))"
    using zset_wfD(4) [OF assms(1)] arg_ok_length [OF assms(3)]
    by (simp add: ranking_def node_pair_def comp_def node_size_def es_length_def)
qed

definition new_score :: "bool \<Rightarrow> u64 \<Rightarrow> u64 option \<Rightarrow> u64" where
  "new_score incr num cur = (if incr then dbl_add num (case cur of None \<Rightarrow> 0 | Some c \<Rightarrow> c) else num)"

lemma update_element_updates:
  assumes "zset_wf z" "arg_ok f" "\<not> dbl_nan (new_score incr num (scores z (StringView f)))"
  obtains z' where "update_element incr keep (num, f) z = Some z'" "zset_wf z'"
    and "scores z' = (scores z)(StringView f \<mapsto> new_score incr num (scores z (StringView f)))"
proof -
  let ?b = "StringView f"
  let ?y = "lacks z ?b" and ?d = "new_score incr num (scores z ?b)"
  let ?z = "\<lparr>z_ordered_set = zs_insert (fst (adopt keep f), ?d) (z_ordered_set ?y),
      z_hash_map = z_hash_map ?y @ [(?b, ?d)], zset_slen = zset_slen ?y + node_size f\<rparr>"
  have wf: "zset_wf ?z" using lacks_wf [OF assms(1), of ?b] assms(2,3) by (intro insert_wf) simp_all
  have size: "node_size f = of_nat (12 + length ?b)"
    using arg_ok_length [OF assms(2)] by (simp add: node_size_def es_length_def)
  have nodes: "(case scores z ?b of None \<Rightarrow> Some (z_ordered_set z) | Some c \<Rightarrow> zs_erase (f, c) (z_ordered_set z)) =
      Some (z_ordered_set ?y)"
  proof (cases "scores z ?b")
    case None
    then have "\<forall>n \<in> set (z_ordered_set z). name_of n \<noteq> ?b" using scores_none [OF assms(1), of ?b] by force
    then show ?thesis using None by (simp add: lacks_def)
  qed (simp add: lacks_def zs_erase_name [OF assms(1)])
  have "update_element incr keep (num, f) z = Some ?z"
    using nodes unfolding update_element_def Let_def prod.case scores_def [symmetric] new_score_def [symmetric]
    by (simp add: lacks_def size)
  moreover have "scores ?z = (scores z)(?b \<mapsto> ?d)"
    using lacks_wf(2) [OF assms(1), of ?b] by (auto simp: scores_def map_add_def fun_eq_iff split: option.splits)
  ultimately show thesis using wf that by blast
qed

section \<open>What ZADD means\<close>

text \<open>What the parser lets through.\<close>

definition zflags_ok :: "nat \<Rightarrow> bool" where
  "zflags_ok flags \<longleftrightarrow> \<not> (z_NX flags \<and> (z_XX flags \<or> z_GT flags \<or> z_LT flags)) \<and> \<not> (z_GT flags \<and> z_LT flags)"

text \<open>
  One score and member against the present score: \<open>None\<close> when the options keep the present state, otherwise whether the
  member counts in the answer and whether the sorted set changes.
\<close>

definition zadd_one :: "nat \<Rightarrow> u64 \<Rightarrow> u64 option \<Rightarrow> (bool \<times> bool) option" where
  "zadd_one flags num cur =
     (case cur of
        None \<Rightarrow> if z_XX flags then None else Some (True, True)
      | Some c \<Rightarrow>
          if z_NX flags \<or> (z_GT flags \<and> \<not> dbl_less c num) \<or> (z_LT flags \<and> \<not> dbl_less num c) then None
          else Some (z_CH flags \<and> dbl_ne num c, dbl_ne num c))"

fun zadd_all :: "nat \<Rightarrow> (bytes \<Rightarrow> u64 option) \<Rightarrow> (u64 \<times> bytes) list \<Rightarrow> (bytes \<Rightarrow> u64 option) \<times> int \<times> bool" where
  "zadd_all flags M [] = (M, 0, False)"
| "zadd_all flags M ((num, b) # es) =
     (case zadd_one flags num (M b) of
        None \<Rightarrow> zadd_all flags M es
      | Some (counted, modifies) \<Rightarrow>
          let (M', cnt, modified) = zadd_all flags (M(b \<mapsto> num)) es
          in (M', (if counted then 1 else 0) + cnt, modifies \<or> modified))"

fun put_all :: "(bytes \<Rightarrow> u64 option) \<Rightarrow> (u64 \<times> bytes) list \<Rightarrow> bytes \<Rightarrow> u64 option" where
  "put_all M [] = M"
| "put_all M ((num, b) # es) = put_all (M(b \<mapsto> num)) es"

abbreviation bare :: "zelem list \<Rightarrow> (u64 \<times> bytes) list" where
  "bare es \<equiv> map (\<lambda>e. (fst e, StringView (snd e))) es"

lemma dbl_ne_sym: "dbl_ne a b = dbl_ne b a"
  by (auto simp: dbl_ne_def)

lemma dbl_less_ne: "dbl_less a b \<Longrightarrow> dbl_ne a b" "dbl_less a b \<Longrightarrow> dbl_ne b a"
  by (auto simp: dbl_less_def dbl_ne_def)

text \<open>The five loops decide by the present score: the one given earlier in the command, else the stored one.\<close>

lemma zadd_decide_one:
  assumes "zflags_ok flags"
  shows "zadd_decide flags num hash used = zadd_one flags num (case used of None \<Rightarrow> hash | Some c \<Rightarrow> Some c)"
proof -
  have "zadd_decide flags num hash used = zadd_one flags num cur"
    if "used = None \<and> hash = cur \<or> used = cur \<and> cur \<noteq> None" for cur
    using assms that
    by (cases cur)
       (auto simp: zadd_decide_def zadd_one_def zflags_ok_def ZAddLT_def ZAddGT_def zadd_cmp_def ZAddNX_def ZAddXX_def
         ZAdd_plain_def Let_def dbl_ne_sym dbl_less_ne)
  then show ?thesis by (cases used) auto
qed

lemma unless_None: "(if P then None else x) = Some y \<Longrightarrow> x = Some y"
  by (cases P) simp_all

lemma zadd_loop_keeps:
  assumes "zadd_loop d hash i r used views ((num, f) # es) = Some (ks, cnt, modified)"
    and "d num (hash (StringView f)) (used (StringView f)) = Some (c, m)"
  obtains ks' cnt' m' vs g where
    "zadd_loop d hash (Suc i) (Suc r) (used(StringView f \<mapsto> num)) vs es = Some (ks', cnt', m')"
    "ks = (num, g) # ks'" "cnt = (if c then 1 else 0) + cnt'" "modified = (m \<or> m')"
    "g = f \<or> g = fst (es_move f)"
proof -
  let ?vs = "if used (StringView f) = None \<and> es_type f = ST_Stack then views(i \<mapsto> StringView f) else views"
  let ?rest = "zadd_loop d hash (Suc i) (Suc r) (used(StringView f \<mapsto> num)) ?vs es"
  have "(if r \<noteq> i \<and> overwrites (views r) f then None
      else map_option (\<lambda>(ks, cnt, modified). ((num, if r = i then f else fst (es_move f)) # ks,
      (if c then 1 else 0) + cnt, m \<or> modified)) ?rest) = Some (ks, cnt, modified)"
    using assms(1) by (simp only: zadd_loop.simps Let_def assms(2) option.case prod.case)
  then have "map_option (\<lambda>(ks, cnt, modified). ((num, if r = i then f else fst (es_move f)) # ks,
      (if c then 1 else 0) + cnt, m \<or> modified)) ?rest = Some (ks, cnt, modified)"
    by (rule unless_None)
  then obtain ks' cnt' m' where l: "?rest = Some (ks', cnt', m')" "cnt = (if c then 1 else 0) + cnt'" "modified = (m \<or> m')"
      "ks = (num, if r = i then f else fst (es_move f)) # ks'"
    unfolding map_option_eq_Some by auto
  show thesis by (rule that [OF l(1,4,2,3)]) simp
qed

lemma zadd_loop_all:
  assumes "zflags_ok flags" "zadd_loop (zadd_decide flags) hash i r used views es = Some (ks, cnt, modified)"
  shows "zadd_all flags (hash ++ used) (bare es) = (put_all (hash ++ used) (bare ks), cnt, modified)"
  using assms(2)
proof (induction es arbitrary: i r used views ks cnt modified)
  case (Cons e es)
  obtain num f where e: "e = (num, f)" by (cases e)
  let ?b = "StringView f"
  have dec: "zadd_decide flags num (hash ?b) (used ?b) = zadd_one flags num ((hash ++ used) ?b)"
    using zadd_decide_one [OF assms(1)] by (simp add: map_add_def)
  show ?case
  proof (cases "zadd_one flags num ((hash ++ used) ?b)")
    case None
    with Cons.prems dec Cons.IH [of "Suc i" r used views] show ?thesis by (simp add: e)
  next
    case (Some cm)
    obtain c m where cm: "cm = (c, m)" by (cases cm)
    have "zadd_decide flags num (hash ?b) (used ?b) = Some (c, m)" using dec Some cm by simp
    from Cons.prems [unfolded e] this show ?thesis
    proof (rule zadd_loop_keeps)
      fix ks' cnt' m' vs g
      assume l: "zadd_loop (zadd_decide flags) hash (Suc i) (Suc r) (used(?b \<mapsto> num)) vs es = Some (ks', cnt', m')"
        "ks = (num, g) # ks'" "cnt = (if c then 1 else 0) + cnt'" "modified = (m \<or> m')" "g = f \<or> g = fst (es_move f)"
      have "StringView g = ?b" using l(5) by auto
      then show ?thesis using Some cm Cons.IH [OF l(1), unfolded map_add_upd] by (simp add: e l(2-4) del: fun_upd_apply)
    qed
  qed
qed simp

text \<open>What the filter kept passes it again unchanged, from the same state.\<close>

lemma zadd_loop_again:
  "zadd_loop d hash i r used views es = Some (ks, cnt, modified) \<Longrightarrow>
   zadd_loop d hash k k used views' ks = Some (ks, cnt, modified)"
proof (induction es arbitrary: i r used views ks cnt modified k views')
  case (Cons e es)
  obtain num f where e: "e = (num, f)" by (cases e)
  let ?b = "StringView f"
  show ?case
  proof (cases "d num (hash ?b) (used ?b)")
    case None
    with Cons.prems Cons.IH [of "Suc i" r used views] show ?thesis by (simp add: e)
  next
    case (Some cm)
    obtain c m where cm: "cm = (c, m)" by (cases cm)
    from Cons.prems [unfolded e] Some [unfolded cm] show ?thesis
    proof (rule zadd_loop_keeps)
      fix ks' cnt' m' vs g
      assume l: "zadd_loop d hash (Suc i) (Suc r) (used(?b \<mapsto> num)) vs es = Some (ks', cnt', m')"
        "ks = (num, g) # ks'" "cnt = (if c then 1 else 0) + cnt'" "modified = (m \<or> m')" "g = f \<or> g = fst (es_move f)"
      have "StringView g = ?b" using l(5) by auto
      with Some cm l(2-4) show ?thesis by (simp add: Let_def Cons.IH [OF l(1)])
    qed
  qed
qed simp

text \<open>Without strings held in place no key is overwritten, and without options nothing is moved.\<close>

lemma zadd_loop_defined:
  "list_all (\<lambda>e. es_type (snd e) \<noteq> ST_Stack) es \<Longrightarrow> zadd_loop d hash i r used Map.empty es \<noteq> None"
proof (induction es arbitrary: i r used)
  case (Cons e es)
  obtain num f where e: "e = (num, f)" by (cases e)
  have r: "zadd_loop d hash i' r' u Map.empty es \<noteq> None" for i' r' u using Cons.IH Cons.prems by simp
  show ?case
  proof (cases "d num (hash (StringView f)) (used (StringView f))")
    case None
    then show ?thesis using r by (simp add: e)
  next
    case (Some cm)
    then show ?thesis using r [of "Suc i" "Suc r"] Cons.prems by (cases cm) (simp add: e Let_def overwrites_def)
  qed
qed simp

lemma zadd_loop_plain:
  "zadd_loop (ZAdd_plain ch) hash i i used views es = Some (ks, cnt, modified) \<Longrightarrow> ks = es"
proof (induction es arbitrary: i used views ks cnt modified)
  case (Cons e es)
  obtain num f where e: "e = (num, f)" by (cases e)
  show ?case
    using Cons.prems Cons.IH
    by (auto simp: e Let_def ZAdd_plain_def split: option.splits if_splits)
qed simp

lemma zadd_loop_sub:
  assumes "zadd_loop d hash i r used views es = Some (ks, cnt, modified)" "list_all (\<lambda>e. arg_ok (snd e) \<and> \<not> dbl_nan (fst e)) es"
  shows "list_all (\<lambda>e. arg_ok (snd e) \<and> \<not> dbl_nan (fst e)) ks \<and> subseq (bare ks) (bare es)"
  using assms
proof (induction es arbitrary: i r used views ks cnt modified)
  case (Cons e es)
  obtain num f where e: "e = (num, f)" by (cases e)
  show ?case
  proof (cases "d num (hash (StringView f)) (used (StringView f))")
    case None
    with Cons.prems Cons.IH [of "Suc i" r used views] show ?thesis by (auto simp: e)
  next
    case (Some cm)
    obtain c m where cm: "cm = (c, m)" by (cases cm)
    from Cons.prems(1) [unfolded e] Some [unfolded cm] show ?thesis
    proof (rule zadd_loop_keeps)
      fix ks' cnt' m' vs g
      assume l: "zadd_loop d hash (Suc i) (Suc r) (used(StringView f \<mapsto> num)) vs es = Some (ks', cnt', m')"
        "ks = (num, g) # ks'" "g = f \<or> g = fst (es_move f)"
      have "StringView g = StringView f" "arg_ok f \<Longrightarrow> arg_ok g" using l(3) by (auto simp: arg_ok_def es_move_inv)
      with Cons.IH [OF l(1)] Cons.prems show ?thesis by (simp add: e l(2))
    qed
  qed
qed simp

section \<open>Committing ZADD\<close>

lemma zbytes_dom:
  assumes "zset_wf z"
  shows "zbytes (map fst (ranking z)) = 5 + (\<Sum>b \<in> dom (scores z). 12 + length b)"
proof -
  have "distinct (map fst (ranking z))"
    using zset_wfD(1) [OF assms] by (simp add: ranking_def node_pair_def comp_def)
  moreover have "dom (scores z) = set (map fst (ranking z))"
    unfolding zset_wfD(2) [OF assms] by (simp add: dom_map_of_conv_image_fst)
  ultimately show ?thesis using sum_list_distinct_conv_sum_set [of "map fst (ranking z)"] by (simp add: zbytes_def)
qed

lemma dom_put_all: "dom (put_all M es) = dom M \<union> snd ` set es"
proof (induction es arbitrary: M)
  case (Cons e es)
  then show ?case
    by (cases e) (simp only: put_all.simps dom_fun_upd option.distinct if_False list.set image_insert snd_conv
        Un_insert_left Un_insert_right)
qed simp

lemma sum_names: "finite A \<Longrightarrow> (\<Sum>b \<in> A \<union> set bs. 12 + length b) \<le> (\<Sum>b \<in> A. 12 + length b) + (\<Sum>b \<leftarrow> bs. 12 + length b)"
proof (induction bs)
  case (Cons b bs)
  then show ?case by (cases "b \<in> A \<union> set bs") (auto simp: insert_absorb)
qed simp

definition zcost :: "bytes list \<Rightarrow> nat" where
  "zcost bs = (\<Sum>b \<leftarrow> bs. 12 + length b)"

lemma zcost_subseq: "subseq xs ys \<Longrightarrow> zcost (map f xs) \<le> zcost (map f ys)"
  by (induction rule: list_emb.induct) (auto simp: zcost_def)

definition zelems_ok :: "zelem list \<Rightarrow> bool" where
  "zelems_ok es \<longleftrightarrow> list_all (\<lambda>e. arg_ok (snd e) \<and> \<not> dbl_nan (fst e)) es \<and> zcost (map snd (bare es)) < 2 ^ 62"

lemma elements_size_cost: "list_all (\<lambda>e. arg_ok (snd e)) es \<Longrightarrow> elements_size (ZVector es) = of_nat (zcost (map snd (bare es)))"
  by (induction es) (simp_all add: zcost_def es_length_def arg_ok_length [simplified])

lemma update_elements_updates:
  assumes "zset_wf z" "list_all (\<lambda>e. arg_ok (snd e) \<and> \<not> dbl_nan (fst e)) ks"
  shows "\<exists>z'. update_elements False keep ks z = Some z' \<and> zset_wf z' \<and> scores z' = put_all (scores z) (bare ks)"
  using assms
proof (induction ks arbitrary: z)
  case (Cons e ks)
  obtain num f where e: "e = (num, f)" by (cases e)
  have "arg_ok f" "\<not> dbl_nan (new_score False num (scores z (StringView f)))"
    using Cons.prems(2) by (simp_all add: e new_score_def)
  from update_element_updates [OF Cons.prems(1) this] obtain z1 where
    z1: "update_element False keep (num, f) z = Some z1" "zset_wf z1" "scores z1 = (scores z)(StringView f \<mapsto> num)"
    by (metis new_score_def)
  from Cons.IH [OF z1(2)] Cons.prems(2) show ?case by (simp add: e z1(1,3) del: fun_upd_apply)
qed simp

lemma added_fits:
  assumes "zset_state z" "zset_wf z'" "scores z' = put_all (scores z) bs"
    and "\<not> zset_slen z + of_nat n > MAX_OBJECT_SIZE" "zcost (map snd bs) \<le> n" "n < 2 ^ 62"
  shows "zset_state z'" "within_limit z' = Some z'"
proof -
  have wf: "zset_wf z" "zbytes (map fst (ranking z)) \<le> 268435456" using assms(1) by (simp_all add: zset_state_def)
  have fin: "finite (dom (scores z))" unfolding zset_wfD(2) [OF wf(1)] by (rule finite_dom_map_of)
  have "zset_slen z + of_nat n = of_nat (zbytes (map fst (ranking z)) + n)" by (simp add: zset_wfD(4) [OF wf(1)])
  then have le: "zbytes (map fst (ranking z)) + n \<le> 268435456"
    using assms(4,6) wf(2) of_nat_gt_MAX [of "zbytes (map fst (ranking z)) + n"] by simp
  have "zbytes (map fst (ranking z')) \<le> zbytes (map fst (ranking z)) + zcost (map snd bs)"
    using sum_names [OF fin, of "map snd bs"]
    by (simp add: zbytes_dom [OF wf(1)] zbytes_dom [OF assms(2)] assms(3) dom_put_all zcost_def)
  then show "zset_state z'" using le assms(2,5) by (simp add: zset_state_def)
  then show "within_limit z' = Some z'" by (rule zset_state_limit)
qed

text \<open>The commit filters to the same elements whether the execution filtered before or not.\<close>

lemma CommitZAdd_filtered:
  assumes "ZAdd_elements flags z es = Some (ks, cnt, modified)" "\<not> z_INCR flags"
  shows "CommitZAdd z (ZVector es) flags keep = update_elements False keep ks z \<bind> within_limit"
    and "CommitZAdd z (ZVector ks) flags keep = update_elements False keep ks z \<bind> within_limit"
proof -
  have again: "ZAdd_elements flags z ks = Some (ks, cnt, modified)"
    using assms(1) unfolding ZAdd_elements_def by (rule zadd_loop_again)
  have same: "ks = es" if "\<not> (z_LT flags \<or> z_GT flags \<or> z_NX flags \<or> z_XX flags)"
    using assms(1) that zadd_loop_plain [of "z_CH flags"] by (simp add: ZAdd_elements_def zadd_decide_def)
  show "CommitZAdd z (ZVector es) flags keep = update_elements False keep ks z \<bind> within_limit"
    using assms same by (cases "z_LT flags \<or> z_GT flags \<or> z_NX flags \<or> z_XX flags") (simp_all add: CommitZAdd_def)
  show "CommitZAdd z (ZVector ks) flags keep = update_elements False keep ks z \<bind> within_limit"
    using assms(2) again by (simp add: CommitZAdd_def)
qed

lemma CommitZAdd_adds:
  assumes "zset_state z" "zelems_ok es" "zflags_ok flags" "\<not> z_INCR flags"
    and "ZAdd_elements flags z es = Some (ks, cnt, modified)"
    and "\<not> zset_slen z + elements_size (ZVector es) > MAX_OBJECT_SIZE"
  shows "\<exists>z'. CommitZAdd z (ZVector ks) flags keep = Some z' \<and> zset_state z' \<and>
    zadd_all flags (scores z) (bare es) = (scores z', cnt, modified)"
proof -
  have ok: "list_all (\<lambda>e. arg_ok (snd e) \<and> \<not> dbl_nan (fst e)) es" "zcost (map snd (bare es)) < 2 ^ 62"
    using assms(2) by (simp_all add: zelems_ok_def)
  note sub = zadd_loop_sub [OF assms(5) [unfolded ZAdd_elements_def] ok(1)]
  have wf: "zset_wf z" using assms(1) by (simp add: zset_state_def)
  obtain z' where z': "update_elements False keep ks z = Some z'" "zset_wf z'" "scores z' = put_all (scores z) (bare ks)"
    using update_elements_updates [OF wf conjunct1 [OF sub]] by blast
  have "\<not> zset_slen z + of_nat (zcost (map snd (bare es))) > MAX_OBJECT_SIZE"
    using assms(6) ok(1) elements_size_cost [of es] by (simp add: list_all_iff)
  note fits = added_fits [OF assms(1) z'(2,3) this zcost_subseq [OF conjunct2 [OF sub]] ok(2)]
  have "zadd_all flags (scores z) (bare es) = (scores z', cnt, modified)"
    using zadd_loop_all [OF assms(3) assms(5) [unfolded ZAdd_elements_def]] z'(3) by (simp add: scores_def)
  then show ?thesis using CommitZAdd_filtered(2) [OF assms(5,4)] z'(1) fits by auto
qed

section \<open>Incrementing\<close>

lemma unat_dbl_sign:
  assumes "m < 2 ^ 63"
  shows "unat (take_bit 63 (dbl_sign neg m)) = m" "bit (dbl_sign neg m) 63 = neg"
proof -
  let ?x = "(if neg then 2 ^ 63 else 0) + m"
  have u: "unat (dbl_sign neg m) = ?x"
    unfolding dbl_sign_def using assms by (intro unat_u64) auto
  have "unat (take_bit 63 (dbl_sign neg m)) = take_bit 63 ?x" by (simp add: unsigned_take_bit_eq u del: take_bit_eq_mod)
  also have "\<dots> = m" using assms by (simp add: take_bit_eq_mod)
  finally show "unat (take_bit 63 (dbl_sign neg m)) = m" .
  have "bit (dbl_sign neg m) 63 = bit ?x 63" unfolding u [symmetric] by (simp add: bit_unsigned_iff)
  also have "\<dots> = odd (?x div 2 ^ 63)" by (simp add: bit_iff_odd)
  also have "?x div 2 ^ 63 = (if neg then 1 else 0)" using assms by auto
  finally show "bit (dbl_sign neg m) 63 = neg" by simp
qed

lemma dbl_sign_nan: "m \<le> 0x7FF0000000000000 \<Longrightarrow> \<not> dbl_nan (dbl_sign neg m)"
  using unat_dbl_sign(1) [of m neg] by (simp add: dbl_nan_def)

lemma dbl_add_nan:
  assumes "\<not> dbl_nan a" "\<not> dbl_nan b" "\<not> (dbl_inf a \<and> dbl_inf b \<and> bit a 63 \<noteq> bit b 63)"
  shows "\<not> dbl_nan (dbl_add a b)"
proof -
  have "\<not> dbl_nan (dbl_sign neg (dbl_round n))" "\<not> dbl_nan (dbl_sign neg 0)" for neg n
    by (rule dbl_sign_nan, simp add: dbl_round_def Let_def)+
  then show ?thesis using assms by (auto simp: dbl_add_def Let_def)
qed

lemma dbl_bits: "dbl_sign (bit d 63) (unat (take_bit 63 d)) = d"
proof -
  have "unat d < 2 ^ Suc 63" using unsigned_less [of d, where ?'a = nat] by simp
  then have "unat d = take_bit (Suc 63) (unat d)" by (simp only: take_bit_nat_eq_self)
  also have "\<dots> = (if bit d 63 then 2 ^ 63 else 0) + unat (take_bit 63 d)"
    by (simp only: take_bit_Suc_from_most) (simp add: unsigned_take_bit_eq bit_unsigned_iff)
  finally have "dbl_sign (bit d 63) (unat (take_bit 63 d)) = of_nat (unat d)" by (simp only: dbl_sign_def)
  then show ?thesis by simp
qed

lemma bit_length_eq: "2 ^ n \<le> m \<Longrightarrow> m < 2 ^ Suc n \<Longrightarrow> bit_length m = Suc n"
proof (induction n arbitrary: m)
  case 0
  then have "m = 1" by simp
  then show ?case by (simp add: bit_length.simps)
next
  case (Suc n)
  then have "2 ^ n \<le> m div 2" "m div 2 < 2 ^ Suc n" by auto
  moreover have "m \<noteq> 0" using Suc.prems(1) by (metis not_le zero_less_numeral zero_less_power)
  ultimately show ?case using Suc.IH [of "m div 2"] by (subst bit_length.simps) simp
qed

lemma bit_length_le: "m < 2 ^ n \<Longrightarrow> bit_length m \<le> n"
proof (induction n arbitrary: m)
  case (Suc n)
  then show ?case using Suc.IH [of "m div 2"] by (subst bit_length.simps) auto
qed (simp add: bit_length.simps)

text \<open>A double is its own rounding.\<close>

lemma dbl_round_mag:
  assumes "unat (take_bit 63 d) < 0x7FF0000000000000"
  shows "dbl_round (dbl_mag d) = unat (take_bit 63 d)"
proof -
  define m where "m = unat (take_bit 63 d)"
  define e f where "e = m div 2 ^ 52" and "f = m mod 2 ^ 52"
  have m: "m = e * 2 ^ 52 + f" "f < 2 ^ 52" by (simp_all add: e_def f_def)
  have v: "dbl_mag d = (if e = 0 then f else (2 ^ 52 + f) * 2 ^ (e - 1))"
    unfolding dbl_mag_def Let_def m_def [symmetric] e_def f_def ..
  show ?thesis
  proof (cases e)
    case 0
    then have "bit_length f - 53 = 0" using bit_length_le [OF m(2)] by simp
    then show ?thesis using 0 v m assms m_def by (simp add: dbl_round_def)
  next
    case (Suc k)
    let ?q = "2 ^ 52 + f"
    have "?q * 2 ^ k < 2 ^ Suc 52 * 2 ^ k" using m(2) by (intro mult_strict_right_mono) simp_all
    then have "bit_length (?q * 2 ^ k) = Suc (52 + k)" by (intro bit_length_eq) (simp_all add: power_add)
    then have "dbl_round (?q * 2 ^ k) = min (k * 2 ^ 52 + ?q) 0x7FF0000000000000" by (simp add: dbl_round_def Let_def)
    then show ?thesis using Suc v m assms m_def by simp
  qed
qed

lemma dbl_mag_zero: "dbl_mag d = 0 \<longleftrightarrow> unat (take_bit 63 d) = 0"
proof -
  define m where "m = unat (take_bit 63 d)"
  have "m div 2 ^ 52 = 0 \<Longrightarrow> m mod 2 ^ 52 = m" using div_mult_mod_eq [of m "2 ^ 52"] by simp
  then show ?thesis unfolding dbl_mag_def m_def [symmetric] by (auto simp: Let_def)
qed

lemma dbl_add_zero:
  assumes "\<not> dbl_nan d"
  shows "dbl_add d 0 = (if dbl_ord d = 0 then 0 else d)"
proof (cases "dbl_inf d")
  case True
  then show ?thesis using assms by (simp add: dbl_add_def dbl_inf_def dbl_ord_def Let_def dbl_nan_def)
next
  case False
  have m: "unat (take_bit 63 d) < 0x7FF0000000000000" using False assms by (simp add: dbl_inf_def dbl_nan_def)
  have z: "\<not> dbl_nan 0" "\<not> dbl_inf 0" "dbl_units 0 = 0" by (simp_all add: dbl_nan_def dbl_inf_def dbl_units_def dbl_mag_def)
  have zero: "dbl_ord d = 0 \<longleftrightarrow> dbl_mag d = 0" unfolding dbl_mag_zero by (simp add: dbl_ord_def Let_def del: of_nat_unat)
  show ?thesis
  proof (cases "dbl_mag d = 0")
    case True
    then show ?thesis using False assms z zero by (simp add: dbl_add_def dbl_units_def dbl_sign_def)
  next
    case nz: False
    then have "dbl_units d < 0 \<longleftrightarrow> bit d 63" "dbl_units d \<noteq> 0" "nat \<bar>dbl_units d\<bar> = dbl_mag d"
      by (simp_all add: dbl_units_def)
    then show ?thesis
      using False assms z zero nz dbl_round_mag [OF m] dbl_bits [of d] by (simp add: dbl_add_def Let_def)
  qed
qed

lemma scores_nan:
  assumes "zset_wf z" "scores z b = Some c"
  shows "\<not> dbl_nan c"
proof -
  obtain n where "n \<in> set (z_ordered_set z)" "snd n = c" using scores_node [OF assms] by blast
  then show ?thesis using assms(1) nodes_okD [of "z_ordered_set z" n] by (simp add: zset_wf_def)
qed

lemma d2string_zero: "\<not> dbl_nan d \<Longrightarrow> d2string dtoa (dbl_add d 0) = d2string dtoa d"
proof -
  assume d: "\<not> dbl_nan d"
  have "\<not> dbl_inf d" if "dbl_ord d = 0" using that by (simp add: dbl_inf_def dbl_ord_def Let_def del: of_nat_unat split: if_splits)
  then show ?thesis using d by (auto simp: dbl_add_zero d2string_def dbl_nan_def dbl_inf_def dbl_ord_def)
qed

definition incremented :: "u64 \<Rightarrow> u64 option \<Rightarrow> u64" where
  "incremented num cur = dbl_add num (case cur of None \<Rightarrow> 0 | Some c \<Rightarrow> c)"

lemma CommitZAdd_increments:
  assumes "zset_state z" "arg_ok f" "\<not> dbl_nan num" "z_INCR flags"
    and "ZAddIncr dtoa z (num, f) flags = (els, err, ans, True)"
    and "\<not> zset_slen z + elements_size (ZPair (num, f)) > MAX_OBJECT_SIZE"
  shows "els = ZPair (num, f) \<and> err = RD_OK \<and>
    ans = es_make (d2string dtoa (incremented num (scores z (StringView f)))) \<and>
    (\<exists>z'. CommitZAdd z els flags keep = Some z' \<and> zset_state z' \<and>
      scores z' = (scores z)(StringView f \<mapsto> incremented num (scores z (StringView f))))"
proof -
  let ?cur = "scores z (StringView f)"
  have wf: "zset_wf z" using assms(1) by (simp add: zset_state_def)
  have r: "els = ZPair (num, f)" "err = RD_OK"
      "ans = es_make (d2string dtoa (case ?cur of None \<Rightarrow> num | Some c \<Rightarrow> dbl_add num c))"
      "case ?cur of None \<Rightarrow> True | Some c \<Rightarrow> \<not> (dbl_inf num \<and> dbl_inf c \<and> bit num 63 \<noteq> bit c 63)"
    using assms(5)
    by (auto simp: ZAddIncr_def scores_def Let_def inf_signed_def split: if_splits option.splits)
  have ans: "ans = es_make (d2string dtoa (incremented num ?cur))"
    using r(3) d2string_zero [OF assms(3), of dtoa] by (cases ?cur) (simp_all add: incremented_def)
  have "\<not> dbl_nan (incremented num ?cur)"
  proof (cases ?cur)
    case None
    then show ?thesis using dbl_add_nan [OF assms(3), of 0] by (simp add: incremented_def dbl_nan_def dbl_inf_def)
  next
    case (Some c)
    then show ?thesis using dbl_add_nan [OF assms(3) scores_nan [OF wf Some]] r(4) by (simp add: incremented_def)
  qed
  then have "\<not> dbl_nan (new_score True num ?cur)" by (simp add: incremented_def new_score_def)
  from update_element_updates [OF wf assms(2) this] obtain z' where
    z': "update_element True keep (num, f) z = Some z'" "zset_wf z'"
      "scores z' = (scores z)(StringView f \<mapsto> incremented num ?cur)"
    by (metis incremented_def new_score_def)
  let ?bs = "[(incremented num ?cur, StringView f)]"
  have size: "elements_size (ZPair (num, f)) = of_nat (12 + length (StringView f))" "12 + length (StringView f) < 2 ^ 62"
    using arg_ok_length [OF assms(2)] by (simp_all add: es_length_def)
  have "scores z' = put_all (scores z) ?bs" using z'(3) by simp
  from added_fits [OF assms(1) z'(2) this, of "12 + length (StringView f)"]
  have "zset_state z'" "within_limit z' = Some z'" using assms(6) size by (simp_all add: zcost_def)
  then show ?thesis using r(1,2) ans z'(1,3) assms(4) by (simp add: CommitZAdd_def)
qed

section \<open>Removing by name and from an end\<close>

lemma zrem_loop_removes:
  assumes "zset_state z"
  shows "\<exists>z'. zrem_loop es z = Some z' \<and> zset_state z' \<and>
    z_ordered_set z' = filter (\<lambda>n. name_of n \<notin> StringView ` set es) (z_ordered_set z)"
  using assms
proof (induction es arbitrary: z)
  case (Cons e es)
  let ?b = "StringView e"
  have wf: "zset_wf z" using Cons.prems by (simp add: zset_state_def)
  have st: "zset_state (lacks z ?b)"
    using zset_state_filter [OF Cons.prems lacks_wf(1) [OF wf]] by (simp add: lacks_def)
  obtain z' where z': "zrem_loop es (lacks z ?b) = Some z'" "zset_state z'"
      "z_ordered_set z' = filter (\<lambda>n. name_of n \<notin> StringView ` set es) (z_ordered_set (lacks z ?b))"
    using Cons.IH [OF st] by blast
  have "zrem_loop (e # es) z = zrem_loop es (lacks z ?b)"
  proof (cases "scores z ?b")
    case None
    then show ?thesis using lacks_none [OF wf None] by (simp add: scores_def)
  next
    case (Some c)
    obtain n where n: "n \<in> set (z_ordered_set z)" "name_of n = ?b" using scores_node [OF wf Some] by blast
    have "length ?b < 2 ^ 32" using wf nodes_okD [OF _ n(1)] n(2) by (auto simp: zset_wf_def storable_def es_short_def)
    then have "node_size e = of_nat (12 + length ?b)" by (simp add: node_size_def es_length_def)
    then show ?thesis using Some zs_erase_name [OF wf Some] by (simp add: scores_def lacks_def)
  qed
  moreover have "z_ordered_set z' = filter (\<lambda>n. name_of n \<notin> StringView ` set (e # es)) (z_ordered_set z)"
    unfolding z'(3) by (simp add: lacks_def conj_commute)
  ultimately show ?case using z'(1,2) by auto
qed simp

lemma CommitZRem_removes:
  assumes "zset_state z"
  shows "\<exists>z'. CommitZRem z es = Some (z', z_ordered_set z' = []) \<and> zset_state z' \<and>
    z_ordered_set z' = filter (\<lambda>n. name_of n \<notin> StringView ` set es) (z_ordered_set z)"
  using zrem_loop_removes [OF assms, of es] by (auto simp: CommitZRem_def zset_state_emptied)

lemma CommitZPop_removes:
  assumes "zset_state z" "0 \<le> cnt"
  shows "\<exists>z'. CommitZPop z popmin cnt = Some (z', z_ordered_set z' = []) \<and> zset_state z' \<and>
    z_ordered_set z' = (if popmin then drop (nat cnt) (z_ordered_set z)
                        else take (length (z_ordered_set z) - nat cnt) (z_ordered_set z))"
proof (cases "cnt \<ge> int (length (z_ordered_set z))")
  case True
  then have "length (z_ordered_set z) \<le> nat cnt" by simp
  then show ?thesis using True by (intro exI [of _ RedisZsetObject]) (simp add: CommitZPop_def RedisZsetObject_def [symmetric], simp add: RedisZsetObject_def)
next
  case False
  let ?xs = "z_ordered_set z" and ?n = "length (z_ordered_set z)"
  have wf: "zset_wf z" using assms(1) by (simp add: zset_state_def)
  then have d: "distinct ?xs" by (simp add: zset_wf_def nodes_ok_distinct)
  define i j where "i = (if popmin then 0 else ?n - nat cnt)" and "j = (if popmin then nat cnt else ?n)"
  have ij: "i \<le> j" "j \<le> ?n" using False assms(2) by (auto simp: i_def j_def)
  let ?z = "erase_between i j z"
  note er = erase_between_removes [OF wf selects_positions [OF d ij]]
  have st: "zset_state ?z" using zset_state_filter [OF assms(1) er] .
  have "z_ordered_set ?z = take i ?xs @ drop j ?xs" by (simp add: erase_between_def Let_def)
  then have nodes: "z_ordered_set ?z = (if popmin then drop (nat cnt) ?xs else take (?n - nat cnt) ?xs)"
    by (simp add: i_def j_def)
  have "CommitZPop z popmin cnt = emptied ?z"
    using False assms(2) by (cases popmin) (simp_all add: CommitZPop_def Let_def i_def j_def)
  then show ?thesis using st nodes zset_state_emptied [OF st] by auto
qed

text \<open>A copy of a sorted set is a sorted set of the same members, scores and size.\<close>

lemma nodes_ok_inserts:
  "nodes_ok xs \<Longrightarrow> list_all (\<lambda>n. storable (fst n) \<and> \<not> dbl_nan (snd n)) ns \<Longrightarrow> nodes_ok (fold zs_insert ns xs)"
proof (induction ns arbitrary: xs)
  case (Cons n ns)
  then show ?case by (cases n) (simp add: nodes_ok_insert)
qed simp

lemma zset_state_copy:
  assumes "zset_state z"
  shows "zset_state (zset_copy z)"
proof -
  have inv: "zset_inv z" and ok: "nodes_ok (z_ordered_set z)" using assms by (simp_all add: zset_state_def zset_wf_def)
  note c = zset_copy_eq [OF inv]
  have "list_all (\<lambda>n. storable (fst n) \<and> \<not> dbl_nan (snd n)) (map (\<lambda>(f, w). (Clone f, w)) (z_ordered_set z))"
    using ok by (auto simp: nodes_ok_def list_all_iff)
  then have "nodes_ok (z_ordered_set (zset_copy z))"
    using nodes_ok_inserts [of "[]"] by (simp add: c nodes_ok_def)
  then have wf: "zset_wf (zset_copy z)" using zset_copy_inv(1) [OF inv] by (simp add: zset_wf_def)
  have sum: "(\<Sum>b \<leftarrow> bs. 12 + length b) = sum_mset (image_mset (\<lambda>b. 12 + length b) (mset bs))" for bs :: "bytes list"
    by (simp flip: sum_mset_sum_list)
  have "mset (map node_pair (z_ordered_set (zset_copy z))) = mset (map node_pair (z_ordered_set z))"
    using zset_copy_inv(1) [OF inv] by (simp add: zset_inv_def c)
  then have "mset (map fst (ranking (zset_copy z))) = mset (map fst (ranking z))"
    unfolding ranking_def by (metis mset_map)
  then have "zbytes (map fst (ranking (zset_copy z))) = zbytes (map fst (ranking z))"
    by (simp only: zbytes_def sum)
  then show ?thesis using assms wf by (simp add: zset_state_def)
qed

end
