(* ===== verification/ZsetCommands.thy ===== *)
theory ZsetCommands
  imports Command ZsetAdd
begin

text \<open>
  The commands on one sorted set (\<^verbatim>\<open>src/redis_command.cpp\<close>, \<^verbatim>\<open>ZAddCommand\<close> to \<^verbatim>\<open>ZMScoreCommand\<close>), in the style of the
  other families.  An execution or a reply that is \<open>None\<close> has no meaning in
  the code (\<^theory_text>\<open>ZsetOps\<close>); \<^verbatim>\<open>zset_ok\<close> excludes it.  \<^verbatim>\<open>ZSCAN\<close>, \<^verbatim>\<open>ZRANDMEMBER\<close> and the commands on several keys are left
  out.
\<close>

section \<open>Shared parts\<close>

definition on_zset :: "redis_object \<Rightarrow> zset_result \<Rightarrow> (zset_obj \<Rightarrow> (zset_result \<times> exec_result) option) \<Rightarrow>
    (zset_result \<times> exec_result) option" where
  "on_zset obj result f =
     (case rvalue obj of VZset z \<Rightarrow> f z | _ \<Rightarrow> Some (result\<lparr>zr_err := RD_ERR_WRONG_TYPE\<rparr>, EFail))"

definition zset_CreateObject :: redis_object where
  "zset_CreateObject = \<lparr>rvalue = VZset RedisZsetObject, rttl = None\<rparr>"

definition commit_zset :: "redis_object \<Rightarrow> (zset_obj \<Rightarrow> (zset_obj \<times> bool) option) \<Rightarrow> commit_result" where
  "commit_zset obj f =
     (case rvalue obj of
        VZset z \<Rightarrow> (case f z of
                     None \<Rightarrow> CUndefined
                   | Some (z', gone) \<Rightarrow> if gone then CRemove else CKeep (obj\<lparr>rvalue := VZset z'\<rparr>))
      | _ \<Rightarrow> CUndefined)"

definition zset_error :: "zset_result \<Rightarrow> reply list option" where
  "zset_error result = Some [OnError (redis_get_error_messages (zr_err result))]"

text \<open>The replies that several commands share: a number, or an array of strings.\<close>

definition zint_OutputResult :: "zset_result \<Rightarrow> reply list option" where
  "zint_OutputResult result =
     (if zr_err result = RD_OK then (case zr_result result of ZInt n \<Rightarrow> Some [OnInt n] | _ \<Rightarrow> None)
      else if zr_err result = RD_NIL then Some [OnInt 0] else zset_error result)"

definition zstrs_OutputResult :: "zset_result \<Rightarrow> reply list option" where
  "zstrs_OutputResult result =
     (if zr_err result = RD_OK
      then (case zr_result result of
              ZStrs xs \<Rightarrow> Some (array_reply (map (\<lambda>s. OnString (StringView s)) xs)) | _ \<Rightarrow> None)
      else if zr_err result = RD_NIL then Some (array_reply []) else zset_error result)"

section \<open>The commands\<close>

subsection \<open>ZADD\<close>

definition ZAdd_ExecuteOn :: "(u64 \<Rightarrow> bytes) \<Rightarrow> zelements \<Rightarrow> nat \<Rightarrow> redis_object \<Rightarrow> zset_result \<Rightarrow>
    (zelements \<times> zset_result \<times> exec_result) option" where
  "ZAdd_ExecuteOn dtoa elements flags obj result =
     (if z_ForceClear flags
      then (case elements of
              ZPair _ \<Rightarrow> None
            | ZMono \<Rightarrow> Some (elements, result\<lparr>zr_err := RD_OK, zr_result := ZInt 0\<rparr>, EDelete)
            | ZVector es \<Rightarrow>
                Some (elements, result\<lparr>zr_err := RD_OK, zr_result := ZInt (int (length es))\<rparr>,
                      if es = [] then EDelete else EWrite))
      else case rvalue obj of
             VZset z \<Rightarrow> map_option (\<lambda>(els, r, st). (els, r, write_or_fail st)) (Execute_ZAdd dtoa z elements flags result)
           | _ \<Rightarrow> Some (elements, result\<lparr>zr_err := RD_ERR_WRONG_TYPE\<rparr>, EFail))"

definition ZAdd_CommitOn :: "zelements \<Rightarrow> nat \<Rightarrow> bool \<Rightarrow> redis_object \<Rightarrow> commit_result" where
  "ZAdd_CommitOn elements flags middle obj =
     (if z_ForceClear flags
      then if elements = ZMono then CRemove
           else commit_zset zset_CreateObject (\<lambda>z. map_option (\<lambda>z'. (z', False)) (CommitZAdd z elements flags middle))
      else commit_zset obj (\<lambda>z. map_option (\<lambda>z'. (z', False)) (CommitZAdd z elements flags middle)))"

definition put_zelem :: "zelem \<Rightarrow> bytes" where
  "put_zelem e = put_u64 (unat (fst e)) @ put_string (snd e)"

definition get_zelem :: "zelem reader" where
  "get_zelem bs = do { (d, bs1) \<leftarrow> get_u64 bs; (f, bs2) \<leftarrow> get_string bs1; Some ((of_nat d, f), bs2) }"

fun put_zelements :: "zelements \<Rightarrow> bytes" where
  "put_zelements ZMono = put_u8 0"
| "put_zelements (ZPair e) = put_u8 1 @ put_zelem e"
| "put_zelements (ZVector es) = put_u8 2 @ put_vec put_zelem es"

definition ZAdd_Serialize :: "zelements \<Rightarrow> nat \<Rightarrow> bytes \<Rightarrow> bytes" where
  "ZAdd_Serialize elements flags str = str @ put_u8 (cmd_type ''ZADD'') @ put_u8 flags @ put_zelements elements"

definition ZAdd_Deserialize :: "(nat \<times> zelements) reader" where
  "ZAdd_Deserialize bs =
     do { (flags, bs1) \<leftarrow> get_u8 bs; (ty, bs2) \<leftarrow> get_u8 bs1;
          (if ty = 2 then do { (es, bs3) \<leftarrow> get_vec get_zelem bs2; Some ((flags, ZVector es), bs3) }
           else if ty = 1 then do { (e, bs3) \<leftarrow> get_zelem bs2; Some ((flags, ZPair e), bs3) }
           else Some ((flags, ZMono), bs2)) }"

definition ZAdd_OutputResult :: "nat \<Rightarrow> zset_result \<Rightarrow> reply list option" where
  "ZAdd_OutputResult flags result =
     (if zr_err result = RD_OK
      then (case zr_result result of
              ZInt n \<Rightarrow> Some [OnInt n] | ZStr s \<Rightarrow> Some [OnString (StringView s)] | _ \<Rightarrow> None)
      else if zr_err result = RD_NIL then Some [if z_INCR flags then OnNil else OnInt 0]
      else zset_error result)"

subsection \<open>ZREM and ZPOPMIN, ZPOPMAX\<close>

definition ZRem_ExecuteOn :: "eloq_string list \<Rightarrow> redis_object \<Rightarrow> zset_result \<Rightarrow> (zset_result \<times> exec_result) option" where
  "ZRem_ExecuteOn elements obj result =
     on_zset obj result (\<lambda>z. let (r, st) = Execute_ZRem z elements result in Some (r, exec_of_state st))"

definition ZRem_CommitOn :: "eloq_string list \<Rightarrow> redis_object \<Rightarrow> commit_result" where
  "ZRem_CommitOn elements obj = commit_zset obj (\<lambda>z. CommitZRem z elements)"

definition ZRem_Serialize :: "eloq_string list \<Rightarrow> bytes \<Rightarrow> bytes" where
  "ZRem_Serialize elements str = str @ put_u8 (cmd_type ''ZREM'') @ put_vec put_string elements"

definition ZPop_ExecuteOn :: "(u64 \<Rightarrow> bytes) \<Rightarrow> bool \<Rightarrow> int \<Rightarrow> redis_object \<Rightarrow> zset_result \<Rightarrow>
    (zset_result \<times> exec_result) option" where
  "ZPop_ExecuteOn dtoa popmin cnt obj result =
     on_zset obj result (\<lambda>z. let (r, st) = Execute_ZPop dtoa z popmin cnt result in Some (r, exec_of_state st))"

definition ZPop_CommitOn :: "bool \<Rightarrow> int \<Rightarrow> redis_object \<Rightarrow> commit_result" where
  "ZPop_CommitOn popmin cnt obj = commit_zset obj (\<lambda>z. CommitZPop z popmin cnt)"

definition ZPop_Serialize :: "bool \<Rightarrow> int \<Rightarrow> bytes \<Rightarrow> bytes" where
  "ZPop_Serialize popmin cnt str =
     str @ put_u8 (cmd_type (if popmin then ''ZPOPMIN'' else ''ZPOPMAX'')) @ put_i64 cnt"

subsection \<open>ZREMRANGE\<close>

definition ZRemRange_ExecuteOn :: "zrange_type \<Rightarrow> zrange_spec \<Rightarrow> redis_object \<Rightarrow> zset_result \<Rightarrow>
    (zset_result \<times> exec_result) option" where
  "ZRemRange_ExecuteOn ty spec obj result =
     on_zset obj result (\<lambda>z. map_option (\<lambda>(r, st). (r, exec_of_state st)) (Execute_ZRemRange z ty spec result))"

definition ZRemRange_CommitOn :: "zrange_type \<Rightarrow> zrange_spec \<Rightarrow> redis_object \<Rightarrow> commit_result" where
  "ZRemRange_CommitOn ty spec obj = commit_zset obj (\<lambda>z. CommitZRemRange z ty spec)"

text \<open>A bound is written with its alternative, as a value of \<^verbatim>\<open>ResultType\<close>.\<close>

fun put_bound :: "zbound \<Rightarrow> bytes" where
  "put_bound (ZBStr s) = put_u8 0 @ put_string s"
| "put_bound (ZBDouble d) = put_u8 1 @ put_u64 (unat d)"
| "put_bound (ZBInt i) = put_u8 2 @ put_i32 i"

definition get_bound :: "zbound reader" where
  "get_bound bs =
     do { (ty, bs1) \<leftarrow> get_u8 bs;
          (if ty = 2 then map_option (apfst ZBInt) (get_i32 bs1)
           else if ty = 1 then map_option (apfst (\<lambda>d. ZBDouble (of_nat d))) (get_u64 bs1)
           else if ty = 0 then map_option (apfst ZBStr) (get_string bs1)
           else None) }"

text \<open>The flag \<^verbatim>\<open>null_\<close> is not written.\<close>

definition put_spec :: "zrange_spec \<Rightarrow> bytes" where
  "put_spec spec =
     put_bool (minex spec) @ put_bool (maxex spec) @ put_bool (negative spec) @ put_bool (positive spec) @
     put_bound (opt_start spec) @ put_bound (opt_end spec)"

definition get_spec :: "zrange_spec reader" where
  "get_spec bs =
     do { (mn, bs1) \<leftarrow> get_bool bs; (mx, bs2) \<leftarrow> get_bool bs1; (ng, bs3) \<leftarrow> get_bool bs2; (ps, bs4) \<leftarrow> get_bool bs3;
          (st, bs5) \<leftarrow> get_bound bs4; (en, bs6) \<leftarrow> get_bound bs5;
          Some (\<lparr>null = False, minex = mn, maxex = mx, negative = ng, positive = ps, opt_start = st, opt_end = en\<rparr>, bs6) }"

fun range_code :: "zrange_type \<Rightarrow> nat" where
  "range_code ZRANGE_AUTO = 0"
| "range_code ZRANGE_RANK = 1"
| "range_code ZRANGE_SCORE = 2"
| "range_code ZRANGE_LEX = 3"

definition range_of_code :: "nat \<Rightarrow> zrange_type option" where
  "range_of_code n = find (\<lambda>ty. range_code ty = n) [ZRANGE_AUTO, ZRANGE_RANK, ZRANGE_SCORE, ZRANGE_LEX]"

definition ZRemRange_Serialize :: "zrange_type \<Rightarrow> zrange_spec \<Rightarrow> bytes \<Rightarrow> bytes" where
  "ZRemRange_Serialize ty spec str =
     str @ put_u8 (cmd_type ''ZREMRANGE'') @ put_u8 (range_code ty) @ put_spec spec"

definition ZRemRange_Deserialize :: "(zrange_type \<times> zrange_spec) reader" where
  "ZRemRange_Deserialize bs =
     do { (n, bs1) \<leftarrow> get_u8 bs; ty \<leftarrow> range_of_code n; (spec, bs2) \<leftarrow> get_spec bs1; Some ((ty, spec), bs2) }"

subsection \<open>The commands that read\<close>

definition zread :: "redis_object \<Rightarrow> zset_result \<Rightarrow> (zset_obj \<Rightarrow> zset_result option) \<Rightarrow>
    (zset_result \<times> exec_result) option" where
  "zread obj result f = on_zset obj result (\<lambda>z. map_option (\<lambda>r. (r, ERead)) (f z))"

definition ZScore_ExecuteOn :: "(u64 \<Rightarrow> bytes) \<Rightarrow> eloq_string \<Rightarrow> redis_object \<Rightarrow> zset_result \<Rightarrow>
    (zset_result \<times> exec_result) option" where
  "ZScore_ExecuteOn dtoa element obj result = zread obj result (\<lambda>z. Some (Execute_ZScore dtoa z element result))"

definition ZScore_OutputResult :: "zset_result \<Rightarrow> reply list option" where
  "ZScore_OutputResult result =
     (if zr_err result = RD_OK then (case zr_result result of ZStr s \<Rightarrow> Some [OnString (StringView s)] | _ \<Rightarrow> None)
      else if zr_err result = RD_NIL then Some [OnNil] else zset_error result)"

definition ZMScore_ExecuteOn :: "(u64 \<Rightarrow> bytes) \<Rightarrow> eloq_string list \<Rightarrow> redis_object \<Rightarrow> zset_result \<Rightarrow>
    (zset_result \<times> exec_result) option" where
  "ZMScore_ExecuteOn dtoa vct_elm obj result = zread obj result (\<lambda>z. Some (Execute_ZMScore dtoa z vct_elm result))"

definition ZMScore_OutputResult :: "eloq_string list \<Rightarrow> zset_result \<Rightarrow> reply list option" where
  "ZMScore_OutputResult vct_elm result =
     (if zr_err result = RD_OK
      then (case zr_result result of
              ZStrs xs \<Rightarrow> Some (array_reply (map (\<lambda>s. if es_length s = 0 then OnNil else OnString (StringView s)) xs))
            | _ \<Rightarrow> None)
      else if zr_err result = RD_NIL then Some (array_reply (map (\<lambda>_. OnNil) vct_elm)) else zset_error result)"

definition ZCard_ExecuteOn :: "redis_object \<Rightarrow> zset_result \<Rightarrow> (zset_result \<times> exec_result) option" where
  "ZCard_ExecuteOn obj result = zread obj result (\<lambda>z. Some (Execute_ZCard z result))"

definition ZRank_ExecuteOn :: "(u64 \<Rightarrow> bytes) \<Rightarrow> eloq_string \<Rightarrow> bool \<Rightarrow> bool \<Rightarrow> redis_object \<Rightarrow> zset_result \<Rightarrow>
    (zset_result \<times> exec_result) option" where
  "ZRank_ExecuteOn dtoa member is_rev with_score obj result =
     zread obj result (\<lambda>z. Some (Execute_ZRank dtoa z member is_rev with_score result))"

definition ZRank_OutputResult :: "zset_result \<Rightarrow> reply list option" where
  "ZRank_OutputResult result =
     (if zr_err result = RD_OK
      then (case zr_result result of
              ZInt n \<Rightarrow> Some [OnInt n] | ZRanked n s \<Rightarrow> Some (array_reply [OnInt n, OnString s]) | _ \<Rightarrow> None)
      else if zr_err result = RD_NIL then Some [OnNil] else zset_error result)"

text \<open>With \<^verbatim>\<open>multi_type_range_\<close> a set is read as if every member had the score one.\<close>

definition ZRange_ExecuteOn :: "(u64 \<Rightarrow> bytes) \<Rightarrow> zrange_constraint \<Rightarrow> zrange_spec \<Rightarrow> bool \<Rightarrow> redis_object \<Rightarrow>
    zset_result \<Rightarrow> (zset_result \<times> exec_result) option" where
  "ZRange_ExecuteOn dtoa constr spec multi_type_range obj result =
     (case rvalue obj of
        VZset z \<Rightarrow> map_option (\<lambda>r. (r, ERead)) (Execute_ZRange dtoa z constr spec result)
      | VSet s \<Rightarrow>
          if multi_type_range
          then Some (result\<lparr>zr_err := RD_OK,
                            zr_result := ZStrs (concat (map (\<lambda>e. Clone e # (if opt_withscores constr then [es_make ''1''] else []))
                                                          (hash_set s)))\<rparr>, ERead)
          else Some (result\<lparr>zr_err := RD_ERR_WRONG_TYPE\<rparr>, EFail)
      | _ \<Rightarrow> Some (result\<lparr>zr_err := RD_ERR_WRONG_TYPE\<rparr>, EFail))"

definition ZCount_ExecuteOn :: "zrange_spec \<Rightarrow> redis_object \<Rightarrow> zset_result \<Rightarrow> (zset_result \<times> exec_result) option" where
  "ZCount_ExecuteOn spec obj result = zread obj result (\<lambda>z. Execute_ZCount z spec result)"

definition ZLexCount_ExecuteOn :: "zrange_spec \<Rightarrow> redis_object \<Rightarrow> zset_result \<Rightarrow> (zset_result \<times> exec_result) option" where
  "ZLexCount_ExecuteOn spec obj result = zread obj result (\<lambda>z. Execute_ZLexCount z spec result)"

section \<open>The family\<close>

datatype zset_cmd =
    ZAdd nat zelements bool
  | ZRem "eloq_string list"
  | ZPop bool int
  | ZRemRange zrange_type zrange_spec
  | ZScore eloq_string
  | ZMScore "eloq_string list"
  | ZCard
  | ZRank eloq_string bool bool
  | ZRange zrange_constraint zrange_spec bool
  | ZCountOf zrange_spec
  | ZLexCount zrange_spec

definition same_cmd :: "zset_cmd \<Rightarrow> (zset_result \<times> exec_result) option \<Rightarrow> (zset_cmd \<times> zset_result \<times> exec_result) option" where
  "same_cmd c out = map_option (\<lambda>rd. (c, rd)) out"

fun zset_ExecuteOn :: "(u64 \<Rightarrow> bytes) \<Rightarrow> zset_cmd \<Rightarrow> redis_object \<Rightarrow> (zset_cmd \<times> zset_result \<times> exec_result) option" where
  "zset_ExecuteOn dtoa (ZAdd flags els m) obj =
     map_option (\<lambda>(els', rd). (ZAdd flags els' m, rd)) (ZAdd_ExecuteOn dtoa els flags obj RedisZsetResult)"
| "zset_ExecuteOn dtoa (ZRem es) obj = same_cmd (ZRem es) (ZRem_ExecuteOn es obj RedisZsetResult)"
| "zset_ExecuteOn dtoa (ZPop mn n) obj = same_cmd (ZPop mn n) (ZPop_ExecuteOn dtoa mn n obj RedisZsetResult)"
| "zset_ExecuteOn dtoa (ZRemRange ty spec) obj =
     same_cmd (ZRemRange ty spec) (ZRemRange_ExecuteOn ty spec obj RedisZsetResult)"
| "zset_ExecuteOn dtoa (ZScore e) obj = same_cmd (ZScore e) (ZScore_ExecuteOn dtoa e obj RedisZsetResult)"
| "zset_ExecuteOn dtoa (ZMScore es) obj = same_cmd (ZMScore es) (ZMScore_ExecuteOn dtoa es obj RedisZsetResult)"
| "zset_ExecuteOn dtoa ZCard obj = same_cmd ZCard (ZCard_ExecuteOn obj RedisZsetResult)"
| "zset_ExecuteOn dtoa (ZRank e rv ws) obj = same_cmd (ZRank e rv ws) (ZRank_ExecuteOn dtoa e rv ws obj RedisZsetResult)"
| "zset_ExecuteOn dtoa (ZRange a spec mt) obj =
     same_cmd (ZRange a spec mt) (ZRange_ExecuteOn dtoa a spec mt obj RedisZsetResult)"
| "zset_ExecuteOn dtoa (ZCountOf spec) obj = same_cmd (ZCountOf spec) (ZCount_ExecuteOn spec obj RedisZsetResult)"
| "zset_ExecuteOn dtoa (ZLexCount spec) obj = same_cmd (ZLexCount spec) (ZLexCount_ExecuteOn spec obj RedisZsetResult)"

fun zset_CommitOn :: "zset_cmd \<Rightarrow> redis_object \<Rightarrow> commit_result" where
  "zset_CommitOn (ZAdd flags els m) obj = ZAdd_CommitOn els flags m obj"
| "zset_CommitOn (ZRem es) obj = ZRem_CommitOn es obj"
| "zset_CommitOn (ZPop mn n) obj = ZPop_CommitOn mn n obj"
| "zset_CommitOn (ZRemRange ty spec) obj = ZRemRange_CommitOn ty spec obj"
| "zset_CommitOn _ obj = CUndefined"

lemmas zset_exec_defs =
  ZAdd_ExecuteOn_def ZRem_ExecuteOn_def ZPop_ExecuteOn_def ZRemRange_ExecuteOn_def ZScore_ExecuteOn_def
  ZMScore_ExecuteOn_def ZCard_ExecuteOn_def ZRank_ExecuteOn_def ZRange_ExecuteOn_def ZCount_ExecuteOn_def
  ZLexCount_ExecuteOn_def on_zset_def zread_def same_cmd_def

lemmas zset_commit_defs =
  ZAdd_CommitOn_def ZRem_CommitOn_def ZPop_CommitOn_def ZRemRange_CommitOn_def commit_zset_def

section \<open>What the commands mean\<close>

text \<open>What a command does to a sorted set, as a relation between the one before and the one after.\<close>

fun zset_effect :: "zset_cmd \<Rightarrow> zset_obj \<Rightarrow> zset_obj \<Rightarrow> bool" where
  "zset_effect (ZAdd flags (ZVector es) _) z z' \<longleftrightarrow> scores z' = fst (zadd_all flags (scores z) (bare es))"
| "zset_effect (ZAdd flags (ZPair e) _) z z' \<longleftrightarrow>
     scores z' = (scores z)(StringView (snd e) \<mapsto> incremented (fst e) (scores z (StringView (snd e))))"
| "zset_effect (ZRem es) z z' \<longleftrightarrow> 
     z_ordered_set z' = filter (\<lambda>n. name_of n \<notin> StringView ` set es) (z_ordered_set z)"
| "zset_effect (ZPop mn n) z z' \<longleftrightarrow>
     z_ordered_set z' = (if mn then drop (nat n) (z_ordered_set z)
                         else take (length (z_ordered_set z) - nat n) (z_ordered_set z))"
| "zset_effect (ZRemRange ty spec) z z' \<longleftrightarrow>
     z_ordered_set z' = filter (\<lambda>n. n \<notin> set (zrange_list ty spec (z_ordered_set z))) (z_ordered_set z)"
| "zset_effect _ z z' \<longleftrightarrow> z' = z"

fun zset_ok :: "zset_cmd \<Rightarrow> zset_obj \<Rightarrow> bool" where
  "zset_ok (ZAdd flags els _) z \<longleftrightarrow>
     \<not> z_ForceClear flags \<and> zflags_ok flags \<and>
     (case els of
        ZMono \<Rightarrow> False
      | ZPair e \<Rightarrow> z_INCR flags \<and> arg_ok (snd e) \<and> \<not> dbl_nan (fst e)
      | ZVector es \<Rightarrow> \<not> z_INCR flags \<and> zelems_ok es \<and> ZAdd_elements flags z es \<noteq> None)"
| "zset_ok (ZRem es) z \<longleftrightarrow> distinct (map StringView es) \<and> z_ordered_set z \<noteq> []"
| "zset_ok (ZPop mn n) z \<longleftrightarrow> 0 \<le> n \<and> z_ordered_set z \<noteq> []"
| "zset_ok (ZRemRange ty spec) z \<longleftrightarrow> zrange_ok ty spec (z_ordered_set z) \<and> z_ordered_set z \<noteq> []"
| "zset_ok (ZRange a spec _) z \<longleftrightarrow>
     zrange_ok (rangetype a) spec (z_ordered_set z) \<and> 0 \<le> opt_offset a \<and>
     (rangetype a = ZRANGE_RANK \<longrightarrow> opt_offset a = 0 \<and> opt_limit a = -1) \<and> z_ordered_set z \<noteq> []"
| "zset_ok (ZCountOf spec) z \<longleftrightarrow> zrange_ok ZRANGE_SCORE spec (z_ordered_set z) \<and> z_ordered_set z \<noteq> []"
| "zset_ok (ZLexCount spec) z \<longleftrightarrow> zrange_ok ZRANGE_LEX spec (z_ordered_set z) \<and> z_ordered_set z \<noteq> []"
| "zset_ok _ z \<longleftrightarrow> z_ordered_set z \<noteq> []"

definition zset_commits :: "zset_cmd \<Rightarrow> zset_cmd \<Rightarrow> exec_result \<Rightarrow> zset_obj \<Rightarrow> redis_object \<Rightarrow> bool" where
  "zset_commits c c' d z ob \<longleftrightarrow>
     (\<exists>z'. zset_state z' \<and> zset_effect c z z' \<and> (d = EDelete \<longleftrightarrow> z_ordered_set z' = []) \<and>
        zset_CommitOn c' ob = (if z_ordered_set z' = [] then CRemove else CKeep (ob\<lparr>rvalue := VZset z'\<rparr>)))"

lemma zset_commitsI:
  assumes "zset_state z'" "zset_effect c z z'" "d = EDelete \<longleftrightarrow> z_ordered_set z' = []"
    and "zset_CommitOn c' ob = (if z_ordered_set z' = [] then CRemove else CKeep (ob\<lparr>rvalue := VZset z'\<rparr>))"
  shows "zset_commits c c' d z ob"
  unfolding zset_commits_def using assms by blast

lemma zadd_all_grows: "dom M \<subseteq> dom (fst (zadd_all flags M es)) \<and>
    (snd (snd (zadd_all flags M es)) \<longrightarrow> dom (fst (zadd_all flags M es)) \<noteq> {})"
proof (induction es arbitrary: M)
  case (Cons e es)
  obtain num b where e: "e = (num, b)" by (cases e)
  show ?case
  proof (cases "zadd_one flags num (M b)")
    case None
    then show ?thesis using Cons.IH [of M] by (simp add: e)
  next
    case (Some cm)
    obtain c m where cm: "cm = (c, m)" by (cases cm)
    have "insert b (dom M) \<subseteq> dom (fst (zadd_all flags (M(b \<mapsto> num)) es))"
      using conjunct1 [OF Cons.IH [of "M(b \<mapsto> num)"]] unfolding dom_fun_upd by (simp del: fun_upd_apply)
    then show ?thesis using Some cm by (simp add: e split_beta Let_def del: fun_upd_apply dom_eq_empty_conv) blast
  qed
qed simp

lemma scores_empty: "zset_wf z \<Longrightarrow> scores z = Map.empty \<longleftrightarrow> z_ordered_set z = []"
  using scores_none [of z] by (auto simp: fun_eq_iff)

lemma zadd_commits:
  assumes "zset_state z" "rvalue ob = VZset z" "zset_ok (ZAdd flags els m) z"
    and "zset_ExecuteOn dtoa (ZAdd flags els m) ob = Some (c', r, d)" "d = EWrite \<or> d = EDelete"
  shows "zset_commits (ZAdd flags els m) c' d z ob"
proof -
  have f: "\<not> z_ForceClear flags" "zflags_ok flags" using assms(3) by simp_all
  obtain els' st where x: "Execute_ZAdd dtoa z els flags RedisZsetResult = Some (els', r, st)"
      "c' = ZAdd flags els' m" "d = write_or_fail st"
    using assms(2,4) f(1) by (auto simp: zset_exec_defs)
  have st: "st = Modified" "d = EWrite" using assms(5) x(3) by (auto simp: write_or_fail_def split: if_splits)
  then have fits: "\<not> zset_slen z + elements_size els > MAX_OBJECT_SIZE"
    using x(1) by (auto simp: Execute_ZAdd_def split: if_splits)
  have "\<exists>z'. CommitZAdd z els' flags m = Some z' \<and> zset_state z' \<and> zset_effect (ZAdd flags els m) z z' \<and> z_ordered_set z' \<noteq> []"
  proof (cases els)
    case ZMono
    then show ?thesis using assms(3) by simp
  next
    case (ZPair e)
    obtain num g where e: "e = (num, g)" by (cases e)
    have k: "z_INCR flags" "arg_ok g" "\<not> dbl_nan num" using assms(3) by (simp_all add: ZPair e)
    obtain err ans where i: "ZAddIncr dtoa z (num, g) flags = (els', err, ans, True)"
      using x(1) fits k(1) st(1) by (auto simp: Execute_ZAdd_def ZPair e Let_def split_beta changed_state_def split: if_splits)
        (metis prod.collapse)
    obtain z' where z': "CommitZAdd z els' flags m = Some z'" "zset_state z'"
        "scores z' = (scores z)(StringView g \<mapsto> incremented num (scores z (StringView g)))"
      using CommitZAdd_increments [OF assms(1) k(2,3,1) i] fits unfolding ZPair e by blast
    have "scores z' \<noteq> Map.empty" unfolding z'(3) by simp
    then have "z_ordered_set z' \<noteq> []" using scores_empty [of z'] z'(2) by (simp add: zset_state_def)
    then show ?thesis using z' by (simp add: ZPair e)
  next
    case (ZVector es)
    have k: "\<not> z_INCR flags" "zelems_ok es" using assms(3) by (simp_all add: ZVector)
    obtain ks cnt where i: "ZAdd_elements flags z es = Some (ks, cnt, True)" "els' = ZVector ks"
      using x(1) fits k(1) st(1) by (auto simp: Execute_ZAdd_def ZVector changed_state_def split: if_splits)
    obtain z' where z': "CommitZAdd z els' flags m = Some z'" "zset_state z'"
        "zadd_all flags (scores z) (bare es) = (scores z', cnt, True)"
      using CommitZAdd_adds [OF assms(1) k(2) f(2) k(1) i(1)] fits unfolding ZVector i(2) by blast
    have "dom (scores z') \<noteq> {}" using zadd_all_grows [of "scores z" flags "bare es"] z'(3) by simp
    then have "z_ordered_set z' \<noteq> []" using scores_empty [of z'] z'(2) by (auto simp: zset_state_def)
    then show ?thesis using z' by (simp add: ZVector)
  qed
  then show ?thesis
    using assms(2) f(1) st(2) x(2) by (auto intro!: zset_commitsI simp: zset_commit_defs)
qed

lemma zset_commits_removal:
  assumes "rvalue ob = VZset z" "f z = Some (z', z_ordered_set z' = [])" "zset_state z'"
    and "zset_effect c z z'" "d = EDelete \<longleftrightarrow> z_ordered_set z' = []" "zset_CommitOn c' ob = commit_zset ob f"
  shows "zset_commits c c' d z ob"
  using assms by (intro zset_commitsI [of z']) (simp_all add: commit_zset_def)

lemma filter_common:
  assumes "distinct xs" "distinct ys"
  shows "length (filter (\<lambda>x. x \<in> set ys) xs) = length (filter (\<lambda>y. y \<in> set xs) ys)"
proof -
  have "length (filter (\<lambda>x. x \<in> set ys) xs) = card (set xs \<inter> set ys)"
    using assms(1) distinct_card [OF distinct_filter] by (metis Int_def set_filter)
  also have "\<dots> = length (filter (\<lambda>y. y \<in> set xs) ys)"
    using assms(2) distinct_card [OF distinct_filter] by (metis Int_commute Int_def set_filter)
  finally show ?thesis .
qed

lemma zrem_execution:
  assumes "zset_wf z" "distinct (map StringView es)"
  shows "length (filter (\<lambda>e. map_of (z_hash_map z) (StringView e) \<noteq> None) es) =
    length (filter (\<lambda>n. name_of n \<in> StringView ` set es) (z_ordered_set z))"
proof -
  let ?ns = "map name_of (z_ordered_set z)"
  have k: "map_of (z_hash_map z) b \<noteq> None \<longleftrightarrow> b \<in> set ?ns" for b
    using scores_none [OF assms(1), of b] by (simp add: scores_def)
  have "length (filter (\<lambda>e. map_of (z_hash_map z) (StringView e) \<noteq> None) es) =
      length (filter (\<lambda>b. b \<in> set ?ns) (map StringView es))"
    unfolding filter_map comp_def k by simp
  also have "\<dots> = length (filter (\<lambda>b. b \<in> set (map StringView es)) ?ns)"
    by (rule filter_common [OF assms(2) zset_wfD(1) [OF assms(1)]])
  finally show ?thesis by (simp add: filter_map comp_def)
qed

lemma zrem_commits:
  assumes "zset_state z" "rvalue ob = VZset z" "zset_ok (ZRem es) z"
    and "zset_ExecuteOn dtoa (ZRem es) ob = Some (c', r, d)" "d = EWrite \<or> d = EDelete"
  shows "zset_commits (ZRem es) c' d z ob"
proof -
  let ?P = "\<lambda>n. name_of n \<in> StringView ` set es"
  obtain z' where z': "CommitZRem z es = Some (z', z_ordered_set z' = [])" "zset_state z'"
      "z_ordered_set z' = filter (\<lambda>n. \<not> ?P n) (z_ordered_set z)"
    using CommitZRem_removes [OF assms(1), of es] by blast
  have wf: "zset_wf z" using assms(1) by (simp add: zset_state_def)
  have len: "length (filter ?P (z_ordered_set z)) + length (z_ordered_set z') = length (z_ordered_set z)"
    unfolding z'(3) by (rule sum_length_filter_compl)
  then have "z_ordered_set z' = [] \<longleftrightarrow> length (z_ordered_set z) \<le> length (filter ?P (z_ordered_set z))"
    unfolding length_0_conv [symmetric] by linarith
  then have "d = EDelete \<longleftrightarrow> z_ordered_set z' = []" "c' = ZRem es"
    using assms(2-5) zrem_execution [OF wf, of es]
    by (auto simp: zset_exec_defs Execute_ZRem_def Let_def split: if_splits)
  then show ?thesis using z' assms(2)
    by (intro zset_commits_removal [of ob z "\<lambda>z. CommitZRem z es", OF assms(2) z'(1,2)])
      (simp_all add: ZRem_CommitOn_def)
qed

lemma zpop_commits:
  assumes "zset_state z" "rvalue ob = VZset z" "zset_ok (ZPop mn n) z"
    and "zset_ExecuteOn dtoa (ZPop mn n) ob = Some (c', r, d)" "d = EWrite \<or> d = EDelete"
  shows "zset_commits (ZPop mn n) c' d z ob"
proof -
  have n: "0 \<le> n" using assms(3) by simp
  obtain z' where z': "CommitZPop z mn n = Some (z', z_ordered_set z' = [])" "zset_state z'"
      "z_ordered_set z' = (if mn then drop (nat n) (z_ordered_set z)
                           else take (length (z_ordered_set z) - nat n) (z_ordered_set z))"
    using CommitZPop_removes [OF assms(1) n, of mn] by blast
  have "z_ordered_set z' = [] \<longleftrightarrow> length (z_ordered_set z) \<le> nat n"
    using assms(3) unfolding z'(3) by simp
  then have "d = EDelete \<longleftrightarrow> z_ordered_set z' = []" "c' = ZPop mn n"
    using assms(2,4,5) by (auto simp: zset_exec_defs Execute_ZPop_def Let_def split: if_splits)
  then show ?thesis using z'
    by (intro zset_commits_removal [of ob z "\<lambda>z. CommitZPop z mn n", OF assms(2) z'(1,2)])
      (simp_all add: ZPop_CommitOn_def)
qed

lemma subseq_nths: "subseq (nths xs N) xs"
  unfolding subseq_conv_nths by blast

lemma zrange_list_sub: "subseq (zrange_list ty spec xs) xs"
  by (cases ty) (simp_all add: zrange_list_def subseq_nths split: option.split prod.split)

lemma nodes_distinct: "zset_wf z \<Longrightarrow> distinct (z_ordered_set z)"
  using zset_wfD(1) distinct_map by blast

lemma zremrange_commits:
  assumes "zset_state z" "rvalue ob = VZset z" "zset_ok (ZRemRange ty spec) z"
    and "zset_ExecuteOn dtoa (ZRemRange ty spec) ob = Some (c', r, d)" "d = EWrite \<or> d = EDelete"
  shows "zset_commits (ZRemRange ty spec) c' d z ob"
proof -
  let ?l = "zrange_list ty spec (z_ordered_set z)"
  have ok: "zrange_ok ty spec (z_ordered_set z)" using assms(3) by simp
  have ex: "c' = ZRemRange ty spec" "?l \<noteq> []" "d = EDelete \<longleftrightarrow> length ?l \<ge> length (z_ordered_set z)"
    using assms(2,4,5) zremrange_counts [OF assms(1) ok]
    by (auto simp: zset_exec_defs Execute_ZRemRange_def split: if_splits)
  obtain z' where z': "CommitZRemRange z ty spec = Some (z', z_ordered_set z' = [])" "zset_state z'"
      "z_ordered_set z' = filter (\<lambda>n. n \<notin> set ?l) (z_ordered_set z)"
    using CommitZRemRange_removes [OF assms(1) ok ex(2)] by blast
  have sub: "subseq ?l (z_ordered_set z)" by (rule zrange_list_sub)
  have "z_ordered_set z' = [] \<longleftrightarrow> length ?l \<ge> length (z_ordered_set z)"
  proof
    assume "z_ordered_set z' = []"
    then have "set (z_ordered_set z) \<subseteq> set ?l" unfolding z'(3) filter_empty_conv by blast
    then have "card (set (z_ordered_set z)) \<le> card (set ?l)" by (simp add: card_mono)
    also have "\<dots> \<le> length ?l" by (rule card_length)
    finally show "length ?l \<ge> length (z_ordered_set z)"
      using nodes_distinct [of z] assms(1) by (simp add: zset_state_def distinct_card)
  next
    assume "length ?l \<ge> length (z_ordered_set z)"
    then have "?l = z_ordered_set z" using sub list_emb_length [OF sub] subseq_same_length by fastforce
    then show "z_ordered_set z' = []" unfolding z'(3) filter_empty_conv by simp
  qed
  then show ?thesis using z' ex
    by (intro zset_commits_removal [of ob z "\<lambda>z. CommitZRemRange z ty spec", OF assms(2) z'(1,2)])
      (simp_all add: ZRemRange_CommitOn_def)
qed

lemma zset_command_commits:
  assumes "zset_state z" "rvalue ob = VZset z" "zset_ok c z"
    and "zset_ExecuteOn dtoa c ob = Some (c', r, d)" "d = EWrite \<or> d = EDelete"
  shows "zset_commits c c' d z ob"
proof (cases c)
  case (ZAdd f els m)
  show ?thesis using zadd_commits assms unfolding ZAdd by blast
next
  case (ZRem es)
  show ?thesis using zrem_commits assms unfolding ZRem by blast
next
  case (ZPop mn n)
  show ?thesis using zpop_commits assms unfolding ZPop by blast
next
  case (ZRemRange ty spec)
  show ?thesis using zremrange_commits assms unfolding ZRemRange by blast
qed (use assms in \<open>auto simp: zset_exec_defs\<close>)

section \<open>The contract\<close>

fun zset_value :: "redis_value \<Rightarrow> znode list" where
  "zset_value (VZset z) = z_ordered_set z"
| "zset_value _ = []"

fun zset_object_inv :: "redis_value \<Rightarrow> bool" where
  "zset_object_inv (VZset z) \<longleftrightarrow> zset_state z"
| "zset_object_inv _ \<longleftrightarrow> False"

fun zset_object_ok :: "zset_cmd \<Rightarrow> redis_value \<Rightarrow> bool" where
  "zset_object_ok c (VZset z) \<longleftrightarrow> zset_ok c z"
| "zset_object_ok c _ \<longleftrightarrow> False"

text \<open>An execution without meaning counts as one that fails; under \<^const>\<open>zset_ok\<close> there is none
  (\<^verbatim>\<open>zset_executes\<close> below).\<close>

definition zset_run :: "(u64 \<Rightarrow> bytes) \<Rightarrow> zset_cmd \<Rightarrow> redis_object \<Rightarrow> zset_cmd \<times> zset_result \<times> exec_result" where
  "zset_run dtoa c ob = (case zset_ExecuteOn dtoa c ob of None \<Rightarrow> (c, RedisZsetResult, EFail) | Some out \<Rightarrow> out)"

lemma zset_run_changes:
  "zset_run dtoa c ob = (c', r, d) \<Longrightarrow> d = EWrite \<or> d = EDelete \<Longrightarrow> zset_ExecuteOn dtoa c ob = Some (c', r, d)"
  by (auto simp: zset_run_def split: option.splits)

interpretation zset_commands: ttl_keeping_command "zset_run dtoa" zset_CommitOn
  "\<lambda>c ob. zset_object_ok c (rvalue ob)" "\<lambda>ob. zset_object_inv (rvalue ob)" "\<lambda>ob. zset_value (rvalue ob) = []"
  for dtoa
proof unfold_locales
  fix ob :: redis_object and c c' r
  assume a: "zset_object_inv (rvalue ob)" "zset_object_ok c (rvalue ob)"
  then obtain z where z: "rvalue ob = VZset z" "zset_state z" "zset_ok c z"
    by (cases "rvalue ob") auto
  note cm = zset_command_commits [OF z(2,1,3) zset_run_changes]
  show "\<exists>ob'. zset_CommitOn c' ob = CKeep ob' \<and> zset_object_inv (rvalue ob') \<and> zset_value (rvalue ob') \<noteq> []"
    if w: "zset_run dtoa c ob = (c', r, EWrite)"
  proof -
    obtain z' where "zset_state z'" "z_ordered_set z' \<noteq> []" "zset_CommitOn c' ob = CKeep (ob\<lparr>rvalue := VZset z'\<rparr>)"
      using cm [OF w] by (auto simp: zset_commits_def split: if_splits)
    then show ?thesis by simp
  qed
  show "zset_CommitOn c' ob = CRemove" if "zset_run dtoa c ob = (c', r, EDelete)"
    using cm [OF that] by (auto simp: zset_commits_def)
  show "rttl ob' = rttl ob" if "zset_run dtoa c ob = (c', r, EWrite)" "zset_CommitOn c' ob = CKeep ob'" for ob'
    using cm [OF that(1)] that(2) by (auto simp: zset_commits_def split: if_splits)
qed

text \<open>Every command the parsers make has a meaning on a well-formed sorted set.\<close>

lemma zrange_answer:
  assumes "zset_state z" "zset_ok (ZRange a spec m) z"
  shows "GetZrangeResult dtoa z a spec = Some (members_of dtoa (opt_withscores a)
    (if rangetype a = ZRANGE_RANK then zrange_list ZRANGE_RANK spec (turned (dir_reverse a) (z_ordered_set z))
     else page (opt_offset a) (opt_limit a)
            (turned (dir_reverse a) (zrange_list (rangetype a) spec (z_ordered_set z)))))"
proof (cases "rangetype a")
  case ZRANGE_AUTO
  then show ?thesis using assms(2) by (simp add: zrange_ok_def)
next
  case ZRANGE_RANK
  then show ?thesis using assms ZRangeByRank_answers [of z spec a dtoa] by (simp add: GetZrangeResult_def)
next
  case ZRANGE_SCORE
  then show ?thesis using assms ZRangeByScore_answers [of z spec a dtoa] by (simp add: GetZrangeResult_def)
next
  case ZRANGE_LEX
  then show ?thesis using assms ZRangeByLex_answers [of z spec a dtoa] by (simp add: GetZrangeResult_def)
qed

lemma zcounts:
  assumes "zset_state z"
  shows "zrange_ok ZRANGE_SCORE spec (z_ordered_set z) \<Longrightarrow>
      ZCount z spec = Some (length (zrange_list ZRANGE_SCORE spec (z_ordered_set z)))"
    and "zrange_ok ZRANGE_LEX spec (z_ordered_set z) \<Longrightarrow>
      ZRemRangeByLex z spec = Some (length (zrange_list ZRANGE_LEX spec (z_ordered_set z)))"
  using zremrange_counts [OF assms, of ZRANGE_SCORE spec] zremrange_counts [OF assms, of ZRANGE_LEX spec]
  by (simp_all add: zremrange_count_def ZCount_def)

lemma zset_executes:
  assumes "zset_state z" "rvalue ob = VZset z" "zset_ok c z"
  shows "zset_ExecuteOn dtoa c ob \<noteq> None"
proof (cases c)
  case (ZAdd flags els m)
  then show ?thesis using assms(2,3)
    by (cases els) (auto simp: zset_exec_defs Execute_ZAdd_def split_beta Let_def)
next
  case (ZRemRange ty spec)
  then show ?thesis using assms zremrange_counts [OF assms(1), of ty spec]
    by (simp add: zset_exec_defs Execute_ZRemRange_def)
next
  case (ZRange a spec m)
  then show ?thesis using assms zrange_answer [OF assms(1), of a spec m dtoa]
    by (simp add: zset_exec_defs Execute_ZRange_def)
next
  case (ZCountOf spec)
  then show ?thesis using assms zcounts [OF assms(1), of spec] by (simp add: zset_exec_defs Execute_ZCount_def)
next
  case (ZLexCount spec)
  then show ?thesis using assms zcounts [OF assms(1), of spec] by (simp add: zset_exec_defs Execute_ZLexCount_def)
qed (use assms(2) in \<open>auto simp: zset_exec_defs split_beta Let_def\<close>)

section \<open>Replies\<close>

fun zset_OutputResult :: "zset_cmd \<Rightarrow> zset_result \<Rightarrow> reply list option" where
  "zset_OutputResult (ZAdd flags _ _) r = ZAdd_OutputResult flags r"
| "zset_OutputResult (ZPop _ _) r = zstrs_OutputResult r"
| "zset_OutputResult (ZRange _ _ _) r = zstrs_OutputResult r"
| "zset_OutputResult (ZScore _) r = ZScore_OutputResult r"
| "zset_OutputResult (ZMScore es) r = ZMScore_OutputResult es r"
| "zset_OutputResult (ZRank _ _ _) r = ZRank_OutputResult r"
| "zset_OutputResult _ r = zint_OutputResult r"

lemmas zset_output_defs =
  ZAdd_OutputResult_def zstrs_OutputResult_def zint_OutputResult_def ZScore_OutputResult_def ZMScore_OutputResult_def
  ZRank_OutputResult_def zset_error_def

lemmas zset_execute_defs =
  Execute_ZRem_def Execute_ZPop_def Execute_ZRemRange_def Execute_ZScore_def Execute_ZMScore_def Execute_ZCard_def
  Execute_ZRank_def Execute_ZRange_def Execute_ZCount_def Execute_ZLexCount_def

lemma scalars_reply: "(\<And>x. scalar_reply (f x)) \<Longrightarrow> one_reply (array_reply (map f xs))"
  by (simp add: list_all_iff)

text \<open>On an object of another type every command fails, except \<^verbatim>\<open>ZADD\<close> with the flag that replaces and a \<^verbatim>\<open>ZRANGE\<close>
  that also reads sets.\<close>

lemma zset_wrong_type:
  assumes "\<And>z. rvalue ob \<noteq> VZset z" "\<And>f els m. c = ZAdd f els m \<Longrightarrow> \<not> z_ForceClear f"
    and "\<And>a spec. c \<noteq> ZRange a spec True"
  shows "\<exists>r. zset_ExecuteOn dtoa c ob = Some (c, r, EFail) \<and> zr_err r = RD_ERR_WRONG_TYPE"
  using assms by (cases c; cases "rvalue ob") (auto simp: zset_exec_defs)

lemma zset_replies_other:
  assumes "\<And>z. rvalue ob \<noteq> VZset z" "zset_ExecuteOn dtoa c ob = Some (c', r, d)"
  shows "replies (zset_OutputResult c' r)"
proof (cases "(\<exists>f els m. c = ZAdd f els m \<and> z_ForceClear f) \<or> (\<exists>a spec. c = ZRange a spec True)")
  case False
  then have "c' = c" "zr_err r = RD_ERR_WRONG_TYPE"
    using zset_wrong_type [OF assms(1), of c dtoa] assms(2) by auto
  then show ?thesis by (cases c) (simp_all add: zset_output_defs)
next
  case True
  then show ?thesis
  proof (elim disjE exE conjE)
    fix f els m assume "c = ZAdd f els m" "z_ForceClear f"
    then show ?thesis using assms
      by (cases els) (auto simp: zset_exec_defs zset_output_defs Let_def split: if_splits)
  next
    fix a spec assume "c = ZRange a spec True"
    then show ?thesis using assms
      by (cases "rvalue ob") (auto simp: zset_exec_defs zset_output_defs scalars_reply)
  qed
qed

text \<open>So a command that has a result has a reply, if a \<^verbatim>\<open>ZADD\<close> holds one pair just when it increments.\<close>

lemma zset_replies_any:
  assumes "\<And>f els m. c = ZAdd f els m \<Longrightarrow> z_INCR f = (\<exists>e. els = ZPair e)" "zset_ExecuteOn dtoa c ob = Some (c', r, d)"
  shows "replies (zset_OutputResult c' r)"
proof (cases "\<exists>z. rvalue ob = VZset z")
  case True
  then obtain z where z: "rvalue ob = VZset z" ..
  show ?thesis
  proof (cases c)
    case (ZAdd flags els m)
    then show ?thesis using assms(1) [OF ZAdd] assms(2) z
      by (cases els) (auto simp: zset_exec_defs zset_output_defs Execute_ZAdd_def ZAddIncr_def split_beta Let_def
         RedisZsetResult_def split: if_splits option.splits)
  next
    case (ZMScore es)
    then show ?thesis using assms z
      by (auto simp: zset_exec_defs zset_output_defs zset_execute_defs simp del: replies_simps(3) intro!: scalars_reply)
  qed (use assms z in \<open>auto simp: zset_exec_defs zset_output_defs zset_execute_defs Let_def split_beta list_all_iff
         split: if_splits option.splits\<close>)
qed (use assms(2) zset_replies_other in blast)

lemma zset_replies:
  assumes "zset_ok c z" "zset_ExecuteOn dtoa c ob = Some (c', r, d)"
  shows "replies (zset_OutputResult c' r)"
  by (rule zset_replies_any [OF _ assms(2)]) (use assms(1) in \<open>auto split: zelements.splits\<close>)

section \<open>Images\<close>

definition ZScore_Serialize :: "eloq_string \<Rightarrow> bytes \<Rightarrow> bytes" where
  "ZScore_Serialize element str = str @ put_u8 (cmd_type ''ZSCORE'') @ put_string element"

definition ZMScore_Serialize :: "eloq_string list \<Rightarrow> bytes \<Rightarrow> bytes" where
  "ZMScore_Serialize vct_elm str = str @ put_u8 (cmd_type ''ZMSCORE'') @ put_vec put_string vct_elm"

definition ZCard_Serialize :: "bytes \<Rightarrow> bytes" where
  "ZCard_Serialize str = str @ put_u8 (cmd_type ''ZCARD'')"

definition ZRank_Serialize :: "eloq_string \<Rightarrow> bool \<Rightarrow> bool \<Rightarrow> bytes \<Rightarrow> bytes" where
  "ZRank_Serialize member is_rev with_score str =
     str @ put_u8 (cmd_type ''ZRANK'') @ put_string member @ put_bool with_score @ put_bool is_rev"

definition ZRank_Deserialize :: "(eloq_string \<times> bool \<times> bool) reader" where
  "ZRank_Deserialize bs =
     do { (member, bs1) \<leftarrow> get_string bs; (ws, bs2) \<leftarrow> get_bool bs1; (rv, bs3) \<leftarrow> get_bool bs2; Some ((member, rv, ws), bs3) }"

fun direction_code :: "zrange_direction \<Rightarrow> nat" where
  "direction_code DIRECTION_AUTO = 0"
| "direction_code DIRECTION_FORWARD = 1"
| "direction_code DIRECTION_REVERSE = 2"

definition direction_of_code :: "nat \<Rightarrow> zrange_direction option" where
  "direction_of_code n = find (\<lambda>d. direction_code d = n) [DIRECTION_AUTO, DIRECTION_FORWARD, DIRECTION_REVERSE]"

definition ZRange_Serialize :: "zrange_constraint \<Rightarrow> zrange_spec \<Rightarrow> bool \<Rightarrow> bytes \<Rightarrow> bytes" where
  "ZRange_Serialize constr spec multi_type_range str =
     str @ put_u8 (cmd_type ''ZRANGE'') @ put_bool (opt_withscores constr) @ put_i32 (opt_offset constr) @
     put_i32 (opt_limit constr) @ put_u8 (range_code (rangetype constr)) @ put_u8 (direction_code (direction constr)) @
     put_spec spec @ put_bool multi_type_range"

definition ZRange_Deserialize :: "(zrange_constraint \<times> zrange_spec \<times> bool) reader" where
  "ZRange_Deserialize bs =
     do { (ws, bs1) \<leftarrow> get_bool bs; (off, bs2) \<leftarrow> get_i32 bs1; (lim, bs3) \<leftarrow> get_i32 bs2;
          (t, bs4) \<leftarrow> get_u8 bs3; ty \<leftarrow> range_of_code t; (d, bs5) \<leftarrow> get_u8 bs4; dir \<leftarrow> direction_of_code d;
          (spec, bs6) \<leftarrow> get_spec bs5; (mt, bs7) \<leftarrow> get_bool bs6;
          Some ((\<lparr>opt_withscores = ws, opt_offset = off, opt_limit = lim, rangetype = ty, direction = dir\<rparr>, spec, mt), bs7) }"

definition ZCount_Serialize :: "zrange_spec \<Rightarrow> bytes \<Rightarrow> bytes" where
  "ZCount_Serialize spec str =
     str @ put_u8 (cmd_type ''ZCOUNT'') @ put_bool (minex spec) @ put_bool (maxex spec) @
     put_bound (opt_start spec) @ put_bound (opt_end spec)"

definition ZRangeSpec_default :: zrange_spec where
  "ZRangeSpec_default = \<lparr>null = False, minex = False, maxex = False, negative = False, positive = False,
     opt_start = ZBInt 0, opt_end = ZBInt 0\<rparr>"

definition ZCount_Deserialize :: "zrange_spec reader" where
  "ZCount_Deserialize bs =
     do { (mn, bs1) \<leftarrow> get_bool bs; (mx, bs2) \<leftarrow> get_bool bs1; (st, bs3) \<leftarrow> get_bound bs2; (en, bs4) \<leftarrow> get_bound bs3;
          Some (ZRangeSpec_default\<lparr>minex := mn, maxex := mx, opt_start := st, opt_end := en\<rparr>, bs4) }"

text \<open>Here \<^verbatim>\<open>null_\<close> is written; a bound that is no string is left out, which only a null range may have.\<close>

definition put_lex_bound :: "bool \<Rightarrow> zbound \<Rightarrow> bytes option" where
  "put_lex_bound nl b = (case b of ZBStr s \<Rightarrow> Some (put_string s) | _ \<Rightarrow> if nl then Some [] else None)"

definition ZLexCount_Serialize :: "zrange_spec \<Rightarrow> bytes \<Rightarrow> bytes option" where
  "ZLexCount_Serialize spec str =
     do { st \<leftarrow> put_lex_bound (null spec) (opt_start spec); en \<leftarrow> put_lex_bound (null spec) (opt_end spec);
          Some (str @ put_u8 (cmd_type ''ZLEXCOUNT'') @ put_bool (null spec) @ put_bool (minex spec) @
                put_bool (maxex spec) @ put_bool (negative spec) @ put_bool (positive spec) @ st @ en) }"

definition ZLexCount_Deserialize :: "zrange_spec reader" where
  "ZLexCount_Deserialize bs =
     do { (nl, bs0) \<leftarrow> get_bool bs;
          (if nl then Some (ZRangeSpec_default\<lparr>null := True\<rparr>, bs0)
           else do { (mn, bs1) \<leftarrow> get_bool bs0; (mx, bs2) \<leftarrow> get_bool bs1; (ng, bs3) \<leftarrow> get_bool bs2; (ps, bs4) \<leftarrow> get_bool bs3;
                     (st, bs5) \<leftarrow> get_string bs4; (en, bs6) \<leftarrow> get_string bs5;
                     Some (\<lparr>null = False, minex = mn, maxex = mx, negative = ng, positive = ps,
                            opt_start = ZBStr st, opt_end = ZBStr en\<rparr>, bs6) }) }"

definition CreateTxCommand_zset :: "zset_cmd reader" where
  "CreateTxCommand_zset cmd_image =
     do { (ct, bs) \<leftarrow> get_u8 cmd_image;
          (if ct = cmd_type ''ZADD'' then map_option (apfst (\<lambda>(f, els). ZAdd f els False)) (ZAdd_Deserialize bs)
           else if ct = cmd_type ''ZREM'' then map_option (apfst ZRem) (get_vec get_string bs)
           else if list_ex (\<lambda>n. ct = cmd_type n)
                     [''ZRANGE'', ''ZRANGEBYSCORE'', ''ZRANGEBYLEX'', ''ZRANGEBYRANK'', ''ZREVRANGE'',
                      ''ZREVRANGEBYSCORE'', ''ZREVRANGEBYLEX'']
           then map_option (apfst (\<lambda>(a, spec, mt). ZRange a spec mt)) (ZRange_Deserialize bs)
           else if ct = cmd_type ''ZREMRANGE'' then map_option (apfst (\<lambda>(ty, spec). ZRemRange ty spec)) (ZRemRange_Deserialize bs)
           else if ct = cmd_type ''ZSCORE'' then map_option (apfst ZScore) (get_string bs)
           else if ct = cmd_type ''ZLEXCOUNT'' then map_option (apfst ZLexCount) (ZLexCount_Deserialize bs)
           else if ct = cmd_type ''ZPOPMIN'' then map_option (apfst (ZPop True)) (get_i64 bs)
           else if ct = cmd_type ''ZPOPMAX'' then map_option (apfst (ZPop False)) (get_i64 bs)
           else if ct = cmd_type ''ZCARD'' then Some (ZCard, bs)
           else if ct = cmd_type ''ZCOUNT'' then map_option (apfst ZCountOf) (ZCount_Deserialize bs)
           else if ct = cmd_type ''ZMSCORE'' then map_option (apfst ZMScore) (get_vec get_string bs)
           else if ct = cmd_type ''ZRANK'' then map_option (apfst (\<lambda>(e, rv, ws). ZRank e rv ws)) (ZRank_Deserialize bs)
           else None) }"

fun zset_cmd_Serialize :: "zset_cmd \<Rightarrow> bytes option" where
  "zset_cmd_Serialize (ZAdd f els _) = Some (ZAdd_Serialize els f [])"
| "zset_cmd_Serialize (ZRem es) = Some (ZRem_Serialize es [])"
| "zset_cmd_Serialize (ZPop mn n) = Some (ZPop_Serialize mn n [])"
| "zset_cmd_Serialize (ZRemRange ty spec) = Some (ZRemRange_Serialize ty spec [])"
| "zset_cmd_Serialize (ZScore e) = Some (ZScore_Serialize e [])"
| "zset_cmd_Serialize (ZMScore es) = Some (ZMScore_Serialize es [])"
| "zset_cmd_Serialize ZCard = Some (ZCard_Serialize [])"
| "zset_cmd_Serialize (ZRank e rv ws) = Some (ZRank_Serialize e rv ws [])"
| "zset_cmd_Serialize (ZRange a spec mt) = Some (ZRange_Serialize a spec mt [])"
| "zset_cmd_Serialize (ZCountOf spec) = Some (ZCount_Serialize spec [])"
| "zset_cmd_Serialize (ZLexCount spec) = ZLexCount_Serialize spec []"

lemmas zset_image_defs =
  ZAdd_Serialize_def ZRem_Serialize_def ZPop_Serialize_def ZRemRange_Serialize_def ZScore_Serialize_def
  ZMScore_Serialize_def ZCard_Serialize_def ZRank_Serialize_def ZRange_Serialize_def ZCount_Serialize_def
  ZLexCount_Serialize_def ZAdd_Deserialize_def ZRemRange_Deserialize_def ZRank_Deserialize_def ZRange_Deserialize_def
  ZCount_Deserialize_def ZLexCount_Deserialize_def put_lex_bound_def

fun bound_wf :: "zbound \<Rightarrow> bool" where
  "bound_wf (ZBStr s) = arg s"
| "bound_wf (ZBDouble _) = True"
| "bound_wf (ZBInt i) = is_i32 i"

definition spec_wf :: "zrange_spec \<Rightarrow> bool" where
  "spec_wf spec \<longleftrightarrow> bound_wf (opt_start spec) \<and> bound_wf (opt_end spec)"

fun zset_cmd_wf :: "zset_cmd \<Rightarrow> bool" where
  "zset_cmd_wf (ZAdd f els m) =
     (f < 256 \<and> \<not> m \<and>
      (case els of ZMono \<Rightarrow> True | ZPair e \<Rightarrow> arg (snd e) | ZVector es \<Rightarrow> list_all (\<lambda>e. arg (snd e)) es \<and> length es < 2 ^ 32))"
| "zset_cmd_wf (ZRem es) = (list_all arg es \<and> length es < 2 ^ 32)"
| "zset_cmd_wf (ZPop _ n) = is_i64 n"
| "zset_cmd_wf (ZRemRange _ spec) = (spec_wf spec \<and> \<not> null spec)"
| "zset_cmd_wf (ZScore e) = arg e"
| "zset_cmd_wf (ZMScore es) = (list_all arg es \<and> length es < 2 ^ 32)"
| "zset_cmd_wf ZCard = True"
| "zset_cmd_wf (ZRank e _ _) = arg e"
| "zset_cmd_wf (ZRange a spec _) = (spec_wf spec \<and> \<not> null spec \<and> is_i32 (opt_offset a) \<and> is_i32 (opt_limit a))"
| "zset_cmd_wf (ZCountOf spec) = (spec_wf spec \<and> \<not> null spec \<and> \<not> negative spec \<and> \<not> positive spec)"
| "zset_cmd_wf (ZLexCount spec) = (spec_wf spec \<and> \<not> null spec \<and> get_strs spec \<noteq> None)"

lemma zset_cmd_numbers:
  "cmd_type ''ZADD'' = 76" "cmd_type ''ZCOUNT'' = 77" "cmd_type ''ZCARD'' = 78"
  "cmd_type ''ZRANGE'' = 79" "cmd_type ''ZREM'' = 81" "cmd_type ''ZSCORE'' = 82"
  "cmd_type ''ZRANGEBYSCORE'' = 83" "cmd_type ''ZRANGEBYLEX'' = 84" "cmd_type ''ZRANGEBYRANK'' = 85"
  "cmd_type ''ZREMRANGE'' = 86" "cmd_type ''ZLEXCOUNT'' = 87" "cmd_type ''ZPOPMIN'' = 88"
  "cmd_type ''ZPOPMAX'' = 89" "cmd_type ''ZRANK'' = 97" "cmd_type ''ZREVRANGE'' = 99"
  "cmd_type ''ZREVRANGEBYSCORE'' = 100" "cmd_type ''ZREVRANGEBYLEX'' = 101" "cmd_type ''ZMSCORE'' = 102"
  by code_simp+

lemma u64_back [simp]: "word_of_nat (unat (d :: u64) mod 18446744073709551616) = d"
proof -
  have "unat d < 18446744073709551616" using unsigned_less [of d] by simp
  then show ?thesis by simp
qed

interpretation zelem: codec put_zelem get_zelem "\<lambda>e. arg (snd e)"
  by unfold_locales (auto simp: get_zelem_def put_zelem_def)

interpretation zbound: codec put_bound get_bound bound_wf
proof unfold_locales
  fix b :: zbound and rest
  assume "bound_wf b"
  then show "get_bound (put_bound b @ rest) = Some (b, rest)" by (cases b) (simp_all add: get_bound_def)
qed

lemma range_codes [simp]: "range_of_code (range_code ty) = Some ty" "range_code ty < 256"
  by (cases ty; simp add: range_of_code_def)+

lemma direction_codes [simp]: "direction_of_code (direction_code d) = Some d" "direction_code d < 256"
  by (cases d; simp add: direction_of_code_def)+

lemma get_put_spec [simp]: "spec_wf spec \<Longrightarrow> get_spec (put_spec spec @ rest) = Some (spec\<lparr>null := False\<rparr>, rest)"
  by (simp add: spec_wf_def get_spec_def put_spec_def zbound.dec_enc)

lemma zset_command_roundtrip:
  assumes "zset_cmd_wf c" "zset_cmd_Serialize c = Some img"
  shows "CreateTxCommand_zset (img @ rest) = Some (c, rest)"
proof (cases c)
  case (ZAdd f els m)
  then show ?thesis using assms
    by (cases els) (auto simp: CreateTxCommand_zset_def zset_image_defs zset_cmd_numbers zelem.dec_enc zelem.get_vec_put_vec)
next
  case (ZLexCount spec)
  then show ?thesis using assms
    by (auto simp: CreateTxCommand_zset_def zset_image_defs zset_cmd_numbers spec_wf_def get_strs.simps
        split: zbound.splits)
next
  case (ZCountOf spec)
  then show ?thesis using assms
    by (auto simp: CreateTxCommand_zset_def zset_image_defs zset_cmd_numbers spec_wf_def zbound.dec_enc ZRangeSpec_default_def)
qed (use assms in \<open>auto simp: CreateTxCommand_zset_def zset_image_defs zset_cmd_numbers\<close>)

end
