(* ===== verification/ReadBack.thy ===== *)
theory ReadBack
  imports ListCommands HashCommands SetCommands StringCommands ZsetCommands
begin

text \<open>
  A command and the command that its image gives back.  The images keep the bytes of a string argument but not how it
  is held: a request carries views of the network buffer, and what \<^verbatim>\<open>Deserialize\<close> makes are owned copies.  They also leave out a
  few flags: the stage of \<^verbatim>\<open>LMOVE\<close>, \<^verbatim>\<open>SADD\<close> and \<^verbatim>\<open>ZADD\<close>, the one that tells \<^verbatim>\<open>HMSET\<close> from \<^verbatim>\<open>HSET\<close>, and \<^verbatim>\<open>null_\<close> of a range.
  For each family there is the command as it is read back, that its image is the same, and that it commits the same
  change: the commit functions copy a view and take over an owned string, which comes to the same object.
\<close>

section \<open>Strings\<close>

text \<open>How an argument reaches a commit: a view of a request, or a string that was cloned or read from a log.\<close>

definition carried :: "eloq_string \<Rightarrow> bool" where
  "carried e \<longleftrightarrow> es_short e \<and> (es_type e = ST_View \<or> canonical e)"

lemma carried_short [simp]: "carried e \<Longrightarrow> es_short e"
  by (simp add: carried_def)

lemma canonical_Clone [simp]: "canonical (Clone e)" "Clone (Clone e) = Clone e"
proof -
  show "canonical (Clone e)" by (simp add: Clone_def)
  then show "Clone (Clone e) = Clone e" by (simp add: canonical_def)
qed

lemma arg_Clone [simp]: "arg (Clone e)"
  using storable_Clone [of e] by (simp add: arg_def storable_def)

lemma arg_carried: "arg e \<Longrightarrow> carried e"
  by (simp add: arg_def carried_def)

lemma canonical_move: "arg e \<Longrightarrow> fst (es_move e) = e"
  using arg_make [of e] by (cases e) (auto simp: es_move.simps es_make_def Let_def es_length_def arg_def es_short_def split: if_splits)

lemma adopt_Clone: "fst (adopt keep (Clone e)) = Clone e"
  using canonical_move [OF arg_Clone [of e]] by (simp add: adopt_def)

lemma adopt_carried: "carried e \<Longrightarrow> fst (adopt keep e) = Clone e"
  using canonical_move [of e] by (auto simp: adopt_def carried_def arg_def canonical_def)

lemma put_string_Clone [simp]: "put_string (Clone e) = put_string e"
  "es_length (Clone e) = es_length e" "take (es_length e) (StringView (Clone e)) = take (es_length e) (StringView e)"
proof -
  have v: "StringView (Clone e) = take (es_length e) (StringView e)"
    by (simp add: Clone_def es_make_def Let_def es_length_def)
  then show l: "es_length (Clone e) = es_length e" by (simp add: es_length_def)
  show t: "take (es_length e) (StringView (Clone e)) = take (es_length e) (StringView e)" by (simp add: v)
  show "put_string (Clone e) = put_string e" by (simp only: put_string_def l t)
qed

lemma put_strings_Clone [simp]: "put_vec put_string (map Clone es) = put_vec put_string es"
  by (simp add: put_vec_def comp_def)

lemma cost_Clone [simp]: "cost (Clone e) = cost e"
  by (simp add: cost_def)

lemma all_arg_Clone [simp]: "list_all arg (map Clone es)"
  by (simp add: list_all_iff)

lemma es_eq_Clone [simp]: "es_short e \<Longrightarrow> es_eq x (Clone e) = es_eq x e"
  by (simp add: es_eq_def)

section \<open>Lists\<close>

fun list_read_back :: "list_cmd \<Rightarrow> list_cmd" where
  "list_read_back (LPush es) = LPush (map Clone es)"
| "list_read_back (RPush es) = RPush (map Clone es)"
| "list_read_back (LPushX es) = LPushX (map Clone es)"
| "list_read_back (RPushX es) = RPushX (map Clone es)"
| "list_read_back (LMovePush b e _) = LMovePush b (Clone e) False"
| "list_read_back (LInsert b p e) = LInsert b (Clone p) (Clone e)"
| "list_read_back (LPos e r c n) = LPos (Clone e) r c n"
| "list_read_back (LSet i e) = LSet i (Clone e)"
| "list_read_back (LRem c e) = LRem c (Clone e)"
| "list_read_back c = c"

fun list_carried :: "list_cmd \<Rightarrow> bool" where
  "list_carried (LPush es) = list_all carried es"
| "list_carried (RPush es) = list_all carried es"
| "list_carried (LPushX es) = list_all carried es"
| "list_carried (RPushX es) = list_all carried es"
| "list_carried (LMovePush _ e _) = carried e"
| "list_carried (LInsert _ p e) = (carried p \<and> carried e)"
| "list_carried (LSet _ e) = carried e"
| "list_carried (LRem _ e) = carried e"
| "list_carried _ = True"

lemma list_image_read_back: "list_cmd_Serialize code (list_read_back c) = list_cmd_Serialize code c"
  by (cases c) (simp_all add: list_image_defs)

lemma push_read_back:
  "list_all carried es \<Longrightarrow> kept (CommitLPush l (map Clone es)) = kept (CommitLPush l es)"
  "list_all carried es \<Longrightarrow> kept (CommitRPush l (map Clone es)) = kept (CommitRPush l es)"
proof -
  have k: "kept (do { (l1, _) \<leftarrow> x; (l', ys) \<leftarrow> f l1; Some (l', y # ys) }) = x \<bind> (\<lambda>(l1, _). kept (f l1))"
    for x :: "(list_obj \<times> unit) option" and f :: "list_obj \<Rightarrow> (list_obj \<times> eloq_string list) option" and y
    by (auto simp: kept_def map_option_case split: option.splits Option.bind_splits)
  show "kept (CommitLPush l (map Clone es)) = kept (CommitLPush l es)" if "list_all carried es"
    using that
  proof (induction es arbitrary: l)
    case (Cons e es)
    then show ?case by (simp add: Let_def split_beta adopt_Clone adopt_carried k)
  qed simp
  show "kept (CommitRPush l (map Clone es)) = kept (CommitRPush l es)" if "list_all carried es"
    using that
  proof (induction es arbitrary: l)
    case (Cons e es)
    then show ?case by (simp add: Let_def split_beta adopt_Clone adopt_carried k)
  qed simp
qed

lemma insert_at_Clone: "es_short p \<Longrightarrow> insert_at_pivot b (Clone p) x xs = insert_at_pivot b p x xs"
  by (induction xs) simp_all

lemma lrem_erase_Clone: "es_short e \<Longrightarrow> lrem_erase lim (Clone e) k n xs = lrem_erase lim e k n xs"
  by (induction xs arbitrary: k n) simp_all

lemma kept_size_assert:
  "kept (size_assert (l, x)) = (if list_slen l \<le> MAX_OBJECT_SIZE then Some (l, False) else None)"
  by (simp add: kept_def size_assert_def)

lemma list_commit_read_back:
  assumes "list_carried c"
  shows "list_CommitOn (list_read_back c) ob = list_CommitOn c ob"
proof (cases c)
  case (LMovePush b e m)
  then have "kept (CommitLMovePush l b (Clone e) False) = kept (CommitLMovePush l b e m)" for l
    using assms by (simp add: CommitLMovePush_def Let_def split_beta adopt_Clone adopt_carried kept_size_assert)
  then show ?thesis using LMovePush by (simp add: LMovePush_CommitOn_def)
next
  case (LInsert b p e)
  then have "kept (CommitLInsert l b (Clone p) (Clone e)) = kept (CommitLInsert l b p e)" for l
    using assms by (simp add: CommitLInsert_def Let_def split_beta adopt_Clone adopt_carried insert_at_Clone
        kept_size_assert)
  then show ?thesis using LInsert by (simp add: LInsert_CommitOn_def)
next
  case (LSet i e)
  then have "kept (CommitLSet l i (Clone e)) = kept (CommitLSet l i e)" for l
    using assms by (simp add: CommitLSet_def Let_def split_beta adopt_Clone adopt_carried
        kept_size_assert)
  then show ?thesis using LSet by (simp add: LSet_CommitOn_def)
next
  case (LRem k e)
  then have "CommitLRem l k (Clone e) = CommitLRem l k e" for l
    using assms by (cases "k > 0"; cases "k < 0") (simp_all add: CommitLRem_def lrem_erase_Clone Let_def)
  then show ?thesis using LRem by (simp add: LRem_CommitOn_def)
qed (use assms in \<open>simp_all add: LPush_CommitOn_def RPush_CommitOn_def LPushX_CommitOn_def RPushX_CommitOn_def push_read_back\<close>)

section \<open>Hashes\<close>

definition pair_Clone :: "eloq_string \<times> eloq_string \<Rightarrow> eloq_string \<times> eloq_string" where
  "pair_Clone kv = (Clone (fst kv), Clone (snd kv))"

fun hash_read_back :: "hash_cmd \<Rightarrow> hash_cmd" where
  "hash_read_back (HSet _ kvs) = HSet False (map pair_Clone kvs)"
| "hash_read_back (HStrLen f) = HStrLen (Clone f)"
| "hash_read_back (HGet f) = HGet (Clone f)"
| "hash_read_back (HExists f) = HExists (Clone f)"
| "hash_read_back (HDel ks) = HDel (map Clone ks)"
| "hash_read_back (HIncrBy f n) = HIncrBy (Clone f) n"
| "hash_read_back (HMGet fs) = HMGet (map Clone fs)"
| "hash_read_back (HSetNx k v) = HSetNx (Clone k) (Clone v)"
| "hash_read_back c = c"

text \<open>A value is not a view when its field is owned, which the code asserts.\<close>

definition pair_carried :: "eloq_string \<times> eloq_string \<Rightarrow> bool" where
  "pair_carried kv \<longleftrightarrow> carried (fst kv) \<and> carried (snd kv) \<and> (owned (fst kv) \<longrightarrow> owned (snd kv))"

fun hash_carried :: "hash_cmd \<Rightarrow> bool" where
  "hash_carried (HSet _ kvs) = list_all pair_carried kvs"
| "hash_carried (HDel ks) = list_all carried ks"
| "hash_carried (HIncrBy f _) = carried f"
| "hash_carried (HSetNx k v) = pair_carried (k, v)"
| "hash_carried _ = True"

lemma hash_image_read_back: "hash_cmd_Serialize (hash_read_back c) = hash_cmd_Serialize c"
proof -
  have "put_hset_pair (pair_Clone kv) = put_hset_pair kv" for kv
    by (simp add: pair_Clone_def put_hset_pair_def)
  then have "put_vec put_hset_pair (map pair_Clone kvs) = put_vec put_hset_pair kvs" for kvs
    by (simp add: put_vec_def comp_def)
  then show ?thesis by (cases c) (simp_all add: hash_image_defs)
qed

lemma stored_carried: "pair_carried (f, v) \<Longrightarrow> stored f v = (Clone f, Clone v)"
  using canonical_move [of f] canonical_move [of v]
  by (auto simp: stored_def pair_carried_def carried_def arg_def canonical_def owned_def)

lemma stored_Clone: "stored (Clone f) (Clone v) = (Clone f, Clone v)"
  by (rule stored_carried [of "Clone f" "Clone v", simplified])
     (simp add: pair_carried_def arg_carried) 

lemma fm_find_Clone: "es_short k \<Longrightarrow> fm_find (Clone k) m = fm_find k m"
  by (rule fm_find_view) simp

lemma SetField_read_back: "pair_carried (f, v) \<Longrightarrow> fst (SetField h (Clone f) (Clone v)) = fst (SetField h f v)"
  unfolding SetField_map stored_Clone stored_carried by (simp add: fm_find_Clone pair_carried_def split: option.split)

lemma CommitHset_read_back:
  "list_all pair_carried kvs \<Longrightarrow> fst (CommitHset h (map pair_Clone kvs)) = fst (CommitHset h kvs)"
proof (induction kvs arbitrary: h)
  case (Cons kv kvs)
  then show ?case by (cases kv) (simp add: pair_Clone_def split_beta Let_def SetField_read_back)
qed simp

lemma CommitHdel_read_back: "list_all carried ks \<Longrightarrow> CommitHdel h (map Clone ks) = CommitHdel h ks"
  by (induction ks arbitrary: h) (simp_all add: fm_find_Clone fm_erase_def split: option.split)

lemma hash_commit_read_back:
  assumes "hash_carried c"
  shows "hash_CommitOn (hash_read_back c) ob = hash_CommitOn c ob"
proof (cases c)
  case (HIncrBy f n)
  have "(if es_type e = ST_View then (Clone e, e) else es_move e) = adopt False e" for e by (simp add: adopt_def)
  then have "fst (CommitHincrby h (Clone f) n) = fst (CommitHincrby h f n)" for h
    using assms HIncrBy adopt_carried [of f False] adopt_Clone [of False f]
    by (cases "fm_find f (hash_map h)") (simp_all add: CommitHincrby_def Let_def split_beta fm_find_Clone)
  then show ?thesis using HIncrBy by (simp add: HIncrBy_CommitOn_def)
next
  case (HSetNx k v)
  have "fst (CommitHSetNx h k v) = \<lparr>hash_map = fm_assign (fst (stored k v)) (snd (stored k v)) (hash_map h),
      hash_slen = hash_slen h + (8 + of_nat (es_length k) + of_nat (es_length v))\<rparr>" for h k v
    by (simp add: CommitHSetNx_def stored_def Let_def)
  then show ?thesis using assms HSetNx by (simp add: HSetNx_CommitOn_def stored_Clone stored_carried)
qed (use assms in \<open>simp_all add: HSet_CommitOn_def HDel_CommitOn_def CommitHset_read_back CommitHdel_read_back\<close>)

section \<open>Sets\<close>

fun set_read_back :: "set_cmd \<Rightarrow> set_cmd" where
  "set_read_back (SAdd f es _) = SAdd f (map Clone es) False"
| "set_read_back (SRem es) = SRem (map Clone es)"
| "set_read_back (SIsMember e) = SIsMember (Clone e)"
| "set_read_back (SMIsMember es) = SMIsMember (map Clone es)"
| "set_read_back (SPop n es) = SPop n (map Clone es)"
| "set_read_back c = c"

fun set_carried :: "set_cmd \<Rightarrow> bool" where
  "set_carried (SAdd _ es _) = list_all carried es"
| "set_carried (SRem es) = list_all carried es"
| "set_carried (SPop _ es) = list_all carried es"
| "set_carried _ = True"

lemma set_image_read_back: "set_cmd_Serialize (set_read_back c) = set_cmd_Serialize c"
  by (cases c) (simp_all add: set_image_defs)

lemma hs_mem_Clone: "es_short e \<Longrightarrow> hs_mem (Clone e) xs = hs_mem e xs"
  by (simp add: hs_mem_def)

lemma CommitSAdd_read_back:
  assumes "list_all carried es"
  shows "fst (CommitSAdd s (map Clone es) False) = fst (CommitSAdd s es m) \<and>
    fst (snd (CommitSAdd s (map Clone es) False)) = fst (snd (CommitSAdd s es m))"
  using assms
proof (induction es arbitrary: s)
  case (Cons e es)
  have "fst (sadd_one False s (Clone e)) = fst (sadd_one m s e)"
    using Cons.prems by (simp add: sadd_one_def split_beta hs_mem_Clone adopt_Clone adopt_carried)
  with Cons show ?case by (simp add: split_beta Let_def)
qed simp

lemma srem_read_back: "list_all carried es \<Longrightarrow> foldl srem_one s (map Clone es) = foldl srem_one s es"
  by (induction es arbitrary: s) (simp_all add: srem_one_def hs_mem_Clone)

lemma set_commit_read_back:
  assumes "set_carried c"
  shows "set_CommitOn (set_read_back c) ob = set_CommitOn c ob"
  using assms CommitSAdd_read_back
  by (cases c) (simp_all add: SAdd_CommitOn_def SRem_CommitOn_def SPop_CommitOn_def CommitSRem_def CommitSPop_def
      srem_read_back split_beta Let_def)

section \<open>Strings as values\<close>

fun string_read_back :: "string_cmd \<Rightarrow> string_cmd" where
  "string_read_back (Set v f ts) = Set (Clone v) f ts"
| "string_read_back (SetRange i v) = SetRange i (Clone v)"
| "string_read_back (Append v) = Append (Clone v)"
| "string_read_back c = c"

fun string_carried :: "string_cmd \<Rightarrow> bool" where
  "string_carried (Set v _ _) = carried v"
| "string_carried (SetRange _ v) = carried v"
| "string_carried (Append v) = carried v"
| "string_carried _ = True"

lemma string_image_read_back: "string_cmd_Serialize pad (string_read_back c) = string_cmd_Serialize pad c"
  by (cases c) (simp_all add: string_image_defs)

text \<open>On an object that is a string; on others \<^verbatim>\<open>SET\<close> loses an owned value.\<close>

lemma string_commit_read_back:
  assumes "string_carried c" "rvalue ob = VString s"
  shows "string_CommitOn (string_read_back c) ob = string_CommitOn c ob"
proof (cases c)
  case (Set v f ts)
  have "fst (CommitSet s e) = s\<lparr>str_obj := fst (adopt False e)\<rparr>" for e
    by (simp add: CommitSet_def adopt_def es_assign_move_def)
  then have "fst (CommitSet s (Clone v)) = fst (CommitSet s v)"
    using assms(1) Set by (simp add: adopt_Clone adopt_carried)
  then show ?thesis using Set assms(2) by (simp add: Set_CommitOn_def)
next
  case (SetRange i v)
  then have "CommitSetRange t i (Clone v) = CommitSetRange t i v" for t
    using assms(1) by (cases "i + es_length v \<ge> es_length (str_obj t)") (simp_all add: CommitSetRange_def Let_def)
  then show ?thesis using SetRange by (simp add: SetRange_CommitOn_def)
qed (use assms in \<open>simp_all add: Append_CommitOn_def CommitAppend_def\<close>)

section \<open>Sorted sets\<close>

definition elem_Clone :: "zelem \<Rightarrow> zelem" where
  "elem_Clone e = (fst e, Clone (snd e))"

fun elements_Clone :: "zelements \<Rightarrow> zelements" where
  "elements_Clone ZMono = ZMono"
| "elements_Clone (ZPair e) = ZPair (elem_Clone e)"
| "elements_Clone (ZVector es) = ZVector (map elem_Clone es)"

fun bound_Clone :: "zbound \<Rightarrow> zbound" where
  "bound_Clone (ZBStr e) = ZBStr (Clone e)"
| "bound_Clone b = b"

definition spec_Clone :: "zrange_spec \<Rightarrow> zrange_spec" where
  "spec_Clone spec = spec\<lparr>opt_start := bound_Clone (opt_start spec), opt_end := bound_Clone (opt_end spec)\<rparr>"

fun zset_read_back :: "zset_cmd \<Rightarrow> zset_cmd" where
  "zset_read_back (ZAdd f els _) = ZAdd f (elements_Clone els) False"
| "zset_read_back (ZRem es) = ZRem (map Clone es)"
| "zset_read_back (ZRemRange ty spec) = ZRemRange ty ((spec_Clone spec)\<lparr>null := False\<rparr>)"
| "zset_read_back (ZScore e) = ZScore (Clone e)"
| "zset_read_back (ZMScore es) = ZMScore (map Clone es)"
| "zset_read_back (ZRank e rv ws) = ZRank (Clone e) rv ws"
| "zset_read_back (ZRange a spec mt) = ZRange a ((spec_Clone spec)\<lparr>null := False\<rparr>) mt"
| "zset_read_back (ZCountOf spec) = ZCountOf ((spec_Clone spec)\<lparr>null := False, negative := False, positive := False\<rparr>)"
| "zset_read_back (ZLexCount spec) = ZLexCount (spec_Clone spec)"
| "zset_read_back c = c"

fun bound_carried :: "zbound \<Rightarrow> bool" where
  "bound_carried (ZBStr e) = carried e"
| "bound_carried _ = True"

fun zset_carried :: "zset_cmd \<Rightarrow> bool" where
  "zset_carried (ZAdd _ els _) =
     (case els of ZMono \<Rightarrow> True | ZPair e \<Rightarrow> carried (snd e) | ZVector es \<Rightarrow> list_all (\<lambda>e. carried (snd e)) es)"
| "zset_carried (ZRem es) = list_all carried es"
| "zset_carried (ZRemRange _ spec) = (bound_carried (opt_start spec) \<and> bound_carried (opt_end spec))"
| "zset_carried _ = True"

lemma zset_image_read_back: "zset_cmd_Serialize (zset_read_back c) = zset_cmd_Serialize c"
proof -
  have b: "put_bound (bound_Clone b) = put_bound b" "put_lex_bound nl (bound_Clone b) = put_lex_bound nl b" for b nl
    by (cases b; simp add: put_lex_bound_def)+
  have "put_zelem (elem_Clone e) = put_zelem e" for e by (simp add: put_zelem_def elem_Clone_def)
  then have "put_zelements (elements_Clone els) = put_zelements els" for els
    by (cases els) (simp_all add: put_vec_def comp_def)
  then show ?thesis
    by (cases c) (simp_all add: ZAdd_Serialize_def ZRem_Serialize_def ZRemRange_Serialize_def ZScore_Serialize_def
        ZMScore_Serialize_def ZRank_Serialize_def ZRange_Serialize_def ZCount_Serialize_def ZLexCount_Serialize_def
        put_spec_def spec_Clone_def b)
qed

lemma zequiv_Clone: "es_short f \<Longrightarrow> zequiv (Clone f, c) = zequiv (f, c)"
  by (simp add: zequiv_def zcmp_def fun_eq_iff)

lemma zs_erase_Clone: "es_short f \<Longrightarrow> zs_erase (Clone f, c) xs = zs_erase (f, c) xs"
  by (simp add: zs_erase_def zequiv_Clone)

lemma update_element_read_back:
  assumes "carried (snd e)"
  shows "update_element incr False (elem_Clone e) z = update_element incr keep e z"
proof -
  obtain num f where e: "e = (num, f)" by (cases e)
  have f: "carried f" "es_short f" using assms by (simp_all add: e)
  then show ?thesis
    by (cases "map_of (z_hash_map z) (StringView f)")
       (simp_all add: e update_element_def elem_Clone_def Let_def node_size_def zs_erase_Clone adopt_Clone adopt_carried)
qed

lemma update_elements_read_back:
  "list_all (\<lambda>e. carried (snd e)) es \<Longrightarrow>
   update_elements incr False (map elem_Clone es) z = update_elements incr keep es z"
proof (induction es arbitrary: z)
  case (Cons e es)
  then show ?case by (cases "update_element incr keep e z") (simp_all add: update_element_read_back [of e incr _ keep])
qed simp

text \<open>The elements that a filter kept are all kept again, however their names are held.\<close>

lemma zadd_loop_read_back:
  "zadd_loop d hash i r used vs0 es = Some (ks, cnt, modified) \<Longrightarrow> list_all (\<lambda>e. carried (snd e)) es \<Longrightarrow>
   zadd_loop d hash k k used vs1 (map elem_Clone ks) = Some (map elem_Clone ks, cnt, modified) \<and>
   list_all (\<lambda>e. carried (snd e)) ks \<and> length ks \<le> length es"
proof (induction es arbitrary: i r used vs0 ks cnt modified k vs1)
  case (Cons e es)
  obtain num f where e: "e = (num, f)" by (cases e)
  let ?b = "StringView f"
  have f: "carried f" "list_all (\<lambda>e. carried (snd e)) es" using Cons.prems(2) by (simp_all add: e)
  show ?case
  proof (cases "d num (hash ?b) (used ?b)")
    case None
    with Cons.prems(1) Cons.IH [of "Suc i" r used vs0, OF _ f(2)] show ?thesis by (simp add: e le_SucI)
  next
    case (Some cm)
    obtain c m where cm: "cm = (c, m)" by (cases cm)
    from Cons.prems(1) [unfolded e] Some [unfolded cm] show ?thesis
    proof (rule zadd_loop_keeps)
      fix ks' cnt' m' vs g
      assume l: "zadd_loop d hash (Suc i) (Suc r) (used(?b \<mapsto> num)) vs es = Some (ks', cnt', m')"
        "ks = (num, g) # ks'" "cnt = (if c then 1 else 0) + cnt'" "modified = (m \<or> m')" "g = f \<or> g = fst (es_move f)"
      have "fst (es_move f) = f"
        using f(1) canonical_move [of f] by (cases f) (auto simp: carried_def arg_def es_move.simps)
      then have g: "g = f" using l(5) by simp
      have "StringView (Clone f) = ?b" using f(1) by simp
      moreover have "elem_Clone (num, f) = (num, Clone f)" by (simp add: elem_Clone_def)
      ultimately show ?thesis
        using Some cm l(2-4) g f(1) Cons.IH [OF l(1) f(2)] by (simp add: Let_def del: fun_upd_apply)
    qed
  qed
qed simp

lemma CommitZAdd_read_back:
  assumes "ZAdd_elements flags z es = Some (ks, cnt, modified)" "\<not> z_INCR flags" "list_all (\<lambda>e. carried (snd e)) es"
  shows "CommitZAdd z (ZVector (map elem_Clone ks)) flags False = CommitZAdd z (ZVector ks) flags keep"
    and "list_all (\<lambda>e. carried (snd e)) ks" "length ks \<le> length es"
proof -
  note l = zadd_loop_read_back [OF assms(1) [unfolded ZAdd_elements_def] assms(3), of 0 Map.empty]
  then show ks: "list_all (\<lambda>e. carried (snd e)) ks" "length ks \<le> length es" by simp_all
  have "ZAdd_elements flags z (map elem_Clone ks) = Some (map elem_Clone ks, cnt, modified)"
    using l by (simp add: ZAdd_elements_def)
  from CommitZAdd_filtered(2) [OF this assms(2), of False] CommitZAdd_filtered(2) [OF assms(1,2), of keep]
  show "CommitZAdd z (ZVector (map elem_Clone ks)) flags False = CommitZAdd z (ZVector ks) flags keep"
    by (simp add: update_elements_read_back [OF ks(1), where keep = keep])
qed

lemma zrem_read_back: "list_all carried es \<Longrightarrow> zrem_loop (map Clone es) z = zrem_loop es z"
proof (induction es arbitrary: z)
  case (Cons e es)
  then show ?case
    by (cases "map_of (z_hash_map z) (StringView e)") (simp_all add: zs_erase_Clone node_size_def)
qed simp

lemma spec_read_back:
  assumes "bound_carried (opt_start spec)" "bound_carried (opt_end spec)"
  shows "CommitZRemRange z ty ((spec_Clone spec)\<lparr>null := False\<rparr>) = CommitZRemRange z ty spec"
proof -
  let ?s = "(spec_Clone spec)\<lparr>null := False\<rparr>"
  have s: "get_strs ?s = get_strs spec" "get_doubles ?s = get_doubles spec" "ZsetOps.get_ints ?s = ZsetOps.get_ints spec"
    using assms by (cases "opt_start spec"; cases "opt_end spec";
        simp add: get_strs.simps get_doubles.simps ZsetOps.get_ints.simps spec_Clone_def)+
  have o: "minex ?s = minex spec" "maxex ?s = maxex spec" "negative ?s = negative spec" "positive ?s = positive spec"
    by (simp_all add: spec_Clone_def)
  have g: "GetRangeByLexForCurrentScore xs d ?s = GetRangeByLexForCurrentScore xs d spec" for xs d
    unfolding GetRangeByLexForCurrentScore_def s o ..
  have "lex_erase n ?s i z = lex_erase n spec i z" for n i z
    by (induction n arbitrary: i z) (subst (1 2) lex_erase.simps, simp add: g cong: Option.bind_cong)+
  note l = this
  show ?thesis unfolding CommitZRemRange_def score_range_def rank_range_def lex_trivial_def s o l ..
qed

lemma zset_commit_read_back:
  assumes "zset_carried c" "rvalue ob = VZset z" "zset_ok c z" "zset_ExecuteOn dtoa c ob = Some (c', r, EWrite)"
  shows "zset_CommitOn (zset_read_back c') ob = zset_CommitOn c' ob \<and> zset_carried c'"
proof (cases c)
  case (ZAdd flags els m)
  show ?thesis
  proof (cases els)
    case ZMono
    then show ?thesis using assms(3) ZAdd by simp
  next
    case (ZPair e)
    then have "c' = c"
      using assms ZAdd by (auto simp: zset_exec_defs Execute_ZAdd_def ZAddIncr_def Let_def split_beta changed_state_def
          split: if_splits option.splits)
    then show ?thesis using assms ZAdd ZPair
      by (simp add: ZAdd_CommitOn_def commit_zset_def CommitZAdd_def update_element_read_back [of e _ _ m])
  next
    case (ZVector es)
    obtain ks cnt where k: "ZAdd_elements flags z es = Some (ks, cnt, True)" "c' = ZAdd flags (ZVector ks) m"
      using assms ZAdd ZVector by (auto simp: zset_exec_defs Execute_ZAdd_def changed_state_def split: if_splits)
    have i: "\<not> z_INCR flags" "list_all (\<lambda>e. carried (snd e)) es" using assms(1,3) ZAdd ZVector by simp_all
    show ?thesis using CommitZAdd_read_back(1) [OF k(1) i, of m] CommitZAdd_read_back(2) [OF k(1) i] k(2) assms(2,3) ZAdd
      by (simp add: ZAdd_CommitOn_def commit_zset_def)
  qed
qed (use assms spec_read_back zrem_read_back in \<open>auto simp: zset_exec_defs ZRem_CommitOn_def CommitZRem_def ZRemRange_CommitOn_def\<close>)

end
