(* ===== verification/TxCommand.thy ===== *)
theory TxCommand
  imports ReadBack
begin

text \<open>
  The families together: the commands of all types as one type, the factory
  \<^verbatim>\<open>RedisTableSchema::CreateTxCommand\<close> (\<^verbatim>\<open>src/eloqkv_catalog_factory.cpp\<close>) that reads a command of any family
  from its image, and the log: what is written while commands run, read back and committed in order,
  leads to the same object.  A command is read back with owned copies of its strings (\<open>read_back\<close>).
\<close>

section \<open>What a command becomes when it runs\<close>

text \<open>
  \<^verbatim>\<open>LTRIM\<close> and \<^verbatim>\<open>LSET\<close> normalise their indices, \<^verbatim>\<open>SPOP\<close> records what it drew and \<^verbatim>\<open>ZADD\<close> keeps the elements that
  its options let through; what is logged is the command after \<^verbatim>\<open>ExecuteOn\<close>.  Its image can still be read, and its strings
  are still views or owned copies.
\<close>

lemma list_executed_wf:
  assumes "list_cmd_wf (list_read_back c)" "list_carried c" "list_state l" "rvalue ob = VList l"
    and "list_ExecuteOn c ob = (c', r, EWrite)"
  shows "list_cmd_wf (list_read_back c') \<and> list_carried c'"
proof -
  have n: "lsize l < 2 ^ 31" "0 \<le> lsize l"
    using list_state_length [OF assms(3)] by (simp_all add: lsize_elems)
  show ?thesis
  proof (cases c)
    case (LTrim s e)
    then show ?thesis
      using assms n
      by (auto simp: list_exec_defs Execute_LTrim_def NormalizeLTrimRange_def Let_def is_i64_def split: if_splits)
  next
    case (LSet i e)
    then show ?thesis
      using assms n by (auto simp: list_exec_defs Execute_LSet_def Let_def is_i64_def split: if_splits)
  qed (use assms in \<open>auto simp: list_exec_defs split_beta Let_def\<close>)
qed

lemma Execute_SPop_clones:
  assumes "hash_set s \<noteq> []" "length (hash_set s) < 2 ^ 31" "n = -1 \<or> 0 \<le> n"
    and "Execute_SPop s n buckets rnd r = Some (r', st)"
  shows "set (sr_list r') \<subseteq> Clone ` set (hash_set s) \<and> length (sr_list r') \<le> length (hash_set s)"
proof -
  let ?n = "length (hash_set s)"
  define c where "c = min (if n = -1 then 1 else n) (int ?n)"
  have sz: "to_signed 32 (int ?n) = int ?n" using assms(2) by (simp add: is_i32_def)
  have c: "(if int ?n < (if n = -1 then 1 else n) then int ?n else (if n = -1 then 1 else n)) = c"
      "(if c < int ?n then c else int ?n) = c" "nat c \<le> ?n"
    using assms(3) by (auto simp: c_def)
  obtain m where m: "GenRandMap ?n (nat c) False rnd = Some m" "length m = nat c"
      "mset (map snd m) = mset [0..<length m]" "mm_ok ?n m"
    using GenRandMap_distinct [OF c(3)] by metis
  have "sr_list r' = first_elements (hash_set s) (nat c) \<or> sr_list r' = scatter (hash_set s) m"
    using assms(4) m(1) unfolding Execute_SPop_def Let_def sz c by (auto split: if_splits)
  moreover have "set (first_elements (hash_set s) (nat c)) \<subseteq> Clone ` set (hash_set s)"
      "length (first_elements (hash_set s) (nat c)) = nat c"
    using assms(1) by (auto simp: first_elements_def)
  moreover have "set (scatter (hash_set s) m) \<subseteq> Clone ` set (hash_set s)" "length (scatter (hash_set s) m) = nat c"
  proof -
    have "set (scatter (hash_set s) m) = (\<lambda>k. Clone (hash_set s ! k)) ` set (mm_keys m)"
      using arg_cong [OF scatter_mset(1) [OF m(3), of "hash_set s"], of set_mset] by simp
    moreover have "\<forall>k \<in> set (mm_keys m). k < ?n" using m(4) by (auto simp: mm_ok_def)
    ultimately show "set (scatter (hash_set s) m) \<subseteq> Clone ` set (hash_set s)" by auto
    show "length (scatter (hash_set s) m) = nat c" using scatter_mset(2) [OF m(3)] m(2) by simp
  qed
  ultimately show ?thesis using c(3) by (elim disjE) simp_all
qed

lemma set_executed_wf:
  assumes "set_cmd_wf (set_read_back c)" "set_carried c" "set_state s" "set_ok c (members s)" "rvalue ob = VSet s"
    and "set_ExecuteOn buckets rnd c ob = (c', r, EWrite)"
  shows "set_cmd_wf (set_read_back c') \<and> set_carried c'"
proof (cases c)
  case (SPop n es)
  have ne: "hash_set s \<noteq> []" "n = -1 \<or> 0 \<le> n" using assms(4) SPop by (auto simp: members_def)
  obtain r' st where x: "Execute_SPop s n buckets rnd RedisHashSetResult = Some (r', st)" "c' = SPop n (sr_list r')"
    using assms(5,6) SPop by (auto simp: spop_run_def set_exec_defs split: option.splits)
  have "set (sr_list r') \<subseteq> Clone ` set (hash_set s)" "length (sr_list r') < 2 ^ 32"
    using Execute_SPop_clones [OF ne(1) set_state_length [OF assms(3)] ne(2) x(1)] set_state_length [OF assms(3)] by auto
  then have "list_all carried (sr_list r') \<and> length (sr_list r') < 2 ^ 32"
    by (auto simp: list_all_iff arg_carried)
  then show ?thesis using assms(1) SPop x(2) by simp
qed (use assms in \<open>auto simp: set_exec_defs\<close>)

lemma zset_executed_wf:
  assumes "zset_cmd_wf (zset_read_back c)" "zset_carried c" "zset_ok c z" "rvalue ob = VZset z"
    and "zset_ExecuteOn dtoa c ob = Some (c', r, EWrite)"
  shows "zset_cmd_wf (zset_read_back c')"
proof (cases c)
  case (ZAdd flags els m)
  show ?thesis
  proof (cases els)
    case ZMono
    then show ?thesis using assms(3) ZAdd by simp
  next
    case (ZPair e)
    then show ?thesis using assms ZAdd
      by (auto simp: zset_exec_defs Execute_ZAdd_def ZAddIncr_def Let_def split_beta changed_state_def
          split: if_splits option.splits)
  next
    case (ZVector es)
    obtain ks cnt where k: "ZAdd_elements flags z es = Some (ks, cnt, True)" "c' = ZAdd flags (ZVector ks) m"
      using assms ZAdd ZVector by (auto simp: zset_exec_defs Execute_ZAdd_def changed_state_def split: if_splits)
    have i: "\<not> z_INCR flags" "list_all (\<lambda>e. carried (snd e)) es" using assms(2,3) ZAdd ZVector by simp_all
    show ?thesis
      using CommitZAdd_read_back(3) [OF k(1) i] assms(1) k(2) ZAdd ZVector by (auto simp: list_all_iff elem_Clone_def)
  qed
qed (use assms in \<open>auto simp: zset_exec_defs\<close>)

section \<open>Commands of every family\<close>

datatype redis_cmd =
    StringCmd string_cmd
  | ListCmd list_cmd
  | HashCmd hash_cmd
  | SetCmd set_cmd
  | ZsetCmd zset_cmd
  | DelCmd bool
  | ExistsCmd int
  | TypeCmd
  | ExpireCmd nat nat
  | PersistCmd
  | RecoverCmd bytes

text \<open>
  The decision of a command and the command as it is then; the results are those of the families.
  The clock, the number of buckets, the random draws and the printer of doubles are parameters.  \<^verbatim>\<open>RECOVER\<close> is only ever committed;
  its \<^verbatim>\<open>ExecuteOn\<close> is an assertion that it is not reached.
\<close>

fun cmd_ExecuteOn :: "nat \<Rightarrow> int \<Rightarrow> (nat \<Rightarrow> nat) \<Rightarrow> (u64 \<Rightarrow> bytes) \<Rightarrow> redis_cmd \<Rightarrow> redis_object \<Rightarrow> redis_cmd \<times> exec_result" where
  "cmd_ExecuteOn now buckets rnd dtoa (StringCmd c) ob = (let (c', _, d) = string_ExecuteOn c ob in (StringCmd c', d))"
| "cmd_ExecuteOn now buckets rnd dtoa (ListCmd c) ob = (let (c', _, d) = list_ExecuteOn c ob in (ListCmd c', d))"
| "cmd_ExecuteOn now buckets rnd dtoa (HashCmd c) ob = (let (c', _, d) = hash_ExecuteOn c ob in (HashCmd c', d))"
| "cmd_ExecuteOn now buckets rnd dtoa (SetCmd c) ob = (let (c', _, d) = set_ExecuteOn buckets rnd c ob in (SetCmd c', d))"
| "cmd_ExecuteOn now buckets rnd dtoa (ZsetCmd c) ob = (let (c', _, d) = zset_run dtoa c ob in (ZsetCmd c', d))"
| "cmd_ExecuteOn now buckets rnd dtoa (DelCmd b) ob = (DelCmd b, snd (Del_ExecuteOn ob RedisIntResult))"
| "cmd_ExecuteOn now buckets rnd dtoa (ExistsCmd n) ob = (ExistsCmd n, snd (Exists_ExecuteOn n ob RedisIntResult))"
| "cmd_ExecuteOn now buckets rnd dtoa TypeCmd ob = (TypeCmd, snd (Type_ExecuteOn ob RedisStringResult))"
| "cmd_ExecuteOn now buckets rnd dtoa (ExpireCmd ts flags) ob =
     (let (_, d, _) = Expire_ExecuteOn now ts flags ob RedisIntResult in (ExpireCmd ts flags, d))"
| "cmd_ExecuteOn now buckets rnd dtoa PersistCmd ob = (let (_, d, _) = Persist_ExecuteOn ob in (PersistCmd, d))"
| "cmd_ExecuteOn now buckets rnd dtoa (RecoverCmd img) ob = (RecoverCmd img, EWrite)"

fun cmd_CommitOn :: "redis_cmd \<Rightarrow> redis_object \<Rightarrow> commit_result" where
  "cmd_CommitOn (StringCmd c) ob = string_CommitOn c ob"
| "cmd_CommitOn (ListCmd c) ob = list_CommitOn c ob"
| "cmd_CommitOn (HashCmd c) ob = hash_CommitOn c ob"
| "cmd_CommitOn (SetCmd c) ob = set_CommitOn c ob"
| "cmd_CommitOn (ZsetCmd c) ob = zset_CommitOn c ob"
| "cmd_CommitOn (DelCmd _) ob = Del_CommitOn ob"
| "cmd_CommitOn (ExpireCmd ts _) ob = Expire_CommitOn ts ob"
| "cmd_CommitOn PersistCmd ob = Persist_CommitOn ob"
| "cmd_CommitOn (RecoverCmd img) ob = Recover_CommitOn img ob"
| "cmd_CommitOn _ ob = CUndefined"

section \<open>Images\<close>

text \<open>
  The numbers and the padding that the engine and the compiler choose are parameters: how a
  \<^verbatim>\<open>BlockOperation\<close> is stored and what the padding of a \<^verbatim>\<open>BITFIELD\<close> struct holds.  A command that the code does not
  write has an empty image here; \<open>cmd_wf\<close> below leaves none.
\<close>

fun cmd_Serialize :: "(block_operation \<Rightarrow> nat) \<Rightarrow> bytes \<Rightarrow> redis_cmd \<Rightarrow> bytes" where
  "cmd_Serialize code pad (StringCmd c) = string_cmd_Serialize pad c"
| "cmd_Serialize code pad (ListCmd c) = list_cmd_Serialize code c"
| "cmd_Serialize code pad (HashCmd c) = hash_cmd_Serialize c"
| "cmd_Serialize code pad (SetCmd c) = set_cmd_Serialize c"
| "cmd_Serialize code pad (ZsetCmd c) = (case zset_cmd_Serialize c of Some img \<Rightarrow> img | None \<Rightarrow> [])"
| "cmd_Serialize code pad (DelCmd b) = Del_Serialize b []"
| "cmd_Serialize code pad (ExistsCmd n) = Exists_Serialize n []"
| "cmd_Serialize code pad TypeCmd = Type_Serialize []"
| "cmd_Serialize code pad (ExpireCmd ts flags) = Expire_Serialize ts flags []"
| "cmd_Serialize code pad PersistCmd = Persist_Serialize []"
| "cmd_Serialize code pad (RecoverCmd img) = Recover_Serialize img []"

text \<open>The cases that no family has.\<close>

definition CreateTxCommand_any :: "redis_cmd reader" where
  "CreateTxCommand_any cmd_image =
     do { (ct, bs) \<leftarrow> get_u8 cmd_image;
          (if ct = cmd_type ''DEL'' then Some (DelCmd False, bs)
           else if ct = cmd_type ''UNLINK'' then Some (DelCmd True, bs)
           else if ct = cmd_type ''EXISTS'' then map_option (apfst ExistsCmd) (Exists_Deserialize bs)
           else if ct = cmd_type ''TYPE'' then Some (TypeCmd, bs)
           else if ct = cmd_type ''EXPIRE'' then map_option (apfst (\<lambda>(ts, f). ExpireCmd ts f)) (Expire_Deserialize bs)
           else if ct = cmd_type ''PERSIST'' then Some (PersistCmd, bs)
           else if ct = cmd_type ''RECOVER'' then map_option (apfst RecoverCmd) (Recover_Deserialize bs)
           else None) }"

fun or_else :: "'a option \<Rightarrow> 'a option \<Rightarrow> 'a option" where
  "or_else (Some x) _ = Some x"
| "or_else None y = y"

text \<open>
  The switch, cut into the families.  Every number is a case of one family only, so a family that does
  not have the number leaves the image to the next.
\<close>

definition CreateTxCommand :: "(nat \<Rightarrow> block_operation option) \<Rightarrow> redis_cmd reader" where
  "CreateTxCommand of_code img =
     or_else (map_option (apfst StringCmd) (CreateTxCommand_string img))
       (or_else (map_option (apfst ListCmd) (CreateTxCommand_list of_code img))
          (or_else (map_option (apfst HashCmd) (CreateTxCommand_hash img))
             (or_else (map_option (apfst SetCmd) (CreateTxCommand_set img))
                (or_else (map_option (apfst ZsetCmd) (CreateTxCommand_zset img))
                   (CreateTxCommand_any img)))))"

fun cmd_wf :: "redis_cmd \<Rightarrow> bool" where
  "cmd_wf (StringCmd c) = string_cmd_wf c"
| "cmd_wf (ListCmd c) = list_cmd_wf c"
| "cmd_wf (HashCmd c) = hash_cmd_wf c"
| "cmd_wf (SetCmd c) = set_cmd_wf c"
| "cmd_wf (ZsetCmd c) = zset_cmd_wf c"
| "cmd_wf (ExistsCmd n) = is_i32 n"
| "cmd_wf (ExpireCmd ts flags) = (ts < 2 ^ 64 \<and> flags < 256)"
| "cmd_wf (RecoverCmd img) = (length img < 2 ^ 32)"
| "cmd_wf _ = True"

lemma any_cmd_numbers:
  "cmd_type ''DEL'' = 140"
  "cmd_type ''UNLINK'' = 174"
  "cmd_type ''EXISTS'' = 141"
  "cmd_type ''TYPE'' = 139"
  "cmd_type ''EXPIRE'' = 161"
  "cmd_type ''PERSIST'' = 165"
  "cmd_type ''RECOVER'' = 167"
  by code_simp+

text \<open>
  The command that an image gives back, and the commands whose strings are views of a request or owned copies
  (a value of a hash is no view when its field is owned).
\<close>

fun read_back :: "redis_cmd \<Rightarrow> redis_cmd" where
  "read_back (StringCmd c) = StringCmd (string_read_back c)"
| "read_back (ListCmd c) = ListCmd (list_read_back c)"
| "read_back (HashCmd c) = HashCmd (hash_read_back c)"
| "read_back (SetCmd c) = SetCmd (set_read_back c)"
| "read_back (ZsetCmd c) = ZsetCmd (zset_read_back c)"
| "read_back c = c"

fun cmd_carried :: "redis_cmd \<Rightarrow> bool" where
  "cmd_carried (StringCmd c) = string_carried c"
| "cmd_carried (ListCmd c) = list_carried c"
| "cmd_carried (HashCmd c) = hash_carried c"
| "cmd_carried (SetCmd c) = set_carried c"
| "cmd_carried (ZsetCmd c) = zset_carried c"
| "cmd_carried _ = True"

lemma image_read_back: "cmd_Serialize code pad (read_back c) = cmd_Serialize code pad c"
  by (cases c) (simp_all add: string_image_read_back list_image_read_back hash_image_read_back set_image_read_back
      zset_image_read_back)

text \<open>A command whose strings are owned copies and whose flags outside the image are clear comes back as it was.\<close>

lemma cmd_wf_read_back:
  assumes "cmd_wf c"
  shows "read_back c = c"
proof -
  have a: "Clone e = e" if "arg e" for e using that by (simp add: arg_def canonical_def)
  have v: "map Clone es = es" if "list_all arg es" for es
    using that a by (simp add: list_all_iff map_idI)
  have p: "map pair_Clone kvs = kvs" if "list_all (\<lambda>kv. arg (fst kv) \<and> arg (snd kv)) kvs" for kvs
    using that a by (simp add: list_all_iff map_idI pair_Clone_def)
  have z: "map elem_Clone es = es" if "list_all (\<lambda>e. arg (snd e)) es" for es
    using that a by (simp add: list_all_iff map_idI elem_Clone_def)
  have b: "bound_Clone x = x" if "bound_wf x" for x using that a by (cases x) simp_all
  have s: "spec_Clone spec = spec" if "spec_wf spec" for spec
    using that b by (simp add: spec_Clone_def spec_wf_def)
  show ?thesis
  proof (cases c)
    case (StringCmd x)
    then show ?thesis using assms a by (cases x) simp_all
  next
    case (ListCmd x)
    then show ?thesis using assms a v by (cases x) simp_all
  next
    case (HashCmd x)
    then show ?thesis using assms a v p by (cases x) simp_all
  next
    case (SetCmd x)
    then show ?thesis using assms a v by (cases x) simp_all
  next
    case (ZsetCmd x)
    show ?thesis using assms [unfolded ZsetCmd] a v s
      by (cases x) (auto simp: ZsetCmd z elem_Clone_def split: zelements.splits)
  qed simp_all
qed

text \<open>The number an image starts with, and that no family reads the number of another.\<close>

definition cmd_code :: "bytes \<Rightarrow> nat" where
  "cmd_code img = (case get_u8 img of Some (n, _) \<Rightarrow> n | None \<Rightarrow> 256)"

lemma cmd_code_simps [simp]: "n < 256 \<Longrightarrow> cmd_code (put_u8 n @ bs) = n" "n < 256 \<Longrightarrow> cmd_code (put_u8 n) = n"
  by (simp_all add: cmd_code_def)

definition string_codes :: "nat list" where "string_codes = [8, 9, 10, 16, 19, 20, 22, 23, 24, 25, 26, 27, 28, 29, 30, 31, 32, 33, 166]"
definition list_codes :: "nat list" where "list_codes = [35, 42, 43, 44, 45, 46, 47, 48, 49, 51, 52, 53, 54, 55, 56, 58, 59]"
definition hash_codes :: "nat list" where "hash_codes = [61, 62, 63, 64, 65, 66, 68, 69, 70, 71, 72, 73]"
definition set_codes :: "nat list" where "set_codes = [108, 109, 110, 111, 117, 118, 120]"
definition zset_codes :: "nat list" where "zset_codes = [76, 77, 78, 79, 81, 82, 83, 84, 85, 86, 87, 88, 89, 97, 99, 100, 101, 102]"

lemma written_codes:
  "cmd_code (string_cmd_Serialize pad cs @ rest) \<in> set string_codes"
  "cmd_code (list_cmd_Serialize code cl @ rest) \<in> set list_codes"
  "cmd_code (hash_cmd_Serialize ch @ rest) \<in> set hash_codes"
  "cmd_code (set_cmd_Serialize ce @ rest) \<in> set set_codes"
  "zset_cmd_Serialize cz = Some img \<Longrightarrow> cmd_code (img @ rest) \<in> set zset_codes"
proof -
  show "cmd_code (string_cmd_Serialize pad cs @ rest) \<in> set string_codes"
    by (cases cs) (simp_all add: string_image_defs string_cmd_numbers string_codes_def)
  show "cmd_code (list_cmd_Serialize code cl @ rest) \<in> set list_codes"
    by (cases cl) (simp_all add: list_image_defs list_cmd_numbers list_codes_def)
  show "cmd_code (hash_cmd_Serialize ch @ rest) \<in> set hash_codes"
    by (cases ch) (simp_all add: hash_image_defs hash_cmd_numbers hash_codes_def)
  show "cmd_code (set_cmd_Serialize ce @ rest) \<in> set set_codes"
    by (cases ce) (simp_all add: set_image_defs set_cmd_numbers set_codes_def)
  show "cmd_code (img @ rest) \<in> set zset_codes" if "zset_cmd_Serialize cz = Some img"
    using that by (cases cz) (auto simp: zset_image_defs zset_cmd_numbers zset_codes_def bind_eq_Some_conv split: if_splits)
qed

lemma foreign_codes:
  "cmd_code img \<notin> set string_codes \<Longrightarrow> CreateTxCommand_string img = None"
  "cmd_code img \<notin> set list_codes \<Longrightarrow> CreateTxCommand_list of_code img = None"
  "cmd_code img \<notin> set hash_codes \<Longrightarrow> CreateTxCommand_hash img = None"
  "cmd_code img \<notin> set set_codes \<Longrightarrow> CreateTxCommand_set img = None"
  "cmd_code img \<notin> set zset_codes \<Longrightarrow> CreateTxCommand_zset img = None"
proof -
  show "CreateTxCommand_string img = None" if "cmd_code img \<notin> set string_codes"
    using that by (cases "get_u8 img") (auto simp: cmd_code_def CreateTxCommand_string_def string_cmd_numbers string_codes_def)
  show "CreateTxCommand_list of_code img = None" if "cmd_code img \<notin> set list_codes"
    using that by (cases "get_u8 img") (auto simp: cmd_code_def CreateTxCommand_list_def list_cmd_numbers list_codes_def)
  show "CreateTxCommand_hash img = None" if "cmd_code img \<notin> set hash_codes"
    using that by (cases "get_u8 img") (auto simp: cmd_code_def CreateTxCommand_hash_def hash_cmd_numbers hash_codes_def)
  show "CreateTxCommand_set img = None" if "cmd_code img \<notin> set set_codes"
    using that by (cases "get_u8 img") (auto simp: cmd_code_def CreateTxCommand_set_def set_cmd_numbers set_codes_def)
  show "CreateTxCommand_zset img = None" if "cmd_code img \<notin> set zset_codes"
    using that by (cases "get_u8 img") (auto simp: cmd_code_def CreateTxCommand_zset_def zset_cmd_numbers zset_codes_def)
qed

definition any_codes :: "nat list" where "any_codes = [140, 174, 141, 139, 161, 165, 167]"

lemma distinct_codes: "distinct (string_codes @ list_codes @ hash_codes @ set_codes @ zset_codes @ any_codes)"
  by code_simp

lemma codes_disjoint:
  "set list_codes \<inter> set string_codes = {}" "set hash_codes \<inter> set string_codes = {}"
  "set hash_codes \<inter> set list_codes = {}" "set set_codes \<inter> set string_codes = {}"
  "set set_codes \<inter> set list_codes = {}" "set set_codes \<inter> set hash_codes = {}"
  "set any_codes \<inter> set string_codes = {}" "set any_codes \<inter> set list_codes = {}"
  "set any_codes \<inter> set hash_codes = {}" "set any_codes \<inter> set set_codes = {}" "set any_codes \<inter> set zset_codes = {}"
  "set zset_codes \<inter> set string_codes = {}" "set zset_codes \<inter> set list_codes = {}"
  "set zset_codes \<inter> set hash_codes = {}" "set zset_codes \<inter> set set_codes = {}"
  using distinct_codes by auto

lemma codes_apart:
  "n \<in> set list_codes \<Longrightarrow> n \<notin> set string_codes"
  "n \<in> set hash_codes \<Longrightarrow> n \<notin> set string_codes \<and> n \<notin> set list_codes"
  "n \<in> set set_codes \<Longrightarrow> n \<notin> set string_codes \<and> n \<notin> set list_codes \<and> n \<notin> set hash_codes"
  "n \<in> set zset_codes \<Longrightarrow> n \<notin> set string_codes \<and> n \<notin> set list_codes \<and> n \<notin> set hash_codes \<and> n \<notin> set set_codes"
  "n \<in> set any_codes \<Longrightarrow> n \<notin> set string_codes \<and> n \<notin> set list_codes \<and> n \<notin> set hash_codes \<and> n \<notin> set set_codes \<and>
     n \<notin> set zset_codes"
  using codes_disjoint by (simp_all add: disjoint_iff)

lemma any_command_roundtrip:
  assumes "cmd_wf c" "case c of StringCmd _ \<Rightarrow> False | ListCmd _ \<Rightarrow> False | HashCmd _ \<Rightarrow> False | SetCmd _ \<Rightarrow> False
      | ZsetCmd _ \<Rightarrow> False | _ \<Rightarrow> True"
  shows "CreateTxCommand_any (cmd_Serialize code pad c @ rest) = Some (c, rest)"
    and "cmd_code (cmd_Serialize code pad c @ rest) \<in> set any_codes"
  using assms
  by (cases c; simp add: any_codes_def CreateTxCommand_any_def any_cmd_numbers Del_Serialize_def Exists_Serialize_def Exists_Deserialize_def
        Type_Serialize_def Expire_Serialize_def Expire_Deserialize_def Persist_Serialize_def Recover_Serialize_def
        Recover_Deserialize_def get_raw_def)+

lemma zset_cmd_writes: "zset_cmd_wf c \<Longrightarrow> zset_cmd_Serialize c \<noteq> None"
  by (cases c) (auto simp: zset_image_defs get_strs.simps split: zbound.splits)

lemma CreateTxCommand_roundtrip:
  assumes "cmd_wf c" "\<And>op. of_code (code op) = Some op" "\<And>op. code op < 256" "length pad = 4"
  shows "CreateTxCommand of_code (cmd_Serialize code pad c @ rest) = Some (c, rest)"
proof -
  let ?img = "cmd_Serialize code pad c @ rest"
  note w = written_codes(1) [of pad _ rest] written_codes(2) [of code _ rest] written_codes(3,4) [of _ rest]
  note rt = string_command_roundtrip [OF _ assms(4)] list_command_roundtrip [OF _ assms(2,3)] hash_command_roundtrip
    set_command_roundtrip
  have any: "CreateTxCommand of_code ?img = Some (c, rest)"
    if "case c of StringCmd _ \<Rightarrow> False | ListCmd _ \<Rightarrow> False | HashCmd _ \<Rightarrow> False | SetCmd _ \<Rightarrow> False
      | ZsetCmd _ \<Rightarrow> False | _ \<Rightarrow> True"
  proof -
    note r = any_command_roundtrip [OF assms(1) that, of code pad rest]
    show ?thesis using r(1) codes_apart(5) [OF r(2)] by (simp add: CreateTxCommand_def foreign_codes)
  qed
  show ?thesis
  proof (cases c)
    case (ListCmd cl)
    then show ?thesis
      using rt(2) [of cl rest] assms(1) codes_apart(1) [OF w(2) [of cl]] by (simp add: CreateTxCommand_def foreign_codes)
  next
    case (HashCmd ch)
    then show ?thesis
      using rt(3) [of ch rest] assms(1) codes_apart(2) [OF w(3) [of ch]] by (simp add: CreateTxCommand_def foreign_codes)
  next
    case (SetCmd ce)
    then show ?thesis
      using rt(4) [of ce rest] assms(1) codes_apart(3) [OF w(4) [of ce]] by (simp add: CreateTxCommand_def foreign_codes)
  next
    case (ZsetCmd cz)
    then obtain img where i: "zset_cmd_Serialize cz = Some img" "?img = img @ rest"
      using assms(1) zset_cmd_writes [of cz] by auto
    then show ?thesis
      using zset_command_roundtrip [OF _ i(1), of rest] assms(1) ZsetCmd codes_apart(4) [OF written_codes(5) [OF i(1), of rest]] by (simp add: CreateTxCommand_def foreign_codes)
  next
    case (StringCmd cs)
    then show ?thesis using rt(1) [of cs rest] assms(1) by (simp add: CreateTxCommand_def)
  qed (use any in simp_all)
qed

lemma CreateTxCommand_read_back:
  assumes "cmd_wf (read_back c)" "\<And>op. of_code (code op) = Some op" "\<And>op. code op < 256" "length pad = 4"
  shows "CreateTxCommand of_code (cmd_Serialize code pad c @ rest) = Some (read_back c, rest)"
  using CreateTxCommand_roundtrip [OF assms, of rest] by (simp add: image_read_back)

section \<open>The objects in the store\<close>

fun value_state :: "redis_value \<Rightarrow> bool" where
  "value_state (VString s) = string_state s"
| "value_state (VList l) = list_state l"
| "value_state (VHash h) = hash_state h"
| "value_state (VSet s) = set_state s"
| "value_state (VZset z) = zset_state z"

definition object_state :: "redis_object \<Rightarrow> bool" where
  "object_state ob \<longleftrightarrow> value_state (rvalue ob) \<and> (\<forall>ttl. rttl ob = Some ttl \<longrightarrow> ttl < 2 ^ 64)"

text \<open>The contract of each family; a \<^verbatim>\<open>SADD\<close> that replaces is in order on an object of any type.\<close>

fun cmd_ok :: "redis_cmd \<Rightarrow> redis_object \<Rightarrow> bool" where
  "cmd_ok (StringCmd c) ob = string_object_ok c (rvalue ob)"
| "cmd_ok (ListCmd c) ob = (list_object_inv (rvalue ob) \<and> list_ok c (list_value (rvalue ob)))"
| "cmd_ok (HashCmd c) ob = (hash_object_inv (rvalue ob) \<and> hash_ok c (hash_value (rvalue ob)))"
| "cmd_ok (SetCmd (SAdd True es _)) ob = (adds_ok es \<and> es \<noteq> [])"
| "cmd_ok (SetCmd c) ob = (set_object_inv (rvalue ob) \<and> set_ok c (set_value (rvalue ob)))"
| "cmd_ok (ZsetCmd c) ob = (zset_object_inv (rvalue ob) \<and> zset_object_ok c (rvalue ob))"
| "cmd_ok (RecoverCmd _) ob = False"
| "cmd_ok (ExpireCmd ts _) ob = (ts < 2 ^ 64)"
| "cmd_ok _ ob = True"

text \<open>Changing the time to live keeps the state of the value.\<close>

lemma ttl_value_state:
  assumes "value_state v"
  shows "value_state (ttl_value v)" "value_state (plain_value v)"
proof -
  have str: "string_state \<lparr>str_obj = fst (es_move (str_obj s))\<rparr>" if "string_state s" for s
    using that es_move_string [of s] by (simp add: string_state_def)
  have lst: "list_state (list_copy l)" if "list_state l" for l
    using that by (simp add: list_state_bcosts elems_list_copy list_copy_inv)
  show "value_state (ttl_value v)" "value_state (plain_value v)"
    using assms str lst zset_state_copy by (cases v; simp)+
qed

lemma object_state_ttl:
  assumes "object_state ob" "ts < 2 ^ 64"
  shows "object_state (AddTTL ob ts)" "object_state (SetTTL ob ts)" "object_state (RemoveTTL ob)"
  using assms ttl_value_state [of "rvalue ob"]
  by (simp_all add: object_state_def AddTTL_def SetTTL_def RemoveTTL_def)

text \<open>
  One command that writes leaves an object of the store, its image can be read, and what is read
  commits the same change.  First the sets, whose replacing \<^verbatim>\<open>SADD\<close> is in order on every object.
\<close>

lemma set_write_keeps:
  assumes "object_state ob" "cmd_ok (SetCmd c) ob" "set_cmd_wf (set_read_back c)" "set_carried c"
    and "set_ExecuteOn buckets rnd c ob = (c', r, EWrite)" "set_CommitOn c' ob = CKeep ob'"
  shows "object_state ob' \<and> set_cmd_wf (set_read_back c') \<and> set_carried c'"
proof (cases "\<exists>es m. c = SAdd True es m")
  case True
  then obtain es m where c: "c = SAdd True es m" by auto
  from sadd_force [OF _ _ assms(5) [unfolded c]] assms(2,6) c
  obtain s where "ob' = \<lparr>rvalue = VSet s, rttl = None\<rparr>" "set_state s" by (auto split: if_splits)
  moreover have "c' = c" using assms(5) c by (auto simp: split_beta Let_def)
  ultimately show ?thesis using assms(3,4) by (simp add: object_state_def)
next
  case False
  then have "set_object_inv (rvalue ob) \<and> set_ok c (set_value (rvalue ob))"
    using assms(2) by (cases "(SetCmd c, ob)" rule: cmd_ok.cases) auto
  then obtain t where t: "rvalue ob = VSet t" "set_state t" "set_ok c (members t)"
    using assms by (cases "rvalue ob") (auto simp: split_beta Let_def prod_eq_iff)
  have "set_object_inv (rvalue ob') \<and> rttl ob' = rttl ob"
    using set_commands.write_keeps [of ob c buckets rnd c' r] set_commands.write_ttl [of ob c buckets rnd c' r ob'] t assms(5,6)
    by auto
  then have "object_state ob'" using assms(1) by (cases "rvalue ob'") (simp_all add: object_state_def)
  then show ?thesis using set_executed_wf [OF assms(3,4) t(2,3,1) assms(5)] by simp
qed

lemma write_keeps_state:
  assumes "object_state ob" "cmd_ok c ob" "cmd_wf (read_back c)" "cmd_carried c"
    and "cmd_ExecuteOn now buckets rnd dtoa c ob = (c', EWrite)"
    and "cmd_CommitOn c' ob = CKeep ob'"
  shows "object_state ob' \<and> cmd_wf (read_back c') \<and> cmd_CommitOn (read_back c') ob = CKeep ob'"
proof -
  have ttl: "object_state ob'" if "rttl ob' = rttl ob" "value_state (rvalue ob')"
    using that assms(1) by (simp add: object_state_def)
  show ?thesis
  proof (cases c)
    case (StringCmd cs)
    obtain s r where s: "rvalue ob = VString s" "string_state s" "string_ok cs s"
        "string_ExecuteOn cs ob = (cs, r, EWrite)" "c' = StringCmd cs" "string_commits cs s ob"
      using assms StringCmd string_command_commits [of _ ob cs]
      by (cases "rvalue ob") (auto simp: object_state_def split_beta Let_def prod_eq_iff)
    obtain s' where s': "string_state s'" "ob' = \<lparr>rvalue = VString s', rttl = string_ttl cs (rttl ob)\<rparr>"
      using s assms(6) by (auto simp: string_commits_def)
    have "\<forall>ttl. string_ttl cs (rttl ob) = Some ttl \<longrightarrow> ttl < 2 ^ 64"
      using assms(1) s(3) by (cases cs) (auto simp: object_state_def split: if_splits)
    then show ?thesis using s' s(5) assms(3,4,6) StringCmd string_commit_read_back [OF _ s(1)] by (simp add: object_state_def)
  next
    case (ListCmd cl)
    obtain l r cl' where l: "rvalue ob = VList l" "list_state l" "list_ok cl (elems l)"
        "list_ExecuteOn cl ob = (cl', r, EWrite)" "c' = ListCmd cl'"
      using assms ListCmd by (cases "rvalue ob") (auto simp: split_beta Let_def prod_eq_iff)
    have "list_object_inv (rvalue ob') \<and> rttl ob' = rttl ob"
      using list_commands.write_keeps [of ob cl cl' r] list_commands.write_ttl [of ob cl cl' r ob'] l assms(6) by auto
    moreover have "list_cmd_wf (list_read_back cl') \<and> list_carried cl'"
      using list_executed_wf [OF _ _ l(2,1,4)] assms(3,4) ListCmd by simp
    ultimately show ?thesis using l(5) assms(6) list_commit_read_back [of cl' ob] by (cases "rvalue ob'") (simp_all add: ttl)
  next
    case (HashCmd ch)
    obtain h r ch' where h: "rvalue ob = VHash h" "hash_state h" "hash_ok ch (hfields h)"
        "hash_ExecuteOn ch ob = (ch', r, EWrite)" "c' = HashCmd ch'"
      using assms HashCmd by (cases "rvalue ob") (auto simp: split_beta Let_def prod_eq_iff)
    have "hash_object_inv (rvalue ob') \<and> rttl ob' = rttl ob" "ch' = ch"
      using hash_commands.write_keeps [of ob ch ch' r] hash_commands.write_ttl [of ob ch ch' r ob'] h assms(6)
        hash_command_commits [OF h(2,1,3,4)] by auto
    then show ?thesis using h(5) assms(3,4,6) HashCmd hash_commit_read_back [of ch ob] by (cases "rvalue ob'") (simp_all add: ttl)
  next
    case (SetCmd ce)
    obtain r ce' where t: "set_ExecuteOn buckets rnd ce ob = (ce', r, EWrite)" "c' = SetCmd ce'"
      using assms(5) SetCmd by (auto simp: split_beta Let_def prod_eq_iff)
    show ?thesis
      using set_write_keeps [OF assms(1) assms(2) [unfolded SetCmd] _ _ t(1)] set_commit_read_back [of ce' ob] t(2) assms(3,4,6)
        SetCmd by simp
  next
    case (ZsetCmd cz)
    obtain z r cz' where z: "rvalue ob = VZset z" "zset_state z" "zset_ok cz z"
        "zset_run dtoa cz ob = (cz', r, EWrite)" "c' = ZsetCmd cz'"
      using assms ZsetCmd by (cases "rvalue ob") (auto simp: split_beta Let_def prod_eq_iff)
    have "zset_object_inv (rvalue ob') \<and> rttl ob' = rttl ob"
      using zset_commands.write_keeps [of ob cz dtoa cz' r] zset_commands.write_ttl [of ob cz dtoa cz' r ob'] z assms(6)
      by auto
    moreover have "zset_cmd_wf (zset_read_back cz')" "zset_CommitOn (zset_read_back cz') ob = zset_CommitOn cz' ob"
      using zset_executed_wf [OF _ _ z(3,1) zset_run_changes [OF z(4)]] zset_commit_read_back [OF _ z(1,3) zset_run_changes [OF z(4)]]
        assms(3,4) ZsetCmd by simp_all
    ultimately show ?thesis using z(5) assms(6) by (cases "rvalue ob'") (simp_all add: ttl)
  qed (use assms object_state_ttl(1,2) object_state_ttl(3) [of _ 0] in \<open>auto simp: Del_CommitOn_def Expire_CommitOn_def Persist_CommitOn_def
         Exists_ExecuteOn_def Type_ExecuteOn_def split_beta Let_def split: if_splits\<close>)
qed

section \<open>The log\<close>

text \<open>
  Commands run one after another on an object.  One that writes leaves its image in the log, one that
  reads or fails leaves nothing.
\<close>

inductive logged ::
  "(block_operation \<Rightarrow> nat) \<Rightarrow> bytes \<Rightarrow> redis_object \<Rightarrow> redis_cmd list \<Rightarrow> bytes list \<Rightarrow> redis_object \<Rightarrow> bool"
  for code pad where
  logged_Nil: "logged code pad ob [] [] ob"
| logged_write: "cmd_ok c ob \<Longrightarrow> cmd_wf (read_back c) \<Longrightarrow> cmd_carried c \<Longrightarrow> cmd_ExecuteOn now buckets rnd dtoa c ob = (c', EWrite) \<Longrightarrow>
    cmd_CommitOn c' ob = CKeep ob1 \<Longrightarrow> logged code pad ob1 cs log ob2 \<Longrightarrow>
    logged code pad ob (c # cs) (cmd_Serialize code pad c' # log) ob2"
| logged_read: "cmd_ExecuteOn now buckets rnd dtoa c ob = (c', d) \<Longrightarrow> d \<in> {ERead, EFail} \<Longrightarrow>
    logged code pad ob cs log ob2 \<Longrightarrow> logged code pad ob (c # cs) log ob2"

text \<open>Replay: every image is read and committed; \<^verbatim>\<open>ExecuteOn\<close> is not run again.\<close>

fun replay :: "(nat \<Rightarrow> block_operation option) \<Rightarrow> bytes list \<Rightarrow> redis_object \<Rightarrow> redis_object option" where
  "replay of_code [] ob = Some ob"
| "replay of_code (img # log) ob =
     do { (c, _) \<leftarrow> CreateTxCommand of_code img;
          (case cmd_CommitOn c ob of CKeep ob1 \<Rightarrow> replay of_code log ob1 | _ \<Rightarrow> None) }"

lemma replay_logged:
  assumes "logged code pad ob cs log ob'" "object_state ob"
    and "\<And>op. of_code (code op) = Some op" "\<And>op. code op < 256" "length pad = 4"
  shows "replay of_code log ob = Some ob' \<and> object_state ob'"
  using assms(1,2)
proof (induction rule: logged.induct)
  case (logged_write c ob now buckets rnd dtoa c' ob1 cs log ob2)
  then have "object_state ob1 \<and> cmd_wf (read_back c') \<and> cmd_CommitOn (read_back c') ob = CKeep ob1"
    by (intro write_keeps_state)
  moreover from this have "CreateTxCommand of_code (cmd_Serialize code pad c' @ []) = Some (read_back c', [])"
    by (intro CreateTxCommand_read_back assms(3-5)) simp
  ultimately show ?case using logged_write by simp
qed simp_all

end
