(* ===== verification/Examples.thy ===== *)
theory Examples
  imports TxCommand
begin

text \<open>
  Small well formed objects of each type, at which the properties of the development are applied.
\<close>

section \<open>Example objects\<close>

definition ex_list :: list_obj where
  "ex_list = \<lparr>list_object = [Stack ''a'', Stack ''b''], list_slen = 15\<rparr>"

definition ex_hash :: hash_obj where
  "ex_hash = \<lparr>hash_map = [(Stack ''f'', Stack ''1'')], hash_slen = 15\<rparr>"

definition ex_set :: set_obj where
  "ex_set = \<lparr>hash_set = [Stack ''x'', Stack ''y''], set_slen = 15\<rparr>"

definition ex_string :: string_obj where
  "ex_string = \<lparr>str_obj = Stack ''41''\<rparr>"

text \<open>The scores are one, two and two.\<close>

definition ex_zset :: zset_obj where
  "ex_zset = \<lparr>z_ordered_set = [(Stack ''a'', 0x3FF0000000000000), (Stack ''b'', 0x4000000000000000), (Stack ''c'', 0x4000000000000000)],
     z_hash_map = [(''b'', 0x4000000000000000), (''a'', 0x3FF0000000000000), (''c'', 0x4000000000000000)], zset_slen = 44\<rparr>"

lemma ex_numbers: "string2ll ''41'' = Some 41" "to_string 42 = ''42''"
proof -
  show "string2ll ''41'' = Some 41"
    by (simp add: string2ll_def LONG_STR_SIZE_def in_range_def is_digit_def digit_val_def LLONG_MAX_def ULLONG_MAX_def)
  have "char_of (52 :: nat) = CHR ''4''" "char_of (50 :: nat) = CHR ''2''" by code_simp+
  then show "to_string 42 = ''42''" by (simp add: to_string_def dec_digits.simps)
qed

lemma ex_list_state: "list_state ex_list" "elems ex_list = [''a'', ''b'']"
  by (simp_all add: list_state_bcosts ex_list_def list_inv_def costs_def cost_def storable_def owned_def es_short_def
      elems_def bcosts_def bcost_def es_length_def)

lemma ex_hash_state: "hash_state ex_hash" "hfields ex_hash = [''f'' \<mapsto> ''1'']"
  by (simp_all add: hash_state_def ex_hash_def hash_inv_def fm_wf_def fm_keys_def pcost_def cost_def pair_storable_def
      storable_def owned_def es_short_def hfields_def hash_fits_def hash_bytes_def hash_body_def put_vec_def put_pair_def
      es_length_def fun_eq_iff fm_lookup_def fm_find_def)

lemma ex_set_state: "set_state ex_set" "members ex_set = {''x'', ''y''}"
  by (simp_all add: set_state_def ex_set_def set_inv_def costs_def cost_def storable_def owned_def es_short_def
      members_def set_bytes_def set_body_def put_vec_def es_length_def)

lemma ex_string_state: "string_state ex_string" "sval ex_string = ''41''" "string_inv ex_string" "\<not> is_null (str_obj ex_string)"
  by (simp_all add: string_state_def ex_string_def string_inv_def sval_def storable_def owned_def es_short_def)

lemma ex_scores:
  "\<not> dbl_nan 0x3FF0000000000000" "\<not> dbl_nan 0x4000000000000000"
  "dbl_ord 0x3FF0000000000000 = 0x3FF0000000000000" "dbl_ord 0x4000000000000000 = 0x4000000000000000"
  by (simp_all add: dbl_nan_def dbl_ord_def)

lemma ex_zset_state: "zset_state ex_zset" "map name_of (z_ordered_set ex_zset) = [''a'', ''b'', ''c'']"
proof -
  let ?z = ex_zset
  have n: "nodes_ok (z_ordered_set ?z)"
    by (simp add: nodes_ok_def ex_zset_def zcmp_def dbl_ne_def dbl_less_def ex_scores storable_def owned_def es_short_def)
  have "distinct (map name_of (z_ordered_set ?z))" by (simp add: ex_zset_def)
  moreover have "mset (z_hash_map ?z) = mset (map node_pair (z_ordered_set ?z))"
    by (simp add: ex_zset_def node_pair_def)
  ultimately have "zset_wf ?z"
    using zset_wfI [OF n, of "z_hash_map ?z" "zset_slen ?z"] by (simp add: ex_zset_def zbytes_def)
  then show "zset_state ?z" by (simp add: zset_state_def ranking_def ex_zset_def zbytes_def node_pair_def)
  show "map name_of (z_ordered_set ?z) = [''a'', ''b'', ''c'']" by (simp add: ex_zset_def)
qed

abbreviation object :: "redis_value \<Rightarrow> nat option \<Rightarrow> redis_object" where
  "object v t \<equiv> \<lparr>rvalue = v, rttl = t\<rparr>"

end
