(* ===== verification/StringProps.thy ===== *)
theory StringProps
  imports Examples
begin

text \<open>
  Properties of the string objects and of the numbers they hold: counters and their bounds, bits and
  bit fields, the text of integers, the representation of strings, and what \<^verbatim>\<open>SET\<close> leaves behind.
\<close>

section \<open>Counters\<close>



text \<open>
  The test for overflow is one too strict at each end: a sum equal to the largest 64-bit integer is
  refused although it can be represented.
\<close>

theorem int_op_refuses_maximum:
  "incr > 0 \<Longrightarrow> is_i64 incr \<Longrightarrow> int_op_overflows (LLONG_MAX - incr) incr \<and> is_i64 (LLONG_MAX - incr + incr)"
  by (simp add: int_op_overflows_def LLONG_MAX_def is_i64_def)

theorem int_op_refuses_maximum_witness: "int_op_overflows (LLONG_MAX - 1) 1 \<and> is_i64 LLONG_MAX"
  using int_op_refuses_maximum [of 1] by (simp add: is_i64_def)

section \<open>Bits\<close>

text \<open>
  (C14) After \<^verbatim>\<open>SETBIT\<close> of any bit within the size limit, \<^verbatim>\<open>GETBIT\<close> answers the bit written at that offset and
  the former bit at every other one, and the string has grown just enough to hold the bit.
\<close>

theorem setbit_getbit:
  assumes "string_inv s" "snd (Execute_SetBit s offset r)" "offset < 2 ^ 62"
  shows "st_int (Execute_GetBit (CommitSetBit s offset val) i r') =
      (if i = offset then (if val \<noteq> 0 then 1 else 0) else st_int (Execute_GetBit s i r')) \<and>
    length (sval (CommitSetBit s offset val)) = max (length (sval s)) (offset div 8 + 1)"
  using CommitSetBit_spec [OF assms] by (simp_all add: Execute_GetBit_spec bit_int_def)

theorem setbit_getbit_witness:
  "st_int (Execute_GetBit (CommitSetBit ex_string 20 1) 20 RedisStringResult) = 1 \<and>
   length (sval (CommitSetBit ex_string 20 1)) = 3"
proof -
  have "snd (Execute_SetBit ex_string 20 RedisStringResult)"
    by (simp add: Execute_SetBit_def ex_string_def string_SerializedLength_def slength_def es_length_def
        CheckSerializedLength_def MAX_OBJECT_SIZE_def Let_def)
  then show ?thesis
    using setbit_getbit [of ex_string 20 RedisStringResult 1] ex_string_state by simp
qed

text \<open>
  (C15) Writing a bit field of at most 64 bits and reading it back gives the value written, cut to the width,
  as an unsigned number or with the sign of its top bit; the bits outside the field do not change.
\<close>

theorem bitfield_set_get:
  assumes "offset + n \<le> 8 * length p" "n \<le> 64" "0 < n"
  shows "GetBitFieldValue (SetBitFieldValue p val offset n) offset n False = take_bit n val \<and>
    GetBitFieldValue (SetBitFieldValue p val offset n) offset n True = signed_take_bit (n - 1) val \<and>
    (i < offset \<or> offset + n \<le> i \<longrightarrow> bit_at (SetBitFieldValue p val offset n) i = bit_at p i)"
  using assms GetBitFieldValue_set_unsigned GetBitFieldValue_set_signed bit_SetBitFieldValue by auto

theorem bitfield_set_get_witness:
  "GetBitFieldValue (SetBitFieldValue ''ab'' 5 6 4) 6 4 False = 5 \<and> bit_at (SetBitFieldValue ''ab'' 5 6 4) 12 = bit_at ''ab'' 12"
  using bitfield_set_get [of 6 4 "''ab''" 5 12] by simp

text \<open>
  (C16) \<^verbatim>\<open>BITFIELD INCRBY\<close> below 64 bits, when the sum of the two operands is a 64-bit integer: a sum that fits the field
  is stored as it is; otherwise \<^verbatim>\<open>SAT\<close> stores the nearest end of the field's range, \<^verbatim>\<open>FAIL\<close> reports failure, and
  \<^verbatim>\<open>WRAP\<close> keeps the low bits read as a signed number, for an unsigned field too.  After a failure the sub-command answers
  nil, does not count as an update, and its commit leaves the buffer as it is.  Nothing is said of a sum beyond 64 bits:
  the addition of the code then overflows, and below 63 bits nothing tests for it.
\<close>

theorem bitfield_overflow:
  assumes "0 < n" "n < 64" "is_i64 (sint a + sint b)"
  shows "IsBitfieldUnoverflow a b n bsign ow lim =
     (let x = sint a + sint b in
      if field_min n bsign \<le> x \<and> x \<le> field_max n bsign then Some (True, a + b)
      else case ow of
             SAT \<Rightarrow> Some (True, of_int (if x > field_max n bsign then field_max n bsign else field_min n bsign))
           | FAIL \<Rightarrow> Some (False, lim)
           | WRAP \<Rightarrow> Some (True, signed_take_bit (n - 1) (a + b))) \<and>
     (\<forall>p scmd. bf_type scmd = BF_INCR \<and> bf_ovf scmd = FAIL \<and> bf_bits scmd = n \<and> bf_signed scmd = bsign \<and>
        GetBitFieldValue p (bf_offset scmd) n bsign = a \<and> bf_value scmd = b \<and>
        \<not> (field_min n bsign \<le> sint a + sint b \<and> sint a + sint b \<le> field_max n bsign) \<longrightarrow>
          bf_exec p scmd = Some (p, (False, 0), False) \<and> bf_commit p scmd = Some (p, True))"
proof (rule conjI)
  have "n \<le> (if bsign then 64 else 63)" using assms(2) by simp
  note exact = IsBitfieldUnoverflow_exact [OF assms(1) this assms(3)]
  show "\<forall>p scmd. bf_type scmd = BF_INCR \<and> bf_ovf scmd = FAIL \<and> bf_bits scmd = n \<and> bf_signed scmd = bsign \<and>
        GetBitFieldValue p (bf_offset scmd) n bsign = a \<and> bf_value scmd = b \<and>
        \<not> (field_min n bsign \<le> sint a + sint b \<and> sint a + sint b \<le> field_max n bsign) \<longrightarrow>
          bf_exec p scmd = Some (p, (False, 0), False) \<and> bf_commit p scmd = Some (p, True)"
    using exact [of FAIL 0] by (auto simp: bf_exec_def bf_commit_def)
  show "IsBitfieldUnoverflow a b n bsign ow lim =
     (let x = sint a + sint b in
      if field_min n bsign \<le> x \<and> x \<le> field_max n bsign then Some (True, a + b)
      else case ow of
             SAT \<Rightarrow> Some (True, of_int (if x > field_max n bsign then field_max n bsign else field_min n bsign))
           | FAIL \<Rightarrow> Some (False, lim)
           | WRAP \<Rightarrow> Some (True, signed_take_bit (n - 1) (a + b)))"
  proof (cases "field_min n bsign \<le> sint a + sint b \<and> sint a + sint b \<le> field_max n bsign")
    case True
    then show ?thesis by (simp only: exact [of ow lim] Let_def if_True simp_thms)
  next
    case False
    then show ?thesis
      by (cases ow) (simp_all only: exact [of SAT lim] exact [of FAIL lim] IsBitfieldUnoverflow_wrap [OF assms False]
          Let_def if_False overflow.case)
  qed
qed

theorem bitfield_overflow_witness:
  "IsBitfieldUnoverflow 15 1 4 False SAT 0 = Some (True, 15) \<and> IsBitfieldUnoverflow 15 1 4 False FAIL 0 = Some (False, 0)"
  using bitfield_overflow [of 4 15 1 False SAT 0] bitfield_overflow [of 4 15 1 False FAIL 0]
  by (simp add: is_i64_def field_max_def field_min_def)

section \<open>The text of integers\<close>

text \<open>
  (C17) \<^verbatim>\<open>string2ll\<close> accepts exactly the canonical decimal texts of 64-bit integers and gives the integer: no
  leading zero, sign, space or overflow is accepted, and printing and reading are inverse.
\<close>

theorem string2ll_canonical: "string2ll s = Some i \<longleftrightarrow> is_i64 i \<and> s = to_string i"
  by (rule string2ll_iff)

text \<open>The overflow tests for 64-bit addition and multiplication are exact.\<close>

theorem overflow_tests_exact:
  assumes "is_i64 a" "is_i64 b"
  shows "(will_addition_overflow a b \<longleftrightarrow> \<not> is_i64 (a + b)) \<and>
    (will_multiplication_overflow a b \<longleftrightarrow> \<not> is_i64 (a * b))"
  using assms by (simp add: will_addition_overflow_iff will_multiplication_overflow_iff)

theorem overflow_tests_exact_witness:
  "will_addition_overflow LLONG_MAX 1 \<and> \<not> will_multiplication_overflow 3 5"
  using overflow_tests_exact [of LLONG_MAX 1] overflow_tests_exact [of 3 5] by (simp add: is_i64_def LLONG_MAX_def)

section \<open>Strings in memory\<close>

text \<open>
  Copy assignment of a string makes the left side read as the right side and keeps every heap string
  within the memory allocated for it, whatever the two representations are.
\<close>

theorem es_assign_copy_safe:
  assumes "es_inv lhs" "es_inv rhs"
  shows "es_inv (es_assign_copy lhs rhs) \<and> StringView (es_assign_copy lhs rhs) = StringView rhs"
  using es_assign_copy_inv [OF assms] es_assign_copy_view by blast

theorem es_assign_copy_safe_witness:
  "es_inv (es_assign_copy (Stack ''a'') (es_make ''bc'')) \<and> StringView (es_assign_copy (Stack ''a'') (es_make ''bc'')) = ''bc''"
  using es_assign_copy_safe [of "Stack ''a''" "es_make ''bc''"] by simp

section \<open>SET\<close>

text \<open>
  (C20) \<^verbatim>\<open>SET\<close> read back from its image and committed on an object of another type stores the empty string, not
  the value: the first of its two calls of \<^verbatim>\<open>CommitSet\<close> moves the owned value away.
\<close>

theorem replayed_set_loses_value:
  assumes "\<And>s. rvalue ob \<noteq> VString s" "Set_Deserialize bs = Some ((v, flag, ts), rest)" "arg_ok v"
  shows "\<exists>s. Set_CommitOn v flag ts ob = CKeep (object (VString s) (if ts \<noteq> UINT64_MAX then Some ts else None)) \<and>
    sval s = []"
  using set_replaces [OF assms(1,3), of flag ts] Set_Deserialize_owned [OF assms(2)] by auto

theorem replayed_set_loses_value_witness:
  "\<exists>v s. Set_Deserialize (put_i32 0 @ put_string (Stack ''v'') @ put_u64 UINT64_MAX) = Some ((v, 0, UINT64_MAX), []) \<and>
     StringView v = ''v'' \<and> Set_CommitOn v 0 UINT64_MAX (object (VList ex_list) None) = CKeep (object (VString s) None) \<and> sval s = []"
proof -
  have "Set_Deserialize (put_i32 0 @ put_string (Stack ''v'') @ put_u64 UINT64_MAX @ []) =
      Some ((Stack ''v'', 0, UINT64_MAX), [])"
    by (simp add: Set_Deserialize_def is_i32_def UINT64_MAX_def es_make_def es_length_def)
  then show ?thesis
    using replayed_set_loses_value [of "object (VList ex_list) None" _ "Stack ''v''" 0 UINT64_MAX "[]"]
    by (fastforce simp: arg_ok_def es_short_def)
qed

text \<open>
  \<^verbatim>\<open>SET ... GET\<close> on a missing key writes the value whatever its size: the limit on the size of an object is
  tested only on the other paths.
\<close>

theorem set_get_skips_limit:
  assumes "has_flag flag OBJ_GET_SET" "\<not> has_flag flag OBJ_SET_XX" "arg_ok v"
  shows "snd (Set_ExecuteOn v flag string_CreateObject r) = EWrite \<and>
    (\<exists>s. Set_CommitOn v flag ts string_CreateObject =
       CKeep (object (VString s) (if ts \<noteq> UINT64_MAX then Some ts else None)) \<and> sval s = StringView v)"
  using set_get_unchecked [OF assms] by blast

theorem set_get_skips_limit_witness:
  "snd (Set_ExecuteOn (View ''v'') 8 string_CreateObject RedisStringResult) = EWrite"
  using set_get_skips_limit [of 8 "View ''v''" RedisStringResult UINT64_MAX]
  by (simp add: has_flag_def OBJ_GET_SET_def OBJ_SET_XX_def arg_ok_def es_short_def)

end
