(* ===== verification/CollectionProps.thy ===== *)
theory CollectionProps
  imports Examples
begin

text \<open>
  Properties of the operations of lists, hashes and sets on the values they hold: what the reads answer,
  random selection, and the two ways of writing an image.
\<close>

section \<open>Reads\<close>

text \<open>
  (C22) \<^verbatim>\<open>LRANGE\<close> on a list answers the array of exactly the elements between the two indices, counted from the
  end when negative and clipped to the list.
\<close>

theorem lrange_answers:
  "\<exists>r. list_ExecuteOn (LRange i j) (object (VList l) t) = (LRange i j, r, ERead) \<and>
     list_OutputResult (LRange i j) r = Some (array_reply (map OnString (range_spec i j (elems l))))"
proof -
  have "lr_err (Execute_LRange l i j RedisListResult) = RD_OK"
      "lr_result (Execute_LRange l i j RedisListResult) = StringVector (range_spec i j (elems l))"
    by (subst Execute_LRange_spec, simp)+
  then show ?thesis by (simp add: list_exec_defs LRange_OutputResult_def)
qed

text \<open>
  (C23) \<^verbatim>\<open>LPOS\<close> finds the positions of the element, from the end when the rank is negative, skips the first
  ones as the rank says, looks only at the number of elements \<^verbatim>\<open>MAXLEN\<close> allows and answers at most \<^verbatim>\<open>COUNT\<close> of them.
  \<^verbatim>\<open>MAXLEN\<close> is the option as the code keeps it, cut to a signed number of 32 bits: the option itself where it fits, and no
  element at all for one like 4294967296.  \<^verbatim>\<open>RANK\<close> is not zero and has an absolute value of 64 bits, as the parser asks;
  \<^verbatim>\<open>COUNT\<close> is absent (-1) or not negative, as an assertion asks; with a negative rank the cut option is not the least
  integer, which the code negates; the list has fewer than \<open>2 ^ 31\<close> elements, as the limit on
  its size implies.
\<close>

theorem lpos_finds:
  assumes "rank \<noteq> 0" "is_i64 \<bar>rank\<bar>" "cnt = -1 \<or> 0 \<le> cnt" "is_i64 cnt"
    and "is_i32 (lsize l)" "rank < 0 \<longrightarrow> to_signed 32 (int len) \<noteq> - (2 ^ 31)"
  shows "lr_result (Execute_LPos l e rank cnt len r) =
     Int64Vector (lpos_spec rank (if cnt = -1 then 1 else nat cnt)
       (if len > 0 then nat (to_signed 32 (int len)) else length (elems l)) (StringView e) (elems l)) \<and>
     (len < 2 ^ 31 \<longrightarrow> to_signed 32 (int len) = int len)"
  using Execute_LPos_spec [OF assms(1-5)] by (simp add: is_i32_def)

theorem lpos_finds_witness:
  "lr_result (Execute_LPos ex_list (Stack ''b'') (- 1) (- 1) 0 RedisListResult) = Int64Vector [1]"
  using lpos_finds [of "- 1" "- 1" ex_list 0 "Stack ''b''" RedisListResult]
  by (simp add: is_i64_def is_i32_def to_signed_def lsize_def ex_list_state lpos_spec_def positions_def limit_def)
     (simp add: ex_list_def)

text \<open>The reply to a hash command.\<close>

definition hash_answer :: "hash_cmd \<Rightarrow> redis_object \<Rightarrow> reply list option" where
  "hash_answer c ob = (let (c', r, d) = hash_ExecuteOn c ob in hash_OutputResult c' r)"

text \<open>
  (C24) The hash reads answer the map of the hash: \<^verbatim>\<open>HGET\<close> and \<^verbatim>\<open>HMGET\<close> the values of the fields or nil, \<^verbatim>\<open>HEXISTS\<close>
  whether the field has one, \<^verbatim>\<open>HLEN\<close> the number of fields.
\<close>

theorem hash_reads_answer:
  assumes "hash_inv h"
  shows "hash_answer (HGet f) (object (VHash h) t) = Some [nilable (hfields h (StringView f))] \<and>
     hash_answer (HMGet fs) (object (VHash h) t) = Some (array_reply (map (\<lambda>f. nilable (hfields h (StringView f))) fs)) \<and>
     hash_answer (HExists f) (object (VHash h) t) = Some [OnInt (if StringView f \<in> dom (hfields h) then 1 else 0)] \<and>
     hash_answer HLen (object (VHash h) t) = Some [OnInt (int (card (dom (hfields h))))]"
proof -
  have wf: "fm_wf (hash_map h)" using assms by (simp add: hash_inv_def)
  have str: "es_String e = StringView e" for e by (cases e) simp_all
  have pair: "(\<lambda>(k, v). StringView v) = (\<lambda>p. StringView (snd p))" by auto
  note simps = hash_answer_def hash_exec_defs hash_output_defs RedisHashResult_def hfields_find nilable_def
  show ?thesis
    by (intro conjI)
       (simp_all add: simps Execute_HGet_def Execute_HMGet_def Execute_HExists_def Execute_HLen_def
          card_hfields [OF wf] domIff comp_def str pair split: option.splits)
qed

theorem hash_reads_answer_witness:
  "hash_answer (HGet (View ''f'')) (object (VHash ex_hash) None) = Some [OnString ''1''] \<and>
   hash_answer HLen (object (VHash ex_hash) None) = Some [OnInt 1]"
  using hash_reads_answer [of ex_hash "View ''f''" None "[]"] ex_hash_state by (simp add: hash_state_def nilable_def)

section \<open>Random selection\<close>

text \<open>
  (C25) Drawing \<open>n\<close> of \<open>sz\<close> distinct indices ends whatever the random source answers, and gives \<open>n\<close> different
  indices below \<open>sz\<close> in ascending order, with the positions \<open>0, \<dots>, n - 1\<close> each used once.
\<close>

theorem random_draw:
  assumes "n \<le> sz"
  shows "\<exists>m. GenRandMap sz n False rnd = Some m \<and> length m = n \<and> sorted (mm_keys m) \<and> distinct (mm_keys m) \<and>
     set (mm_keys m) \<subseteq> {..<sz} \<and> mset (map snd m) = mset [0..<n]"
  using GenRandMap_distinct [OF assms, of rnd] unfolding mm_ok_def by blast

theorem random_draw_witness: "\<exists>m. GenRandMap 5 3 False (\<lambda>_. 7) = Some m \<and> length m = 3 \<and> distinct (mm_keys m)"
  using random_draw [of 3 5 "\<lambda>_. 7"] by auto

text \<open>
  \<^verbatim>\<open>SPOP\<close> with a count picks that many different members of the set, or all of them when it has fewer, and
  says that the set will be empty exactly in that case.
\<close>

theorem spop_picks:
  assumes "set_inv s" "hash_set s \<noteq> []" "length (hash_set s) < 2 ^ 31" "0 \<le> cnt"
  shows "\<exists>r' st. Execute_SPop s cnt buckets rnd r = Some (r', st) \<and>
     StringView ` set (sr_list r') \<subseteq> members s \<and> distinct (map StringView (sr_list r')) \<and>
     length (sr_list r') = min (nat cnt) (card (members s)) \<and>
     (st = ModifiedToEmpty \<longleftrightarrow> cnt \<noteq> 0 \<and> card (members s) \<le> nat cnt)"
  using Execute_SPop_spec [OF assms, of buckets rnd r] by blast

theorem spop_picks_witness:
  "\<exists>r' st. Execute_SPop ex_set 1 8 (\<lambda>_. 7) RedisHashSetResult = Some (r', st) \<and> length (sr_list r') = 1 \<and>
     StringView ` set (sr_list r') \<subseteq> {''x'', ''y''}"
  using spop_picks [of ex_set 1 8 "\<lambda>_. 7" RedisHashSetResult] ex_set_state
  by (fastforce simp: set_state_def ex_set_def)

section \<open>Two writers of one image\<close>

text \<open>
  (C27) Writing an object into a buffer at an offset leaves exactly the bytes before the offset followed by the
  image that the other writer appends to a string, and moves the offset to its end, for lists, hashes and
  sets with a time to live and without.  The buffer is first sized by the running length, so that no
  write falls outside.
\<close>

theorem image_writers_agree:
  assumes "list_state l" "hash_state h" "set_state s" "off \<le> length buf"
  shows "list_Serialize_vec l buf off = Some (list_Serialize l (take off buf), off + unat (list_slen l)) \<and>
    list_ttl_Serialize_vec l ttl buf off = Some (list_ttl_Serialize l ttl (take off buf), off + 8 + unat (list_slen l)) \<and>
    hash_Serialize_vec h buf off = Some (hash_Serialize h (take off buf), off + unat (hash_slen h)) \<and>
    hash_ttl_Serialize_vec h ttl buf off = Some (hash_ttl_Serialize h ttl (take off buf), off + 8 + unat (hash_slen h)) \<and>
    set_Serialize_vec s buf off = Some (set_Serialize s (take off buf), off + unat (set_slen s)) \<and>
    set_ttl_Serialize_vec s ttl buf off = Some (set_ttl_Serialize s ttl (take off buf), off + 8 + unat (set_slen s))"
proof -
  have b: "list_bytes l < 2 ^ 64" "hash_bytes h < 2 ^ 64" "set_bytes s < 2 ^ 64"
    using assms(1-3) by (simp_all add: list_state_def hash_state_def hash_fits_def set_state_def MAX_OBJECT_SIZE_def)
  then show ?thesis
    using assms by (simp add: list_state_def hash_state_def set_state_def list_Serialize_vec_spec list_ttl_Serialize_vec_spec
        hash_Serialize_vec_spec hash_ttl_Serialize_vec_spec set_Serialize_vec_spec set_ttl_Serialize_vec_spec)
qed

theorem image_writers_agree_witness:
  "list_Serialize_vec ex_list ''zz'' 1 = Some (list_Serialize ex_list ''z'', 16) \<and>
   hash_ttl_Serialize_vec ex_hash 5 [] 0 = Some (hash_ttl_Serialize ex_hash 5 [], 23)"
  using image_writers_agree [OF ex_list_state(1) ex_hash_state(1) ex_set_state(1), of 1 "''zz''" 5]
    image_writers_agree [OF ex_list_state(1) ex_hash_state(1) ex_set_state(1), of 0 "[]" 5]
  by (simp add: ex_list_def ex_hash_def)

section \<open>The reply of the pop half of LMOVE\<close>

text \<open>
  \<^verbatim>\<open>LMovePopCommand::OutputResult\<close> asks the result for an alternative that the command never stores, so
  on a list that is not empty the access throws.
\<close>

theorem lmovepop_reply_throws:
  assumes "elems l \<noteq> []"
  shows "\<exists>r st. list_ExecuteOn (LMovePop is_left) (object (VList l) t) = (LMovePop is_left, r, st) \<and>
    list_OutputResult (LMovePop is_left) r = None"
  using assms by (simp add: list_exec_defs Execute_LMovePop_def LMovePop_OutputResult_def elems_def)

theorem lmovepop_reply_throws_witness:
  "\<exists>r st. list_ExecuteOn (LMovePop True) (object (VList ex_list) None) = (LMovePop True, r, st) \<and>
    list_OutputResult (LMovePop True) r = None"
  using lmovepop_reply_throws [of ex_list True None] ex_list_state by simp

end
