(* ===== verification/Encoding.thy ===== *)
theory Encoding
  imports Prelude
begin

text \<open>
  Texts that stand for numbers and raw bytes: base 255 without the delimiter (\<^verbatim>\<open>b255.cpp\<close>) and the
  URL-safe base 64 of tokens (\<^verbatim>\<open>base64url.h\<close>).  Each is shown to be read back, and the base 64 reader to
  accept nothing but what the writer produces.
\<close>

section \<open>Base 255\<close>

definition B255_DELIMITER :: char where
  "B255_DELIMITER = CHR '':''"

abbreviation byte :: "nat \<Rightarrow> char" where
  "byte n \<equiv> char_of n"

abbreviation bcode :: "char \<Rightarrow> nat" where
  "bcode c \<equiv> of_char c"

text \<open>The library functions, in the C locale.\<close>

definition tolower :: "char \<Rightarrow> char" where
  "tolower c = (if 65 \<le> (bcode c :: nat) \<and> bcode c \<le> (90 :: nat) then byte (bcode c + 32) else c)"

definition isspace :: "char \<Rightarrow> bool" where
  "isspace c \<longleftrightarrow> c = CHR '' '' \<or> (9 \<le> (bcode c :: nat) \<and> bcode c \<le> (13 :: nat))"

text \<open>
  The loop of \<^verbatim>\<open>b255e\<close> writes the digits backwards from position 9 of a buffer of nine bytes; a tenth digit
  would be written before the buffer.
\<close>

function b255_loop :: "nat \<Rightarrow> nat \<Rightarrow> bytes \<Rightarrow> bytes option" where
  "b255_loop temp pos buf =
     (if temp = 0 then Some buf
      else if pos = 0 then None
      else let digit = temp mod 255
           in b255_loop (temp div 255) (pos - 1)
                (byte (if digit < bcode B255_DELIMITER then digit else digit + 1) # buf))"
  by pat_completeness auto
termination
  by (relation "measure (\<lambda>(temp, _, _). temp)") auto

declare b255_loop.simps [simp del]

definition b255e :: "nat \<Rightarrow> bytes option" where
  "b255e n = (if n = 0 then Some [CHR 0x00] else b255_loop n 9 [])"

definition b255prefix :: "nat \<Rightarrow> bytes option" where
  "b255prefix n = map_option (\<lambda>s. s @ [B255_DELIMITER]) (b255e n)"

text \<open>The number a byte stands for.\<close>

definition b255_digit :: "char \<Rightarrow> nat" where
  "b255_digit c = (if bcode c < bcode B255_DELIMITER then bcode c else bcode c - 1)"

fun b255d_loop :: "nat \<Rightarrow> bytes \<Rightarrow> nat option" where
  "b255d_loop n [] = Some n"
| "b255d_loop n (c # s) =
     (if c = B255_DELIMITER then None
      else let digit = b255_digit c
           in if n > (2 ^ 64 - 1 - digit) div 255 then None
              else b255d_loop (n * 255 + digit) s)"

definition b255d :: "bytes \<Rightarrow> nat option" where
  "b255d s = (if s = [] \<or> length s > 9 then None else b255d_loop 0 s)"

text \<open>The number that a text stands for, without the limits of the machine.\<close>

fun b255_value :: "nat \<Rightarrow> bytes \<Rightarrow> nat" where
  "b255_value n [] = n"
| "b255_value n (c # s) = b255_value (n * 255 + b255_digit c) s"

definition b255_byte :: "nat \<Rightarrow> char" where
  "b255_byte d = byte (if d < bcode B255_DELIMITER then d else d + 1)"

lemma delimiter_code [simp]: "bcode B255_DELIMITER = (58 :: nat)"
  by (simp add: B255_DELIMITER_def of_char_def)

lemma code_less: "bcode c < (256 :: nat)"
  by (metis mod_less_divisor of_char_mod_256 zero_less_numeral)

lemma b255_byte:
  assumes "d < 255"
  shows "b255_digit (b255_byte d) = d" "b255_byte d \<noteq> B255_DELIMITER"
proof -
  have c: "bcode (b255_byte d) = (if d < 58 then d else d + 1)"
    using assms by (simp add: b255_byte_def of_char_of)
  then show "b255_digit (b255_byte d) = d" by (simp add: b255_digit_def)
  show "b255_byte d \<noteq> B255_DELIMITER" using c delimiter_code by (metis less_irrefl less_add_one)
qed

lemma b255_value_mono: "n \<le> b255_value n s"
proof (induction s arbitrary: n)
  case (Cons c s)
  have "n \<le> n * 255 + b255_digit c" by simp
  with Cons [of "n * 255 + b255_digit c"] show ?case by simp
qed simp

lemma b255_loop_spec:
  assumes "temp < 255 ^ pos" "B255_DELIMITER \<notin> set buf"
  shows "\<exists>s. b255_loop temp pos buf = Some (s @ buf) \<and> length s \<le> pos \<and> B255_DELIMITER \<notin> set (s @ buf) \<and>
    (\<forall>n. b255_value n (s @ buf) = b255_value (n * 255 ^ length s + temp) buf) \<and> (temp > 0 \<longrightarrow> s \<noteq> [])"
  using assms
proof (induction temp pos buf rule: b255_loop.induct)
  case (1 temp pos buf)
  show ?case
  proof (cases "temp = 0")
    case True
    then show ?thesis using 1 by (subst b255_loop.simps) simp
  next
    case False
    then have p: "pos \<noteq> 0" using 1(2) by (cases pos) auto
    let ?c = "b255_byte (temp mod 255)"
    have "temp div 255 < 255 ^ (pos - 1)"
      using 1(2) p by (cases pos) (auto simp: less_mult_imp_div_less mult.commute)
    moreover have "?c \<noteq> B255_DELIMITER" by (rule b255_byte(2)) simp
    then have "B255_DELIMITER \<notin> set (?c # buf)" using 1(3) by auto
    ultimately obtain s where s: "b255_loop (temp div 255) (pos - 1) (?c # buf) = Some (s @ ?c # buf)"
        "length s \<le> pos - 1" "B255_DELIMITER \<notin> set (s @ ?c # buf)"
        "\<forall>n. b255_value n (s @ ?c # buf) = b255_value (n * 255 ^ length s + temp div 255) (?c # buf)"
      using 1(1) [OF False p refl] unfolding b255_byte_def by blast
    have "b255_loop temp pos buf = Some ((s @ [?c]) @ buf)"
      using s(1) False p by (subst b255_loop.simps) (simp add: Let_def b255_byte_def)
    moreover have "b255_value n ((s @ [?c]) @ buf) = b255_value (n * 255 ^ length (s @ [?c]) + temp) buf" for n
    proof -
      have "(n * 255 ^ length s + temp div 255) * 255 + temp mod 255 = n * 255 ^ length (s @ [?c]) + temp"
        by (simp add: algebra_simps)
      then show ?thesis using s(4) b255_byte(1) [of "temp mod 255"] by (simp add: ac_simps)
    qed
    ultimately show ?thesis using s(2,3) p by (intro exI [of _ "s @ [?c]"]) auto
  qed
qed

lemma b255e_spec:
  assumes "n < 2 ^ 64"
  obtains s where "b255e n = Some s" "s \<noteq> []" "length s \<le> 9" "B255_DELIMITER \<notin> set s" "b255_value 0 s = n"
proof (cases "n = 0")
  case True
  have "CHR 0x00 \<noteq> B255_DELIMITER" "b255_digit (CHR 0x00) = 0" by (simp_all add: B255_DELIMITER_def b255_digit_def)
  then show ?thesis using True that [of "[CHR 0x00]"] by (simp add: b255e_def)
next
  case False
  have "n < 255 ^ 9" using assms by (simp add: less_trans)
  then obtain s where s: "b255_loop n 9 [] = Some (s @ [])" "length s \<le> 9" "B255_DELIMITER \<notin> set (s @ [])"
      "\<forall>m. b255_value m (s @ []) = b255_value (m * 255 ^ length s + n) []" "n > 0 \<longrightarrow> s \<noteq> []"
    using b255_loop_spec [of n 9 "[]"] by auto
  have "b255_value 0 s = n" using s(4) [rule_format, of 0] by simp
  then show ?thesis using s False that [of s] by (simp add: b255e_def)
qed

lemma b255d_loop_value:
  assumes "B255_DELIMITER \<notin> set s" "b255_value n s < 2 ^ 64"
  shows "b255d_loop n s = Some (b255_value n s)"
  using assms
proof (induction s arbitrary: n)
  case (Cons c s)
  have "b255_digit c \<le> bcode c" by (simp add: b255_digit_def)
  then have "b255_digit c \<le> 255" using code_less [of c] by linarith
  moreover have "n * 255 + b255_digit c < 2 ^ 64"
    using Cons.prems(2) b255_value_mono [of "n * 255 + b255_digit c" s] by simp
  ultimately have "n \<le> (2 ^ 64 - 1 - b255_digit c) div 255"
    by (simp add: less_eq_div_iff_mult_less_eq)
  then show ?case using Cons by (auto simp: Let_def)
qed simp

lemma b255_roundtrip:
  assumes "n < 2 ^ 64"
  shows "b255e n \<bind> b255d = Some n"
proof -
  obtain s where s: "b255e n = Some s" "s \<noteq> []" "length s \<le> 9" "B255_DELIMITER \<notin> set s" "b255_value 0 s = n"
    using b255e_spec [OF assms] .
  then show ?thesis using b255d_loop_value [of s 0] assms by (simp add: b255d_def)
qed

section \<open>Base 64\<close>

definition char_to_val :: "char \<Rightarrow> int" where
  "char_to_val c =
     (if bcode (CHR ''A'') \<le> bcode c \<and> bcode c \<le> bcode (CHR ''Z'') then int (bcode c - bcode (CHR ''A''))
      else if bcode (CHR ''a'') \<le> bcode c \<and> bcode c \<le> bcode (CHR ''z'') then int (bcode c - bcode (CHR ''a'') + 26)
      else if bcode (CHR ''0'') \<le> bcode c \<and> bcode c \<le> bcode (CHR ''9'') then int (bcode c - bcode (CHR ''0'') + 52)
      else if c = CHR ''-'' then 62
      else if c = CHR ''_'' then 63
      else -1)"

text \<open>
  The loop of \<^verbatim>\<open>Base64UrlDecode\<close>: \<open>val\<close> is a 32-bit number, whose low six bits are free after the shift,
  and \<open>dst\<close> the bytes written so far.
\<close>

fun b64_loop :: "nat \<Rightarrow> nat \<Rightarrow> nat \<Rightarrow> bytes \<Rightarrow> bytes \<Rightarrow> (nat \<times> nat \<times> bytes) option" where
  "b64_loop dst_len val bits dst [] = Some (val, bits, dst)"
| "b64_loop dst_len val bits dst (c # src) =
     (let x = char_to_val c in
      if x < 0 then None
      else let val1 = (val * 64) mod 2 ^ 32 + nat x; bits1 = bits + 6
           in if bits1 \<ge> 8
              then let bits2 = bits1 - 8
                   in if length dst \<ge> dst_len then None
                      else b64_loop dst_len val1 bits2 (dst @ [byte ((val1 div 2 ^ bits2) mod 256)]) src
              else b64_loop dst_len val1 bits1 dst src)"

definition Base64UrlDecode :: "bytes \<Rightarrow> nat \<Rightarrow> bytes option" where
  "Base64UrlDecode src dst_len =
     (if length src mod 4 = 1 then None
      else case b64_loop dst_len 0 0 [] src of
             None \<Rightarrow> None
           | Some (val, bits, dst) \<Rightarrow>
               if bits > 0 \<and> val mod 2 ^ bits \<noteq> 0 then None
               else if length dst = dst_len then Some dst else None)"

definition b64_lookup :: bytes where
  "b64_lookup = ''ABCDEFGHIJKLMNOPQRSTUVWXYZabcdefghijklmnopqrstuvwxyz0123456789-_''"

fun Base64UrlEncode :: "bytes \<Rightarrow> bytes" where
  "Base64UrlEncode (a # b # c # bs) =
     (let val = bcode a * 2 ^ 16 + bcode b * 2 ^ 8 + bcode c
      in [b64_lookup ! (val div 2 ^ 18 mod 64), b64_lookup ! (val div 2 ^ 12 mod 64),
          b64_lookup ! (val div 2 ^ 6 mod 64), b64_lookup ! (val mod 64)] @ Base64UrlEncode bs)"
| "Base64UrlEncode [a, b] =
     (let val = bcode a * 2 ^ 16 + bcode b * 2 ^ 8
      in [b64_lookup ! (val div 2 ^ 18 mod 64), b64_lookup ! (val div 2 ^ 12 mod 64),
          b64_lookup ! (val div 2 ^ 6 mod 64)])"
| "Base64UrlEncode [a] =
     (let val = bcode a * 2 ^ 16
      in [b64_lookup ! (val div 2 ^ 18 mod 64), b64_lookup ! (val div 2 ^ 12 mod 64)])"
| "Base64UrlEncode [] = []"

lemma lookup_all:
  "map char_to_val b64_lookup = map int [0..<64]"
  "b64_lookup = map byte ([65..<91] @ [97..<123] @ [48..<58] @ [45, 95])"
  by code_simp+

lemma length_lookup [simp]: "length b64_lookup = 64"
  using arg_cong [OF lookup_all(1), of length] by simp

lemma char_to_val_lookup [simp]: "n < 64 \<Longrightarrow> char_to_val (b64_lookup ! n) = int n"
  using arg_cong [OF lookup_all(1), of "\<lambda>xs. xs ! n"] by simp

lemma lookup_char_to_val:
  assumes "\<not> char_to_val c < 0"
  obtains x where "x < 64" "char_to_val c = int x" "c = b64_lookup ! x"
proof -
  have lit: "bcode (CHR ''A'') = (65::nat)" "bcode (CHR ''Z'') = (90::nat)" "bcode (CHR ''a'') = (97::nat)"
      "bcode (CHR ''z'') = (122::nat)" "bcode (CHR ''0'') = (48::nat)" "bcode (CHR ''9'') = (57::nat)"
      "bcode (CHR ''-'') = (45::nat)" "bcode (CHR ''_'') = (95::nat)"
    by (simp_all add: of_char_def)
  have "(65 \<le> bcode c \<and> bcode c < (91::nat)) \<or> (97 \<le> bcode c \<and> bcode c < (123::nat)) \<or>
      (48 \<le> bcode c \<and> bcode c < (58::nat)) \<or> bcode c = (45::nat) \<or> bcode c = (95::nat)"
    using assms unfolding char_to_val_def lit by (auto simp: lit simp del: of_char_Char split: if_splits)
  then have "bcode c \<in> set ([65..<91] @ [97..<123] @ [48..<58] @ [45, 95])"
    by (simp only: set_append set_upt Un_iff atLeastLessThan_iff list.set insert_iff empty_iff) blast
  then have "byte (bcode c) \<in> set b64_lookup" unfolding lookup_all(2) set_map by (rule imageI)
  then obtain x where "x < 64" "c = b64_lookup ! x" by (metis char_of_char in_set_conv_nth length_lookup)
  then show ?thesis using that [of x] by simp
qed

text \<open>The bytes that a list of six-bit digits stands for, and the digits of a list of bytes.\<close>

fun b64_bytes :: "nat list \<Rightarrow> nat list" where
  "b64_bytes (x0 # x1 # x2 # x3 # xs) =
     [x0 * 4 + x1 div 16, (x1 mod 16) * 16 + x2 div 4, (x2 mod 4) * 64 + x3] @ b64_bytes xs"
| "b64_bytes [x0, x1, x2] = [x0 * 4 + x1 div 16, (x1 mod 16) * 16 + x2 div 4]"
| "b64_bytes [x0, x1] = [x0 * 4 + x1 div 16]"
| "b64_bytes _ = []"

fun b64_digits :: "nat list \<Rightarrow> nat list" where
  "b64_digits (a # b # c # bs) =
     [a div 4, (a mod 4) * 16 + b div 16, (b mod 16) * 4 + c div 64, c mod 64] @ b64_digits bs"
| "b64_digits [a, b] = [a div 4, (a mod 4) * 16 + b div 16, (b mod 16) * 4]"
| "b64_digits [a] = [a div 4, (a mod 4) * 16]"
| "b64_digits [] = []"

text \<open>The bits left over after the last whole byte.\<close>

fun b64_rest :: "nat list \<Rightarrow> nat" where
  "b64_rest (x0 # x1 # x2 # x3 # xs) = b64_rest xs"
| "b64_rest [x0, x1, x2] = x2 mod 4"
| "b64_rest [x0, x1] = x1 mod 16"
| "b64_rest [x0] = x0"
| "b64_rest [] = 0"

lemma mod_digits:
  fixes a q m k :: nat
  assumes "q < m"
  shows "(a * m + q) mod (m * k) = (a mod k) * m + q" "(a * m + q) div m = a" "(a * m + q) mod m = q"
  using assms by (simp_all add: mod_mult2_eq)

lemma b64_group:
  fixes a b c :: nat
  assumes "a < 256" "b < 256" "c < 256"
  defines "n \<equiv> a * 65536 + b * 256 + c"
  shows "n div 262144 mod 64 = a div 4" "n div 4096 mod 64 = (a mod 4) * 16 + b div 16"
    "n div 64 mod 64 = (b mod 16) * 4 + c div 64" "n mod 64 = c mod 64"
proof -
  have n: "n = (a * 256 + b) * 256 + c" by (simp add: n_def)
  have q: "n div 256 = a * 256 + b" using assms(3) by (simp add: n)
  have "n div 262144 = n div 256 div 1024" by (simp add: div_mult2_eq [symmetric])
  also have "\<dots> = (a * 256 + b) div 256 div 4" by (simp add: q div_mult2_eq [symmetric])
  finally show "n div 262144 mod 64 = a div 4" using assms(1,2) by simp
  have s: "b div 16 < 16" "c div 64 < 4" using assms by simp_all
  have "n div 4096 = (a * 256 + b) div 16" by (simp add: q [symmetric] div_mult2_eq [symmetric])
  also have "\<dots> = a * 16 + b div 16" using div_mult_self1 [of 16 b "a * 16"] by simp
  finally show "n div 4096 mod 64 = (a mod 4) * 16 + b div 16" using mod_digits(1) [OF s(1), of a 4] by simp
  have "n div 64 = (a * 256 + b) * 4 + c div 64" using div_mult_self1 [of 64 c "(a * 256 + b) * 4"] by (simp add: n)
  then have "n div 64 mod 64 = ((a * 256 + b) mod 16) * 4 + c div 64" using mod_digits(1) [OF s(2), of "a * 256 + b" 16] by simp
  moreover have "(a * 256 + b) mod 16 = b mod 16" using mod_mult_self1 [of b "a * 16" 16] by (simp add: ac_simps)
  ultimately show "n div 64 mod 64 = (b mod 16) * 4 + c div 64" by simp
  have "n = c + ((a * 256 + b) * 4) * 64" by (simp add: n)
  then show "n mod 64 = c mod 64" by (simp only: mod_mult_self1)
qed

lemma b64_group_pow:
  fixes a b c :: nat
  assumes "a < 256" "b < 256" "c < 256"
  shows "(a * 2 ^ 16 + b * 2 ^ 8 + c) div 2 ^ 18 mod 64 = a div 4"
    "(a * 2 ^ 16 + b * 2 ^ 8 + c) div 2 ^ 12 mod 64 = (a mod 4) * 16 + b div 16"
    "(a * 2 ^ 16 + b * 2 ^ 8 + c) div 2 ^ 6 mod 64 = (b mod 16) * 4 + c div 64"
    "(a * 2 ^ 16 + b * 2 ^ 8 + c) mod 64 = c mod 64"
  using b64_group [OF assms] by (simp_all only: power_numeral Num.pow.simps Num.sqr.simps numeral_times_numeral)
    (simp_all)

lemma encode_digits: "Base64UrlEncode bs = map (\<lambda>x. b64_lookup ! x) (b64_digits (map bcode bs))"
proof (induction bs rule: Base64UrlEncode.induct)
  case (1 a b c bs)
  show ?case
    by (simp only: Base64UrlEncode.simps b64_digits.simps list.map Let_def b64_group_pow [OF code_less code_less code_less] 1
        map_append)
next
  case (2 a b)
  note g = b64_group_pow [OF code_less code_less, of 0 a b, unfolded add_0_right]
  show ?case by (simp only: Base64UrlEncode.simps b64_digits.simps list.map Let_def g zero_less_numeral div_0 add_0_right)
next
  case (3 a)
  note g = b64_group_pow [OF code_less, of 0 0 a, unfolded add_0_right mult_0]
  show ?case by (simp only: Base64UrlEncode.simps b64_digits.simps list.map Let_def g zero_less_numeral div_0 add_0_right)
qed simp

lemma b64_step:
  fixes v x k :: nat
  assumes "x < 64" "k \<le> 6"
  defines "w \<equiv> (v * 64) mod 2 ^ 32 + x"
  shows "w mod 2 ^ (k + 6) = (v mod 2 ^ k) * 64 + x"
    and "k = j + 2 \<Longrightarrow> (w div 2 ^ j) mod 256 = ((v mod 2 ^ k) * 64 + x) div 2 ^ j"
    and "j \<le> k + 6 \<Longrightarrow> w mod 2 ^ j = ((v mod 2 ^ k) * 64 + x) mod 2 ^ j"
proof -
  have "(2::nat) ^ (k + 6) dvd 2 ^ 32" using assms(2) by (intro le_imp_power_dvd) simp
  then have "w mod 2 ^ (k + 6) = (v * 64 + x) mod 2 ^ (k + 6)"
    unfolding w_def by (metis mod_add_left_eq mod_mod_cancel)
  also have "\<dots> = (v mod 2 ^ k) * 64 + x"
    using mod_digits(1) [OF assms(1), of v "2 ^ k"] by (simp add: power_add mult.commute)
  finally show a: "w mod 2 ^ (k + 6) = (v mod 2 ^ k) * 64 + x" .
  show "(w div 2 ^ j) mod 256 = ((v mod 2 ^ k) * 64 + x) div 2 ^ j" if "k = j + 2"
  proof -
    have "w mod 2 ^ (k + 6) = 2 ^ j * (w div 2 ^ j mod 256) + w mod 2 ^ j"
      using mod_mult2_eq [of w "2 ^ j" 256] that by (simp add: power_add mult.commute)
    then show ?thesis unfolding a [symmetric] by simp
  qed
  show "w mod 2 ^ j = ((v mod 2 ^ k) * 64 + x) mod 2 ^ j" if "j \<le> k + 6"
    unfolding a [symmetric] using that by (simp add: mod_mod_cancel le_imp_power_dvd)
qed

lemma b64_loop_first:
  assumes "x < 64"
  shows "\<exists>w. w mod 2 ^ 6 = x \<and> (\<forall>s. b64_loop n v 0 dst (b64_lookup ! x # s) = b64_loop n w 6 dst s)"
  using b64_step(1) [OF assms, of 0 v] assms by (intro exI [of _ "(v * 64) mod 2 ^ 32 + x"]) (simp add: Let_def)

lemma b64_loop_next:
  assumes "x < 64" "k = j + 2" "k \<le> 6" "v mod 2 ^ k = u"
  shows "\<exists>w. w mod 2 ^ j = (u * 64 + x) mod 2 ^ j \<and>
     (\<forall>dst s. b64_loop n v k dst (b64_lookup ! x # s) =
       (if length dst < n then b64_loop n w j (dst @ [byte ((u * 64 + x) div 2 ^ j)]) s else None))"
  using b64_step(2,3) [OF assms(1,3), of j v] assms
  by (intro exI [of _ "(v * 64) mod 2 ^ 32 + x"]) (simp add: Let_def not_less)

declare b64_loop.simps(2) [simp del]

lemma b64_arith:
  fixes x y :: nat
  shows "(y * 64 + x) mod 16 = x mod 16" "(y * 64 + x) div 16 = y * 4 + x div 16"
    "(y * 64 + x) mod 4 = x mod 4" "(y * 64 + x) div 4 = y * 16 + x div 4"
proof -
  have s: "y * 64 + x = x + (y * 4) * 16" "y * 64 + x = x + (y * 16) * 4" by simp_all
  show "(y * 64 + x) mod 16 = x mod 16" unfolding s(1) by (rule mod_mult_self1)
  show "(y * 64 + x) div 16 = y * 4 + x div 16" unfolding s(1) by (rule div_mult_self1) simp
  show "(y * 64 + x) mod 4 = x mod 4" unfolding s(2) by (rule mod_mult_self1)
  show "(y * 64 + x) div 4 = y * 16 + x div 4" unfolding s(2) by (rule div_mult_self1) simp
qed

lemma b64_loop_two:
  assumes "x0 < 64" "x1 < 64"
  shows "\<exists>w. w mod 16 = x1 mod 16 \<and> (\<forall>s. b64_loop n v 0 dst (b64_lookup ! x0 # b64_lookup ! x1 # s) =
       (if length dst < n then b64_loop n w 4 (dst @ [byte (x0 * 4 + x1 div 16)]) s else None))"
proof -
  obtain w0 where w0: "w0 mod 2 ^ 6 = x0" "\<And>s. b64_loop n v 0 dst (b64_lookup ! x0 # s) = b64_loop n w0 6 dst s"
    using b64_loop_first [OF assms(1), of n v dst] by auto
  obtain w where w: "w mod 2 ^ 4 = (x0 * 64 + x1) mod 2 ^ 4" "\<And>dst s. b64_loop n w0 6 dst (b64_lookup ! x1 # s) =
      (if length dst < n then b64_loop n w 4 (dst @ [byte ((x0 * 64 + x1) div 2 ^ 4)]) s else None)"
    using b64_loop_next [OF assms(2) _ _ w0(1), of 4 n] by auto
  show ?thesis using w by (intro exI [of _ w]) (simp add: w0(2) b64_arith)
qed

lemma b64_loop_three:
  assumes "x0 < 64" "x1 < 64" "x2 < 64"
  shows "\<exists>w. w mod 4 = x2 mod 4 \<and> (\<forall>s. b64_loop n v 0 dst (b64_lookup ! x0 # b64_lookup ! x1 # b64_lookup ! x2 # s) =
       (if length dst + 1 < n
        then b64_loop n w 2 (dst @ [byte (x0 * 4 + x1 div 16), byte ((x1 mod 16) * 16 + x2 div 4)]) s else None))"
proof -
  obtain w1 where w1: "w1 mod 16 = x1 mod 16" "\<And>s. b64_loop n v 0 dst (b64_lookup ! x0 # b64_lookup ! x1 # s) =
       (if length dst < n then b64_loop n w1 4 (dst @ [byte (x0 * 4 + x1 div 16)]) s else None)"
    using b64_loop_two [OF assms(1,2), of n v dst] by auto
  have "w1 mod 2 ^ 4 = x1 mod 16" using w1(1) by simp
  from b64_loop_next [OF assms(3) _ _ this, of 2 n]
  obtain w where w: "w mod 2 ^ 2 = ((x1 mod 16) * 64 + x2) mod 2 ^ 2" "\<And>dst s. b64_loop n w1 4 dst (b64_lookup ! x2 # s) =
      (if length dst < n then b64_loop n w 2 (dst @ [byte (((x1 mod 16) * 64 + x2) div 2 ^ 2)]) s else None)"
    by auto
  show ?thesis using w by (intro exI [of _ w]) (simp add: w1(2) b64_arith)
qed

lemma b64_loop_four:
  assumes "x0 < 64" "x1 < 64" "x2 < 64" "x3 < 64"
  shows "\<exists>w. \<forall>s. b64_loop n v 0 dst (b64_lookup ! x0 # b64_lookup ! x1 # b64_lookup ! x2 # b64_lookup ! x3 # s) =
       (if length dst + 2 < n
        then b64_loop n w 0 (dst @ map byte [x0 * 4 + x1 div 16, (x1 mod 16) * 16 + x2 div 4, (x2 mod 4) * 64 + x3]) s
        else None)"
proof -
  obtain w1 where w1: "w1 mod 4 = x2 mod 4"
      "\<And>s. b64_loop n v 0 dst (b64_lookup ! x0 # b64_lookup ! x1 # b64_lookup ! x2 # s) =
       (if length dst + 1 < n
        then b64_loop n w1 2 (dst @ [byte (x0 * 4 + x1 div 16), byte ((x1 mod 16) * 16 + x2 div 4)]) s else None)"
    using b64_loop_three [OF assms(1-3), of n v dst] by auto
  have "w1 mod 2 ^ 2 = x2 mod 4" using w1(1) by simp
  from b64_loop_next [OF assms(4) _ _ this, of 0 n]
  obtain w where "\<And>dst s. b64_loop n w1 2 dst (b64_lookup ! x3 # s) =
      (if length dst < n then b64_loop n w 0 (dst @ [byte (((x2 mod 4) * 64 + x3) div 2 ^ 0)]) s else None)"
    by auto
  then show ?thesis by (intro exI [of _ w]) (simp add: w1(2))
qed

text \<open>The loop computes the bytes of the digits, or stops when there is no room for them.\<close>

lemma b64_loop_digits:
  assumes "list_all (\<lambda>x. x < 64) xs" "length xs mod 4 \<noteq> 1" "length dst \<le> n"
  shows "\<exists>w k. w mod 2 ^ k = b64_rest xs \<and> b64_loop n v 0 dst (map (\<lambda>x. b64_lookup ! x) xs) =
    (if length dst + length (b64_bytes xs) \<le> n then Some (w, k, dst @ map byte (b64_bytes xs)) else None)"
  using assms
proof (induction xs arbitrary: v dst rule: b64_bytes.induct)
  case (1 x0 x1 x2 x3 xs)
  let ?bs = "[x0 * 4 + x1 div 16, (x1 mod 16) * 16 + x2 div 4, (x2 mod 4) * 64 + x3]"
  obtain w where w: "\<And>s. b64_loop n v 0 dst (b64_lookup ! x0 # b64_lookup ! x1 # b64_lookup ! x2 # b64_lookup ! x3 # s) =
       (if length dst + 2 < n then b64_loop n w 0 (dst @ map byte ?bs) s else None)"
    using b64_loop_four [of x0 x1 x2 x3 n v dst] 1(2) by auto
  have "length (x0 # x1 # x2 # x3 # xs) = length xs + 4" by simp
  then have "length xs mod 4 \<noteq> 1" using 1(3) by (metis mod_add_self2)
  show ?case
  proof (cases "length dst + 2 < n")
    case True
    then obtain w' k where "w' mod 2 ^ k = b64_rest xs" "b64_loop n w 0 (dst @ map byte ?bs) (map (\<lambda>x. b64_lookup ! x) xs) =
        (if length (dst @ map byte ?bs) + length (b64_bytes xs) \<le> n
         then Some (w', k, (dst @ map byte ?bs) @ map byte (b64_bytes xs)) else None)"
      using 1(1) [of "dst @ map byte ?bs" w] 1(2) \<open>length xs mod 4 \<noteq> 1\<close> by auto
    then show ?thesis using True by (intro exI [of _ w'] exI [of _ k]) (simp add: w)
  next
    case False
    then show ?thesis by (intro exI [of _ "b64_rest xs"] exI [of _ 64]) (simp add: w)
  qed
next
  case (2 x0 x1 x2)
  obtain w where "w mod 4 = x2 mod 4" "\<And>s. b64_loop n v 0 dst (b64_lookup ! x0 # b64_lookup ! x1 # b64_lookup ! x2 # s) =
       (if length dst + 1 < n
        then b64_loop n w 2 (dst @ [byte (x0 * 4 + x1 div 16), byte ((x1 mod 16) * 16 + x2 div 4)]) s else None)"
    using b64_loop_three [of x0 x1 x2 n v dst] 2(1) by auto
  then show ?case by (intro exI [of _ w] exI [of _ 2]) simp
next
  case (3 x0 x1)
  obtain w where "w mod 16 = x1 mod 16" "\<And>s. b64_loop n v 0 dst (b64_lookup ! x0 # b64_lookup ! x1 # s) =
       (if length dst < n then b64_loop n w 4 (dst @ [byte (x0 * 4 + x1 div 16)]) s else None)"
    using b64_loop_two [of x0 x1 n v dst] 3(1) by auto
  then show ?case by (intro exI [of _ w] exI [of _ 4]) simp
next
  case "4_1"
  then show ?case by (intro exI [of _ v] exI [of _ "0::nat"]) simp
qed simp

text \<open>The two directions between digits and bytes.\<close>

lemma length_b64_digits: "length (b64_digits bs) = (4 * length bs + 2) div 3"
  by (induction bs rule: b64_digits.induct) auto

lemma b64_digits_small: "list_all (\<lambda>b. b < 256) bs \<Longrightarrow> list_all (\<lambda>x. x < 64) (b64_digits bs)"
  by (induction bs rule: b64_digits.induct) auto

lemma b64_bytes_digits:
  "list_all (\<lambda>b. b < 256) bs \<Longrightarrow>
   b64_bytes (b64_digits bs) = bs \<and> b64_rest (b64_digits bs) = 0 \<and> length (b64_digits bs) mod 4 \<noteq> 1"
proof (induction bs rule: b64_digits.induct)
  case (1 a b c bs)
  have q: "b div 16 < 16" "c div 64 < 4" using 1(2) by (simp_all add: less_mult_imp_div_less)
  have "length (b64_digits (a # b # c # bs)) mod 4 = length (b64_digits bs) mod 4"
    using mod_add_self2 [of "length (b64_digits bs)" 4] by simp
  then show ?case using 1 by (simp add: mod_digits(2,3) [OF q(1)] mod_digits(2,3) [OF q(2)] mod_less [OF q(1)] mod_less [OF q(2)]
      del: length_append)
next
  case (2 a b)
  have q: "b div 16 < 16" using 2 by (simp add: less_mult_imp_div_less)
  show ?case using 2 by (simp add: mod_digits(2,3) [OF q] mod_less [OF q])
qed simp_all

lemma b64_digits_bytes:
  "\<lbrakk>list_all (\<lambda>x. x < 64) xs; b64_rest xs = 0; length xs mod 4 \<noteq> 1\<rbrakk> \<Longrightarrow>
   b64_digits (b64_bytes xs) = xs \<and> list_all (\<lambda>b. b < 256) (b64_bytes xs)"
proof (induction xs rule: b64_bytes.induct)
  case (1 x0 x1 x2 x3 xs)
  have q: "x1 div 16 < 4" "x2 div 4 < 16" "x3 < 64" using 1(2) by (simp_all add: less_mult_imp_div_less)
  have "length (x0 # x1 # x2 # x3 # xs) mod 4 = length xs mod 4"
    using mod_add_self2 [of "length xs" 4] by simp
  then have "b64_digits (b64_bytes xs) = xs \<and> list_all (\<lambda>b. b < 256) (b64_bytes xs)" using 1 by simp
  moreover have "x1 mod 16 < 16" "x2 mod 4 < 4" by simp_all
  then have "x0 * 4 + x1 div 16 < 256" "x1 mod 16 * 16 + x2 div 4 < 256" "x2 mod 4 * 64 + x3 < 256"
    using q 1(2) by auto
  ultimately show ?case
    by (simp add: mod_digits(2,3) [OF q(1)] mod_digits(2,3) [OF q(2)] mod_digits(2,3) [OF q(3)] mod_less [OF q(1)] mod_less [OF q(2)]
        mod_less [OF q(3)])
next
  case (2 x0 x1 x2)
  have q: "x1 div 16 < 4" "x2 div 4 < 16" using 2(1) by (simp_all add: less_mult_imp_div_less)
  have "x2 div 4 * 4 = x2" using 2(2) by auto
  moreover have "x1 mod 16 < 16" by simp
  then have "x0 * 4 + x1 div 16 < 256" "x1 mod 16 * 16 + x2 div 4 < 256" using q 2(1) by auto
  ultimately show ?case
    by (simp add: mod_digits(2,3) [OF q(1)] mod_digits(2,3) [OF q(2)] mod_less [OF q(1)] mod_less [OF q(2)])
next
  case (3 x0 x1)
  have q: "x1 div 16 < 4" using 3(1) by (simp add: less_mult_imp_div_less)
  have "x1 div 16 * 16 = x1" using 3(2) by auto
  moreover have "x0 * 4 + x1 div 16 < 256" using q 3(1) by simp
  ultimately show ?case by (simp add: mod_digits(2,3) [OF q] mod_less [OF q])
qed simp_all

lemma code_byte_map [simp]: "list_all (\<lambda>b. b < 256) xs \<Longrightarrow> map bcode (map byte xs) = xs"
  by (induction xs) (simp_all add: of_char_of)

lemma small_codes [simp]: "list_all (\<lambda>b. b < (256::nat)) (map bcode bs)"
  by (simp add: list_all_iff code_less)

lemma b64_loop_valid:
  "b64_loop n v k dst s \<noteq> None \<Longrightarrow> \<exists>xs. s = map (\<lambda>x. b64_lookup ! x) xs \<and> list_all (\<lambda>x. x < 64) xs"
proof (induction s arbitrary: v k dst)
  case (Cons c s)
  then have "\<not> char_to_val c < 0" by (auto simp: b64_loop.simps(2) Let_def)
  then obtain x where x: "x < 64" "char_to_val c = int x" "c = b64_lookup ! x" by (rule lookup_char_to_val)
  have "\<exists>v k dst. b64_loop n v k dst s \<noteq> None"
    using Cons.prems x(1,2) unfolding b64_loop.simps(2) Let_def by (metis (no_types))
  then obtain xs where "s = map (\<lambda>x. b64_lookup ! x) xs" "list_all (\<lambda>x. x < 64) xs" using Cons.IH by blast
  then show ?case using x by (intro exI [of _ "x # xs"]) simp
qed simp

lemma Base64_canonical: "Base64UrlDecode s n = Some bs \<longleftrightarrow> length bs = n \<and> s = Base64UrlEncode bs"
proof
  assume "length bs = n \<and> s = Base64UrlEncode bs"
  moreover define xs where "xs = b64_digits (map bcode bs)"
  ultimately have s: "s = map (\<lambda>x. b64_lookup ! x) xs" "length bs = n" by (simp_all add: encode_digits)
  have xs: "b64_bytes xs = map bcode bs" "b64_rest xs = 0" "length xs mod 4 \<noteq> 1" "list_all (\<lambda>x. x < 64) xs"
    using b64_bytes_digits [OF small_codes, of bs] b64_digits_small [OF small_codes, of bs] by (simp_all add: xs_def)
  have "map byte (b64_bytes xs) = bs" by (simp add: xs(1) comp_def)
  then obtain w k where "w mod 2 ^ k = 0" "b64_loop n 0 0 [] s = Some (w, k, bs)"
    using b64_loop_digits [OF xs(4,3), of "[]" n 0] s xs(1,2) by (auto simp del: mod_eq_0_iff_dvd simp: mod_eq_0_iff_dvd [symmetric])
  then show "Base64UrlDecode s n = Some bs" using s xs(3) by (simp add: Base64UrlDecode_def)
next
  assume d: "Base64UrlDecode s n = Some bs"
  then obtain w k where l: "b64_loop n 0 0 [] s = Some (w, k, bs)" "length s mod 4 \<noteq> 1" "length bs = n"
      and r: "k > 0 \<longrightarrow> w mod 2 ^ k = 0"
    by (auto simp: Base64UrlDecode_def split: if_splits option.splits)
  obtain xs where s: "s = map (\<lambda>x. b64_lookup ! x) xs" and x: "list_all (\<lambda>x. x < 64) xs"
    using b64_loop_valid [of n 0 0 "[]" s] l(1) by auto
  obtain w' k' where "w' mod 2 ^ k' = b64_rest xs" "b64_loop n 0 0 [] s =
      (if length (b64_bytes xs) \<le> n then Some (w', k', map byte (b64_bytes xs)) else None)"
    using b64_loop_digits [OF x, of "[]" n 0] l(2) s by auto
  with l(1) r have "b64_rest xs = 0" "bs = map byte (b64_bytes xs)" by (auto split: if_splits)
  then show "length bs = n \<and> s = Base64UrlEncode bs"
    using b64_digits_bytes [OF x] l(2,3) s by (simp add: encode_digits del: map_map)
qed

end
