(* ===== verification/Namespace.thy ===== *)
theory Namespace
  imports Encoding StringNum
begin

text \<open>
  Names, tokens and key prefixes of namespaces: \<^verbatim>\<open>namespace/prefix.h\<close>, \<^verbatim>\<open>namespace/token.h\<close> and
  \<^verbatim>\<open>namespace/context.h\<close>.  The keys of a namespace are exactly the keys of one interval, and the intervals of
  two namespaces, or of two epochs of one, are disjoint.
\<close>

section \<open>Prefixes\<close>

definition MakePrefix :: "bytes \<Rightarrow> nat \<Rightarrow> bytes option" where
  "MakePrefix encoded_ns_id epoch =
     map_option (\<lambda>e. encoded_ns_id @ [B255_DELIMITER] @ e @ [B255_DELIMITER]) (b255e epoch)"

text \<open>\<^verbatim>\<open>find\<close> of the delimiter splits a text before it; without one there is nothing to return.\<close>

definition split_delim :: "bytes \<Rightarrow> (bytes \<times> bytes) option" where
  "split_delim s =
     (case dropWhile (\<lambda>c. c \<noteq> B255_DELIMITER) s of
        [] \<Rightarrow> None | _ # rest \<Rightarrow> Some (takeWhile (\<lambda>c. c \<noteq> B255_DELIMITER) s, rest))"

definition Parse :: "bytes \<Rightarrow> (bytes \<times> nat \<times> bytes) option" where
  "Parse full_key =
     do { (ns_id, rest1) \<leftarrow> split_delim full_key;
          (if ns_id = [] then None else Some ());
          (encoded_epoch, user_key) \<leftarrow> split_delim rest1;
          (if encoded_epoch = [] then None else Some ());
          epoch \<leftarrow> b255d encoded_epoch;
          Some (ns_id, epoch, user_key) }"

text \<open>The loop of \<^verbatim>\<open>MakePrefixNext\<close> from the last byte.\<close>

fun prefix_next_loop :: "bytes \<Rightarrow> bytes" where
  "prefix_next_loop [] = []"
| "prefix_next_loop (c # cs) = (if bcode c \<noteq> (255 :: nat) then byte (bcode c + 1) # cs else prefix_next_loop cs)"

definition MakePrefixNext :: "bytes \<Rightarrow> bytes" where
  "MakePrefixNext prefix = rev (prefix_next_loop (rev prefix))"

section \<open>The current namespace\<close>

definition kDefaultNamespace :: bytes where
  "kDefaultNamespace = ''default''"

definition ComposeNamespaceKey :: "bytes \<Rightarrow> bytes \<Rightarrow> bytes" where
  "ComposeNamespaceKey ns key = (if ns = [] \<or> ns = kDefaultNamespace then key else ns @ key)"

definition ComposeNamespaceKeyNext :: "bytes \<Rightarrow> bytes" where
  "ComposeNamespaceKeyNext ns = (if ns = [] \<or> ns = kDefaultNamespace then [] else MakePrefixNext ns)"

section \<open>Tokens\<close>

record namespace_token =
  token_bytes :: bytes
  token_valid :: bool

definition NamespaceToken :: namespace_token where
  "NamespaceToken = \<lparr>token_bytes = replicate 16 (CHR 0x00), token_valid = False\<rparr>"

definition NamespaceToken_raw :: "bytes \<Rightarrow> namespace_token" where
  "NamespaceToken_raw raw_bytes =
     (if length raw_bytes = 16 then \<lparr>token_bytes = raw_bytes, token_valid = True\<rparr> else NamespaceToken)"

text \<open>A token whose text is not read successfully is not valid; its bytes are then never looked at.\<close>

definition FromBase64Url :: "bytes \<Rightarrow> namespace_token" where
  "FromBase64Url b64_str =
     (if length b64_str = 22
      then case Base64UrlDecode b64_str 16 of
             Some bs \<Rightarrow> \<lparr>token_bytes = bs, token_valid = True\<rparr>
           | None \<Rightarrow> NamespaceToken
      else NamespaceToken)"

definition token_ToString :: "namespace_token \<Rightarrow> bytes" where
  "token_ToString token = (if token_valid token then Base64UrlEncode (token_bytes token) else [])"

definition token_wf :: "namespace_token \<Rightarrow> bool" where
  "token_wf token \<longleftrightarrow> length (token_bytes token) = 16"

section \<open>Facts\<close>

lemma split_delim_append:
  "B255_DELIMITER \<notin> set s \<Longrightarrow> split_delim (s @ B255_DELIMITER # rest) = Some (s, rest)"
proof -
  assume "B255_DELIMITER \<notin> set s"
  then have "\<And>c. c \<in> set s \<Longrightarrow> c \<noteq> B255_DELIMITER" by blast
  then show ?thesis by (simp add: split_delim_def takeWhile_append2 dropWhile_append2)
qed

lemma Parse_MakePrefix:
  assumes "ns_id \<noteq> []" "B255_DELIMITER \<notin> set ns_id" "epoch < 2 ^ 64" "MakePrefix ns_id epoch = Some p"
  shows "Parse (p @ key) = Some (ns_id, epoch, key)"
proof -
  obtain s where s: "b255e epoch = Some s" "s \<noteq> []" "B255_DELIMITER \<notin> set s"
    using b255e_spec [OF assms(3)] by metis
  moreover have "b255d s = Some epoch" using b255_roundtrip [OF assms(3)] s(1) by simp
  ultimately show ?thesis
    using assms by (auto simp: MakePrefix_def Parse_def split_delim_append)
qed

lemma MakePrefix_total: "epoch < 2 ^ 64 \<Longrightarrow> \<exists>p. MakePrefix ns_id epoch = Some p \<and> p \<noteq> [] \<and> last p = B255_DELIMITER"
  by (rule b255e_spec) (auto simp: MakePrefix_def)

text \<open>Two prefixes that both start one key are the same namespace and epoch.\<close>

lemma MakePrefix_disjoint:
  assumes "B255_DELIMITER \<notin> set i" "B255_DELIMITER \<notin> set i'" "i \<noteq> []" "i' \<noteq> []" "e < 2 ^ 64" "e' < 2 ^ 64"
    and "MakePrefix i e = Some p" "MakePrefix i' e' = Some p'" "p @ k = p' @ k'"
  shows "i = i' \<and> e = e' \<and> k = k'"
  using Parse_MakePrefix [of i e p k] Parse_MakePrefix [of i' e' p' k'] assms by simp

text \<open>The exclusive upper bound of a prefix.\<close>

lemma prefix_next_empty: "prefix_next_loop xs = [] \<longleftrightarrow> (\<forall>c \<in> set xs. bcode c = (255 :: nat))"
  by (induction xs) auto

lemma prefix_next_append:
  "prefix_next_loop (xs @ ys) = (if prefix_next_loop xs = [] then prefix_next_loop ys else prefix_next_loop xs @ ys)"
  by (induction xs) auto

lemma MakePrefixNext_Nil [simp]: "MakePrefixNext [] = []"
  by (simp add: MakePrefixNext_def)

lemma MakePrefixNext_Cons:
  "MakePrefixNext (x # p) =
     (if MakePrefixNext p \<noteq> [] then x # MakePrefixNext p else if bcode x \<noteq> (255 :: nat) then [byte (bcode x + 1)] else [])"
  by (simp add: MakePrefixNext_def prefix_next_append)

lemma code_Suc: "bcode x \<noteq> (255 :: nat) \<Longrightarrow> bcode (byte (bcode x + 1)) = (bcode x + 1 :: nat)"
proof -
  assume "bcode x \<noteq> (255 :: nat)"
  then have "bcode x + 1 < (256 :: nat)" using code_less [of x] by linarith
  then show ?thesis by (simp only: of_char_of mod_less)
qed

lemma code_cases: "bcode y < (bcode x :: nat) \<or> y = x \<or> (bcode x :: nat) < bcode y"
  by (metis linorder_neqE_nat of_char_eq_iff)

lemma prefix_range_full:
  assumes "MakePrefixNext p = []"
  shows "\<not> bytes_less k p \<longleftrightarrow> (\<exists>u. k = p @ u)"
  using assms
proof (induction p arbitrary: k)
  case (Cons x p)
  then have x: "bcode x = (255 :: nat)" "MakePrefixNext p = []"
    by (auto simp: MakePrefixNext_Cons split: if_splits)
  show ?case
  proof (cases k)
    case (Cons y k')
    moreover have "\<not> (255 :: nat) < bcode y" using code_less [of y] by linarith
    ultimately show ?thesis using Cons.IH [OF x(2), of k'] x(1) code_cases [of y x] by auto
  qed simp
qed simp

lemma prefix_range:
  assumes "MakePrefixNext p \<noteq> []"
  shows "\<not> bytes_less k p \<and> bytes_less k (MakePrefixNext p) \<longleftrightarrow> (\<exists>u. k = p @ u)"
  using assms
proof (induction p arbitrary: k)
  case (Cons x p)
  show ?case
  proof (cases k)
    case Nil
    then show ?thesis by simp
  next
    case k: (Cons y k')
    show ?thesis
    proof (cases "MakePrefixNext p = []")
      case True
      then have "bcode x \<noteq> (255 :: nat)" using Cons.prems by (auto simp: MakePrefixNext_Cons split: if_splits)
      then show ?thesis
        using prefix_range_full [OF True, of k'] k True code_Suc [of x] code_cases [of y x] by (auto simp: MakePrefixNext_Cons)
    next
      case False
      then show ?thesis using Cons.IH [OF False, of k'] k by (auto simp: MakePrefixNext_Cons)
    qed
  qed
qed simp

lemma MakePrefix_next:
  assumes "MakePrefix i e = Some p"
  shows "MakePrefixNext p \<noteq> []"
proof -
  obtain q where "p = q @ [B255_DELIMITER]" using assms by (auto simp: MakePrefix_def)
  then show ?thesis by (simp add: MakePrefixNext_def)
qed

end
