(* ===== verification/NamespaceStorage.thy ===== *)
theory NamespaceStorage
  imports Namespace
begin

text \<open>
  The two stores of namespaces: \<^verbatim>\<open>NamespaceStorage\<close> (\<^verbatim>\<open>namespace/storage.cpp\<close>), which keeps them in a table of
  the engine, and \<^verbatim>\<open>MemoryNamespaceStorage\<close> (\<^verbatim>\<open>namespace/manager.cpp\<close>).  The engine's transactions are given by
  what the code relies on: a transaction may not start, each request in it may fail, its requests see the
  earlier ones, and the table changes only when the commit succeeds.
\<close>

section \<open>std::stoull\<close>

text \<open>White space, a sign and digits; without digits or out of range it throws.\<close>

definition stoull :: "bytes \<Rightarrow> nat option" where
  "stoull s =
     (let s1 = dropWhile isspace s;
          neg = (case s1 of c # _ \<Rightarrow> c = CHR ''-'' | [] \<Rightarrow> False);
          s2 = (case s1 of c # r \<Rightarrow> if c = CHR ''-'' \<or> c = CHR ''+'' then r else s1 | [] \<Rightarrow> []);
          ds = takeWhile is_digit s2;
          v = num_of 0 ds
      in if ds = [] \<or> v \<ge> 2 ^ 64 then None
         else Some (if neg then (2 ^ 64 - v) mod 2 ^ 64 else v))"

section \<open>Transactions of the engine\<close>

type_synonym table = "bytes \<rightharpoonup> bytes"

text \<open>The table as the transaction sees it and whether its next requests succeed; after the list all do.\<close>

record txn =
  tx_table :: table
  tx_outcomes :: "bool list"

record engine =
  eng_new :: bool
  eng_outcomes :: "bool list"
  eng_commit :: bool

definition request :: "txn \<Rightarrow> bool \<times> txn" where
  "request t = (case tx_outcomes t of [] \<Rightarrow> (True, t) | b # bs \<Rightarrow> (b, t\<lparr>tx_outcomes := bs\<rparr>))"

text \<open>A request after whose failure the code aborts, and one whose failure it takes for an absent value.\<close>

definition ReqGet :: "bytes \<Rightarrow> txn \<Rightarrow> (bytes option \<times> txn) option" where
  "ReqGet k t = (let (success, t') = request t in if success then Some (tx_table t k, t') else None)"

definition TryGet :: "bytes \<Rightarrow> txn \<Rightarrow> bytes option \<times> txn" where
  "TryGet k t = (let (success, t') = request t in (if success then tx_table t k else None, t'))"

definition ReqSet :: "bytes \<Rightarrow> bytes \<Rightarrow> txn \<Rightarrow> txn option" where
  "ReqSet k v t =
     (let (success, t') = request t in if success then Some (t'\<lparr>tx_table := (tx_table t)(k \<mapsto> v)\<rparr>) else None)"

definition ReqDel :: "bytes \<Rightarrow> txn \<Rightarrow> txn option" where
  "ReqDel k t =
     (let (success, t') = request t in if success then Some (t'\<lparr>tx_table := (tx_table t)(k := None)\<rparr>) else None)"

text \<open>
  The end of a function: \<open>None\<close> aborts and returns false; \<open>Commit\<close> returns whether the commit succeeded;
  \<open>CommitReturn\<close> commits and returns the given value in any case.
\<close>

datatype tx_end = Commit txn | CommitReturn bool txn

definition run :: "engine \<Rightarrow> table \<Rightarrow> (txn \<Rightarrow> tx_end option) \<Rightarrow> table \<times> bool" where
  "run eng tbl body =
     (if \<not> eng_new eng then (tbl, False)
      else case body \<lparr>tx_table = tbl, tx_outcomes = eng_outcomes eng\<rparr> of
             None \<Rightarrow> (tbl, False)
           | Some (Commit t) \<Rightarrow> if eng_commit eng then (tx_table t, True) else (tbl, False)
           | Some (CommitReturn b t) \<Rightarrow> (if eng_commit eng then tx_table t else tbl, b))"

section \<open>The table of namespaces\<close>

definition n_key :: "bytes \<Rightarrow> bytes" where "n_key ns = ''n:'' @ ns"
definition t_key :: "bytes \<Rightarrow> bytes" where "t_key token = ''t:'' @ token"
definition i_key :: "bytes \<Rightarrow> bytes" where "i_key encoded_id = ''i:'' @ encoded_id"
definition e_key :: "bytes \<Rightarrow> bytes" where "e_key encoded_id = ''e:'' @ encoded_id"
definition g_key :: "bytes \<Rightarrow> nat \<Rightarrow> bytes" where
  "g_key encoded_id epoch = ''g:'' @ encoded_id @ '':'' @ to_string (int epoch)"
definition kNextIdKey :: bytes where "kNextIdKey = ''next_id''"

text \<open>A stored number, 1 when it is absent or cannot be read.\<close>

definition stored_number :: "bytes option \<Rightarrow> nat" where
  "stored_number v = (case v of None \<Rightarrow> 1 | Some s \<Rightarrow> (case stoull s of None \<Rightarrow> 1 | Some n \<Rightarrow> n))"

definition allocate_id :: "txn \<Rightarrow> (bytes \<times> txn) option" where
  "allocate_id t =
     do { (v, t1) \<leftarrow> ReqGet kNextIdKey t;
          encoded_id \<leftarrow> b255e (stored_number v);
          t2 \<leftarrow> ReqSet kNextIdKey (to_string (int ((stored_number v + 1) mod 2 ^ 64))) t1;
          Some (encoded_id, t2) }"

definition storage_GetToken :: "engine \<Rightarrow> table \<Rightarrow> bytes \<Rightarrow> namespace_token" where
  "storage_GetToken eng tbl ns =
     (if \<not> eng_new eng then NamespaceToken
      else case ReqGet (n_key ns) \<lparr>tx_table = tbl, tx_outcomes = eng_outcomes eng\<rparr> of
             None \<Rightarrow> NamespaceToken
           | Some (v, _) \<Rightarrow>
               (case v of
                  Some raw \<Rightarrow> if eng_commit eng then NamespaceToken_raw raw else NamespaceToken
                | None \<Rightarrow> NamespaceToken))"

text \<open>A token that is not valid, or whose text is the administrator's password, is refused.\<close>

definition refused :: "bytes \<Rightarrow> namespace_token \<Rightarrow> bool" where
  "refused requirepass token \<longleftrightarrow> \<not> token_valid token \<or> (token_ToString token = requirepass \<and> requirepass \<noteq> [])"

text \<open>\<^verbatim>\<open>ByToken\<close> returns the name and sets the id and the epoch.\<close>

definition storage_ByToken :: "bytes \<Rightarrow> engine \<Rightarrow> table \<Rightarrow> namespace_token \<Rightarrow> bytes \<times> bytes \<times> nat" where
  "storage_ByToken requirepass eng tbl token =
     (if refused requirepass token then ([], [], 1)
      else if \<not> eng_new eng then ([], [], 1)
      else let (v, t1) = TryGet (t_key (token_bytes token)) \<lparr>tx_table = tbl, tx_outcomes = eng_outcomes eng\<rparr> in
           case v of
             None \<Rightarrow> ([], [], 1)
           | Some encoded_id \<Rightarrow>
               (let (name, t2) = TryGet (i_key encoded_id) t1; (e, t3) = TryGet (e_key encoded_id) t2
                in (case name of Some ns \<Rightarrow> ns | None \<Rightarrow> [], encoded_id, stored_number e)))"

definition add_body :: "bytes \<Rightarrow> bytes \<Rightarrow> txn \<Rightarrow> tx_end option" where
  "add_body ns raw t0 =
     do { (cur, t1) \<leftarrow> ReqGet (n_key ns) t0;
          (case cur of
             Some v \<Rightarrow> Some (CommitReturn (v = raw) t1)
           | None \<Rightarrow>
               do { (tk, t2) \<leftarrow> ReqGet (t_key raw) t1;
                    (if tk \<noteq> None then None
                     else do { (encoded_id, t3) \<leftarrow> allocate_id t2;
                               t4 \<leftarrow> ReqSet (n_key ns) raw t3;
                               t5 \<leftarrow> ReqSet (t_key raw) encoded_id t4;
                               t6 \<leftarrow> ReqSet (i_key encoded_id) ns t5;
                               t7 \<leftarrow> ReqSet (e_key encoded_id) ''1'' t6;
                               Some (Commit t7) }) }) }"

definition storage_Add :: "bytes \<Rightarrow> engine \<Rightarrow> table \<Rightarrow> bytes \<Rightarrow> namespace_token \<Rightarrow> table \<times> bool" where
  "storage_Add requirepass eng tbl ns token =
     (if refused requirepass token then (tbl, False) else run eng tbl (add_body ns (token_bytes token)))"

text \<open>The writes at the end of \<^verbatim>\<open>Set\<close>.\<close>

definition set_finish :: "bytes \<Rightarrow> bytes \<Rightarrow> bytes \<Rightarrow> txn \<Rightarrow> tx_end option" where
  "set_finish ns raw encoded_id t =
     do { t1 \<leftarrow> ReqSet (n_key ns) raw t;
          t2 \<leftarrow> ReqSet (t_key raw) encoded_id t1;
          t3 \<leftarrow> ReqSet (i_key encoded_id) ns t2;
          Some (Commit t3) }"

text \<open>Whether the token is free or belongs to the namespace itself.\<close>

definition set_check_owner :: "bytes \<Rightarrow> bytes option \<Rightarrow> txn \<Rightarrow> txn option" where
  "set_check_owner ns tk t =
     (case tk of
        None \<Rightarrow> Some t
      | Some existing_id \<Rightarrow>
          (case TryGet (i_key existing_id) t of
             (Some owner, t') \<Rightarrow> if owner \<noteq> ns then None else Some t'
           | (None, _) \<Rightarrow> None))"

text \<open>A namespace that exists: its old token's record goes, its id stays.\<close>

definition set_replace :: "bytes \<Rightarrow> bytes \<Rightarrow> bytes \<Rightarrow> txn \<Rightarrow> tx_end option" where
  "set_replace ns raw old_token t =
     (if old_token = raw then Some (CommitReturn True t)
      else let (v, t1) = TryGet (t_key old_token) t;
               encoded_id = (case v of Some i \<Rightarrow> i | None \<Rightarrow> [])
           in do { t2 \<leftarrow> ReqDel (t_key old_token) t1;
                   (if encoded_id = [] then None else set_finish ns raw encoded_id t2) })"

definition set_new :: "bytes \<Rightarrow> bytes \<Rightarrow> txn \<Rightarrow> tx_end option" where
  "set_new ns raw t = do { (encoded_id, t1) \<leftarrow> allocate_id t; set_finish ns raw encoded_id t1 }"

definition set_body :: "bytes \<Rightarrow> bytes \<Rightarrow> txn \<Rightarrow> tx_end option" where
  "set_body ns raw t0 =
     do { (tk, t1) \<leftarrow> ReqGet (t_key raw) t0;
          t2 \<leftarrow> set_check_owner ns tk t1;
          (cur, t3) \<leftarrow> ReqGet (n_key ns) t2;
          (case cur of
             Some old_token \<Rightarrow> set_replace ns raw old_token t3
           | None \<Rightarrow> set_new ns raw t3) }"

definition storage_Set :: "bytes \<Rightarrow> engine \<Rightarrow> table \<Rightarrow> bytes \<Rightarrow> namespace_token \<Rightarrow> table \<times> bool" where
  "storage_Set requirepass eng tbl ns token =
     (if refused requirepass token then (tbl, False) else run eng tbl (set_body ns (token_bytes token)))"

definition del_mark :: "bytes \<Rightarrow> txn \<Rightarrow> txn option" where
  "del_mark encoded_id t =
     (if encoded_id = [] then Some t
      else let (v, t1) = TryGet (e_key encoded_id) t in ReqSet (g_key encoded_id (stored_number v)) ''1'' t1)"

definition del_records :: "bytes \<Rightarrow> bytes \<Rightarrow> bytes \<Rightarrow> txn \<Rightarrow> tx_end option" where
  "del_records ns token encoded_id t =
     do { t1 \<leftarrow> del_mark encoded_id t;
          t2 \<leftarrow> ReqDel (n_key ns) t1;
          t3 \<leftarrow> ReqDel (t_key token) t2;
          (if encoded_id = [] then Some (Commit t3)
           else do { t4 \<leftarrow> ReqDel (i_key encoded_id) t3;
                     t5 \<leftarrow> ReqDel (e_key encoded_id) t4;
                     Some (Commit t5) }) }"

definition del_body :: "bytes \<Rightarrow> txn \<Rightarrow> tx_end option" where
  "del_body ns t0 =
     do { (cur, t1) \<leftarrow> ReqGet (n_key ns) t0;
          token \<leftarrow> cur;
          (let (v, t2) = TryGet (t_key token) t1
           in del_records ns token (case v of Some i \<Rightarrow> i | None \<Rightarrow> []) t2) }"

definition storage_Del :: "engine \<Rightarrow> table \<Rightarrow> bytes \<Rightarrow> table \<times> bool" where
  "storage_Del eng tbl ns = run eng tbl (del_body ns)"

section \<open>What the functions do to the table\<close>

lemma keys [simp]:
  "n_key a = n_key b \<longleftrightarrow> a = b" "t_key a = t_key b \<longleftrightarrow> a = b" "i_key a = i_key b \<longleftrightarrow> a = b" "e_key a = e_key b \<longleftrightarrow> a = b"
  "n_key a \<noteq> t_key b" "n_key a \<noteq> i_key b" "n_key a \<noteq> e_key b" "n_key a \<noteq> g_key b k" "n_key a \<noteq> kNextIdKey"
  "t_key a \<noteq> n_key b" "t_key a \<noteq> i_key b" "t_key a \<noteq> e_key b" "t_key a \<noteq> g_key b k" "t_key a \<noteq> kNextIdKey"
  "i_key a \<noteq> n_key b" "i_key a \<noteq> t_key b" "i_key a \<noteq> e_key b" "i_key a \<noteq> g_key b k" "i_key a \<noteq> kNextIdKey"
  "e_key a \<noteq> n_key b" "e_key a \<noteq> t_key b" "e_key a \<noteq> i_key b" "e_key a \<noteq> g_key b k" "e_key a \<noteq> kNextIdKey"
  "g_key c k \<noteq> n_key b" "g_key c k \<noteq> t_key b" "g_key c k \<noteq> i_key b" "g_key c k \<noteq> e_key b" "g_key c k \<noteq> kNextIdKey"
  "kNextIdKey \<noteq> n_key b" "kNextIdKey \<noteq> t_key b" "kNextIdKey \<noteq> i_key b" "kNextIdKey \<noteq> e_key b" "kNextIdKey \<noteq> g_key c k"
  by (simp_all add: n_key_def t_key_def i_key_def e_key_def g_key_def kNextIdKey_def)

lemma request_table [simp]: "request t = (b, t') \<Longrightarrow> tx_table t' = tx_table t"
  by (auto simp: request_def split: list.splits)

lemma requestE:
  obtains b t' where "request t = (b, t')" "tx_table t' = tx_table t"
  by (cases "request t") auto

lemma ReqGet_Some: "ReqGet k t = Some (v, t') \<Longrightarrow> tx_table t k = v \<and> tx_table t' = tx_table t"
  by (rule requestE [of t]) (auto simp: ReqGet_def split: if_splits)

lemma TryGet_Some: "TryGet k t = (v, t') \<Longrightarrow> (v = None \<or> tx_table t k = v) \<and> tx_table t' = tx_table t"
  by (rule requestE [of t]) (auto simp: TryGet_def split: if_splits)

lemma ReqSet_Some: "ReqSet k v t = Some t' \<Longrightarrow> tx_table t' = (tx_table t)(k \<mapsto> v)"
  by (rule requestE [of t]) (auto simp: ReqSet_def split: if_splits)

lemma ReqDel_Some: "ReqDel k t = Some t' \<Longrightarrow> tx_table t' = (tx_table t)(k := None)"
  by (rule requestE [of t]) (auto simp: ReqDel_def split: if_splits)

lemmas requests = ReqGet_Some TryGet_Some ReqSet_Some ReqDel_Some

lemma run_cases:
  assumes "run eng tbl body = (tbl', b)"
  obtains (same) "tbl' = tbl" "\<not> b"
  | (returned) t where "body \<lparr>tx_table = tbl, tx_outcomes = eng_outcomes eng\<rparr> = Some (CommitReturn b t)"
      "tbl' = tbl \<or> tbl' = tx_table t"
  | (committed) t where "body \<lparr>tx_table = tbl, tx_outcomes = eng_outcomes eng\<rparr> = Some (Commit t)" "tbl' = tx_table t" "b"
  using assms by (auto simp: run_def split: if_splits option.splits tx_end.splits)

definition next_number :: "table \<Rightarrow> nat" where
  "next_number tbl = stored_number (tbl kNextIdKey)"

definition count_up :: "table \<Rightarrow> table" where
  "count_up tbl = tbl(kNextIdKey \<mapsto> to_string (int ((next_number tbl + 1) mod 2 ^ 64)))"

lemma allocate_Some:
  "allocate_id t = Some (i, t') \<Longrightarrow> b255e (next_number (tx_table t)) = Some i \<and> tx_table t' = count_up (tx_table t)"
  by (auto simp: allocate_id_def next_number_def count_up_def bind_eq_Some_conv dest!: requests)

lemma add_commits:
  assumes "add_body ns raw t0 = Some (Commit t)"
  shows "tx_table t0 (n_key ns) = None \<and> tx_table t0 (t_key raw) = None \<and>
    (\<exists>i. b255e (next_number (tx_table t0)) = Some i \<and>
       tx_table t = (count_up (tx_table t0))(n_key ns \<mapsto> raw, t_key raw \<mapsto> i, i_key i \<mapsto> ns, e_key i \<mapsto> ''1''))"
  using assms unfolding add_body_def
  by (clarsimp simp: bind_eq_Some_conv split: option.splits if_splits dest!: requests allocate_Some)

lemma add_returns:
  "add_body ns raw t0 = Some (CommitReturn b t) \<Longrightarrow>
    tx_table t = tx_table t0 \<and> (\<exists>v. tx_table t0 (n_key ns) = Some v \<and> b = (v = raw))"
  unfolding add_body_def
  by (clarsimp simp: bind_eq_Some_conv split: option.splits if_splits dest!: requests)

lemma set_finish_Some:
  "set_finish ns raw i t = Some e \<Longrightarrow>
    \<exists>t'. e = Commit t' \<and> tx_table t' = (tx_table t)(n_key ns \<mapsto> raw, t_key raw \<mapsto> i, i_key i \<mapsto> ns)"
  unfolding set_finish_def by (clarsimp simp: bind_eq_Some_conv dest!: requests)

lemma set_check_owner_Some:
  "set_check_owner ns tk t = Some t' \<Longrightarrow>
    tx_table t' = tx_table t \<and> (\<forall>i. tk = Some i \<longrightarrow> tx_table t (i_key i) = Some ns)"
  unfolding set_check_owner_def by (clarsimp split: option.splits prod.splits if_splits dest!: requests)

lemma set_replace_Some:
  assumes "set_replace ns raw old t = Some e"
  shows "(old = raw \<and> e = CommitReturn True t) \<or>
    (\<exists>i t'. old \<noteq> raw \<and> tx_table t (t_key old) = Some i \<and> e = Commit t' \<and>
       tx_table t' = (tx_table t)(t_key old := None, n_key ns \<mapsto> raw, t_key raw \<mapsto> i, i_key i \<mapsto> ns))"
proof (cases "old = raw")
  case False
  obtain v t1 where "TryGet (t_key old) t = (v, t1)" by (cases "TryGet (t_key old) t")
  then show ?thesis
    using False assms unfolding set_replace_def
    by (cases v) (clarsimp simp: bind_eq_Some_conv split: if_splits dest!: requests set_finish_Some)+
qed (use assms in \<open>simp add: set_replace_def\<close>)

lemma set_Some:
  assumes "set_body ns raw t0 = Some e"
  shows "(\<forall>i. tx_table t0 (t_key raw) = Some i \<longrightarrow> tx_table t0 (i_key i) = Some ns) \<and>
    ((tx_table t0 (n_key ns) = None \<and>
      (\<exists>i t. b255e (next_number (tx_table t0)) = Some i \<and> e = Commit t \<and>
         tx_table t = (count_up (tx_table t0))(n_key ns \<mapsto> raw, t_key raw \<mapsto> i, i_key i \<mapsto> ns))) \<or>
     (\<exists>old t. tx_table t0 (n_key ns) = Some old \<and> tx_table t = tx_table t0 \<and> set_replace ns raw old t = Some e))"
proof -
  obtain tk t1 t2 cur t3 where r: "ReqGet (t_key raw) t0 = Some (tk, t1)" "set_check_owner ns tk t1 = Some t2"
      "ReqGet (n_key ns) t2 = Some (cur, t3)"
    and f: "(case cur of Some old_token \<Rightarrow> set_replace ns raw old_token t3
             | None \<Rightarrow> set_new ns raw t3) = Some e"
    using assms unfolding set_body_def by (auto simp: bind_eq_Some_conv)
  from r have "tx_table t3 = tx_table t0" "tx_table t0 (n_key ns) = cur"
    "\<forall>i. tx_table t0 (t_key raw) = Some i \<longrightarrow> tx_table t0 (i_key i) = Some ns"
    by (auto dest!: ReqGet_Some set_check_owner_Some)
  then show ?thesis
    using f by (cases cur) (auto simp: set_new_def bind_eq_Some_conv dest!: allocate_Some set_finish_Some)
qed

lemma set_returns:
  "set_body ns raw t0 = Some (CommitReturn b t) \<Longrightarrow> b \<and> tx_table t = tx_table t0 \<and> tx_table t0 (n_key ns) = Some raw"
  using set_Some [of ns raw t0 "CommitReturn b t"] by (auto dest!: set_replace_Some)

lemma del_mark_Some:
  assumes "del_mark i t = Some t'" "i \<noteq> []"
  shows "\<exists>ep. tx_table t' = (tx_table t)(g_key i ep \<mapsto> ''1'')"
  using assms unfolding del_mark_def by (cases "TryGet (e_key i) t") (auto dest!: requests)

lemma del_records_Some:
  assumes "del_records ns tok i t = Some e"
  shows "\<exists>t'. e = Commit t' \<and>
    (if i = [] then tx_table t' = (tx_table t)(n_key ns := None, t_key tok := None)
     else \<exists>ep. tx_table t' = (tx_table t)(g_key i ep \<mapsto> ''1'', n_key ns := None, t_key tok := None,
                                          i_key i := None, e_key i := None))"
proof (cases "i = []")
  case True
  then show ?thesis using assms unfolding del_records_def del_mark_def by (clarsimp simp: bind_eq_Some_conv dest!: requests)
next
  case False
  then show ?thesis
    using assms unfolding del_records_def by (auto simp: bind_eq_Some_conv dest!: requests del_mark_Some)
qed

lemma del_Some:
  assumes "del_body ns t0 = Some e"
  shows "\<exists>t tok. e = Commit t \<and> tx_table t0 (n_key ns) = Some tok \<and>
    (tx_table t = (tx_table t0)(n_key ns := None, t_key tok := None) \<or>
     (\<exists>i ep. tx_table t0 (t_key tok) = Some i \<and>
        tx_table t = (tx_table t0)(g_key i ep \<mapsto> ''1'', n_key ns := None, t_key tok := None, i_key i := None, e_key i := None)))"
  using assms unfolding del_body_def
  apply (clarsimp simp: bind_eq_Some_conv dest!: ReqGet_Some)
  subgoal for t1 tok
    apply (cases "TryGet (t_key tok) t1")
    subgoal for v t2
      by (cases v) (auto split: if_splits dest!: TryGet_Some del_records_Some)
    done
  done

section \<open>The maps in the table\<close>

lemma dec_digits_digit: "list_all is_digit (dec_digits n)"
proof (cases "n = 0")
  case False
  then obtain c cs where "dec_digits n = c # cs" "in_range (CHR ''1'') (CHR ''9'') c" "list_all is_digit cs"
    using dec_digits_shape [of n] by auto
  then show ?thesis by (simp add: is_digit_def in_range_def)
qed (simp add: dec_digits.simps is_digit_def in_range_def)

lemma to_string_digit: "list_all is_digit (to_string (int n))"
  by (simp add: to_string_def dec_digits_digit)

lemma num_of_to_string: "num_of 0 (to_string (int n)) = n" "to_string (int n) \<noteq> []"
proof -
  have "num_of 0 (dec_digits n) = n \<and> dec_digits n \<noteq> []"
  proof (cases "n = 0")
    case False
    then show ?thesis using dec_digits_shape [of n] by auto
  qed (simp add: dec_digits.simps digit_val_def)
  then show "num_of 0 (to_string (int n)) = n" "to_string (int n) \<noteq> []" by (simp_all add: to_string_def)
qed

lemma digit_plain: "is_digit c \<Longrightarrow> \<not> isspace c \<and> c \<noteq> CHR ''-'' \<and> c \<noteq> CHR ''+'' \<and> c \<noteq> CHR '':''"
  by (auto simp: is_digit_def in_range_def isspace_def)

text \<open>\<^verbatim>\<open>std::stoull\<close> reads what \<^verbatim>\<open>std::to_string\<close> prints.\<close>

lemma stoull_print: "stoull (to_string (int n)) = (if n < 2 ^ 64 then Some n else None)"
proof -
  obtain c cs where t: "to_string (int n) = c # cs" using num_of_to_string(2) [of n] by (cases "to_string (int n)") auto
  have c: "is_digit c" and cs: "takeWhile is_digit cs = cs"
    using to_string_digit [of n] by (auto simp: t list_all_iff takeWhile_eq_all_conv)
  then show ?thesis
    using num_of_to_string(1) [of n] digit_plain [OF c] by (simp add: stoull_def t c cs Let_def)
qed

lemma stoull_to_string: "n < 2 ^ 64 \<Longrightarrow> stoull (to_string (int n)) = Some n"
  by (simp only: stoull_print if_True)

lemma stored_number_to_string [simp]: "n < 2 ^ 64 \<Longrightarrow> stored_number (Some (to_string (int n))) = n"
  by (simp add: stored_number_def stoull_to_string)

lemma stored_number_1 [simp]: "stored_number None = 1" "stored_number (Some ''1'') = 1"
proof -
  have "to_string (int 1) = ''1''" by code_simp
  then show "stored_number (Some ''1'') = 1" using stored_number_to_string [of 1] by simp
qed (simp add: stored_number_def)

lemma stored_number_less: "stored_number v < 2 ^ 64"
  by (auto simp: stored_number_def stoull_def Let_def split: option.splits if_splits)

lemma split_last_colon:
  assumes "CHR '':'' \<notin> set d" "CHR '':'' \<notin> set d'"
  shows "a @ CHR '':'' # d = a' @ CHR '':'' # d' \<longleftrightarrow> a = a' \<and> d = d'"
  using assms by (auto simp: append_eq_append_conv2 Cons_eq_append_conv append_eq_Cons_conv)

lemma to_string_inj: "to_string (int m) = to_string (int n) \<longleftrightarrow> m = n"
  using num_of_to_string(1) by metis

lemma g_key_eq [simp]: "g_key i e = g_key i' e' \<longleftrightarrow> i = i' \<and> e = e'"
proof -
  have "CHR '':'' \<notin> set (to_string (int n))" for n
    using to_string_digit [of n] digit_plain by (auto simp: list_all_iff)
  then show ?thesis by (simp add: g_key_def split_last_colon to_string_inj)
qed

definition names :: "table \<Rightarrow> bytes \<rightharpoonup> bytes" where "names tbl ns = tbl (n_key ns)"
definition tokens :: "table \<Rightarrow> bytes \<rightharpoonup> bytes" where "tokens tbl tok = tbl (t_key tok)"
definition ids :: "table \<Rightarrow> bytes \<rightharpoonup> bytes" where "ids tbl i = tbl (i_key i)"
definition epochs :: "table \<Rightarrow> bytes \<rightharpoonup> bytes" where "epochs tbl i = tbl (e_key i)"
definition marked :: "table \<Rightarrow> (bytes \<times> nat) set" where "marked tbl = {(i, ep). tbl (g_key i ep) \<noteq> None}"

lemmas maps_def = names_def [abs_def] tokens_def [abs_def] ids_def [abs_def] epochs_def [abs_def] marked_def next_number_def

lemma names_upd [simp]:
  "names (tbl(n_key ns := v)) = (names tbl)(ns := v)" "names (tbl(t_key tok := v)) = names tbl"
  "names (tbl(i_key i := v)) = names tbl" "names (tbl(e_key i := v)) = names tbl"
  "names (tbl(g_key i ep := v)) = names tbl" "names (tbl(kNextIdKey := v)) = names tbl"
  by (auto simp: maps_def fun_eq_iff)

lemma tokens_upd [simp]:
  "tokens (tbl(n_key ns := v)) = tokens tbl" "tokens (tbl(t_key tok := v)) = (tokens tbl)(tok := v)"
  "tokens (tbl(i_key i := v)) = tokens tbl" "tokens (tbl(e_key i := v)) = tokens tbl"
  "tokens (tbl(g_key i ep := v)) = tokens tbl" "tokens (tbl(kNextIdKey := v)) = tokens tbl"
  by (auto simp: maps_def fun_eq_iff)

lemma ids_upd [simp]:
  "ids (tbl(n_key ns := v)) = ids tbl" "ids (tbl(t_key tok := v)) = ids tbl"
  "ids (tbl(i_key i := v)) = (ids tbl)(i := v)" "ids (tbl(e_key i := v)) = ids tbl"
  "ids (tbl(g_key i ep := v)) = ids tbl" "ids (tbl(kNextIdKey := v)) = ids tbl"
  by (auto simp: maps_def fun_eq_iff)

lemma epochs_upd [simp]:
  "epochs (tbl(n_key ns := v)) = epochs tbl" "epochs (tbl(t_key tok := v)) = epochs tbl"
  "epochs (tbl(i_key i := v)) = epochs tbl" "epochs (tbl(e_key i := v)) = (epochs tbl)(i := v)"
  "epochs (tbl(g_key i ep := v)) = epochs tbl" "epochs (tbl(kNextIdKey := v)) = epochs tbl"
  by (auto simp: maps_def fun_eq_iff)

lemma marked_upd [simp]:
  "marked (tbl(n_key ns := v)) = marked tbl" "marked (tbl(t_key tok := v)) = marked tbl"
  "marked (tbl(i_key i := v)) = marked tbl" "marked (tbl(e_key i := v)) = marked tbl"
  "marked (tbl(g_key i ep \<mapsto> w)) = insert (i, ep) (marked tbl)"
  "marked (tbl(g_key i ep := None)) = marked tbl - {(i, ep)}" "marked (tbl(kNextIdKey := v)) = marked tbl"
  by (auto simp: maps_def)

lemma next_upd [simp]:
  "next_number (tbl(n_key ns := v)) = next_number tbl" "next_number (tbl(t_key tok := v)) = next_number tbl"
  "next_number (tbl(i_key i := v)) = next_number tbl" "next_number (tbl(e_key i := v)) = next_number tbl"
  "next_number (tbl(g_key i ep := v)) = next_number tbl" "next_number (tbl(kNextIdKey := v)) = stored_number v"
  by (auto simp: maps_def)

lemma count_up_maps [simp]:
  "names (count_up tbl) = names tbl" "tokens (count_up tbl) = tokens tbl" "ids (count_up tbl) = ids tbl"
  "epochs (count_up tbl) = epochs tbl" "marked (count_up tbl) = marked tbl"
  by (simp_all add: count_up_def)

lemma next_count_up: "next_number tbl < 2 ^ 64 - 1 \<Longrightarrow> next_number (count_up tbl) = next_number tbl + 1"
  using stored_number_to_string [of "next_number tbl + 1"] unfolding count_up_def next_upd by (simp only: mod_less)

text \<open>The ids that were handed out so far, and a well-formed table of namespaces.\<close>

definition issued :: "table \<Rightarrow> bytes set" where
  "issued tbl = {i. \<exists>k. 1 \<le> k \<and> k < next_number tbl \<and> b255e k = Some i}"

definition ns_inv :: "table \<Rightarrow> bool" where
  "ns_inv tbl \<longleftrightarrow>
     (\<forall>ns tok. names tbl ns = Some tok \<longrightarrow> (\<exists>i. tokens tbl tok = Some i \<and> ids tbl i = Some ns)) \<and>
     (\<forall>tok i. tokens tbl tok = Some i \<longrightarrow> (\<exists>ns. ids tbl i = Some ns \<and> names tbl ns = Some tok)) \<and>
     dom (ids tbl) \<union> dom (epochs tbl) \<union> fst ` marked tbl \<subseteq> issued tbl \<and>
     (\<forall>i ep tok. (i, ep) \<in> marked tbl \<longrightarrow> tokens tbl tok = Some i \<longrightarrow> ep < stored_number (epochs tbl i)) \<and>
     1 \<le> next_number tbl \<and> next_number tbl < 2 ^ 64"

text \<open>What a namespace is to its users: its token, its id and its epoch.\<close>

definition ns_view :: "table \<Rightarrow> bytes \<rightharpoonup> bytes \<times> bytes \<times> nat" where
  "ns_view tbl ns =
     do { tok \<leftarrow> names tbl ns; i \<leftarrow> tokens tbl tok; Some (tok, i, stored_number (epochs tbl i)) }"

lemma b255e_inj: "b255e m = Some i \<Longrightarrow> b255e n = Some i \<Longrightarrow> m < 2 ^ 64 \<Longrightarrow> n < 2 ^ 64 \<Longrightarrow> m = n"
  using b255_roundtrip [of m] b255_roundtrip [of n] by simp

lemma fresh_not_issued:
  assumes "next_number tbl < 2 ^ 64" "b255e (next_number tbl) = Some i"
  shows "i \<notin> issued tbl"
proof
  assume "i \<in> issued tbl"
  then obtain k where k: "k < next_number tbl" "b255e k = Some i" by (auto simp: issued_def)
  from b255e_inj [OF k(2) assms(2) less_trans [OF k(1) assms(1)] assms(1)] k(1) show False by simp
qed

lemma issued_plain:
  assumes "i \<in> issued tbl" "next_number tbl < 2 ^ 64"
  shows "i \<noteq> [] \<and> B255_DELIMITER \<notin> set i"
proof -
  obtain k where k: "k < next_number tbl" "b255e k = Some i" using assms(1) by (auto simp: issued_def)
  show ?thesis using b255e_spec [OF less_trans [OF k(1) assms(2)]] k(2) by (metis option.inject)
qed

lemma ns_invD:
  assumes "ns_inv tbl"
  shows "names tbl ns = Some tok \<Longrightarrow> \<exists>i. tokens tbl tok = Some i \<and> ids tbl i = Some ns"
    and "tokens tbl tok = Some i \<Longrightarrow> \<exists>ns. ids tbl i = Some ns \<and> names tbl ns = Some tok"
    and "dom (ids tbl) \<subseteq> issued tbl" "dom (epochs tbl) \<subseteq> issued tbl" "(i, ep) \<in> marked tbl \<Longrightarrow> i \<in> issued tbl"
    and "(i, ep) \<in> marked tbl \<Longrightarrow> tokens tbl tok = Some i \<Longrightarrow> ep < stored_number (epochs tbl i)"
    and "1 \<le> next_number tbl" "next_number tbl < 2 ^ 64"
  using assms unfolding ns_inv_def Un_subset_iff image_subset_iff by (blast, blast, blast, blast, force, blast, blast, blast)

text \<open>The changes a transaction on the table makes.\<close>

inductive ns_change :: "table \<Rightarrow> table \<Rightarrow> bool" for tbl where
  added: "\<lbrakk>names tbl ns = None; tokens tbl raw = None; b255e (next_number tbl) = Some i\<rbrakk>
    \<Longrightarrow> ns_change tbl ((count_up tbl)(n_key ns \<mapsto> raw, t_key raw \<mapsto> i, i_key i \<mapsto> ns, e_key i \<mapsto> ''1''))"
| created: "\<lbrakk>names tbl ns = None; tokens tbl raw = None; b255e (next_number tbl) = Some i\<rbrakk>
    \<Longrightarrow> ns_change tbl ((count_up tbl)(n_key ns \<mapsto> raw, t_key raw \<mapsto> i, i_key i \<mapsto> ns))"
| replaced: "\<lbrakk>names tbl ns = Some old; tokens tbl raw = None; tokens tbl old = Some i\<rbrakk>
    \<Longrightarrow> ns_change tbl (tbl(t_key old := None, n_key ns \<mapsto> raw, t_key raw \<mapsto> i, i_key i \<mapsto> ns))"
| deleted: "\<lbrakk>names tbl ns = Some tok; tokens tbl tok = Some i\<rbrakk>
    \<Longrightarrow> ns_change tbl (tbl(g_key i ep \<mapsto> ''1'', n_key ns := None, t_key tok := None, i_key i := None, e_key i := None))"
| dropped: "names tbl ns = Some tok \<Longrightarrow> ns_change tbl (tbl(n_key ns := None, t_key tok := None))"
| flushed: "\<lbrakk>names tbl ns = Some tok; tokens tbl tok = Some i; ep = stored_number (epochs tbl i); ep + 1 < 2 ^ 64\<rbrakk>
    \<Longrightarrow> ns_change tbl (tbl(e_key i \<mapsto> to_string (int (ep + 1)), g_key i ep \<mapsto> ''1''))"
| collected: "ns_change tbl (tbl(g_key i ep := None))"

lemma issued_upd [simp]:
  "issued (tbl(n_key ns := v)) = issued tbl" "issued (tbl(t_key tok := v)) = issued tbl"
  "issued (tbl(i_key i := v)) = issued tbl" "issued (tbl(e_key i := v)) = issued tbl"
  "issued (tbl(g_key i ep := v)) = issued tbl"
  by (simp_all add: issued_def)

lemma issued_count_up:
  assumes "next_number tbl < 2 ^ 64 - 1" "1 \<le> next_number tbl" "b255e (next_number tbl) = Some i"
  shows "issued (count_up tbl) = insert i (issued tbl)"
  using assms unfolding issued_def next_count_up [OF assms(1)] by (auto simp: less_Suc_eq)

lemma inv_created:
  assumes inv: "ns_inv tbl" and room: "next_number tbl < 2 ^ 64 - 1"
    and new: "names tbl ns = None" "tokens tbl raw = None" "b255e (next_number tbl) = Some i"
  shows "ns_inv ((count_up tbl)(n_key ns \<mapsto> raw, t_key raw \<mapsto> i, i_key i \<mapsto> ns))" (is "ns_inv ?t")
proof -
  note i = fresh_not_issued [OF ns_invD(8) [OF inv] new(3)]
  have f: "ids tbl i = None" "epochs tbl i = None" "\<And>ep. (i, ep) \<notin> marked tbl" "\<And>tok. tokens tbl tok \<noteq> Some i"
    using i ns_invD(2-5) [OF inv] by (auto simp: domIff subset_iff)
  have n: "next_number ?t = next_number tbl + 1" "issued ?t = insert i (issued tbl)"
    using next_count_up [OF room] issued_count_up [OF room _ new(3)] ns_invD(7) [OF inv] by simp_all
  have m: "names ?t = (names tbl)(ns \<mapsto> raw)" "tokens ?t = (tokens tbl)(raw \<mapsto> i)" "ids ?t = (ids tbl)(i \<mapsto> ns)"
    "epochs ?t = epochs tbl" "marked ?t = marked tbl" by simp_all
  show ?thesis
    unfolding ns_inv_def n m
  proof (intro conjI allI impI)
    fix ns' tok assume n: "((names tbl)(ns \<mapsto> raw)) ns' = Some tok"
    show "\<exists>j. ((tokens tbl)(raw \<mapsto> i)) tok = Some j \<and> ((ids tbl)(i \<mapsto> ns)) j = Some ns'"
    proof (cases "ns' = ns")
      case False
      then obtain j where "tokens tbl tok = Some j" "ids tbl j = Some ns'" using ns_invD(1) [OF inv, of ns' tok] n by auto
      then show ?thesis using new f by (intro exI [of _ j]) auto
    qed (use n in simp)
  next
    fix tok j assume t: "((tokens tbl)(raw \<mapsto> i)) tok = Some j"
    show "\<exists>ns'. ((ids tbl)(i \<mapsto> ns)) j = Some ns' \<and> ((names tbl)(ns \<mapsto> raw)) ns' = Some tok"
    proof (cases "tok = raw")
      case False
      then obtain ns' where "ids tbl j = Some ns'" "names tbl ns' = Some tok" using ns_invD(2) [OF inv, of tok j] t by auto
      then show ?thesis using new f by (intro exI [of _ ns']) auto
    qed (use t in simp)
  next
    show "dom ((ids tbl)(i \<mapsto> ns)) \<union> dom (epochs tbl) \<union> fst ` marked tbl \<subseteq> insert i (issued tbl)"
      using ns_invD(3-5) [OF inv] by auto
  next
    fix j ep tok assume "(j, ep) \<in> marked tbl" "((tokens tbl)(raw \<mapsto> i)) tok = Some j"
    then show "ep < stored_number (epochs tbl j)" using ns_invD(6) [OF inv, of j ep tok] f by (auto split: if_splits)
  qed (use room in simp_all)
qed

text \<open>The maps decide the invariant, so the order of the writes does not matter.\<close>

lemma ns_inv_cong:
  assumes "names t = names t'" "tokens t = tokens t'" "ids t = ids t'" "epochs t = epochs t'" "marked t = marked t'"
    "next_number t = next_number t'"
  shows "ns_inv t \<longleftrightarrow> ns_inv t'"
proof -
  have "issued t = issued t'" by (simp add: issued_def assms(6))
  then show ?thesis unfolding ns_inv_def by (simp only: assms)
qed

lemma inv_epoch:
  assumes inv: "ns_inv t" and i: "i \<in> issued t"
    and m: "\<And>ep tok. (i, ep) \<in> marked t \<Longrightarrow> tokens t tok = Some i \<Longrightarrow> ep < stored_number (Some v)"
  shows "ns_inv (t(e_key i \<mapsto> v))"
  unfolding ns_inv_def names_upd tokens_upd ids_upd epochs_upd marked_upd next_upd issued_upd
proof (intro conjI allI impI)
  show "dom (ids t) \<union> dom ((epochs t)(i \<mapsto> v)) \<union> fst ` marked t \<subseteq> issued t" using ns_invD(3-5) [OF inv] i by auto
next
  fix j ep tok assume "(j, ep) \<in> marked t" "tokens t tok = Some j"
  then show "ep < stored_number (((epochs t)(i \<mapsto> v)) j)" using ns_invD(6) [OF inv, of j ep tok] m [of ep tok] by auto
qed (use inv in \<open>auto simp: ns_inv_def\<close>)

lemma inv_no_epoch:
  assumes inv: "ns_inv t" and i: "\<And>tok. tokens t tok \<noteq> Some i"
  shows "ns_inv (t(e_key i := None))"
  unfolding ns_inv_def names_upd tokens_upd ids_upd epochs_upd marked_upd next_upd issued_upd
proof (intro conjI allI impI)
  show "dom (ids t) \<union> dom ((epochs t)(i := None)) \<union> fst ` marked t \<subseteq> issued t" using ns_invD(3-5) [OF inv] by auto
next
  fix j ep tok assume "(j, ep) \<in> marked t" "tokens t tok = Some j"
  then show "ep < stored_number (((epochs t)(i := None)) j)" using ns_invD(6) [OF inv, of j ep tok] i by auto
qed (use inv in \<open>auto simp: ns_inv_def\<close>)

lemma inv_mark:
  assumes inv: "ns_inv t" and i: "i \<in> issued t"
    and m: "\<And>tok. tokens t tok = Some i \<Longrightarrow> ep < stored_number (epochs t i)"
  shows "ns_inv (t(g_key i ep \<mapsto> w))"
  unfolding ns_inv_def names_upd tokens_upd ids_upd epochs_upd marked_upd next_upd issued_upd
proof (intro conjI allI impI)
  show "dom (ids t) \<union> dom (epochs t) \<union> fst ` insert (i, ep) (marked t) \<subseteq> issued t" using ns_invD(3-5) [OF inv] i by auto
next
  fix j ep' tok assume "(j, ep') \<in> insert (i, ep) (marked t)" "tokens t tok = Some j"
  then show "ep' < stored_number (epochs t j)" using ns_invD(6) [OF inv, of j ep' tok] m [of tok] by auto
qed (use inv in \<open>auto simp: ns_inv_def\<close>)

lemma inv_unmark: "ns_inv t \<Longrightarrow> ns_inv (t(g_key i ep := None))"
  unfolding ns_inv_def names_upd tokens_upd ids_upd epochs_upd marked_upd next_upd issued_upd by blast

lemma inv_no_id:
  assumes inv: "ns_inv t" and i: "\<And>tok. tokens t tok \<noteq> Some i"
  shows "ns_inv (t(i_key i := None))"
  unfolding ns_inv_def names_upd tokens_upd ids_upd epochs_upd marked_upd next_upd issued_upd
proof (intro conjI allI impI)
  fix ns tok assume "names t ns = Some tok"
  then show "\<exists>j. tokens t tok = Some j \<and> ((ids t)(i := None)) j = Some ns"
    using ns_invD(1) [OF inv, of ns tok] i by fastforce
next
  fix tok j assume "tokens t tok = Some j"
  then show "\<exists>ns. ((ids t)(i := None)) j = Some ns \<and> names t ns = Some tok" using ns_invD(2) [OF inv, of tok j] i by auto
next
  show "dom ((ids t)(i := None)) \<union> dom (epochs t) \<union> fst ` marked t \<subseteq> issued t" using ns_invD(3-5) [OF inv] by auto
qed (use ns_invD(6-8) [OF inv] in \<open>auto intro: ns_invD(6) [OF inv]\<close>)

lemma token_issued: "ns_inv t \<Longrightarrow> tokens t tok = Some i \<Longrightarrow> i \<in> issued t"
  using ns_invD(2) [of t tok i] ns_invD(3) [of t] by auto

lemma names_inj: "ns_inv t \<Longrightarrow> names t ns = Some tok \<Longrightarrow> names t ns' = Some tok \<Longrightarrow> ns = ns'"
  using ns_invD(1) [of t ns tok] ns_invD(1) [of t ns' tok] by auto

lemma tokens_inj: "ns_inv t \<Longrightarrow> tokens t tok = Some i \<Longrightarrow> tokens t tok' = Some i \<Longrightarrow> tok = tok'"
  using ns_invD(2) [of t tok i] ns_invD(2) [of t tok' i] by auto

lemma inv_dropped:
  assumes inv: "ns_inv t" and n: "names t ns = Some tok"
  shows "ns_inv (t(n_key ns := None, t_key tok := None))"
  unfolding ns_inv_def names_upd tokens_upd ids_upd epochs_upd marked_upd next_upd issued_upd
proof (intro conjI allI impI)
  fix ns' tok' assume "((names t)(ns := None)) ns' = Some tok'"
  then show "\<exists>j. ((tokens t)(tok := None)) tok' = Some j \<and> ids t j = Some ns'"
    using ns_invD(1) [OF inv, of ns' tok'] names_inj [OF inv n, of ns'] by (auto split: if_splits)
next
  fix tok' j assume "((tokens t)(tok := None)) tok' = Some j"
  then show "\<exists>ns'. ids t j = Some ns' \<and> ((names t)(ns := None)) ns' = Some tok'"
    using ns_invD(2) [OF inv, of tok' j] n by (fastforce split: if_splits)
next
  show "dom (ids t) \<union> dom (epochs t) \<union> fst ` marked t \<subseteq> issued t" using ns_invD(3-5) [OF inv] by auto
qed (use ns_invD(7,8) [OF inv] in \<open>auto intro: ns_invD(6) [OF inv] split: if_splits\<close>)

lemma inv_deleted:
  assumes inv: "ns_inv t" and n: "names t ns = Some tok" "tokens t tok = Some i"
  shows "ns_inv (t(g_key i ep \<mapsto> w, n_key ns := None, t_key tok := None, i_key i := None, e_key i := None))"
proof -
  let ?d = "t(n_key ns := None, t_key tok := None)"
  have d: "tokens ?d tok' \<noteq> Some i" for tok' using tokens_inj [OF inv n(2)] by auto
  have "i \<in> issued t" by (rule token_issued [OF inv n(2)])
  then have "ns_inv (?d(i_key i := None, e_key i := None, g_key i ep \<mapsto> w))"
    using d inv_dropped [OF inv n(1)] by (intro inv_mark inv_no_epoch inv_no_id) auto
  then show ?thesis by (rule iffD1 [OF ns_inv_cong, rotated -1]) simp_all
qed

lemma inv_replaced:
  assumes inv: "ns_inv t" and n: "names t ns = Some old" "tokens t raw = None" "tokens t old = Some i"
  shows "ns_inv (t(t_key old := None, n_key ns \<mapsto> raw, t_key raw \<mapsto> i, i_key i \<mapsto> ns))"
proof -
  have i: "ids t i = Some ns" using ns_invD(1) [OF inv n(1)] n(3) by auto
  then have m: "(ids t)(i \<mapsto> ns) = ids t" by auto
  show ?thesis
    unfolding ns_inv_def names_upd tokens_upd ids_upd epochs_upd marked_upd next_upd issued_upd m
  proof (intro conjI allI impI)
    fix ns' tok assume a: "((names t)(ns \<mapsto> raw)) ns' = Some tok"
    show "\<exists>j. ((tokens t)(old := None, raw \<mapsto> i)) tok = Some j \<and> ids t j = Some ns'"
    proof (cases "ns' = ns")
      case False
      then have "names t ns' = Some tok" using a by simp
      moreover from this have "tok \<noteq> old" using names_inj [OF inv n(1), of ns'] False by auto
      moreover have "tok \<noteq> raw" using ns_invD(1) [OF inv calculation(1)] n(2) by auto
      ultimately show ?thesis using ns_invD(1) [OF inv, of ns' tok] by simp
    qed (use a i in simp)
  next
    fix tok j assume a: "((tokens t)(old := None, raw \<mapsto> i)) tok = Some j"
    show "\<exists>ns'. ids t j = Some ns' \<and> ((names t)(ns \<mapsto> raw)) ns' = Some tok"
    proof (cases "tok = raw")
      case False
      then have t: "tokens t tok = Some j" "tok \<noteq> old" using a by (auto split: if_splits)
      then obtain ns' where "ids t j = Some ns'" "names t ns' = Some tok" using ns_invD(2) [OF inv t(1)] by blast
      then show ?thesis using t(2) n(1) by (intro exI [of _ ns']) auto
    qed (use a i in simp)
  next
    show "dom (ids t) \<union> dom (epochs t) \<union> fst ` marked t \<subseteq> issued t" using ns_invD(3-5) [OF inv] by auto
  next
    fix j ep tok assume "(j, ep) \<in> marked t" "((tokens t)(old := None, raw \<mapsto> i)) tok = Some j"
    then show "ep < stored_number (epochs t j)"
      using ns_invD(6) [OF inv, of j ep tok] ns_invD(6) [OF inv, of j ep old] n(3) by (auto split: if_splits)
  qed (use ns_invD(7,8) [OF inv] in auto)
qed

lemma inv_flushed:
  assumes inv: "ns_inv t" and n: "tokens t tok = Some i" and ep: "ep = stored_number (epochs t i)" "ep + 1 < 2 ^ 64"
  shows "ns_inv (t(e_key i \<mapsto> to_string (int (ep + 1)), g_key i ep \<mapsto> w))"
proof -
  have i: "i \<in> issued t" by (rule token_issued [OF inv n])
  have s: "stored_number (Some (to_string (int (ep + 1)))) = ep + 1" by (rule stored_number_to_string) (rule ep(2))
  have "ep' < stored_number (Some (to_string (int (ep + 1))))" if "(i, ep') \<in> marked t" "tokens t tok' = Some i" for ep' tok'
    using ns_invD(6) [OF inv that] ep(1) unfolding s by linarith
  then have "ns_inv (t(e_key i \<mapsto> to_string (int (ep + 1))))" by (rule inv_epoch [OF inv i])
  then show ?thesis
  proof (rule inv_mark)
    show "i \<in> issued (t(e_key i \<mapsto> to_string (int (ep + 1))))" using i by simp
    show "ep < stored_number (epochs (t(e_key i \<mapsto> to_string (int (ep + 1)))) i)" unfolding epochs_upd fun_upd_same s by simp
  qed
qed

lemma ns_change_inv:
  assumes "ns_change t t'" "ns_inv t" "next_number t < 2 ^ 64 - 1"
  shows "ns_inv t'"
  using assms(1)
proof cases
  case (added ns raw i)
  let ?c = "(count_up t)(n_key ns \<mapsto> raw, t_key raw \<mapsto> i, i_key i \<mapsto> ns)"
  have "ns_inv ?c" by (rule inv_created [OF assms(2,3) added(2-4)])
  moreover have "i \<in> issued ?c" using issued_count_up [OF assms(3) ns_invD(7) [OF assms(2)] added(4)] by simp
  moreover have "(i, ep) \<notin> marked t" for ep
    using fresh_not_issued [OF ns_invD(8) [OF assms(2)] added(4)] ns_invD(5) [OF assms(2)] by auto
  ultimately show ?thesis unfolding added(1) by (intro inv_epoch) auto
next
  case (flushed ns tok i ep)
  show ?thesis unfolding flushed(1) by (rule inv_flushed [OF assms(2) flushed(3-5)])
next
  case (created ns raw i)
  show ?thesis unfolding created(1) by (rule inv_created [OF assms(2,3) created(2-4)])
next
  case (replaced ns old raw i)
  show ?thesis unfolding replaced(1) by (rule inv_replaced [OF assms(2) replaced(2-4)])
next
  case (deleted ns tok i ep)
  show ?thesis unfolding deleted(1) by (rule inv_deleted [OF assms(2) deleted(2,3)])
next
  case (dropped ns tok)
  show ?thesis unfolding dropped(1) by (rule inv_dropped [OF assms(2) dropped(2)])
next
  case (collected i ep)
  show ?thesis unfolding collected(1) by (rule inv_unmark [OF assms(2)])
qed

section \<open>The contract of a store\<close>

text \<open>
  The contract is on the view: a map from names to the token, the id and the epoch.  A call that returns false
  changes nothing; a token belongs to one namespace; a new namespace gets an id that no other has.
\<close>

type_synonym view = "bytes \<rightharpoonup> bytes \<times> bytes \<times> nat"

definition token_used :: "view \<Rightarrow> bytes \<Rightarrow> bool" where
  "token_used v tok \<longleftrightarrow> (\<exists>ns i ep. v ns = Some (tok, i, ep))"

definition id_used :: "view \<Rightarrow> bytes \<Rightarrow> bool" where
  "id_used v i \<longleftrightarrow> (\<exists>ns tok ep. v ns = Some (tok, i, ep))"

definition created_spec :: "view \<Rightarrow> bytes \<Rightarrow> bytes \<Rightarrow> view \<Rightarrow> bool" where
  "created_spec v ns tok v' \<longleftrightarrow>
     v ns = None \<and> \<not> token_used v tok \<and> (\<exists>i. \<not> id_used v i \<and> v' = v(ns \<mapsto> (tok, i, 1)))"

definition add_spec :: "view \<Rightarrow> bytes \<Rightarrow> bytes \<Rightarrow> bool \<Rightarrow> view \<Rightarrow> bool" where
  "add_spec v ns tok b v' \<longleftrightarrow>
     (if b then (\<exists>i ep. v ns = Some (tok, i, ep)) \<and> v' = v \<or> created_spec v ns tok v' else v' = v)"

definition set_spec :: "view \<Rightarrow> bytes \<Rightarrow> bytes \<Rightarrow> bool \<Rightarrow> view \<Rightarrow> bool" where
  "set_spec v ns tok b v' \<longleftrightarrow>
     (if b then (\<exists>i ep. v ns = Some (tok, i, ep)) \<and> v' = v \<or> created_spec v ns tok v' \<or>
        (\<exists>old i ep. v ns = Some (old, i, ep) \<and> \<not> token_used v tok \<and> v' = v(ns \<mapsto> (tok, i, ep)))
      else v' = v)"

definition del_spec :: "view \<Rightarrow> bytes \<Rightarrow> bool \<Rightarrow> view \<Rightarrow> bool" where
  "del_spec v ns b v' \<longleftrightarrow> (if b then v ns \<noteq> None \<and> v' = v(ns := None) else v' = v)"

lemma view_Some:
  "ns_inv t \<Longrightarrow> ns_view t ns = Some (tok, i, ep) \<longleftrightarrow>
     names t ns = Some tok \<and> tokens t tok = Some i \<and> ep = stored_number (epochs t i)"
  by (auto simp: ns_view_def bind_eq_Some_conv)

lemma view_None: "ns_inv t \<Longrightarrow> ns_view t ns = None \<longleftrightarrow> names t ns = None"
  by (cases "names t ns") (auto simp: ns_view_def dest: ns_invD(1))

lemma view_token: "ns_inv t \<Longrightarrow> token_used (ns_view t) tok \<longleftrightarrow> tokens t tok \<noteq> None"
  by (auto simp: token_used_def view_Some dest: ns_invD(2))

lemma view_id: "ns_inv t \<Longrightarrow> id_used (ns_view t) i \<Longrightarrow> i \<in> issued t"
  by (auto simp: id_used_def view_Some intro: token_issued)

lemma view_created:
  assumes inv: "ns_inv t" and new: "names t ns = None" "tokens t raw = None" "b255e (next_number t) = Some i"
    and m: "names t' = (names t)(ns \<mapsto> raw)" "tokens t' = (tokens t)(raw \<mapsto> i)"
    and e: "\<And>j. stored_number (epochs t' j) = (if j = i then 1 else stored_number (epochs t j))"
  shows "created_spec (ns_view t) ns raw (ns_view t')"
proof -
  have i: "i \<notin> issued t" by (rule fresh_not_issued [OF ns_invD(8) [OF inv] new(3)])
  have "ns_view t' ns' = ((ns_view t)(ns \<mapsto> (raw, i, 1))) ns'" for ns'
  proof (cases "ns' = ns")
    case False
    have "tok \<noteq> raw \<and> tokens t tok \<noteq> Some i" if "names t ns' = Some tok" for tok
      using ns_invD(1) [OF inv that] new(2) i token_issued [OF inv, of tok i] by auto
    then show ?thesis
      using False by (cases "names t ns'") (auto simp: ns_view_def m e split: Option.bind_splits)
  qed (simp add: ns_view_def m e)
  then show ?thesis
    using i view_id [OF inv, of i] new unfolding created_spec_def by (auto simp: view_None inv view_token intro!: exI [of _ i])
qed

lemma view_replaced:
  assumes inv: "ns_inv t" and n: "names t ns = Some old" "tokens t raw = None" "tokens t old = Some i"
    and m: "names t' = (names t)(ns \<mapsto> raw)" "tokens t' = (tokens t)(old := None, raw \<mapsto> i)" "epochs t' = epochs t"
  shows "ns_view t' = (ns_view t)(ns \<mapsto> (raw, i, stored_number (epochs t i)))"
proof
  fix ns'
  show "ns_view t' ns' = ((ns_view t)(ns \<mapsto> (raw, i, stored_number (epochs t i)))) ns'"
  proof (cases "ns' = ns")
    case False
    have "tok \<noteq> raw \<and> tok \<noteq> old" if "names t ns' = Some tok" for tok
      using ns_invD(1) [OF inv that] n(2) names_inj [OF inv n(1), of ns'] that False by auto
    then show ?thesis using False by (cases "names t ns'") (auto simp: ns_view_def m)
  qed (simp add: ns_view_def m)
qed

lemma view_deleted:
  assumes inv: "ns_inv t" and n: "names t ns = Some tok"
    and m: "names t' = (names t)(ns := None)" "tokens t' = (tokens t)(tok := None)"
    and e: "\<And>j. tokens t tok \<noteq> Some j \<Longrightarrow> epochs t' j = epochs t j"
  shows "ns_view t' = (ns_view t)(ns := None)"
proof
  fix ns'
  show "ns_view t' ns' = ((ns_view t)(ns := None)) ns'"
  proof (cases "ns' = ns \<or> names t ns' = None")
    case False
    then obtain tok' j where t: "names t ns' = Some tok'" "tokens t tok' = Some j" using ns_invD(1) [OF inv] by blast
    then have "tok' \<noteq> tok" using names_inj [OF inv n, of ns'] False by auto
    moreover from this have "tokens t tok \<noteq> Some j" using tokens_inj [OF inv t(2)] by auto
    ultimately show ?thesis using False t by (simp add: ns_view_def m e)
  qed (auto simp: ns_view_def m)
qed

section \<open>The stored table meets the contract\<close>

lemma storage_Add_spec:
  assumes inv: "ns_inv tbl" and op: "storage_Add requirepass eng tbl ns token = (tbl', b)"
  shows "(tbl' = tbl \<or> ns_change tbl tbl') \<and> (\<not> b \<longrightarrow> tbl' = tbl) \<and>
    add_spec (ns_view tbl) ns (token_bytes token) b (ns_view tbl')"
proof (cases "refused requirepass token")
  case True
  then show ?thesis using op by (simp add: storage_Add_def add_spec_def)
next
  case False
  let ?t0 = "\<lparr>tx_table = tbl, tx_outcomes = eng_outcomes eng\<rparr>" and ?raw = "token_bytes token"
  from False op have "run eng tbl (add_body ns ?raw) = (tbl', b)" by (simp add: storage_Add_def)
  then show ?thesis
  proof (cases rule: run_cases)
    case same
    then show ?thesis by (simp add: add_spec_def)
  next
    case (returned t)
    from add_returns [OF returned(1)] obtain v where v: "tx_table t = tbl" "tbl (n_key ns) = Some v" "b = (v = ?raw)" by auto
    moreover obtain i where "tokens tbl v = Some i" using ns_invD(1) [OF inv, of ns v] v(2) by (auto simp: names_def)
    ultimately show ?thesis
      using returned(2) by (auto simp: add_spec_def view_Some [OF inv] names_def)
  next
    case (committed t)
    from add_commits [OF committed(1)] committed(2) obtain i where
      n: "names tbl ns = None" "tokens tbl ?raw = None" "b255e (next_number tbl) = Some i"
      and t': "tbl' = (count_up tbl)(n_key ns \<mapsto> ?raw, t_key ?raw \<mapsto> i, i_key i \<mapsto> ns, e_key i \<mapsto> ''1'')"
      by (auto simp: names_def tokens_def)
    have "created_spec (ns_view tbl) ns ?raw (ns_view tbl')" by (rule view_created [OF inv n]) (simp_all add: t')
    moreover have "ns_change tbl tbl'" unfolding t' by (rule ns_change.added [OF n])
    ultimately show ?thesis using committed(3) by (simp add: add_spec_def)
  qed
qed

lemma set_known:
  assumes inv: "ns_inv (tx_table t0)" and e: "set_body ns raw t0 = Some e"
  shows "tokens (tx_table t0) raw = None \<or> names (tx_table t0) ns = Some raw"
  using set_Some [OF e] ns_invD(2) [OF inv, of raw]
  by (cases "tokens (tx_table t0) raw") (auto simp: tokens_def ids_def)

lemma set_commit_spec:
  assumes inv: "ns_inv tbl" and e: "set_body ns raw t0 = Some (Commit t)" and t: "tx_table t0 = tbl"
  shows "ns_change tbl (tx_table t) \<and> set_spec (ns_view tbl) ns raw True (ns_view (tx_table t))"
proof (cases "names tbl ns")
  case None
  with set_known [OF _ e] set_Some [OF e] inv t obtain i where
    n: "tokens tbl raw = None" "b255e (next_number tbl) = Some i"
    and t': "tx_table t = (count_up tbl)(n_key ns \<mapsto> raw, t_key raw \<mapsto> i, i_key i \<mapsto> ns)"
    by (auto simp: names_def)
  have "epochs tbl i = None" using fresh_not_issued [OF ns_invD(8) [OF inv] n(2)] ns_invD(4) [OF inv] by auto
  then have "created_spec (ns_view tbl) ns raw (ns_view (tx_table t))"
    by (intro view_created [OF inv None n]) (simp_all add: t')
  moreover have "ns_change tbl (tx_table t)" unfolding t' by (rule ns_change.created [OF None n])
  ultimately show ?thesis by (simp add: set_spec_def)
next
  case (Some old)
  with set_Some [OF e] t obtain t1 where t1: "tx_table t1 = tbl" "set_replace ns raw old t1 = Some (Commit t)"
    by (auto simp: names_def)
  from set_replace_Some [OF t1(2)] t1(1) obtain i where n: "old \<noteq> raw" "tokens tbl old = Some i"
    and t': "tx_table t = tbl(t_key old := None, n_key ns \<mapsto> raw, t_key raw \<mapsto> i, i_key i \<mapsto> ns)"
    by (auto simp: tokens_def)
  have f: "tokens tbl raw = None" using set_known [OF _ e] inv t Some n(1) by auto
  have "ns_view (tx_table t) = (ns_view tbl)(ns \<mapsto> (raw, i, stored_number (epochs tbl i)))"
    by (rule view_replaced [OF inv Some f n(2)]) (simp_all add: t')
  moreover have "ns_view tbl ns = Some (old, i, stored_number (epochs tbl i))" using Some n by (simp add: view_Some [OF inv])
  moreover have "ns_change tbl (tx_table t)" unfolding t' by (rule ns_change.replaced [OF Some f n(2)])
  ultimately show ?thesis using f by (auto simp: set_spec_def view_token [OF inv])
qed

lemma storage_Set_spec:
  assumes inv: "ns_inv tbl" and op: "storage_Set requirepass eng tbl ns token = (tbl', b)"
  shows "(tbl' = tbl \<or> ns_change tbl tbl') \<and> (\<not> b \<longrightarrow> tbl' = tbl) \<and>
    set_spec (ns_view tbl) ns (token_bytes token) b (ns_view tbl')"
proof (cases "refused requirepass token")
  case True
  then show ?thesis using op by (simp add: storage_Set_def set_spec_def)
next
  case False
  then have "run eng tbl (set_body ns (token_bytes token)) = (tbl', b)" using op by (simp add: storage_Set_def)
  then show ?thesis
  proof (cases rule: run_cases)
    case (returned t)
    have "b" "tx_table t = tbl" and n: "names tbl ns = Some (token_bytes token)"
      using set_returns [OF returned(1)] by (simp_all add: names_def)
    then show ?thesis using returned(2) ns_invD(1) [OF inv n] by (auto simp: set_spec_def view_Some [OF inv])
  next
    case (committed t)
    then show ?thesis using set_commit_spec [OF inv committed(1)] by simp
  qed (simp add: set_spec_def)
qed

lemma storage_Del_spec:
  assumes inv: "ns_inv tbl" and op: "storage_Del eng tbl ns = (tbl', b)"
  shows "(tbl' = tbl \<or> ns_change tbl tbl') \<and> (\<not> b \<longrightarrow> tbl' = tbl) \<and> del_spec (ns_view tbl) ns b (ns_view tbl')"
  using op [unfolded storage_Del_def]
proof (cases rule: run_cases)
  case (committed t)
  from del_Some [OF committed(1)] committed(2) obtain tok where n: "names tbl ns = Some tok" and
    c: "tbl' = tbl(n_key ns := None, t_key tok := None) \<or>
     (\<exists>i ep. tokens tbl tok = Some i \<and>
        tbl' = tbl(g_key i ep \<mapsto> ''1'', n_key ns := None, t_key tok := None, i_key i := None, e_key i := None))"
    by (auto simp: names_def tokens_def)
  have "ns_change tbl tbl'" using c ns_change.dropped [OF n] ns_change.deleted [OF n] by auto
  moreover have "ns_view tbl' = (ns_view tbl)(ns := None)" using c by (intro view_deleted [OF inv n]) auto
  ultimately show ?thesis using committed(3) n by (simp add: del_spec_def view_None [OF inv])
next
  case (returned t)
  then show ?thesis using del_Some [OF returned(1)] by simp
qed (simp add: del_spec_def)

section \<open>Calls that meet no failure\<close>

text \<open>An engine on which the transaction starts, every request succeeds and the commit succeeds.\<close>

definition healthy :: "engine \<Rightarrow> bool" where
  "healthy eng \<longleftrightarrow> eng_new eng \<and> eng_commit eng \<and> list_all (\<lambda>b. b) (eng_outcomes eng)"

definition adv :: "txn \<Rightarrow> txn" where
  "adv t = t\<lparr>tx_outcomes := tl (tx_outcomes t)\<rparr>"

definition txn_ok :: "txn \<Rightarrow> bool" where
  "txn_ok t \<longleftrightarrow> list_all (\<lambda>b. b) (tx_outcomes t)"

lemma adv_simps [simp]: "tx_table (adv t) = tx_table t" "txn_ok t \<Longrightarrow> txn_ok (adv t)"
  "txn_ok (t\<lparr>tx_table := x\<rparr>) \<longleftrightarrow> txn_ok t"
  by (simp_all add: adv_def txn_ok_def) (cases "tx_outcomes t"; simp)

lemma ok_request: "txn_ok t \<Longrightarrow> request t = (True, adv t)"
  by (cases "tx_outcomes t") (auto simp: request_def adv_def txn_ok_def)

lemma ok_requests [simp]:
  assumes "txn_ok t"
  shows "ReqGet k t = Some (tx_table t k, adv t)" "TryGet k t = (tx_table t k, adv t)"
    "ReqSet k v t = Some ((adv t)\<lparr>tx_table := (tx_table t)(k \<mapsto> v)\<rparr>)"
    "ReqDel k t = Some ((adv t)\<lparr>tx_table := (tx_table t)(k := None)\<rparr>)"
  using assms by (simp_all add: ReqGet_def TryGet_def ReqSet_def ReqDel_def ok_request)

lemma ok_start [simp]: "healthy eng \<Longrightarrow> txn_ok \<lparr>tx_table = tbl, tx_outcomes = eng_outcomes eng\<rparr>"
  by (simp add: healthy_def txn_ok_def)

lemma allocate_ok: "txn_ok t \<Longrightarrow> \<exists>i t'. allocate_id t = Some (i, t') \<and> txn_ok t'"
  by (rule b255e_spec [OF stored_number_less, of "tx_table t kNextIdKey"]) (simp add: allocate_id_def)

lemma healthy_run:
  assumes "healthy eng" "body \<lparr>tx_table = tbl, tx_outcomes = eng_outcomes eng\<rparr> = Some (Commit t)"
  shows "run eng tbl body = (tx_table t, True)"
  using assms by (simp add: run_def healthy_def)

lemma healthy_Add:
  assumes eng: "healthy eng" and inv: "ns_inv tbl"
    and n: "\<not> refused requirepass token" "ns_view tbl ns = None" "\<not> token_used (ns_view tbl) (token_bytes token)"
  shows "snd (storage_Add requirepass eng tbl ns token)"
proof -
  let ?t0 = "\<lparr>tx_table = tbl, tx_outcomes = eng_outcomes eng\<rparr>"
  have "tbl (n_key ns) = None" "tbl (t_key (token_bytes token)) = None"
    using n(2,3) by (simp_all add: view_None [OF inv] view_token [OF inv] names_def tokens_def)
  moreover obtain i t' where "allocate_id (adv (adv ?t0)) = Some (i, t')" "txn_ok t'"
    using allocate_ok [of "adv (adv ?t0)"] eng by auto
  ultimately obtain t where "add_body ns (token_bytes token) ?t0 = Some (Commit t)" using eng by (simp add: add_body_def)
  then show ?thesis using n(1) healthy_run [OF eng] by (simp add: storage_Add_def)
qed

lemma set_finish_ok: "txn_ok t \<Longrightarrow> \<exists>t'. set_finish ns raw i t = Some (Commit t')"
  by (simp add: set_finish_def)

lemma healthy_Set:
  assumes eng: "healthy eng" and inv: "ns_inv tbl"
    and n: "\<not> refused requirepass token" "\<not> token_used (ns_view tbl) (token_bytes token)"
  shows "snd (storage_Set requirepass eng tbl ns token)"
proof -
  let ?t0 = "\<lparr>tx_table = tbl, tx_outcomes = eng_outcomes eng\<rparr>" and ?raw = "token_bytes token"
  have f: "tbl (t_key ?raw) = None" using n(2) by (simp add: view_token [OF inv] tokens_def)
  have "\<exists>t. set_body ns ?raw ?t0 = Some (Commit t)"
  proof (cases "tbl (n_key ns)")
    case None
    obtain i t' where "allocate_id (adv (adv ?t0)) = Some (i, t')" "txn_ok t'" using allocate_ok [of "adv (adv ?t0)"] eng by auto
    then show ?thesis using eng f None set_finish_ok [of t'] by (simp add: set_body_def set_check_owner_def set_new_def)
  next
    case (Some old)
    then obtain i where i: "tbl (t_key old) = Some i" "i \<in> issued tbl"
      using ns_invD(1) [OF inv, of ns old] token_issued [OF inv] by (auto simp: names_def tokens_def)
    have "i \<noteq> []" using issued_plain [OF i(2)] ns_invD(8) [OF inv] by blast
    then show ?thesis
      using eng f Some i set_finish_ok by (auto simp: set_body_def set_check_owner_def set_replace_def)
  qed
  then show ?thesis using n(1) healthy_run [OF eng] by (auto simp: storage_Set_def)
qed

lemma healthy_Del:
  assumes eng: "healthy eng" and inv: "ns_inv tbl" and v: "ns_view tbl ns = Some (tok, i, ep)"
  shows "storage_Del eng tbl ns =
    (tbl(g_key i ep \<mapsto> ''1'', n_key ns := None, t_key tok := None, i_key i := None, e_key i := None), True)"
proof -
  let ?t0 = "\<lparr>tx_table = tbl, tx_outcomes = eng_outcomes eng\<rparr>"
  have n: "tbl (n_key ns) = Some tok" "tbl (t_key tok) = Some i" "ep = stored_number (tbl (e_key i))"
    using v by (simp_all add: view_Some [OF inv] names_def tokens_def epochs_def)
  have "i \<noteq> []"
    using issued_plain [OF token_issued [OF inv] ns_invD(8) [OF inv]] v by (auto simp: view_Some [OF inv])
  then obtain t where "del_body ns ?t0 = Some (Commit t)"
    "tx_table t = tbl(g_key i ep \<mapsto> ''1'', n_key ns := None, t_key tok := None, i_key i := None, e_key i := None)"
    using eng n by (simp add: del_body_def del_records_def del_mark_def)
  then show ?thesis using healthy_run [OF eng] by (simp add: storage_Del_def)
qed

lemma healthy_Del_absent: "ns_view tbl ns = None \<Longrightarrow> ns_inv tbl \<Longrightarrow> storage_Del eng tbl ns = (tbl, False)"
  by (auto simp: storage_Del_def run_def view_None names_def del_body_def bind_eq_Some_conv
      split: option.splits dest!: ReqGet_Some)

lemma healthy_ByToken:
  assumes eng: "healthy eng" and inv: "ns_inv tbl" and r: "\<not> refused requirepass token"
  shows "ns_view tbl ns = Some (token_bytes token, i, ep) \<Longrightarrow> storage_ByToken requirepass eng tbl token = (ns, i, ep)"
    and "\<not> token_used (ns_view tbl) (token_bytes token) \<Longrightarrow> storage_ByToken requirepass eng tbl token = ([], [], 1)"
proof -
  have e: "eng_new eng" using eng by (simp add: healthy_def)
  show "storage_ByToken requirepass eng tbl token = ([], [], 1)" if "\<not> token_used (ns_view tbl) (token_bytes token)"
    using that eng e r by (simp add: storage_ByToken_def view_token [OF inv] tokens_def)
  assume v: "ns_view tbl ns = Some (token_bytes token, i, ep)"
  then have "tbl (i_key i) = Some ns"
    using ns_invD(1) [OF inv, of ns "token_bytes token"] by (auto simp: view_Some [OF inv] ids_def)
  then show "storage_ByToken requirepass eng tbl token = (ns, i, ep)"
    using v eng e r by (simp add: storage_ByToken_def view_Some [OF inv] tokens_def epochs_def)
qed

end
