(* ===== verification/NamespaceGc.thy ===== *)
theory NamespaceGc
  imports NamespaceStorage
begin

text \<open>
  The garbage collector of dead namespaces (\<^verbatim>\<open>namespace/gc.cpp\<close>).  Deleting a namespace or flushing it leaves a
  record \<^verbatim>\<open>g:<id>:<epoch>\<close> in the table; the collector reads the prefix of the dead keys back from the record,
  deletes the keys of that prefix and then the record.  The engine's range scan is a parameter.
\<close>

section \<open>One prefix\<close>

text \<open>
  What happens in one turn of the loop of \<^verbatim>\<open>CleanPrefixKeys\<close>: the server stops; the transaction or the scan cannot
  be opened, so the loop turns again; a batch of the scan fails; or the scan runs and the deletion of what it
  returned commits or not.
\<close>

datatype clean_event = Stopping | Again | ScanFailed | Scanned bool

type_synonym scan = "bytes \<Rightarrow> bytes \<Rightarrow> bytes list \<Rightarrow> bytes list"

text \<open>\<open>None\<close>: the loop is still running after the given turns.\<close>

fun CleanPrefixKeys :: "scan \<Rightarrow> bytes \<Rightarrow> bytes list \<Rightarrow> clean_event list \<Rightarrow> (bool \<times> bytes list) option" where
  "CleanPrefixKeys scan old_prefix data [] = None"
| "CleanPrefixKeys scan old_prefix data (Stopping # evs) = Some (False, data)"
| "CleanPrefixKeys scan old_prefix data (Again # evs) = CleanPrefixKeys scan old_prefix data evs"
| "CleanPrefixKeys scan old_prefix data (ScanFailed # evs) = Some (False, data)"
| "CleanPrefixKeys scan old_prefix data (Scanned delete_success # evs) =
     (let keys_to_delete = scan old_prefix (MakePrefixNext old_prefix) data in
      if keys_to_delete = [] then Some (True, data)
      else CleanPrefixKeys scan old_prefix
             (if delete_success then filter (\<lambda>k. k \<notin> set keys_to_delete) data else data) evs)"

text \<open>What the collector relies on: the scan returns keys of the table in the range, and some of them if there are any.\<close>

definition in_range_keys :: "bytes \<Rightarrow> bytes \<Rightarrow> bytes list \<Rightarrow> bytes set" where
  "in_range_keys lo hi data = {k \<in> set data. \<not> bytes_less k lo \<and> bytes_less k hi}"

definition scan_sound :: "scan \<Rightarrow> bool" where
  "scan_sound scan \<longleftrightarrow> (\<forall>lo hi data. set (scan lo hi data) \<subseteq> in_range_keys lo hi data)"

definition scan_complete :: "scan \<Rightarrow> bool" where
  "scan_complete scan \<longleftrightarrow> (\<forall>lo hi data. scan lo hi data = [] \<longrightarrow> in_range_keys lo hi data = {})"

section \<open>One record\<close>

text \<open>The dead prefix of a record, \<open>None\<close> when the record cannot be read.\<close>

definition gc_prefix :: "bytes \<Rightarrow> bytes option" where
  "gc_prefix gc_key =
     do { (encoded_ns_id, epoch_str) \<leftarrow> split_delim (drop 2 gc_key);
          epoch \<leftarrow> stoull epoch_str;
          MakePrefix encoded_ns_id epoch }"

definition DeleteGCRecord :: "bool \<Rightarrow> bytes \<Rightarrow> table \<Rightarrow> table" where
  "DeleteGCRecord success gc_key tbl = (if success then tbl(gc_key := None) else tbl)"

text \<open>The body of the daemon's loop over the records; \<open>None\<close>: the cleaning is still running.\<close>

definition gc_record :: "scan \<Rightarrow> bytes \<Rightarrow> clean_event list \<Rightarrow> bool \<Rightarrow> table \<times> bytes list \<Rightarrow> (table \<times> bytes list) option" where
  "gc_record scan gc_key evs del_success st =
     (case gc_prefix gc_key of
        None \<Rightarrow> Some (DeleteGCRecord del_success gc_key (fst st), snd st)
      | Some old_prefix \<Rightarrow>
          (case CleanPrefixKeys scan old_prefix (snd st) evs of
             None \<Rightarrow> None
           | Some (cleanup_complete, data) \<Rightarrow>
               Some (if cleanup_complete then DeleteGCRecord del_success gc_key (fst st) else fst st, data)))"

text \<open>One round over the records that the scan found, each with what happens while it is cleaned.\<close>

fun gc_round :: "scan \<Rightarrow> (bytes \<times> clean_event list \<times> bool) list \<Rightarrow> table \<times> bytes list \<Rightarrow> (table \<times> bytes list) option" where
  "gc_round scan [] st = Some st"
| "gc_round scan ((gc_key, evs, del_success) # rs) st =
     do { st' \<leftarrow> gc_record scan gc_key evs del_success st; gc_round scan rs st' }"

section \<open>Cleaning\<close>

lemma in_range_prefix:
  assumes "MakePrefixNext p \<noteq> []"
  shows "in_range_keys p (MakePrefixNext p) data = {k \<in> set data. \<exists>u. k = p @ u}"
  unfolding in_range_keys_def prefix_range [OF assms] ..

lemma clean_keeps:
  assumes "CleanPrefixKeys scan p data evs = Some (c, data')" "scan_sound scan" "MakePrefixNext p \<noteq> []"
  shows "set data' \<subseteq> set data \<and> (\<forall>k \<in> set data. (\<nexists>u. k = p @ u) \<longrightarrow> k \<in> set data')"
  using assms(1)
proof (induction evs arbitrary: data)
  case (Cons e evs)
  show ?case
  proof (cases e)
    case (Scanned d)
    let ?ks = "scan p (MakePrefixNext p) data"
    have ks: "set ?ks \<subseteq> {k \<in> set data. \<exists>u. k = p @ u}"
      using assms(2) unfolding scan_sound_def in_range_prefix [OF assms(3), symmetric] by blast
    show ?thesis
    proof (cases "?ks = []")
      case False
      then have r: "CleanPrefixKeys scan p (if d then filter (\<lambda>k. k \<notin> set ?ks) data else data) evs = Some (c, data')"
        using Cons.prems Scanned by (simp add: Let_def)
      from Cons.IH [OF r] ks show ?thesis by (cases d) auto
    qed (use Cons.prems Scanned in \<open>simp add: Let_def\<close>)
  qed (use Cons in auto)
qed simp

lemma clean_complete:
  assumes "CleanPrefixKeys scan p data evs = Some (True, data')" "scan_complete scan" "MakePrefixNext p \<noteq> []"
  shows "p @ u \<notin> set data'"
  using assms(1)
proof (induction evs arbitrary: data)
  case (Cons e evs)
  show ?case
  proof (cases e)
    case (Scanned d)
    show ?thesis
    proof (cases "scan p (MakePrefixNext p) data = []")
      case True
      then have "{k \<in> set data. \<exists>u. k = p @ u} = {}"
        using assms(2) unfolding scan_complete_def in_range_prefix [OF assms(3), symmetric] by blast
      then show ?thesis using Cons.prems Scanned True by auto
    qed (use Cons Scanned in \<open>simp add: Let_def\<close>)
  qed (use Cons in auto)
qed simp

text \<open>
  Failed attempts only delay the loop: if it is not stopped and no scan fails, as many committed deletions as there
  are dead keys, and one more scan, end it.
\<close>

lemma clean_ends:
  assumes "scan_sound scan" "scan_complete scan" "MakePrefixNext p \<noteq> []"
    and "Stopping \<notin> set evs" "ScanFailed \<notin> set evs"
    and "card {k \<in> set data. \<exists>u. k = p @ u} < length (filter (\<lambda>e. e = Scanned True) evs)"
  shows "\<exists>data'. CleanPrefixKeys scan p data evs = Some (True, data')"
  using assms(4-6)
proof (induction evs arbitrary: data)
  case (Cons e evs)
  let ?D = "\<lambda>data. {k \<in> set data. \<exists>u. k = p @ u}"
  show ?case
  proof (cases e)
    case (Scanned d)
    let ?ks = "scan p (MakePrefixNext p) data" and ?data = "if d then filter (\<lambda>k. k \<notin> set (scan p (MakePrefixNext p) data)) data else data"
    show ?thesis
    proof (cases "?ks = []")
      case False
      have "set ?ks \<subseteq> ?D data"
        using assms(1) unfolding scan_sound_def in_range_prefix [OF assms(3), symmetric] by blast
      then have "?D (filter (\<lambda>k. k \<notin> set ?ks) data) \<subset> ?D data" using False by (cases ?ks) auto
      then have "d \<Longrightarrow> card (?D ?data) < card (?D data)" by (intro psubset_card_mono) auto
      then have "card (?D ?data) < length (filter (\<lambda>e. e = Scanned True) evs)"
        using Cons.prems(3) Scanned by (cases d) auto
      then show ?thesis using Cons.IH [of ?data] Cons.prems(1,2) Scanned False by (simp add: Let_def)
    qed (simp add: Scanned)
  qed (use Cons in auto)
qed simp

section \<open>Records\<close>

text \<open>A record that deletion or flushing wrote gives the prefix of the dead keys back.\<close>

lemma gc_prefix_g_key:
  assumes "B255_DELIMITER \<notin> set i"
  shows "gc_prefix (g_key i ep) = (if ep < 2 ^ 64 then MakePrefix i ep else None)"
proof -
  have "drop 2 (g_key i ep) = i @ B255_DELIMITER # to_string (int ep)" by (simp add: g_key_def B255_DELIMITER_def)
  then show ?thesis
    using split_delim_append [OF assms(1)] stoull_print [of ep] by (simp add: gc_prefix_def)
qed

definition dead_key :: "table \<Rightarrow> bytes \<Rightarrow> bool" where
  "dead_key tbl gc_key \<longleftrightarrow>
     (\<exists>i ep. gc_key = g_key i ep \<and> i \<noteq> [] \<and> B255_DELIMITER \<notin> set i \<and> (\<forall>ns tok. ns_view tbl ns \<noteq> Some (tok, i, ep)))"

lemma marked_dead:
  assumes inv: "ns_inv tbl" and m: "(i, ep) \<in> marked tbl"
  shows "dead_key tbl (g_key i ep)"
  using issued_plain [OF ns_invD(5) [OF inv m] ns_invD(8) [OF inv]] ns_invD(6) [OF inv m]
  unfolding dead_key_def by (auto simp: view_Some [OF inv])

lemma view_unmark: "ns_view (tbl(g_key i ep := v)) = ns_view tbl"
  by (simp add: ns_view_def fun_eq_iff)

lemma view_plain:
  assumes inv: "ns_inv tbl" and v: "ns_view tbl ns = Some (tok, i, ep)"
  shows "i \<noteq> []" "B255_DELIMITER \<notin> set i" "ep < 2 ^ 64"
  using issued_plain [OF token_issued [OF inv] ns_invD(8) [OF inv], of tok i] v stored_number_less
  by (auto simp: view_Some [OF inv])

text \<open>What collecting a dead record may change: the record, and keys that belong to no namespace.\<close>

definition spares_live :: "table \<times> bytes list \<Rightarrow> table \<times> bytes list \<Rightarrow> bool" where
  "spares_live st st' \<longleftrightarrow>
     ns_view (fst st') = ns_view (fst st) \<and> set (snd st') \<subseteq> set (snd st) \<and>
     (\<forall>ns tok i ep p u. ns_view (fst st) ns = Some (tok, i, ep) \<longrightarrow> MakePrefix i ep = Some p \<longrightarrow>
        p @ u \<in> set (snd st) \<longrightarrow> p @ u \<in> set (snd st'))"

lemma spares_live_trans: "spares_live a b \<Longrightarrow> spares_live b c \<Longrightarrow> spares_live a c"
  unfolding spares_live_def by (metis (no_types, lifting) subset_trans)

lemma record_spares_live:
  assumes inv: "ns_inv tbl" and s: "scan_sound scan" and k: "dead_key tbl gc_key"
    and r: "gc_record scan gc_key evs d (tbl, data) = Some (tbl', data')"
  shows "ns_inv tbl' \<and> spares_live (tbl, data) (tbl', data')"
proof -
  obtain i ep where g: "gc_key = g_key i ep" "i \<noteq> []" "B255_DELIMITER \<notin> set i"
    and dead: "\<And>ns tok. ns_view tbl ns \<noteq> Some (tok, i, ep)"
    using k unfolding dead_key_def by blast
  have t: "tbl' = tbl \<or> tbl' = tbl(g_key i ep := None)"
    using r by (auto simp: gc_record_def DeleteGCRecord_def g(1) split: option.splits if_splits prod.splits)
  have d: "data' = data \<or> (\<exists>q c. gc_prefix gc_key = Some q \<and> CleanPrefixKeys scan q data evs = Some (c, data'))"
    using r by (auto simp: gc_record_def split: option.splits prod.splits)
  have keep: "p @ u \<in> set data'" if v: "ns_view tbl ns = Some (tok, j, e)" "MakePrefix j e = Some p" "p @ u \<in> set data"
    for ns tok j e p u
  proof (cases "data' = data")
    case False
    then obtain q c where q: "gc_prefix gc_key = Some q" "CleanPrefixKeys scan q data evs = Some (c, data')" using d by blast
    have e: "ep < 2 ^ 64" "MakePrefix i ep = Some q"
      using q(1) gc_prefix_g_key [OF g(3), of ep] unfolding g(1) by (auto split: if_splits)
    have "p @ u \<noteq> q @ w" for w
      using MakePrefix_disjoint [OF g(3) _ g(2) _ e(1) _ e(2) v(2), of w u] view_plain [OF inv v(1)] dead v(1) by metis
    then show ?thesis using clean_keeps [OF q(2) s MakePrefix_next [OF e(2)]] v(3) by blast
  qed (use v in simp)
  have "set data' \<subseteq> set data"
    using d clean_keeps [OF _ s] gc_prefix_g_key [OF g(3), of ep] MakePrefix_next g(1) by (metis option.distinct(1) order_refl)
  then show ?thesis using t inv inv_unmark [OF inv, of i ep] keep unfolding spares_live_def by (auto simp: view_unmark)
qed

lemma round_spares_live:
  assumes s: "scan_sound scan" and inv: "ns_inv tbl" and k: "\<forall>r \<in> set rs. dead_key tbl (fst r)"
    and r: "gc_round scan rs (tbl, data) = Some (tbl', data')"
  shows "ns_inv tbl' \<and> spares_live (tbl, data) (tbl', data')"
  using inv k r
proof (induction rs arbitrary: tbl data)
  case Nil
  then show ?case by (simp add: spares_live_def)
next
  case (Cons a rs)
  obtain key evs d where a: "a = (key, evs, d)" by (cases a)
  obtain t1 d1 where r: "gc_record scan key evs d (tbl, data) = Some (t1, d1)" "gc_round scan rs (t1, d1) = Some (tbl', data')"
    using Cons.prems(3) by (auto simp: a bind_eq_Some_conv)
  have l: "ns_inv t1" "spares_live (tbl, data) (t1, d1)"
    using record_spares_live [OF Cons.prems(1) s _ r(1)] Cons.prems(2) by (auto simp: a)
  then have "\<forall>r \<in> set rs. dead_key t1 (fst r)" using Cons.prems(2) by (auto simp: dead_key_def spares_live_def)
  from Cons.IH [OF l(1) this r(2)] l(2) show ?case using spares_live_trans by blast
qed

end
