(* ===== verification/NamespaceManager.thy ===== *)
theory NamespaceManager
  imports NamespaceGc
begin

text \<open>
  The store of namespaces in memory and the manager (\<^verbatim>\<open>namespace/manager.cpp\<close>).  The interface
  \<^verbatim>\<open>INamespaceStorage\<close> is a record of functions, as the virtual table is; what the manager relies on is the locale
  \<open>namespace_store\<close>, which both stores satisfy.
\<close>

section \<open>The interface\<close>

text \<open>Each call gets the outcomes of the engine during it.\<close>

record ('e, 's) INamespaceStorage =
  op_GetToken :: "'e \<Rightarrow> 's \<Rightarrow> bytes \<Rightarrow> namespace_token"
  op_ByToken :: "'e \<Rightarrow> 's \<Rightarrow> namespace_token \<Rightarrow> bytes \<times> bytes \<times> nat"
  op_Add :: "'e \<Rightarrow> 's \<Rightarrow> bytes \<Rightarrow> namespace_token \<Rightarrow> 's \<times> bool"
  op_Set :: "'e \<Rightarrow> 's \<Rightarrow> bytes \<Rightarrow> namespace_token \<Rightarrow> 's \<times> bool"
  op_Del :: "'e \<Rightarrow> 's \<Rightarrow> bytes \<Rightarrow> 's \<times> bool"

definition NamespaceStorage_ops :: "bytes \<Rightarrow> (engine, table) INamespaceStorage" where
  "NamespaceStorage_ops requirepass =
     \<lparr>op_GetToken = storage_GetToken, op_ByToken = storage_ByToken requirepass, op_Add = storage_Add requirepass,
      op_Set = storage_Set requirepass, op_Del = storage_Del\<rparr>"

section \<open>The store in memory\<close>

record StorageState =
  token_to_ns :: "bytes \<rightharpoonup> bytes"
  ns_to_token :: "bytes \<rightharpoonup> namespace_token"
  ns_to_id :: "bytes \<rightharpoonup> bytes"
  next_id :: nat

definition StorageState_init :: StorageState where
  "StorageState_init = \<lparr>token_to_ns = Map.empty, ns_to_token = Map.empty, ns_to_id = Map.empty, next_id = 2\<rparr>"

text \<open>\<^verbatim>\<open>std::map::emplace\<close> keeps an existing entry.\<close>

definition emplace :: "('k \<rightharpoonup> 'v) \<Rightarrow> 'k \<Rightarrow> 'v \<Rightarrow> 'k \<rightharpoonup> 'v" where
  "emplace m k v = (if m k = None then m(k \<mapsto> v) else m)"

text \<open>The end of \<^verbatim>\<open>Add\<close> and \<^verbatim>\<open>Set\<close>; the encoder never fails on 64 bits.\<close>

definition mem_create :: "StorageState \<Rightarrow> bytes \<Rightarrow> namespace_token \<Rightarrow> StorageState \<times> bool" where
  "mem_create st ns token =
     (let number = (next_id st + 1) mod 2 ^ 64 in
      case b255prefix number of
        None \<Rightarrow> (st, False)
      | Some prefix \<Rightarrow>
          (st\<lparr>token_to_ns := emplace (token_to_ns st) (token_bytes token) ns,
              ns_to_token := emplace (ns_to_token st) ns token,
              ns_to_id := emplace (ns_to_id st) ns prefix, next_id := number\<rparr>, True))"

definition mem_Add :: "StorageState \<Rightarrow> bytes \<Rightarrow> namespace_token \<Rightarrow> StorageState \<times> bool" where
  "mem_Add st ns token =
     (case ns_to_token st ns of
        Some t \<Rightarrow> (st, token_bytes t = token_bytes token)
      | None \<Rightarrow> if token_to_ns st (token_bytes token) \<noteq> None then (st, False) else mem_create st ns token)"

definition mem_Set :: "StorageState \<Rightarrow> bytes \<Rightarrow> namespace_token \<Rightarrow> StorageState \<times> bool" where
  "mem_Set st ns token =
     (if token_to_ns st (token_bytes token) \<noteq> None \<and> token_to_ns st (token_bytes token) \<noteq> Some ns then (st, False)
      else case ns_to_token st ns of
             Some old \<Rightarrow>
               if token_bytes old = token_bytes token then (st, True)
               else (st\<lparr>token_to_ns := emplace ((token_to_ns st)(token_bytes old := None)) (token_bytes token) ns,
                        ns_to_token := (ns_to_token st)(ns \<mapsto> token)\<rparr>, True)
           | None \<Rightarrow> mem_create st ns token)"

definition mem_Del :: "StorageState \<Rightarrow> bytes \<Rightarrow> StorageState \<times> bool" where
  "mem_Del st ns =
     (case ns_to_token st ns of
        Some t \<Rightarrow> (st\<lparr>token_to_ns := (token_to_ns st)(token_bytes t := None), ns_to_id := (ns_to_id st)(ns := None),
                       ns_to_token := (ns_to_token st)(ns := None)\<rparr>, True)
      | None \<Rightarrow> (st, False))"

definition mem_GetToken :: "StorageState \<Rightarrow> bytes \<Rightarrow> namespace_token" where
  "mem_GetToken st ns = (case ns_to_token st ns of Some t \<Rightarrow> t | None \<Rightarrow> NamespaceToken)"

definition mem_ByToken :: "StorageState \<Rightarrow> namespace_token \<Rightarrow> bytes \<times> bytes \<times> nat" where
  "mem_ByToken st token =
     (case token_to_ns st (token_bytes token) of
        Some ns \<Rightarrow> (ns, case ns_to_id st ns of Some i \<Rightarrow> i | None \<Rightarrow> [], 1)
      | None \<Rightarrow> ([], [], 1))"

definition MemoryNamespaceStorage_ops :: "(unit, StorageState) INamespaceStorage" where
  "MemoryNamespaceStorage_ops =
     \<lparr>op_GetToken = (\<lambda>_. mem_GetToken), op_ByToken = (\<lambda>_. mem_ByToken), op_Add = (\<lambda>_. mem_Add),
      op_Set = (\<lambda>_. mem_Set), op_Del = (\<lambda>_. mem_Del)\<rparr>"

section \<open>The manager\<close>

record NamespaceMetadata =
  meta_ns_name :: bytes
  meta_encoded_id :: bytes
  meta_token :: namespace_token
  meta_epoch :: nat

text \<open>
  The metadata are shared: a pointer is the index in \<open>metas\<close>, and the two maps of the cache and the connections hold
  pointers.
\<close>

record 's namespace_manager =
  mgr_storage :: "'s option"
  ns_metadata :: "bytes \<rightharpoonup> nat"
  token_metadata :: "bytes \<rightharpoonup> nat"
  metas :: "NamespaceMetadata list"

definition RemoveMetadata :: "bytes \<Rightarrow> 's namespace_manager \<Rightarrow> 's namespace_manager" where
  "RemoveMetadata ns_name m =
     (case ns_metadata m ns_name of
        None \<Rightarrow> m
      | Some p \<Rightarrow> m\<lparr>token_metadata := (token_metadata m)(token_bytes (meta_token (metas m ! p)) := None),
                    ns_metadata := (ns_metadata m)(ns_name := None)\<rparr>)"

definition mgr_Add :: "('e, 's) INamespaceStorage \<Rightarrow> 'e \<Rightarrow> 's namespace_manager \<Rightarrow> bytes \<Rightarrow> namespace_token \<Rightarrow> 's namespace_manager \<times> bool" where
  "mgr_Add I e m ns token =
     (case mgr_storage m of
        None \<Rightarrow> (m, False)
      | Some s \<Rightarrow> let (s', success) = op_Add I e s ns token in (m\<lparr>mgr_storage := Some s'\<rparr>, success))"

definition mgr_Set :: "('e, 's) INamespaceStorage \<Rightarrow> 'e \<Rightarrow> 's namespace_manager \<Rightarrow> bytes \<Rightarrow> namespace_token \<Rightarrow> 's namespace_manager \<times> bool" where
  "mgr_Set I e m ns token =
     (case mgr_storage m of
        None \<Rightarrow> (m, False)
      | Some s \<Rightarrow> let (s', success) = op_Set I e s ns token; m' = m\<lparr>mgr_storage := Some s'\<rparr>
                  in (if success then RemoveMetadata ns m' else m', success))"

definition mgr_Del :: "('e, 's) INamespaceStorage \<Rightarrow> 'e \<Rightarrow> 's namespace_manager \<Rightarrow> bytes \<Rightarrow> 's namespace_manager \<times> bool" where
  "mgr_Del I e m ns =
     (case mgr_storage m of
        None \<Rightarrow> (m, False)
      | Some s \<Rightarrow> let (s', success) = op_Del I e s ns; m' = m\<lparr>mgr_storage := Some s'\<rparr>
                  in (if success then RemoveMetadata ns m' else m', success))"

definition mgr_Get :: "('e, 's) INamespaceStorage \<Rightarrow> 'e \<Rightarrow> 's namespace_manager \<Rightarrow> bytes \<Rightarrow> bytes" where
  "mgr_Get I e m ns =
     (case mgr_storage m of None \<Rightarrow> [] | Some s \<Rightarrow> token_ToString (op_GetToken I e s ns))"

definition mgr_GetByToken :: "('e, 's) INamespaceStorage \<Rightarrow> 'e \<Rightarrow> 's namespace_manager \<Rightarrow> namespace_token \<Rightarrow> bytes \<times> bytes" where
  "mgr_GetByToken I e m token =
     (case mgr_storage m of
        None \<Rightarrow> ([], [])
      | Some s \<Rightarrow> let (ns, ns_id, _) = op_ByToken I e s token in (ns, ns_id))"

text \<open>
  \<^verbatim>\<open>GetMetadataByToken\<close> reads the cache and then the store without the lock, and publishes the result in a second
  step, in which it looks into the cache again.
\<close>

definition publish :: "namespace_token \<Rightarrow> bytes \<times> bytes \<times> nat \<Rightarrow> 's namespace_manager \<Rightarrow> 's namespace_manager \<times> nat option" where
  "publish token found m =
     (case token_metadata m (token_bytes token) of
        Some p \<Rightarrow> (m, Some p)
      | None \<Rightarrow>
          let (ns_name, ns_id, epoch) = found; p = length (metas m);
              new = \<lparr>meta_ns_name = ns_name, meta_encoded_id = ns_id, meta_token = token, meta_epoch = epoch\<rparr>
          in (m\<lparr>metas := metas m @ [new], token_metadata := (token_metadata m)(token_bytes token \<mapsto> p),
                ns_metadata := (ns_metadata m)(ns_name \<mapsto> p)\<rparr>, Some p))"

definition GetMetadataByToken :: "('e, 's) INamespaceStorage \<Rightarrow> 'e \<Rightarrow> 's namespace_manager \<Rightarrow> namespace_token \<Rightarrow> 's namespace_manager \<times> nat option" where
  "GetMetadataByToken I e m token =
     (case token_metadata m (token_bytes token) of
        Some p \<Rightarrow> (m, Some p)
      | None \<Rightarrow>
          (case mgr_storage m of
             None \<Rightarrow> (m, None)
           | Some s \<Rightarrow> let found = op_ByToken I e s token in
               if fst found = [] then (m, None) else publish token found m))"

section \<open>The contract\<close>

text \<open>
  \<open>s_count\<close> is the counter of ids, which must not be at its end, \<open>s_ok\<close> that the engine reports no failure during the call,
  \<open>usable\<close> that the store does not refuse the token.
\<close>

locale namespace_store =
  fixes I :: "('e, 's) INamespaceStorage"
    and s_inv :: "'s \<Rightarrow> bool" and s_count :: "'s \<Rightarrow> nat" and s_view :: "'s \<Rightarrow> view"
    and s_ok :: "'e \<Rightarrow> bool" and usable :: "namespace_token \<Rightarrow> bool"
  assumes one_owner: "s_inv s \<Longrightarrow> s_view s ns = Some (tok, i, ep) \<Longrightarrow> s_view s ns' = Some (tok', i', ep') \<Longrightarrow>
      tok = tok' \<or> i = i' \<Longrightarrow> ns = ns'"
    and Add_law: "s_inv s \<Longrightarrow> s_count s < 2 ^ 64 - 1 \<Longrightarrow> op_Add I e s ns t = (s', b) \<Longrightarrow>
      s_inv s' \<and> s_count s' \<le> s_count s + 1 \<and> add_spec (s_view s) ns (token_bytes t) b (s_view s')"
    and Set_law: "s_inv s \<Longrightarrow> s_count s < 2 ^ 64 - 1 \<Longrightarrow> op_Set I e s ns t = (s', b) \<Longrightarrow>
      s_inv s' \<and> s_count s' \<le> s_count s + 1 \<and> set_spec (s_view s) ns (token_bytes t) b (s_view s')"
    and Del_law: "s_inv s \<Longrightarrow> s_count s < 2 ^ 64 - 1 \<Longrightarrow> op_Del I e s ns = (s', b) \<Longrightarrow>
      s_inv s' \<and> s_count s' \<le> s_count s + 1 \<and> del_spec (s_view s) ns b (s_view s')"
    and ByToken_sound: "s_inv s \<Longrightarrow> s_ok e \<Longrightarrow> op_ByToken I e s t = (ns, i, ep) \<Longrightarrow> ns \<noteq> [] \<Longrightarrow>
      s_view s ns = Some (token_bytes t, i, ep)"
    and ByToken_finds: "s_inv s \<Longrightarrow> s_ok e \<Longrightarrow> usable t \<Longrightarrow> s_view s ns = Some (token_bytes t, i, ep) \<Longrightarrow>
      op_ByToken I e s t = (ns, i, ep)"

subsection \<open>The stored table\<close>

lemma table_one_owner:
  assumes "ns_inv s" "ns_view s ns = Some (tok, i, ep)" "ns_view s ns' = Some (tok', i', ep')" "tok = tok' \<or> i = i'"
  shows "ns = ns'"
  using assms tokens_inj [OF assms(1), of tok i tok'] names_inj [OF assms(1), of ns tok ns'] by (auto simp: view_Some)

lemma ns_change_count:
  assumes "ns_change t t'" "next_number t < 2 ^ 64 - 1"
  shows "next_number t' \<le> next_number t + 1"
  using assms(1) by cases (use next_count_up [OF assms(2)] in auto)

lemma changed:
  assumes "t' = t \<or> ns_change t t'" "ns_inv t" "next_number t < 2 ^ 64 - 1"
  shows "ns_inv t' \<and> next_number t' \<le> next_number t + 1"
  using assms ns_change_inv ns_change_count by auto

lemma table_ByToken_sound:
  assumes inv: "ns_inv s" and e: "healthy e" and b: "storage_ByToken requirepass e s t = (ns, i, ep)" "ns \<noteq> []"
  shows "ns_view s ns = Some (token_bytes t, i, ep)"
proof -
  have r: "\<not> refused requirepass t" using b by (auto simp: storage_ByToken_def)
  show ?thesis
  proof (cases "token_used (ns_view s) (token_bytes t)")
    case True
    then obtain ns' i' ep' where "ns_view s ns' = Some (token_bytes t, i', ep')" by (auto simp: token_used_def)
    then show ?thesis using healthy_ByToken(1) [OF e inv r] b(1) by auto
  qed (use healthy_ByToken(2) [OF e inv r] b in auto)
qed

interpretation persistent: namespace_store "NamespaceStorage_ops requirepass" ns_inv next_number ns_view healthy "\<lambda>t. \<not> refused requirepass t"
proof unfold_locales
  show "ns = ns'" if "ns_inv s" "ns_view s ns = Some (tok, i, ep)" "ns_view s ns' = Some (tok', i', ep')" "tok = tok' \<or> i = i'"
    for s ns tok i ep ns' tok' i' ep'
    using that by (rule table_one_owner)
next
  show "ns_inv s' \<and> next_number s' \<le> next_number s + 1 \<and> add_spec (ns_view s) ns (token_bytes t) b (ns_view s')"
    if "ns_inv s" "next_number s < 2 ^ 64 - 1" "op_Add (NamespaceStorage_ops requirepass) e s ns t = (s', b)" for s e ns t s' b
    using that storage_Add_spec [OF that(1), of requirepass e ns t s' b] changed [OF _ that(1,2), of s'] by (simp add: NamespaceStorage_ops_def)
next
  show "ns_inv s' \<and> next_number s' \<le> next_number s + 1 \<and> set_spec (ns_view s) ns (token_bytes t) b (ns_view s')"
    if "ns_inv s" "next_number s < 2 ^ 64 - 1" "op_Set (NamespaceStorage_ops requirepass) e s ns t = (s', b)" for s e ns t s' b
    using that storage_Set_spec [OF that(1), of requirepass e ns t s' b] changed [OF _ that(1,2), of s'] by (simp add: NamespaceStorage_ops_def)
next
  show "ns_inv s' \<and> next_number s' \<le> next_number s + 1 \<and> del_spec (ns_view s) ns b (ns_view s')"
    if "ns_inv s" "next_number s < 2 ^ 64 - 1" "op_Del (NamespaceStorage_ops requirepass) e s ns = (s', b)" for s e ns s' b
    using that storage_Del_spec [OF that(1), of e ns s' b] changed [OF _ that(1,2), of s'] by (simp add: NamespaceStorage_ops_def)
next
  show "ns_view s ns = Some (token_bytes t, i, ep)"
    if "ns_inv s" "healthy e" "op_ByToken (NamespaceStorage_ops requirepass) e s t = (ns, i, ep)" "ns \<noteq> []" for s e t ns i ep
    using that table_ByToken_sound [of s e requirepass t] by (simp add: NamespaceStorage_ops_def)
next
  show "op_ByToken (NamespaceStorage_ops requirepass) e s t = (ns, i, ep)"
    if "ns_inv s" "healthy e" "\<not> refused requirepass t" "ns_view s ns = Some (token_bytes t, i, ep)" for s e t ns i ep
    using healthy_ByToken(1) [OF that(2,1,3,4)] by (simp add: NamespaceStorage_ops_def)
qed

subsection \<open>The store in memory\<close>

definition mem_view :: "StorageState \<Rightarrow> view" where
  "mem_view st ns = do { t \<leftarrow> ns_to_token st ns; i \<leftarrow> ns_to_id st ns; Some (token_bytes t, i, 1) }"

definition mem_inv :: "StorageState \<Rightarrow> bool" where
  "mem_inv st \<longleftrightarrow>
     (\<forall>ns t. ns_to_token st ns = Some t \<longrightarrow> token_to_ns st (token_bytes t) = Some ns \<and> ns_to_id st ns \<noteq> None) \<and>
     (\<forall>tok ns. token_to_ns st tok = Some ns \<longrightarrow> (\<exists>t. ns_to_token st ns = Some t \<and> token_bytes t = tok)) \<and>
     (\<forall>ns i. ns_to_id st ns = Some i \<longrightarrow> ns_to_token st ns \<noteq> None \<and> (\<exists>k. k \<le> next_id st \<and> b255prefix k = Some i)) \<and>
     (\<forall>ns ns' i. ns_to_id st ns = Some i \<longrightarrow> ns_to_id st ns' = Some i \<longrightarrow> ns = ns') \<and> next_id st < 2 ^ 64"

lemma mem_invD:
  assumes "mem_inv st"
  shows "ns_to_token st ns = Some t \<Longrightarrow> token_to_ns st (token_bytes t) = Some ns"
    and "ns_to_token st ns = Some t \<Longrightarrow> \<exists>i. ns_to_id st ns = Some i"
    and "token_to_ns st tok = Some ns \<Longrightarrow> \<exists>t. ns_to_token st ns = Some t \<and> token_bytes t = tok"
    and "ns_to_id st ns = Some i \<Longrightarrow> \<exists>t. ns_to_token st ns = Some t"
    and "ns_to_id st ns = Some i \<Longrightarrow> \<exists>k. k \<le> next_id st \<and> b255prefix k = Some i"
    and "ns_to_id st ns = Some i \<Longrightarrow> ns_to_id st ns' = Some i \<Longrightarrow> ns = ns'"
    and "next_id st < 2 ^ 64"
  using assms unfolding mem_inv_def by (blast, blast, blast, blast, blast, blast, blast)

lemma mem_view_Some:
  "mem_inv st \<Longrightarrow> mem_view st ns = Some (tok, i, ep) \<longleftrightarrow>
     (\<exists>t. ns_to_token st ns = Some t \<and> tok = token_bytes t) \<and> ns_to_id st ns = Some i \<and> ep = 1"
  by (auto simp: mem_view_def bind_eq_Some_conv)

lemma mem_view_None: "mem_inv st \<Longrightarrow> mem_view st ns = None \<longleftrightarrow> ns_to_token st ns = None"
  by (cases "ns_to_token st ns") (auto simp: mem_view_def dest: mem_invD(2))

lemma mem_token_used: "mem_inv st \<Longrightarrow> token_used (mem_view st) tok \<longleftrightarrow> token_to_ns st tok \<noteq> None"
  unfolding token_used_def
proof
  assume inv: "mem_inv st" and "token_to_ns st tok \<noteq> None"
  then obtain ns t where t: "ns_to_token st ns = Some t" "token_bytes t = tok" using mem_invD(3) [OF inv] by blast
  moreover obtain i where "ns_to_id st ns = Some i" using mem_invD(2) [OF inv t(1)] by blast
  ultimately show "\<exists>ns i ep. mem_view st ns = Some (tok, i, ep)" by (auto simp: mem_view_Some [OF inv])
qed (auto simp: mem_view_Some dest: mem_invD(1))

lemma mem_one_owner:
  assumes "mem_inv s" "mem_view s ns = Some (tok, i, ep)" "mem_view s ns' = Some (tok', i', ep')" "tok = tok' \<or> i = i'"
  shows "ns = ns'"
  using assms mem_invD(1) [OF assms(1), of ns] mem_invD(1) [OF assms(1), of ns'] mem_invD(6) [OF assms(1), of ns i ns']
  by (auto simp: mem_view_Some)

lemma b255prefix_inj:
  assumes "b255prefix m = Some i" "b255prefix n = Some i" "m < 2 ^ 64" "n < 2 ^ 64"
  shows "m = n"
proof -
  obtain a b where "b255e m = Some a" "b255e n = Some b" "a @ [B255_DELIMITER] = b @ [B255_DELIMITER]"
    using assms(1,2) by (auto simp: b255prefix_def)
  then show ?thesis using b255e_inj [OF _ _ assms(3,4), of a] by simp
qed

lemma mem_created:
  assumes inv: "mem_inv st" and new: "ns_to_token st ns = None" "token_to_ns st (token_bytes t) = None"
    and k: "next_id st + 1 < 2 ^ 64" and p: "b255prefix (next_id st + 1) = Some p"
    and m: "token_to_ns st' = (token_to_ns st)(token_bytes t \<mapsto> ns)" "ns_to_token st' = (ns_to_token st)(ns \<mapsto> t)"
      "ns_to_id st' = (ns_to_id st)(ns \<mapsto> p)" "next_id st' = next_id st + 1"
  shows "mem_inv st' \<and> created_spec (mem_view st) ns (token_bytes t) (mem_view st')"
proof -
  have fresh: "ns_to_id st ns' \<noteq> Some p" for ns'
  proof
    assume "ns_to_id st ns' = Some p"
    then obtain j where j: "j \<le> next_id st" "b255prefix j = Some p" using mem_invD(5) [OF inv] by blast
    then have "j < 2 ^ 64" using mem_invD(7) [OF inv] by linarith
    from b255prefix_inj [OF j(2) p this k] j(1) show False by simp
  qed
  have "mem_inv st'"
    unfolding mem_inv_def m
  proof (intro conjI allI impI)
    fix ns' t' assume a: "((ns_to_token st)(ns \<mapsto> t)) ns' = Some t'"
    show "((token_to_ns st)(token_bytes t \<mapsto> ns)) (token_bytes t') = Some ns'" "((ns_to_id st)(ns \<mapsto> p)) ns' \<noteq> None"
      using a mem_invD(1,2) [OF inv, of ns' t'] new(2) by (auto split: if_splits)
  next
    fix tok ns' assume a: "((token_to_ns st)(token_bytes t \<mapsto> ns)) tok = Some ns'"
    show "\<exists>t'. ((ns_to_token st)(ns \<mapsto> t)) ns' = Some t' \<and> token_bytes t' = tok"
      using a mem_invD(3) [OF inv, of tok ns'] new(1) by (fastforce split: if_splits)
  next
    fix ns' j assume a: "((ns_to_id st)(ns \<mapsto> p)) ns' = Some j"
    show "((ns_to_token st)(ns \<mapsto> t)) ns' \<noteq> None" using a mem_invD(4) [OF inv, of ns' j] by (auto split: if_splits)
    show "\<exists>k \<le> next_id st + 1. b255prefix k = Some j"
      using a p mem_invD(5) [OF inv, of ns' j] by (auto split: if_splits intro: le_SucI)
  next
    fix ns1 ns2 j assume "((ns_to_id st)(ns \<mapsto> p)) ns1 = Some j" "((ns_to_id st)(ns \<mapsto> p)) ns2 = Some j"
    then show "ns1 = ns2" using fresh mem_invD(6) [OF inv, of ns1 j ns2] by (auto split: if_splits)
  qed (use k in simp)
  moreover have "created_spec (mem_view st) ns (token_bytes t) (mem_view st')"
    unfolding created_spec_def id_used_def using new fresh
    by (auto simp: mem_view_None [OF inv] mem_token_used [OF inv] mem_view_Some [OF inv] mem_view_def m fun_eq_iff
        bind_eq_Some_conv intro!: exI [of _ p])
  ultimately show ?thesis by blast
qed

lemma mem_create:
  assumes inv: "mem_inv st" and room: "next_id st < 2 ^ 64 - 1"
    and new: "ns_to_token st ns = None" "token_to_ns st (token_bytes t) = None"
  obtains st' where "mem_create st ns t = (st', True)" "mem_inv st'" "next_id st' = next_id st + 1" "created_spec (mem_view st) ns (token_bytes t) (mem_view st')"
proof -
  have k: "next_id st + 1 < 2 ^ 64" using room by simp
  have "\<exists>p. b255prefix (next_id st + 1) = Some p" by (rule b255e_spec [OF k]) (simp add: b255prefix_def)
  then obtain p where p: "b255prefix (next_id st + 1) = Some p" by blast
  have "ns_to_id st ns = None" using mem_invD(4) [OF inv, of ns] new(1) by (cases "ns_to_id st ns") auto
  then have "mem_create st ns t = (st\<lparr>token_to_ns := (token_to_ns st)(token_bytes t \<mapsto> ns),
      ns_to_token := (ns_to_token st)(ns \<mapsto> t), ns_to_id := (ns_to_id st)(ns \<mapsto> p), next_id := next_id st + 1\<rparr>, True)"
    using k p new by (simp only: mem_create_def Let_def mod_less option.case emplace_def if_True simp_thms)
  then show thesis by (rule that) (use mem_created [OF inv new k p] in simp_all)
qed

lemma mem_deleted:
  assumes inv: "mem_inv st" and t: "ns_to_token st ns = Some t"
    and m: "token_to_ns st' = (token_to_ns st)(token_bytes t := None)" "ns_to_token st' = (ns_to_token st)(ns := None)"
      "ns_to_id st' = (ns_to_id st)(ns := None)" "next_id st' = next_id st"
  shows "mem_inv st'"
  unfolding mem_inv_def m
proof (intro conjI allI impI)
  fix ns' t' assume a: "((ns_to_token st)(ns := None)) ns' = Some t'"
  then show "((token_to_ns st)(token_bytes t := None)) (token_bytes t') = Some ns'" "((ns_to_id st)(ns := None)) ns' \<noteq> None"
    using mem_invD(1,2) [OF inv, of ns' t'] mem_invD(1) [OF inv t] by (auto split: if_splits)
next
  fix tok ns' assume a: "((token_to_ns st)(token_bytes t := None)) tok = Some ns'"
  then show "\<exists>t'. ((ns_to_token st)(ns := None)) ns' = Some t' \<and> token_bytes t' = tok"
    using mem_invD(3) [OF inv, of tok ns'] t by (auto split: if_splits)
qed (use inv in \<open>auto simp: mem_inv_def split: if_splits\<close>)

lemma mem_replaced:
  assumes inv: "mem_inv st" and t: "ns_to_token st ns = Some old" "token_to_ns st (token_bytes t) = None"
    and m: "token_to_ns st' = (token_to_ns st)(token_bytes old := None, token_bytes t \<mapsto> ns)"
      "ns_to_token st' = (ns_to_token st)(ns \<mapsto> t)" "ns_to_id st' = ns_to_id st" "next_id st' = next_id st"
  shows "mem_inv st'"
  unfolding mem_inv_def m
proof (intro conjI allI impI)
  fix ns' t' assume a: "((ns_to_token st)(ns \<mapsto> t)) ns' = Some t'"
  then show "((token_to_ns st)(token_bytes old := None, token_bytes t \<mapsto> ns)) (token_bytes t') = Some ns'"
    "ns_to_id st ns' \<noteq> None"
    using mem_invD(1,2) [OF inv, of ns' t'] mem_invD(1,2) [OF inv t(1)] t(2) by (auto split: if_splits)
next
  fix tok ns' assume a: "((token_to_ns st)(token_bytes old := None, token_bytes t \<mapsto> ns)) tok = Some ns'"
  then show "\<exists>t'. ((ns_to_token st)(ns \<mapsto> t)) ns' = Some t' \<and> token_bytes t' = tok"
    using mem_invD(3) [OF inv, of tok ns'] t by (auto split: if_splits)
qed (use inv in \<open>auto simp: mem_inv_def split: if_splits\<close>)

lemma mem_Add_spec:
  assumes inv: "mem_inv s" and room: "next_id s < 2 ^ 64 - 1" and op: "mem_Add s ns t = (s', b)"
  shows "mem_inv s' \<and> next_id s' \<le> next_id s + 1 \<and> add_spec (mem_view s) ns (token_bytes t) b (mem_view s')"
proof (cases "ns_to_token s ns")
  case None
  show ?thesis
  proof (cases "token_to_ns s (token_bytes t)")
    case free: None
    obtain st' where "mem_create s ns t = (st', True)" "mem_inv st'" "next_id st' = next_id s + 1"
      "created_spec (mem_view s) ns (token_bytes t) (mem_view st')" by (rule mem_create [OF inv room None free])
    then show ?thesis using op None free by (simp add: mem_Add_def add_spec_def)
  qed (use inv op None in \<open>auto simp: mem_Add_def add_spec_def\<close>)
next
  case (Some old)
  then show ?thesis using inv op mem_invD(2) [OF inv Some] by (auto simp: mem_Add_def add_spec_def mem_view_Some)
qed

lemma mem_Set_spec:
  assumes inv: "mem_inv s" and room: "next_id s < 2 ^ 64 - 1" and op: "mem_Set s ns t = (s', b)"
  shows "mem_inv s' \<and> next_id s' \<le> next_id s + 1 \<and> set_spec (mem_view s) ns (token_bytes t) b (mem_view s')"
proof (cases "token_to_ns s (token_bytes t) \<noteq> None \<and> token_to_ns s (token_bytes t) \<noteq> Some ns")
  case True
  then show ?thesis using op inv by (simp add: mem_Set_def set_spec_def)
next
  case known: False
  show ?thesis
  proof (cases "ns_to_token s ns")
    case None
    then have free: "token_to_ns s (token_bytes t) = None" using known mem_invD(3) [OF inv, of "token_bytes t" ns] by auto
    obtain st' where "mem_create s ns t = (st', True)" "mem_inv st'" "next_id st' = next_id s + 1"
      "created_spec (mem_view s) ns (token_bytes t) (mem_view st')" by (rule mem_create [OF inv room None free])
    then show ?thesis using op None free by (simp add: mem_Set_def set_spec_def)
  next
    case (Some old)
    obtain i where i: "ns_to_id s ns = Some i" using mem_invD(2) [OF inv Some] by blast
    show ?thesis
    proof (cases "token_bytes old = token_bytes t")
      case True
      then show ?thesis using op inv known Some i by (auto simp: mem_Set_def set_spec_def mem_view_Some)
    next
      case False
      then have free: "token_to_ns s (token_bytes t) = None" using known mem_invD(3) [OF inv, of "token_bytes t" ns] Some by auto
      let ?s = "s\<lparr>token_to_ns := (token_to_ns s)(token_bytes old := None, token_bytes t \<mapsto> ns), ns_to_token := (ns_to_token s)(ns \<mapsto> t)\<rparr>"
      have s': "s' = ?s" "b" using op known Some False free by (auto simp: mem_Set_def emplace_def)
      have "mem_inv ?s" by (rule mem_replaced [OF inv Some free]) simp_all
      moreover have "mem_view ?s = (mem_view s)(ns \<mapsto> (token_bytes t, i, 1))" using i by (auto simp: mem_view_def fun_eq_iff)
      moreover have "mem_view s ns = Some (token_bytes old, i, 1)" using i Some by (simp add: mem_view_def)
      ultimately show ?thesis using free s' by (auto simp: set_spec_def mem_token_used [OF inv])
    qed
  qed
qed

lemma mem_Del_spec:
  assumes inv: "mem_inv s" and op: "mem_Del s ns = (s', b)"
  shows "mem_inv s' \<and> next_id s' \<le> next_id s + 1 \<and> del_spec (mem_view s) ns b (mem_view s')"
proof (cases "ns_to_token s ns")
  case (Some t)
  let ?s = "s\<lparr>token_to_ns := (token_to_ns s)(token_bytes t := None), ns_to_id := (ns_to_id s)(ns := None),
      ns_to_token := (ns_to_token s)(ns := None)\<rparr>"
  have "mem_inv ?s" by (rule mem_deleted [OF inv Some]) simp_all
  moreover have "mem_view ?s = (mem_view s)(ns := None)" by (auto simp: mem_view_def fun_eq_iff)
  moreover have "s' = ?s" "b" using op Some by (auto simp: mem_Del_def)
  ultimately show ?thesis using Some by (simp add: del_spec_def mem_view_None [OF inv])
qed (use inv op in \<open>auto simp: mem_Del_def del_spec_def\<close>)

lemma mem_ByToken_iff:
  assumes inv: "mem_inv s"
  shows "mem_view s ns = Some (token_bytes t, i, ep) \<Longrightarrow> mem_ByToken s t = (ns, i, ep)"
    and "mem_ByToken s t = (ns, i, ep) \<Longrightarrow> ns \<noteq> [] \<Longrightarrow> mem_view s ns = Some (token_bytes t, i, ep)"
proof -
  show "mem_ByToken s t = (ns, i, ep)" if "mem_view s ns = Some (token_bytes t, i, ep)"
    using that mem_invD(1) [OF inv, of ns] by (fastforce simp: mem_view_Some [OF inv] mem_ByToken_def)
  assume b: "mem_ByToken s t = (ns, i, ep)" "ns \<noteq> []"
  then have n: "token_to_ns s (token_bytes t) = Some ns" by (auto simp: mem_ByToken_def split: option.splits)
  then show "mem_view s ns = Some (token_bytes t, i, ep)"
    using b mem_invD(3) [OF inv n] mem_invD(2) [OF inv, of ns] by (auto simp: mem_view_Some [OF inv] mem_ByToken_def)
qed

lemmas memory_ops = MemoryNamespaceStorage_ops_def INamespaceStorage.select_convs

interpretation memory: namespace_store MemoryNamespaceStorage_ops mem_inv next_id mem_view "\<lambda>_. True" "\<lambda>_. True"
proof (unfold_locales, goal_cases)
  case 1
  then show ?case by (rule mem_one_owner)
next
  case 2
  then show ?case unfolding memory_ops by (rule mem_Add_spec)
next
  case 3
  then show ?case unfolding memory_ops by (rule mem_Set_spec)
next
  case 4
  then show ?case unfolding memory_ops using mem_Del_spec by simp
next
  case 5
  then show ?case unfolding memory_ops using mem_ByToken_iff(2) by simp
next
  case 6
  then show ?case unfolding memory_ops using mem_ByToken_iff(1) by simp
qed

section \<open>The cache agrees with the store\<close>

text \<open>A pointer that both maps of the cache hold and whose metadata are what the store says.\<close>

definition cached :: "view \<Rightarrow> 's namespace_manager \<Rightarrow> nat \<Rightarrow> bool" where
  "cached v m p \<longleftrightarrow> p < length (metas m) \<and>
     token_metadata m (token_bytes (meta_token (metas m ! p))) = Some p \<and> ns_metadata m (meta_ns_name (metas m ! p)) = Some p \<and>
     v (meta_ns_name (metas m ! p)) =
       Some (token_bytes (meta_token (metas m ! p)), meta_encoded_id (metas m ! p), meta_epoch (metas m ! p))"

definition mgr_inv :: "view \<Rightarrow> 's namespace_manager \<Rightarrow> bool" where
  "mgr_inv v m \<longleftrightarrow>
     (\<forall>tok p. token_metadata m tok = Some p \<longrightarrow> cached v m p \<and> token_bytes (meta_token (metas m ! p)) = tok) \<and>
     (\<forall>ns p. ns_metadata m ns = Some p \<longrightarrow> cached v m p \<and> meta_ns_name (metas m ! p) = ns)"

lemma mgr_invD:
  assumes "mgr_inv v m"
  shows "token_metadata m tok = Some p \<Longrightarrow> cached v m p" "token_metadata m tok = Some p \<Longrightarrow> token_bytes (meta_token (metas m ! p)) = tok"
    "ns_metadata m ns = Some p \<Longrightarrow> cached v m p" "ns_metadata m ns = Some p \<Longrightarrow> meta_ns_name (metas m ! p) = ns"
  using assms unfolding mgr_inv_def by blast+

lemma mgr_invI:
  assumes "\<And>tok p. token_metadata m tok = Some p \<Longrightarrow> cached v m p \<and> token_bytes (meta_token (metas m ! p)) = tok"
    and "\<And>ns p. ns_metadata m ns = Some p \<Longrightarrow> cached v m p \<and> meta_ns_name (metas m ! p) = ns"
  shows "mgr_inv v m"
  using assms unfolding mgr_inv_def by blast

text \<open>Changing a name that is not in the cache, and taking a name out of the cache.\<close>

lemma mgr_inv_outside:
  assumes inv: "mgr_inv v m" and n: "ns_metadata m ns = None"
  shows "mgr_inv (v(ns := x)) m"
proof -
  have "cached (v(ns := x)) m p" if "cached v m p" for p using that n by (auto simp: cached_def)
  then show ?thesis using mgr_invD [OF inv] by (intro mgr_invI) blast+
qed

lemma mgr_inv_storage [simp]: "mgr_inv v (m\<lparr>mgr_storage := s\<rparr>) \<longleftrightarrow> mgr_inv v m"
  by (simp add: mgr_inv_def cached_def)

lemma remove_simps [simp]: "mgr_storage (RemoveMetadata ns m) = mgr_storage m" "metas (RemoveMetadata ns m) = metas m"
  by (auto simp: RemoveMetadata_def split: option.splits)

lemma mgr_inv_remove:
  assumes inv: "mgr_inv v m"
  shows "mgr_inv v (RemoveMetadata ns m) \<and> ns_metadata (RemoveMetadata ns m) ns = None"
proof (cases "ns_metadata m ns")
  case (Some p)
  let ?m = "RemoveMetadata ns m" and ?d = "metas m ! p"
  have p: "cached v m p" "meta_ns_name ?d = ns" using mgr_invD(3,4) [OF inv Some] by blast+
  have m: "token_metadata ?m = (token_metadata m)(token_bytes (meta_token ?d) := None)"
    "ns_metadata ?m = (ns_metadata m)(ns := None)"
    using Some by (simp_all add: RemoveMetadata_def)
  have keep: "cached v ?m q" if "cached v m q" "q \<noteq> p" for q
    using that p unfolding cached_def m remove_simps by (auto simp: fun_upd_apply)
  have "mgr_inv v ?m"
  proof (rule mgr_invI)
    fix tok q assume "token_metadata ?m tok = Some q"
    then have q: "token_metadata m tok = Some q" "tok \<noteq> token_bytes (meta_token ?d)" by (auto simp: m split: if_splits)
    then have "q \<noteq> p" using mgr_invD(2) [OF inv] by blast
    then show "cached v ?m q \<and> token_bytes (meta_token (metas ?m ! q)) = tok" using keep mgr_invD(1,2) [OF inv q(1)] by simp
  next
    fix ns' q assume "ns_metadata ?m ns' = Some q"
    then have q: "ns_metadata m ns' = Some q" "ns' \<noteq> ns" by (auto simp: m split: if_splits)
    then have "q \<noteq> p" using mgr_invD(4) [OF inv q(1)] p(2) by blast
    then show "cached v ?m q \<and> meta_ns_name (metas ?m ! q) = ns'" using keep mgr_invD(3,4) [OF inv q(1)] by simp
  qed
  then show ?thesis by (simp add: m)
qed (use inv in \<open>simp add: RemoveMetadata_def\<close>)

lemma mgr_inv_publish:
  assumes inv: "mgr_inv v m" and new: "token_metadata m (token_bytes t) = None" and v: "v ns = Some (token_bytes t, i, ep)"
  shows "mgr_inv v (fst (publish t (ns, i, ep) m)) \<and> cached v (fst (publish t (ns, i, ep) m)) (length (metas m))"
proof -
  have n: "ns_metadata m ns = None"
  proof (cases "ns_metadata m ns")
    case (Some p)
    then have "v ns = Some (token_bytes (meta_token (metas m ! p)), meta_encoded_id (metas m ! p), meta_epoch (metas m ! p))"
      "token_metadata m (token_bytes (meta_token (metas m ! p))) = Some p"
      using mgr_invD(3,4) [OF inv Some] by (auto simp: cached_def)
    then show ?thesis using v new by simp
  qed
  let ?m = "fst (publish t (ns, i, ep) m)" and ?p = "length (metas m)"
  have m: "token_metadata ?m = (token_metadata m)(token_bytes t \<mapsto> ?p)" "ns_metadata ?m = (ns_metadata m)(ns \<mapsto> ?p)"
    "metas ?m = metas m @ [\<lparr>meta_ns_name = ns, meta_encoded_id = i, meta_token = t, meta_epoch = ep\<rparr>]"
    using new by (simp_all add: publish_def Let_def)
  have keep: "cached v ?m q \<and> metas ?m ! q = metas m ! q" if "cached v m q" for q
    using that n new unfolding cached_def m by (auto simp: nth_append fun_upd_apply)
  have here: "cached v ?m ?p" unfolding cached_def m using v by simp
  have "mgr_inv v ?m"
  proof (rule mgr_invI)
    fix tok q assume q: "token_metadata ?m tok = Some q"
    show "cached v ?m q \<and> token_bytes (meta_token (metas ?m ! q)) = tok"
    proof (cases "tok = token_bytes t")
      case False
      then have q: "token_metadata m tok = Some q" using q by (simp add: m)
      show ?thesis using keep [OF mgr_invD(1) [OF inv q]] mgr_invD(2) [OF inv q] by simp
    qed (use q here in \<open>auto simp: m\<close>)
  next
    fix ns' q assume q: "ns_metadata ?m ns' = Some q"
    show "cached v ?m q \<and> meta_ns_name (metas ?m ! q) = ns'"
    proof (cases "ns' = ns")
      case False
      then have q: "ns_metadata m ns' = Some q" using q by (simp add: m)
      show ?thesis using keep [OF mgr_invD(3) [OF inv q]] mgr_invD(4) [OF inv q] by simp
    qed (use q here in \<open>auto simp: m\<close>)
  qed
  with here show ?thesis by blast
qed

text \<open>A call of the manager; a lookup is \<^verbatim>\<open>GetMetadataByToken\<close>.\<close>

datatype 'e mgr_call =
  CallAdd 'e bytes namespace_token
| CallSet 'e bytes namespace_token
| CallDel 'e bytes
| CallLookup 'e namespace_token

fun mgr_do :: "('e, 's) INamespaceStorage \<Rightarrow> 'e mgr_call \<Rightarrow> 's namespace_manager \<Rightarrow> 's namespace_manager" where
  "mgr_do I (CallAdd e ns t) m = fst (mgr_Add I e m ns t)"
| "mgr_do I (CallSet e ns t) m = fst (mgr_Set I e m ns t)"
| "mgr_do I (CallDel e ns) m = fst (mgr_Del I e m ns)"
| "mgr_do I (CallLookup e t) m = fst (GetMetadataByToken I e m t)"

definition mgr_good :: "('s \<Rightarrow> bool) \<Rightarrow> ('s \<Rightarrow> view) \<Rightarrow> 's namespace_manager \<Rightarrow> 's \<Rightarrow> bool" where
  "mgr_good s_inv s_view m s \<longleftrightarrow> mgr_storage m = Some s \<and> s_inv s \<and> mgr_inv (s_view s) m"

lemma set_spec_upd: "set_spec v ns tok b v' \<Longrightarrow> v' = v(ns := v' ns)"
  by (auto simp: set_spec_def created_spec_def split: if_splits)

context namespace_store
begin

abbreviation good :: "'s namespace_manager \<Rightarrow> 's \<Rightarrow> bool" where
  "good \<equiv> mgr_good s_inv s_view"

lemmas good_def = mgr_good_def

lemma mgr_Add_good:
  assumes "good m s" "s_count s < 2 ^ 64 - 1" "mgr_Add I e m ns t = (m', b)"
  shows "\<exists>s'. good m' s' \<and> s_count s' \<le> s_count s + 1 \<and> add_spec (s_view s) ns (token_bytes t) b (s_view s')"
proof -
  obtain s' where s': "op_Add I e s ns t = (s', b)" "m' = m\<lparr>mgr_storage := Some s'\<rparr>"
    using assms by (auto simp: mgr_Add_def good_def split: prod.splits)
  note l = Add_law [OF _ assms(2) s'(1)]
  have "mgr_inv (s_view s') m"
  proof (cases "s_view s' = s_view s")
    case False
    then obtain x where x: "s_view s ns = None" "s_view s' = (s_view s)(ns := x)"
      using l assms(1) by (auto simp: add_spec_def created_spec_def good_def split: if_splits)
    then have "ns_metadata m ns = None"
      using assms(1) mgr_invD(3,4) [of "s_view s" m ns] by (cases "ns_metadata m ns") (auto simp: good_def cached_def)
    then show ?thesis using x assms(1) mgr_inv_outside by (auto simp: good_def)
  qed (use assms(1) in \<open>simp add: good_def\<close>)
  then show ?thesis using l assms(1) s'(2) by (auto simp: good_def)
qed

lemma mgr_Set_good:
  assumes "good m s" "s_count s < 2 ^ 64 - 1" "mgr_Set I e m ns t = (m', b)"
  shows "\<exists>s'. good m' s' \<and> s_count s' \<le> s_count s + 1 \<and> set_spec (s_view s) ns (token_bytes t) b (s_view s')"
proof -
  obtain s' where s': "op_Set I e s ns t = (s', b)"
    "m' = (if b then RemoveMetadata ns (m\<lparr>mgr_storage := Some s'\<rparr>) else m\<lparr>mgr_storage := Some s'\<rparr>)"
    using assms by (auto simp: mgr_Set_def good_def Let_def split: prod.splits)
  note l = Set_law [OF _ assms(2) s'(1)]
  have i: "mgr_inv (s_view s) (m\<lparr>mgr_storage := Some s'\<rparr>)" using assms(1) by (simp add: good_def)
  have "mgr_inv (s_view s') m'"
  proof (cases b)
    case True
    have "s_view s' = (s_view s)(ns := s_view s' ns)" using l assms(1) by (intro set_spec_upd) (auto simp: good_def)
    moreover have "mgr_inv ((s_view s)(ns := s_view s' ns)) m'"
      using True s'(2) mgr_inv_outside [of "s_view s" m' ns] mgr_inv_remove [OF i, of ns] by simp
    ultimately show ?thesis by simp
  qed (use s'(2) i l assms(1) in \<open>auto simp: set_spec_def good_def\<close>)
  then show ?thesis using l assms(1) s'(2) by (auto simp: good_def)
qed

lemma mgr_Del_good:
  assumes "good m s" "s_count s < 2 ^ 64 - 1" "mgr_Del I e m ns = (m', b)"
  shows "\<exists>s'. good m' s' \<and> s_count s' \<le> s_count s + 1 \<and> del_spec (s_view s) ns b (s_view s')"
proof -
  obtain s' where s': "op_Del I e s ns = (s', b)"
    "m' = (if b then RemoveMetadata ns (m\<lparr>mgr_storage := Some s'\<rparr>) else m\<lparr>mgr_storage := Some s'\<rparr>)"
    using assms by (auto simp: mgr_Del_def good_def Let_def split: prod.splits)
  note l = Del_law [OF _ assms(2) s'(1)]
  have i: "mgr_inv (s_view s) (m\<lparr>mgr_storage := Some s'\<rparr>)" using assms(1) by (simp add: good_def)
  have "mgr_inv (s_view s') m'"
  proof (cases b)
    case True
    then have "s_view s' = (s_view s)(ns := None)" using l assms(1) by (auto simp: del_spec_def good_def)
    then show ?thesis using True s'(2) mgr_inv_outside [of "s_view s" m' ns] mgr_inv_remove [OF i, of ns] by simp
  qed (use s'(2) i l assms(1) in \<open>auto simp: del_spec_def good_def\<close>)
  then show ?thesis using l assms(1) s'(2) by (auto simp: good_def)
qed

lemma GetMetadata_good:
  assumes g: "good m s" and e: "s_ok e" and op: "GetMetadataByToken I e m t = (m', r)"
  shows "good m' s \<and> (case r of Some p \<Rightarrow> token_metadata m' (token_bytes t) = Some p
      | None \<Rightarrow> m' = m \<and> (usable t \<longrightarrow> (\<forall>ns i ep. s_view s ns = Some (token_bytes t, i, ep) \<longrightarrow> ns = [])))"
proof (cases "token_metadata m (token_bytes t)")
  case (Some p)
  then have "m' = m" "r = Some p" using op by (simp_all add: GetMetadataByToken_def)
  then show ?thesis using g Some by simp
next
  case None
  obtain ns i ep where f: "op_ByToken I e s t = (ns, i, ep)" by (cases "op_ByToken I e s t")
  have s: "mgr_storage m = Some s" "s_inv s" "mgr_inv (s_view s) m" using g by (simp_all add: good_def)
  show ?thesis
  proof (cases "ns = []")
    case True
    then have "m' = m" "r = None" using op None s f by (auto simp: GetMetadataByToken_def)
    moreover have "ns' = []" if "usable t" "s_view s ns' = Some (token_bytes t, i', ep')" for ns' i' ep'
      using ByToken_finds [OF s(2) e that] f True by simp
    ultimately show ?thesis using g by auto
  next
    case False
    have v: "s_view s ns = Some (token_bytes t, i, ep)" by (rule ByToken_sound [OF s(2) e f False])
    have m': "(m', r) = publish t (ns, i, ep) m" using op None s f False by (simp add: GetMetadataByToken_def)
    then have "m' = fst (publish t (ns, i, ep) m)" by (metis fst_conv)
    moreover have "mgr_storage m' = Some s" "\<exists>p. r = Some p \<and> token_metadata m' (token_bytes t) = Some p"
      using m' s(1) None by (auto simp: publish_def Let_def)
    ultimately show ?thesis using mgr_inv_publish [OF s(3) None v] s(2) by (auto simp: good_def)
  qed
qed

text \<open>Lookups of a call sequence meet no failure of the engine; the other calls may.\<close>

lemma mgr_do_good:
  assumes "good m s" "s_count s < 2 ^ 64 - 1" "\<And>e t. c = CallLookup e t \<Longrightarrow> s_ok e"
  shows "\<exists>s'. good (mgr_do I c m) s' \<and> s_count s' \<le> s_count s + 1"
proof (cases c)
  case (CallAdd e ns t)
  then show ?thesis using mgr_Add_good [OF assms(1,2), of e ns t] by (cases "mgr_Add I e m ns t") auto
next
  case (CallSet e ns t)
  then show ?thesis using mgr_Set_good [OF assms(1,2), of e ns t] by (cases "mgr_Set I e m ns t") auto
next
  case (CallDel e ns)
  then show ?thesis using mgr_Del_good [OF assms(1,2), of e ns] by (cases "mgr_Del I e m ns") auto
next
  case (CallLookup e t)
  then show ?thesis
    using GetMetadata_good [OF assms(1) assms(3) [OF CallLookup], of t] by (cases "GetMetadataByToken I e m t") auto
qed

lemma mgr_run_good:
  assumes "good m s" "s_count s + length cs < 2 ^ 64" "\<And>e t. CallLookup e t \<in> set cs \<Longrightarrow> s_ok e"
  shows "\<exists>s'. good (fold (mgr_do I) cs m) s'"
  using assms
proof (induction cs arbitrary: m s)
  case (Cons c cs)
  have "s_count s < 2 ^ 64 - 1" using Cons.prems(2) by simp
  then obtain s' where s': "good (mgr_do I c m) s'" "s_count s' \<le> s_count s + 1"
    using mgr_do_good [OF Cons.prems(1), of c] Cons.prems(3) by auto
  have "s_count s' + length cs < 2 ^ 64" using Cons.prems(2) s'(2) by simp
  from Cons.IH [OF s'(1) this] Cons.prems(3) show ?case by auto
qed auto

end

end
