(* ===== verification/NamespaceService.thy ===== *)
theory NamespaceService
  imports NamespaceManager
begin

text \<open>
  Namespaces in the service: \<^verbatim>\<open>AuthCommand::Execute\<close> and \<^verbatim>\<open>NamespaceCommand::Execute\<close> (\<^verbatim>\<open>redis_command.cpp\<close>), the start
  of \<^verbatim>\<open>DispatchCommand\<close>, \<^verbatim>\<open>AuthRequired\<close> and the namespace branch of \<^verbatim>\<open>ExecuteFlushDBCommand\<close> (\<^verbatim>\<open>redis_service.cpp\<close>), and
  \<^verbatim>\<open>GenerateRandomToken\<close> (\<^verbatim>\<open>namespace/token.cpp\<close>).
\<close>

section \<open>Connections\<close>

text \<open>The part of \<^verbatim>\<open>RedisConnectionContext\<close> that decides the namespace; \<open>conn_ns_meta\<close> is a pointer to shared metadata.\<close>

record connection =
  authenticated :: bool
  conn_ns :: bytes
  conn_ns_id :: bytes
  conn_ns_meta :: "nat option"

definition RedisConnectionContext :: connection where
  "RedisConnectionContext = \<lparr>authenticated = False, conn_ns = kDefaultNamespace, conn_ns_id = [], conn_ns_meta = None\<rparr>"

text \<open>The prefix of the metadata; the encoder never fails on 64 bits.\<close>

definition meta_prefix :: "NamespaceMetadata \<Rightarrow> bytes" where
  "meta_prefix d = (case MakePrefix (meta_encoded_id d) (meta_epoch d) of Some p \<Rightarrow> p | None \<Rightarrow> [])"

definition AuthCommand_Execute :: "bytes \<Rightarrow> ('e, 's) INamespaceStorage \<Rightarrow> 'e \<Rightarrow> bytes \<Rightarrow> 's namespace_manager \<Rightarrow> connection \<Rightarrow>
    's namespace_manager \<times> connection \<times> bool" where
  "AuthCommand_Execute requirepass I e password m ctx =
     (let token = FromBase64Url password;
          (m', ns_meta) = (if token_valid token then GetMetadataByToken I e m token else (m, None))
      in case ns_meta of
           Some p \<Rightarrow> (m', ctx\<lparr>authenticated := True, conn_ns := meta_ns_name (metas m' ! p), conn_ns_meta := Some p,
                            conn_ns_id := meta_prefix (metas m' ! p)\<rparr>, True)
         | None \<Rightarrow>
             if password = requirepass
             then (m', ctx\<lparr>authenticated := True, conn_ns := kDefaultNamespace, conn_ns_id := [], conn_ns_meta := None\<rparr>, True)
             else (m', ctx, False))"

text \<open>\<^verbatim>\<open>DispatchCommand\<close> up to the guard that installs the namespace of the command.\<close>

definition dispatch_ns :: "('e, 's) INamespaceStorage \<Rightarrow> 'e \<Rightarrow> 's namespace_manager \<Rightarrow> connection \<Rightarrow> 's namespace_manager \<times> connection" where
  "dispatch_ns I e m ctx =
     (case conn_ns_meta ctx of
        Some q \<Rightarrow>
          (let (m', live_meta) = GetMetadataByToken I e m (meta_token (metas m ! q))
           in if live_meta = Some q then (m', ctx\<lparr>conn_ns_id := meta_prefix (metas m' ! q)\<rparr>)
              else (m', ctx\<lparr>conn_ns := kDefaultNamespace, conn_ns_id := [], conn_ns_meta := None\<rparr>))
      | None \<Rightarrow> (m, if conn_ns ctx = kDefaultNamespace then ctx\<lparr>conn_ns_id := []\<rparr> else ctx))"

text \<open>
  The table of a command: that of the selected database in the default namespace, one table for all others.  The names
  are those that \<^verbatim>\<open>Init\<close> gives; an index that is none of the databases is \<open>None\<close>.
\<close>

definition RedisTableName :: "nat \<Rightarrow> bytes \<Rightarrow> nat \<Rightarrow> bytes option" where
  "RedisTableName databases current_namespace db_id =
     (if current_namespace = kDefaultNamespace \<or> current_namespace = []
      then if db_id < databases then Some (''data_table_'' @ to_string (int db_id)) else None
      else Some ''ns_data_0'')"

definition AuthRequired :: "bytes \<Rightarrow> connection \<Rightarrow> bytes list \<Rightarrow> bool" where
  "AuthRequired requirepass ctx args =
     (if args = [] then True
      else if requirepass = [] then False
      else if authenticated ctx then False
      else if length args \<ge> 2 \<and> map tolower (args ! 0) = ''namespace'' \<and> map tolower (args ! 1) = ''current'' then False
      else map tolower (args ! 0) \<notin> set [''auth'', ''hello'', ''quit'', ''reset''])"

section \<open>The command NAMESPACE\<close>

text \<open>Sixteen random bytes, made a UUID of version 4.\<close>

definition GenerateRandomToken :: "bytes \<Rightarrow> namespace_token" where
  "GenerateRandomToken random =
     \<lparr>token_bytes = random[6 := byte (bcode (random ! 6) mod 16 + 64), 8 := byte (bcode (random ! 8) mod 64 + 128)],
      token_valid = True\<rparr>"

text \<open>The loop that draws until the token differs from given texts; \<open>None\<close>: not ended with the given draws.\<close>

fun draw_token :: "bytes set \<Rightarrow> bytes list \<Rightarrow> namespace_token option" where
  "draw_token avoid [] = None"
| "draw_token avoid (random # rs) =
     (let token = GenerateRandomToken random in
      if token_ToString token \<in> avoid then draw_token avoid rs else Some token)"

datatype ns_reply = NsError bytes | NsString bytes | NsList "bytes list" | NsOk

text \<open>
  \<open>e\<close> and \<open>e'\<close> are the engine's outcomes of the first and the second call on the store, \<open>listing\<close> is what
  \<^verbatim>\<open>NamespaceManager::List\<close> returns.
\<close>

definition NamespaceCommand_Execute :: "bool \<Rightarrow> bytes \<Rightarrow> ('e, 's) INamespaceStorage \<Rightarrow> 'e \<Rightarrow> 'e \<Rightarrow> bytes list \<Rightarrow> (bytes \<times> bytes) list \<Rightarrow>
    bytes \<Rightarrow> bytes \<Rightarrow> 's namespace_manager \<Rightarrow> connection \<Rightarrow> ('s namespace_manager \<times> ns_reply) option" where
  "NamespaceCommand_Execute cluster_mode requirepass I e e' randoms listing oper ns m ctx =
     (if oper = ''current'' then Some (m, NsString (conn_ns ctx))
      else if cluster_mode then Some (m, NsError ''ERR forbidden to manage namespace when cluster mode was enabled'')
      else if requirepass = [] then Some (m, NsError ''ERR forbidden to manage namespace when requirepass was empty'')
      else if \<not> authenticated ctx \<or> conn_ns ctx \<noteq> kDefaultNamespace
      then Some (m, NsError ''ERR only requirepass user is allowed to manage namespaces'')
      else if oper = ''get'' then
        (if ns = ''*'' then Some (m, NsList (concat (map (\<lambda>(token, name). [name, token]) listing)))
         else let token = mgr_Get I e m ns
              in Some (m, if token \<noteq> [] then NsString token else NsError ''ERR namespace not found''))
      else if oper = ''add'' then
        (if ns = kDefaultNamespace then Some (m, NsError ''ERR forbidden to add the default namespace'')
         else if ns = [] \<or> length ns > 255 then Some (m, NsError ''ERR namespace length must be between 1 and 255 bytes'')
         else do { token \<leftarrow> draw_token {requirepass} randoms;
                   (let (m', success) = mgr_Add I e m ns token
                    in Some (m', if success then NsString (token_ToString token) else NsError ''ERR the namespace already exists'')) })
      else if oper = ''refresh'' then
        (if ns = kDefaultNamespace then Some (m, NsError ''ERR forbidden to refresh the default namespace'')
         else if ns = [] \<or> length ns > 255 then Some (m, NsError ''ERR namespace length must be between 1 and 255 bytes'')
         else let old_token = mgr_Get I e m ns in
              if old_token = [] then Some (m, NsError ''ERR namespace not found'')
              else do { token \<leftarrow> draw_token {requirepass, old_token} randoms;
                        (let (m', success) = mgr_Set I e' m ns token
                         in Some (m', if success then NsString (token_ToString token)
                                      else NsError ''ERR failed to refresh namespace token'')) })
      else if oper = ''del'' then
        (if ns = kDefaultNamespace then Some (m, NsError ''ERR forbidden to delete the default namespace'')
         else let (m', success) = mgr_Del I e m ns
              in Some (m', if success then NsOk else NsError ''ERR namespace not found''))
      else Some (m, NsError []))"

section \<open>FLUSHDB in a namespace\<close>

text \<open>
  The requests of the namespace branch; with \<open>auto_commit\<close> the transaction is committed here, else the caller ends it
  later.  The metadata in memory change after that.
\<close>

datatype flush_reply = FlushOk | FlushError bytes

text \<open>The manager, the table as the open transaction leaves it when it is not committed here, and the reply.\<close>

definition ExecuteFlushDB_ns :: "engine \<Rightarrow> bool \<Rightarrow> table namespace_manager \<Rightarrow> nat \<Rightarrow> table \<Rightarrow>
    table namespace_manager \<times> table option \<times> flush_reply" where
  "ExecuteFlushDB_ns eng auto_commit m p tbl =
     (let d = metas m ! p; old_epoch = meta_epoch d; new_epoch = (old_epoch + 1) mod 2 ^ 64;
          bump = m\<lparr>metas := (metas m)[p := d\<lparr>meta_epoch := new_epoch\<rparr>]\<rparr>
      in case ReqSet (e_key (meta_encoded_id d)) (to_string (int new_epoch)) \<lparr>tx_table = tbl, tx_outcomes = eng_outcomes eng\<rparr> of
           None \<Rightarrow> (m, None, FlushError ''Failed to update namespace epoch in DB'')
         | Some t1 \<Rightarrow>
             (case ReqSet (g_key (meta_encoded_id d) old_epoch) ''1'' t1 of
                None \<Rightarrow> (m, None, FlushError ''Failed to register namespace GC record in DB'')
              | Some t2 \<Rightarrow>
                  if \<not> auto_commit then (bump, Some (tx_table t2), FlushOk)
                  else if eng_commit eng then (bump\<lparr>mgr_storage := Some (tx_table t2)\<rparr>, None, FlushOk)
                  else (m, None, FlushError ''Commit failed'')))"

text \<open>Which connections take the branch.\<close>

definition flushes_namespace :: "connection \<Rightarrow> bool" where
  "flushes_namespace ctx \<longleftrightarrow> conn_ns ctx \<noteq> kDefaultNamespace \<and> conn_ns ctx \<noteq> [] \<and> conn_ns_meta ctx \<noteq> None"

section \<open>What a connection reaches\<close>

text \<open>A connection that points to metadata is authenticated and carries their name; any other is in the default namespace.\<close>

definition conn_wf :: "'s namespace_manager \<Rightarrow> connection \<Rightarrow> bool" where
  "conn_wf m ctx \<longleftrightarrow>
     (case conn_ns_meta ctx of
        Some p \<Rightarrow> p < length (metas m) \<and> authenticated ctx \<and> conn_ns ctx = meta_ns_name (metas m ! p)
      | None \<Rightarrow> conn_ns ctx = kDefaultNamespace)"

text \<open>Bound to a namespace of the store with its present epoch, or in the default namespace.\<close>

definition bound :: "view \<Rightarrow> connection \<Rightarrow> bool" where
  "bound v ctx \<longleftrightarrow>
     (case conn_ns_meta ctx of
        Some p \<Rightarrow> (\<exists>tok i ep. v (conn_ns ctx) = Some (tok, i, ep) \<and> MakePrefix i ep = Some (conn_ns_id ctx))
      | None \<Rightarrow> conn_ns ctx = kDefaultNamespace \<and> conn_ns_id ctx = [])"

definition view_wf :: "view \<Rightarrow> bool" where
  "view_wf v \<longleftrightarrow> (\<forall>ns tok i ep. v ns = Some (tok, i, ep) \<longrightarrow> ep < 2 ^ 64)"

lemma meta_prefix:
  assumes "cached v m p" "view_wf v"
  shows "\<exists>tok i ep. v (meta_ns_name (metas m ! p)) = Some (tok, i, ep) \<and> MakePrefix i ep = Some (meta_prefix (metas m ! p))"
proof -
  have "meta_epoch (metas m ! p) < 2 ^ 64" using assms by (auto simp: cached_def view_wf_def)
  then obtain q where "MakePrefix (meta_encoded_id (metas m ! p)) (meta_epoch (metas m ! p)) = Some q"
    using MakePrefix_total by blast
  then show ?thesis using assms(1) by (simp add: cached_def meta_prefix_def)
qed

lemma GetMetadata_metas:
  assumes "GetMetadataByToken I e m t = (m', r)"
  shows "\<exists>ds. metas m' = metas m @ ds"
  using assms by (auto simp: GetMetadataByToken_def publish_def Let_def split: option.splits if_splits prod.splits)

lemma GetMetadata_storage: "mgr_storage (fst (GetMetadataByToken I e m t)) = mgr_storage m"
  by (auto simp: GetMetadataByToken_def publish_def Let_def split: option.splits prod.splits)

context namespace_store
begin

lemma dispatch_bound:
  assumes g: "good m s" and v: "view_wf (s_view s)" and e: "s_ok e" and c: "conn_wf m ctx"
    and d: "dispatch_ns I e m ctx = (m', ctx')"
  shows "good m' s \<and> conn_wf m' ctx' \<and> bound (s_view s) ctx' \<and> authenticated ctx' = authenticated ctx"
proof (cases "conn_ns_meta ctx")
  case None
  then show ?thesis using d c g by (auto simp: dispatch_ns_def conn_wf_def bound_def)
next
  case (Some q)
  obtain r where r: "GetMetadataByToken I e m (meta_token (metas m ! q)) = (m', r)"
    and x: "ctx' = (if r = Some q then ctx\<lparr>conn_ns_id := meta_prefix (metas m' ! q)\<rparr>
      else ctx\<lparr>conn_ns := kDefaultNamespace, conn_ns_id := [], conn_ns_meta := None\<rparr>)"
    using d Some by (auto simp: dispatch_ns_def split: prod.splits if_splits)
  have g': "good m' s" using GetMetadata_good [OF g e r] by blast
  show ?thesis
  proof (cases "r = Some q")
    case True
    have "metas m' ! q = metas m ! q" "q < length (metas m')"
      using GetMetadata_metas [OF r] c Some by (auto simp: conn_wf_def nth_append)
    moreover have "cached (s_view s) m' q"
      using GetMetadata_good [OF g e r] True mgr_invD(1) [of "s_view s" m'] by (auto simp: good_def)
    ultimately show ?thesis using g' x True c Some meta_prefix [OF _ v, of m' q] by (auto simp: conn_wf_def bound_def)
  qed (use g' x c in \<open>auto simp: conn_wf_def bound_def\<close>)
qed

lemma auth_bound:
  assumes g: "good m s" and v: "view_wf (s_view s)" and e: "s_ok e" and c: "conn_wf m ctx" "bound (s_view s) ctx"
    and d: "AuthCommand_Execute requirepass I e password m ctx = (m', ctx', b)"
  shows "good m' s \<and> conn_wf m' ctx' \<and> bound (s_view s) ctx'"
proof -
  let ?t = "FromBase64Url password"
  obtain r where r: "(if token_valid ?t then GetMetadataByToken I e m ?t else (m, None)) = (m', r)"
    and x: "(case r of Some p \<Rightarrow> (m', ctx\<lparr>authenticated := True, conn_ns := meta_ns_name (metas m' ! p), conn_ns_meta := Some p,
                            conn_ns_id := meta_prefix (metas m' ! p)\<rparr>, True)
         | None \<Rightarrow> if password = requirepass
             then (m', ctx\<lparr>authenticated := True, conn_ns := kDefaultNamespace, conn_ns_id := [], conn_ns_meta := None\<rparr>, True)
             else (m', ctx, False)) = (m', ctx', b)"
    using d by (auto simp: AuthCommand_Execute_def Let_def split: prod.splits option.splits if_splits)
  show ?thesis
  proof (cases r)
    case None
    then have "m' = m" using r GetMetadata_good [OF g e, of ?t m' r] by (auto split: if_splits)
    then show ?thesis using None x g c by (auto simp: conn_wf_def bound_def split: if_splits)
  next
    case (Some p)
    then have "GetMetadataByToken I e m ?t = (m', Some p)" using r by (auto split: if_splits)
    from GetMetadata_good [OF g e this] have g': "good m' s" and "token_metadata m' (token_bytes ?t) = Some p" by auto
    then have "cached (s_view s) m' p" using mgr_invD(1) [of "s_view s" m'] by (auto simp: good_def)
    then show ?thesis using g' x Some meta_prefix [OF _ v, of m' p] by (auto simp: conn_wf_def bound_def cached_def)
  qed
qed

text \<open>The metadata of a namespace are not found again once it was deleted or its token replaced.\<close>

lemma demoted:
  assumes g: "good m s" and e: "s_ok e" and c: "conn_ns_meta ctx = Some q" "conn_wf m ctx"
    and gone: "\<And>ns i ep. s_view s ns \<noteq> Some (token_bytes (meta_token (metas m ! q)), i, ep)"
    and d: "dispatch_ns I e m ctx = (m', ctx')"
  shows "ctx' = ctx\<lparr>conn_ns := kDefaultNamespace, conn_ns_id := [], conn_ns_meta := None\<rparr>"
proof -
  obtain r where r: "GetMetadataByToken I e m (meta_token (metas m ! q)) = (m', r)"
    and x: "ctx' = (if r = Some q then ctx\<lparr>conn_ns_id := meta_prefix (metas m' ! q)\<rparr>
      else ctx\<lparr>conn_ns := kDefaultNamespace, conn_ns_id := [], conn_ns_meta := None\<rparr>)"
    using d c(1) by (auto simp: dispatch_ns_def split: prod.splits if_splits)
  have "r = None"
  proof (cases r)
    case (Some p)
    then have t: "token_metadata m' (token_bytes (meta_token (metas m ! q))) = Some p" and i: "mgr_inv (s_view s) m'"
      using GetMetadata_good [OF g e r] by (auto simp: good_def)
    have "s_view s (meta_ns_name (metas m' ! p)) =
        Some (token_bytes (meta_token (metas m ! q)), meta_encoded_id (metas m' ! p), meta_epoch (metas m' ! p))"
      using mgr_invD(1,2) [OF i t] by (auto simp: cached_def)
    then show ?thesis using gone by blast
  qed simp
  then show ?thesis using x by simp
qed

end

text \<open>Two connections in different namespaces have no key in common.\<close>

lemma MakePrefix_key: "MakePrefix i e = Some p \<Longrightarrow> ComposeNamespaceKey p k = p @ k"
proof -
  assume "MakePrefix i e = Some p"
  then obtain q where q: "p = q @ [CHR '':'']" by (auto simp: MakePrefix_def B255_DELIMITER_def)
  have "last p \<noteq> last kDefaultNamespace" unfolding q kDefaultNamespace_def by simp
  then have "p \<noteq> kDefaultNamespace" by metis
  moreover have "p \<noteq> []" using q by simp
  ultimately show ?thesis by (simp add: ComposeNamespaceKey_def)
qed

lemma bound_disjoint:
  assumes inv: "ns_inv tbl" and b: "bound (ns_view tbl) c1" "bound (ns_view tbl) c2"
    and n: "conn_ns_meta c1 \<noteq> None" "conn_ns_meta c2 \<noteq> None" "conn_ns c1 \<noteq> conn_ns c2"
  shows "ComposeNamespaceKey (conn_ns_id c1) k1 \<noteq> ComposeNamespaceKey (conn_ns_id c2) k2"
proof
  assume k: "ComposeNamespaceKey (conn_ns_id c1) k1 = ComposeNamespaceKey (conn_ns_id c2) k2"
  obtain t1 i1 e1 where v1: "ns_view tbl (conn_ns c1) = Some (t1, i1, e1)" "MakePrefix i1 e1 = Some (conn_ns_id c1)"
    using b(1) n(1) by (auto simp: bound_def)
  obtain t2 i2 e2 where v2: "ns_view tbl (conn_ns c2) = Some (t2, i2, e2)" "MakePrefix i2 e2 = Some (conn_ns_id c2)"
    using b(2) n(2) by (auto simp: bound_def)
  have "conn_ns_id c1 @ k1 = conn_ns_id c2 @ k2" using k MakePrefix_key [OF v1(2)] MakePrefix_key [OF v2(2)] by simp
  then have "i1 = i2"
    using MakePrefix_disjoint [OF _ _ _ _ _ _ v1(2) v2(2)] view_plain [OF inv v1(1)] view_plain [OF inv v2(1)] by metis
  then show False using table_one_owner [OF inv v1(1) v2(1)] n(3) by simp
qed

lemma MakePrefix_table:
  assumes "MakePrefix i e = Some p"
  shows "RedisTableName n p d = Some ''ns_data_0''" "RedisTableName n [] d \<noteq> Some ''ns_data_0''"
proof -
  have "p \<noteq> []" using assms by (auto simp: MakePrefix_def bind_eq_Some_conv)
  moreover have "p \<noteq> kDefaultNamespace"
    using MakePrefix_key [OF assms, of "[]"] \<open>p \<noteq> []\<close> by (auto simp: ComposeNamespaceKey_def)
  ultimately show "RedisTableName n p d = Some ''ns_data_0''" by (simp add: RedisTableName_def)
  show "RedisTableName n [] d \<noteq> Some ''ns_data_0''" by (simp add: RedisTableName_def)
qed

text \<open>A key of the store is a table and a key in it; the default namespace has tables of its own.\<close>

lemma bound_apart:
  assumes "ns_inv tbl" "bound (ns_view tbl) c1" "bound (ns_view tbl) c2" "conn_ns c1 \<noteq> conn_ns c2"
  shows "(RedisTableName n (conn_ns_id c1) d1, ComposeNamespaceKey (conn_ns_id c1) k1) \<noteq>
    (RedisTableName n (conn_ns_id c2) d2, ComposeNamespaceKey (conn_ns_id c2) k2)"
  using assms bound_disjoint [OF assms(1-3) _ _ assms(4), of k1 k2] MakePrefix_table
  by (cases "conn_ns_meta c1"; cases "conn_ns_meta c2") (fastforce simp: bound_def)+

section \<open>Flushing\<close>

lemma view_flushed:
  assumes inv: "ns_inv t" and v: "ns_view t ns = Some (tok, i, ep)" and e: "stored_number (Some x) = ep'"
  shows "ns_view (t(e_key i \<mapsto> x, g_key i ep'' \<mapsto> w)) = (ns_view t)(ns \<mapsto> (tok, i, ep'))"
proof
  fix ns'
  have n: "names t ns = Some tok" "tokens t tok = Some i" using v by (simp_all add: view_Some [OF inv])
  show "ns_view (t(e_key i \<mapsto> x, g_key i ep'' \<mapsto> w)) ns' = ((ns_view t)(ns \<mapsto> (tok, i, ep'))) ns'"
  proof (cases "ns' = ns \<or> names t ns' = None")
    case False
    then obtain tok' j where t: "names t ns' = Some tok'" "tokens t tok' = Some j" using ns_invD(1) [OF inv] by blast
    have "j \<noteq> i" using tokens_inj [OF inv n(2), of tok'] t names_inj [OF inv n(1), of ns'] False by auto
    then show ?thesis using False t by (simp add: ns_view_def)
  qed (use n e in \<open>auto simp: ns_view_def\<close>)
qed

lemma mgr_inv_bump:
  assumes inv: "mgr_inv v m" and p: "cached v m p"
    and d: "d = metas m ! p" "v' = v(meta_ns_name d \<mapsto> (token_bytes (meta_token d), meta_encoded_id d, ep))"
  shows "mgr_inv v' (m\<lparr>metas := (metas m)[p := d\<lparr>meta_epoch := ep\<rparr>]\<rparr>)" (is "mgr_inv v' ?m")
proof -
  have l: "p < length (metas m)" using p by (simp add: cached_def)
  have same: "meta_token (metas ?m ! q) = meta_token (metas m ! q)" "meta_ns_name (metas ?m ! q) = meta_ns_name (metas m ! q)" for q
    using l d(1) by (cases "q = p"; simp)+
  have keep: "cached v' ?m q" if q: "cached v m q" for q
  proof (cases "q = p")
    case True
    then show ?thesis using p l d by (simp add: cached_def)
  next
    case False
    then have "meta_ns_name (metas m ! q) \<noteq> meta_ns_name d" using p q d(1) by (auto simp: cached_def)
    then show ?thesis using q False d(2) by (simp add: cached_def)
  qed
  show ?thesis
  proof (rule mgr_invI)
    fix tok q assume "token_metadata ?m tok = Some q"
    then show "cached v' ?m q \<and> token_bytes (meta_token (metas ?m ! q)) = tok"
      using keep mgr_invD(1,2) [OF inv, of tok q] unfolding same by simp
  next
    fix ns q assume "ns_metadata ?m ns = Some q"
    then show "cached v' ?m q \<and> meta_ns_name (metas ?m ! q) = ns"
      using keep mgr_invD(3,4) [OF inv, of ns q] unfolding same by simp
  qed
qed

lemma flush_commits:
  assumes g: "mgr_good ns_inv ns_view m tbl" and p: "cached (ns_view tbl) m p" and d: "d = metas m ! p"
    and w: "meta_epoch d + 1 < 2 ^ 64" and f: "ExecuteFlushDB_ns eng True m p tbl = (m', pending, FlushOk)"
  shows "\<exists>tbl'. mgr_good ns_inv ns_view m' tbl' \<and> ns_change tbl tbl' \<and> cached (ns_view tbl') m' p \<and>
    (meta_encoded_id d, meta_epoch d) \<in> marked tbl' \<and>
    ns_view tbl' = (ns_view tbl)(meta_ns_name d \<mapsto> (token_bytes (meta_token d), meta_encoded_id d, meta_epoch d + 1))"
proof -
  let ?i = "meta_encoded_id d" and ?ep = "meta_epoch d"
  let ?t = "tbl(e_key ?i \<mapsto> to_string (int (?ep + 1)), g_key ?i ?ep \<mapsto> ''1'')"
  have inv: "ns_inv tbl" "mgr_inv (ns_view tbl) m" using g by (simp_all add: mgr_good_def)
  have v: "ns_view tbl (meta_ns_name d) = Some (token_bytes (meta_token d), ?i, ?ep)" using p d by (simp add: cached_def)
  then have n: "names tbl (meta_ns_name d) = Some (token_bytes (meta_token d))" "tokens tbl (token_bytes (meta_token d)) = Some ?i"
    "?ep = stored_number (epochs tbl ?i)" by (simp_all add: view_Some [OF inv(1)])
  have e: "(?ep + 1) mod 2 ^ 64 = ?ep + 1" "stored_number (Some (to_string (int (?ep + 1)))) = ?ep + 1"
    by (rule mod_less [OF w]) (rule stored_number_to_string [OF w])
  have m': "m' = m\<lparr>metas := (metas m)[p := d\<lparr>meta_epoch := ?ep + 1\<rparr>], mgr_storage := Some ?t\<rparr>"
    using f unfolding ExecuteFlushDB_ns_def Let_def d [symmetric] e(1)
    by (auto split: option.splits if_splits dest!: ReqSet_Some)
  have c: "ns_change tbl ?t" by (rule ns_change.flushed [OF n w])
  have i': "ns_inv ?t" by (rule inv_flushed [OF inv(1) n(2,3) w])
  have v': "ns_view ?t = (ns_view tbl)(meta_ns_name d \<mapsto> (token_bytes (meta_token d), ?i, ?ep + 1))"
    by (rule view_flushed [OF inv(1) v e(2)])
  have "mgr_inv (ns_view ?t) m'" unfolding m' mgr_inv_storage by (rule mgr_inv_bump [OF inv(2) p d v'])
  moreover have "cached (ns_view ?t) m' p" using p d v' by (simp add: m' cached_def)
  moreover have "mgr_storage m' = Some ?t" by (simp add: m')
  ultimately show ?thesis using c i' v' by (intro exI [of _ ?t]) (simp add: mgr_good_def)
qed

end
