(* ===== verification/NamespaceProps.thy ===== *)
theory NamespaceProps
  imports NamespaceService
begin

text \<open>
  The properties of namespaces: what the stored calls do, how the cached metadata follow the store, which keys a
  connection reaches, and that the garbage collector removes the dead keys and no others.
\<close>

section \<open>An example\<close>

definition ex_engine :: engine where
  "ex_engine = \<lparr>eng_new = True, eng_outcomes = [], eng_commit = True\<rparr>"

definition ex_token :: namespace_token where
  "ex_token = \<lparr>token_bytes = replicate 16 (CHR ''x''), token_valid = True\<rparr>"

definition ex_table :: table where
  "ex_table = fst (storage_Add ''pw'' ex_engine Map.empty ''a'' ex_token)"

definition ex_manager :: "table namespace_manager" where
  "ex_manager = \<lparr>mgr_storage = Some ex_table, ns_metadata = Map.empty, token_metadata = Map.empty, metas = []\<rparr>"

lemma ex_healthy [simp]: "healthy ex_engine"
  by (simp add: healthy_def ex_engine_def)

lemma ex_empty: "ns_inv Map.empty" "next_number Map.empty = 1" "ns_view Map.empty = Map.empty"
  by (auto simp: ns_inv_def maps_def ns_view_def)

lemma length_Base64UrlEncode: "length bs \<le> length (Base64UrlEncode bs)"
  by (induction bs rule: Base64UrlEncode.induct) (auto simp: Let_def)

lemma ex_not_refused [simp]: "\<not> refused ''pw'' ex_token"
proof -
  have "length (Base64UrlEncode (replicate 16 (CHR ''x''))) \<noteq> length ''pw''"
    using length_Base64UrlEncode [of "replicate 16 (CHR ''x'')"] by (simp only: length_replicate) simp
  then have "Base64UrlEncode (replicate 16 (CHR ''x'')) \<noteq> ''pw''" by metis
  then show ?thesis by (simp add: refused_def token_ToString_def ex_token_def)
qed

lemma ex_table_spec:
  obtains i where "ns_view ex_table = [''a'' \<mapsto> (token_bytes ex_token, i, 1)]" "ns_inv ex_table" "next_number ex_table < 3"
proof -
  obtain b where a: "storage_Add ''pw'' ex_engine Map.empty ''a'' ex_token = (ex_table, b)"
    by (cases "storage_Add ''pw'' ex_engine Map.empty ''a'' ex_token") (simp add: ex_table_def)
  have b: "b" using healthy_Add [OF ex_healthy ex_empty(1), of "''pw''" ex_token "''a''"] a by (simp add: ex_empty token_used_def)
  have s: "ex_table = Map.empty \<or> ns_change Map.empty ex_table" "add_spec Map.empty ''a'' (token_bytes ex_token) b (ns_view ex_table)"
    using storage_Add_spec [OF ex_empty(1) a] by (simp_all add: ex_empty)
  have n: "next_number Map.empty < 2 ^ 64 - 1" by (simp add: ex_empty)
  obtain i where "ns_view ex_table = [''a'' \<mapsto> (token_bytes ex_token, i, 1)]"
    using s(2) b by (auto simp: add_spec_def created_spec_def)
  moreover have "ns_inv ex_table \<and> next_number ex_table \<le> next_number Map.empty + 1"
    by (rule changed [OF s(1) ex_empty(1) n])
  ultimately show thesis using that [of i] by (simp add: ex_empty)
qed

lemma ex_good: "mgr_good ns_inv ns_view ex_manager ex_table"
  by (rule ex_table_spec) (simp add: mgr_good_def ex_manager_def mgr_inv_def)

lemma ns_view_wf: "view_wf (ns_view tbl)"
  unfolding view_wf_def ns_view_def using stored_number_less by (auto simp: bind_eq_Some_conv)

section \<open>The store\<close>

text \<open>
  C32.  \<^bold>\<open>The transactional store implements a map.\<close>  On a well-formed table, whatever the engine does (a transaction
  that does not start, requests that fail, a commit that fails), \<^verbatim>\<open>Add\<close>, \<^verbatim>\<open>Set\<close> and \<^verbatim>\<open>Del\<close> leave a well-formed table, change
  nothing when they return false, and otherwise do exactly the abstract operation on the map from names to token, id
  and epoch: a token belongs to one namespace, a new namespace gets an unused id and epoch 1, a new token keeps id and
  epoch.
\<close>

theorem store_refines:
  assumes "ns_inv tbl" "next_number tbl < 2 ^ 64 - 1"
  shows "(storage_Add requirepass eng tbl ns token = (tbl', b) \<longrightarrow>
      ns_inv tbl' \<and> (\<not> b \<longrightarrow> tbl' = tbl) \<and> add_spec (ns_view tbl) ns (token_bytes token) b (ns_view tbl')) \<and>
    (storage_Set requirepass eng tbl ns token = (tbl', b) \<longrightarrow>
      ns_inv tbl' \<and> (\<not> b \<longrightarrow> tbl' = tbl) \<and> set_spec (ns_view tbl) ns (token_bytes token) b (ns_view tbl')) \<and>
    (storage_Del eng tbl ns = (tbl', b) \<longrightarrow>
      ns_inv tbl' \<and> (\<not> b \<longrightarrow> tbl' = tbl) \<and> del_spec (ns_view tbl) ns b (ns_view tbl'))"
  using storage_Add_spec [OF assms(1), of requirepass eng ns token tbl' b] storage_Set_spec [OF assms(1), of requirepass eng ns token tbl' b]
    storage_Del_spec [OF assms(1), of eng ns tbl' b] changed [OF _ assms, of tbl'] by blast

theorem store_refines_witness:
  "\<exists>tbl' i. storage_Add ''pw'' ex_engine Map.empty ''a'' ex_token = (tbl', True) \<and> ns_inv tbl' \<and>
     ns_view tbl' = [''a'' \<mapsto> (token_bytes ex_token, i, 1)]"
proof -
  obtain tbl' b where a: "storage_Add ''pw'' ex_engine Map.empty ''a'' ex_token = (tbl', b)" by fastforce
  have b: "b" using healthy_Add [OF ex_healthy ex_empty(1), of "''pw''" ex_token "''a''"] a by (simp add: ex_empty token_used_def)
  have "next_number Map.empty < 2 ^ 64 - 1" by (simp add: ex_empty)
  from store_refines [OF ex_empty(1) this] a b
  have "ns_inv tbl'" "add_spec Map.empty ''a'' (token_bytes ex_token) True (ns_view tbl')" by (auto simp: ex_empty)
  then show ?thesis using a b by (auto simp: add_spec_def created_spec_def)
qed

text \<open>
  C33.  \<^bold>\<open>Calls without failures succeed.\<close>  When the engine reports no failure, adding a new name under a free token
  and setting a free token return true, deleting an existing name returns true, and a token that the store does not
  refuse is resolved to its namespace, id and epoch exactly when a namespace has it.
\<close>

theorem store_succeeds:
  assumes "ns_inv tbl" "healthy eng" "\<not> refused requirepass token"
  shows "(\<not> token_used (ns_view tbl) (token_bytes token) \<longrightarrow>
      snd (storage_Set requirepass eng tbl ns token) \<and> (ns_view tbl ns = None \<longrightarrow> snd (storage_Add requirepass eng tbl ns token)) \<and>
      storage_ByToken requirepass eng tbl token = ([], [], 1)) \<and>
    (ns_view tbl ns = Some (token_bytes token, i, ep) \<longrightarrow> storage_ByToken requirepass eng tbl token = (ns, i, ep)) \<and>
    snd (storage_Del eng tbl ns) = (ns_view tbl ns \<noteq> None)"
proof -
  have "snd (storage_Del eng tbl ns) = (ns_view tbl ns \<noteq> None)"
    using healthy_Del [OF assms(2,1), of ns] healthy_Del_absent [OF _ assms(1), of ns eng] by (cases "ns_view tbl ns") auto
  then show ?thesis
    using healthy_Set [OF assms(2,1,3), of ns] healthy_Add [OF assms(2,1,3), of ns] healthy_ByToken [OF assms(2,1,3)] by blast
qed

theorem store_succeeds_witness:
  "snd (storage_Set ''pw'' ex_engine Map.empty ''b'' ex_token) \<and> snd (storage_Add ''pw'' ex_engine Map.empty ''b'' ex_token) \<and>
   \<not> snd (storage_Del ex_engine Map.empty ''b'')"
  using store_succeeds [OF ex_empty(1) ex_healthy ex_not_refused, of "''b''"] by (simp add: ex_empty token_used_def)

section \<open>The manager\<close>

text \<open>A lookup whose last request fails, the one for the epoch.\<close>

lemma failed_epoch_read:
  assumes "ns_inv tbl" "eng_new e" "eng_outcomes e = [True, True, False]" "\<not> refused requirepass t"
    and "ns_view tbl ns = Some (token_bytes t, i, ep)"
  shows "storage_ByToken requirepass e tbl t = (ns, i, 1)"
proof -
  have "tbl (t_key (token_bytes t)) = Some i" "tbl (i_key i) = Some ns"
    using ns_invD(1) [OF assms(1), of ns "token_bytes t"] assms(5)
    by (auto simp: view_Some [OF assms(1)] ids_def tokens_def)
  then show ?thesis using assms(2-4) by (simp add: storage_ByToken_def TryGet_def request_def stored_number_def)
qed

text \<open>
  C34.  \<^bold>\<open>The cache follows the store.\<close>  After any sequence of \<^verbatim>\<open>Add\<close>, \<^verbatim>\<open>Set\<close>, \<^verbatim>\<open>Del\<close> and lookups on a manager over the
  transactional store, in which the changes may fail in any way and the lookups meet no failure, a lookup gives metadata whose name, id and epoch are those
  of the namespace that has the token now; it gives none only if no namespace has the token, the store refuses it, or
  the namespace has an empty name.  The cache of a manager over the store in memory agrees with its store as well.  The
  condition on lookups is needed: when only the last request of a first lookup fails, the one for the epoch, the
  manager takes 1 for the epoch and caches it.
\<close>

theorem cache_follows_store:
  assumes "mgr_good ns_inv ns_view m tbl" "next_number tbl + length calls < 2 ^ 64" "healthy e"
    and "\<forall>e t. CallLookup e t \<in> set calls \<longrightarrow> healthy e"
    and "GetMetadataByToken (NamespaceStorage_ops requirepass) e (fold (mgr_do (NamespaceStorage_ops requirepass)) calls m) t = (m', r)"
    and "mgr_good mem_inv mem_view m2 st" "next_id st + length calls2 < 2 ^ 64"
  shows "(\<exists>tbl'. mgr_good ns_inv ns_view m' tbl' \<and>
      (case r of
         Some p \<Rightarrow> ns_view tbl' (meta_ns_name (metas m' ! p)) =
           Some (token_bytes t, meta_encoded_id (metas m' ! p), meta_epoch (metas m' ! p))
       | None \<Rightarrow> \<not> refused requirepass t \<longrightarrow> (\<forall>ns i ep. ns_view tbl' ns = Some (token_bytes t, i, ep) \<longrightarrow> ns = []))) \<and>
    (\<exists>st'. mgr_good mem_inv mem_view (fold (mgr_do MemoryNamespaceStorage_ops) calls2 m2) st') \<and>
    (eng_new e2 \<and> eng_outcomes e2 = [True, True, False] \<and> \<not> refused requirepass t2 \<and> ns_view tbl ns = Some (token_bytes t2, i, ep) \<and>
       ns \<noteq> [] \<and> token_metadata m (token_bytes t2) = None \<longrightarrow>
       (\<exists>m1 p. GetMetadataByToken (NamespaceStorage_ops requirepass) e2 m t2 = (m1, Some p) \<and>
          token_metadata m1 (token_bytes t2) = Some p \<and> meta_ns_name (metas m1 ! p) = ns \<and> meta_epoch (metas m1 ! p) = 1))"
proof -
  obtain tbl' where g: "mgr_good ns_inv ns_view (fold (mgr_do (NamespaceStorage_ops requirepass)) calls m) tbl'"
    using persistent.mgr_run_good [OF assms(1,2), of requirepass] assms(4) by auto
  note l = persistent.GetMetadata_good [OF g assms(3,5)]
  have "case r of
         Some p \<Rightarrow> ns_view tbl' (meta_ns_name (metas m' ! p)) =
           Some (token_bytes t, meta_encoded_id (metas m' ! p), meta_epoch (metas m' ! p))
       | None \<Rightarrow> \<not> refused requirepass t \<longrightarrow> (\<forall>ns i ep. ns_view tbl' ns = Some (token_bytes t, i, ep) \<longrightarrow> ns = [])"
  proof (cases r)
    case (Some p)
    then have "cached (ns_view tbl') m' p" "token_bytes (meta_token (metas m' ! p)) = token_bytes t"
      using l mgr_invD(1,2) [of "ns_view tbl'" m'] by (auto simp: mgr_good_def)
    then show ?thesis using Some by (simp add: cached_def)
  qed (use l in auto)
  moreover have "\<exists>m1 p. GetMetadataByToken (NamespaceStorage_ops requirepass) e2 m t2 = (m1, Some p) \<and>
      token_metadata m1 (token_bytes t2) = Some p \<and> meta_ns_name (metas m1 ! p) = ns \<and> meta_epoch (metas m1 ! p) = 1"
    if "eng_new e2" "eng_outcomes e2 = [True, True, False]" "\<not> refused requirepass t2"
      "ns_view tbl ns = Some (token_bytes t2, i, ep)" "ns \<noteq> []" "token_metadata m (token_bytes t2) = None"
    using assms(1) that failed_epoch_read [of tbl e2 requirepass t2 ns i ep]
    by (auto simp: mgr_good_def GetMetadataByToken_def publish_def NamespaceStorage_ops_def Let_def)
  ultimately show ?thesis using l memory.mgr_run_good [OF assms(6,7)] by blast
qed

theorem cache_follows_store_witness:
  "\<exists>m' p. GetMetadataByToken (NamespaceStorage_ops ''pw'') ex_engine
      (fold (mgr_do (NamespaceStorage_ops ''pw'')) [CallLookup ex_engine ex_token] ex_manager) ex_token = (m', Some p) \<and>
    meta_ns_name (metas m' ! p) = ''a''"
proof -
  let ?calls = "[CallLookup ex_engine ex_token]" and ?I = "NamespaceStorage_ops ''pw''"
  let ?mem = "\<lparr>mgr_storage = Some StorageState_init, ns_metadata = Map.empty, token_metadata = Map.empty, metas = []\<rparr>"
  obtain i where v: "ns_view ex_table = [''a'' \<mapsto> (token_bytes ex_token, i, 1)]" "ns_inv ex_table" "next_number ex_table < 3"
    by (rule ex_table_spec)
  obtain m' r where op: "GetMetadataByToken ?I ex_engine (fold (mgr_do ?I) ?calls ex_manager) ex_token = (m', r)" by fastforce
  have mem: "mgr_good mem_inv mem_view ?mem StorageState_init"
    by (auto simp: mgr_good_def mem_inv_def StorageState_init_def mgr_inv_def)
  have n: "next_number ex_table + length ?calls < 2 ^ 64" "next_id StorageState_init + length [] < 2 ^ 64"
    using v(3) by (simp_all add: StorageState_init_def)
  have h: "\<forall>e t. CallLookup e t \<in> set ?calls \<longrightarrow> healthy e" by simp
  obtain tbl' where t: "mgr_good ns_inv ns_view m' tbl'" and
    c: "case r of Some p \<Rightarrow> ns_view tbl' (meta_ns_name (metas m' ! p)) =
           Some (token_bytes ex_token, meta_encoded_id (metas m' ! p), meta_epoch (metas m' ! p))
       | None \<Rightarrow> \<not> refused ''pw'' ex_token \<longrightarrow> (\<forall>ns i ep. ns_view tbl' ns = Some (token_bytes ex_token, i, ep) \<longrightarrow> ns = [])"
    using cache_follows_store [OF ex_good n(1) ex_healthy h op mem n(2)] by blast
  have "mgr_storage (fst (GetMetadataByToken ?I ex_engine (fold (mgr_do ?I) ?calls ex_manager) ex_token)) = Some ex_table"
    unfolding GetMetadata_storage by (simp add: GetMetadata_storage) (simp add: ex_manager_def)
  then have "tbl' = ex_table" using t unfolding op by (simp add: mgr_good_def)
  then show ?thesis using c op v(1) by (cases r) (auto split: if_splits)
qed

section \<open>Connections\<close>

text \<open>
  C35.  \<^bold>\<open>Connections in different namespaces share no key.\<close>  At the start of every command, if the lookup meets no failure, the connection is bound to
  the present prefix of its namespace or moved to the default namespace, whose prefix is empty.  Two connections that
  are bound to different namespaces, the default one included, then use different keys of the store, whatever the
  user keys and the selected databases are: a key of the store is a table and a key in it.  Tenants share a table and
  have different prefixes, so their keys in it differ; the keys of the default namespace have no prefix and may be any
  bytes, but they are in other tables.
\<close>

theorem dispatch_isolates:
  assumes "mgr_good ns_inv ns_view m tbl" "healthy e" "conn_wf m c"
    and "dispatch_ns (NamespaceStorage_ops requirepass) e m c = (m', c')"
  shows "mgr_good ns_inv ns_view m' tbl \<and> conn_wf m' c' \<and> bound (ns_view tbl) c' \<and>
    (\<forall>c2 k k2. bound (ns_view tbl) c2 \<and> conn_ns_meta c' \<noteq> None \<and> conn_ns_meta c2 \<noteq> None \<and> conn_ns c' \<noteq> conn_ns c2 \<longrightarrow>
       ComposeNamespaceKey (conn_ns_id c') k \<noteq> ComposeNamespaceKey (conn_ns_id c2) k2) \<and>
    (\<forall>c2 db db2 k k2. bound (ns_view tbl) c2 \<and> conn_ns c' \<noteq> conn_ns c2 \<longrightarrow>
       (RedisTableName databases (conn_ns_id c') db, ComposeNamespaceKey (conn_ns_id c') k) \<noteq>
       (RedisTableName databases (conn_ns_id c2) db2, ComposeNamespaceKey (conn_ns_id c2) k2))"
proof -
  note d = persistent.dispatch_bound [OF assms(1) ns_view_wf assms(2-4)]
  moreover have "ns_inv tbl" using assms(1) by (simp add: mgr_good_def)
  ultimately show ?thesis using bound_disjoint bound_apart by blast
qed

text \<open>A connection that authenticates with the example's token.\<close>

definition ex_login :: "table namespace_manager \<times> connection \<times> bool" where
  "ex_login = AuthCommand_Execute ''pw'' (NamespaceStorage_ops ''pw'') ex_engine (token_ToString ex_token) ex_manager RedisConnectionContext"

lemma FromBase64Url_ToString:
  assumes "token_wf t" "token_valid t"
  shows "FromBase64Url (token_ToString t) = t"
proof -
  have "length (Base64UrlEncode (token_bytes t)) = 22"
    using assms(1) by (auto simp: token_wf_def encode_digits length_b64_digits)
  moreover have "Base64UrlDecode (Base64UrlEncode (token_bytes t)) 16 = Some (token_bytes t)"
    using assms(1) by (simp add: Base64_canonical token_wf_def)
  ultimately show ?thesis using assms(2) by (simp add: FromBase64Url_def token_ToString_def)
qed

lemma ex_token_wf: "token_wf ex_token" "token_valid ex_token"
  by (simp_all add: token_wf_def ex_token_def)

lemma ex_login_spec:
  obtains m c p where "ex_login = (m, c, True)" "mgr_good ns_inv ns_view m ex_table" "conn_wf m c" "bound (ns_view ex_table) c"
    "conn_ns_meta c = Some p" "cached (ns_view ex_table) m p" "meta_token (metas m ! p) = ex_token" "conn_ns c = ''a''"
    "meta_epoch (metas m ! p) = 1"
proof -
  let ?I = "NamespaceStorage_ops ''pw''"
  obtain i where v: "ns_view ex_table = [''a'' \<mapsto> (token_bytes ex_token, i, 1)]" by (rule ex_table_spec)
  then have b: "op_ByToken ?I ex_engine ex_table ex_token = (''a'', i, 1)"
    using persistent.ByToken_finds [of ex_table ex_engine "''pw''" ex_token "''a''" i 1] ex_good by (simp add: mgr_good_def)
  define m where "m = fst (publish ex_token (''a'', i, 1) ex_manager)"
  have g: "GetMetadataByToken ?I ex_engine ex_manager ex_token = (m, Some 0)"
    using b by (simp add: GetMetadataByToken_def ex_manager_def m_def publish_def)
  have d: "metas m = [\<lparr>meta_ns_name = ''a'', meta_encoded_id = i, meta_token = ex_token, meta_epoch = 1\<rparr>]"
    by (simp add: m_def publish_def ex_manager_def)
  define c where "c = RedisConnectionContext\<lparr>authenticated := True, conn_ns := ''a'', conn_ns_meta := Some 0, conn_ns_id := meta_prefix (metas m ! 0)\<rparr>"
  have l: "ex_login = (m, c, True)"
    using g d by (simp add: ex_login_def AuthCommand_Execute_def FromBase64Url_ToString [OF ex_token_wf] ex_token_wf c_def)
  have "conn_wf ex_manager RedisConnectionContext" "bound (ns_view ex_table) RedisConnectionContext"
    by (simp_all add: conn_wf_def bound_def RedisConnectionContext_def)
  then have x: "mgr_good ns_inv ns_view m ex_table" "conn_wf m c" "bound (ns_view ex_table) c"
    using persistent.auth_bound [OF ex_good ns_view_wf ex_healthy _ _ l [unfolded ex_login_def]] by auto
  moreover have "token_metadata m (token_bytes ex_token) = Some 0" using persistent.GetMetadata_good [OF ex_good ex_healthy g] by simp
  then have "cached (ns_view ex_table) m 0" using x(1) mgr_invD(1) by (auto simp: mgr_good_def)
  ultimately show thesis using that [OF l, of 0] d by (simp add: c_def)
qed

theorem dispatch_isolates_witness:
  "\<exists>m c m' c'. ex_login = (m, c, True) \<and> dispatch_ns (NamespaceStorage_ops ''pw'') ex_engine m c = (m', c') \<and> bound (ns_view ex_table) c'"
proof -
  obtain m c p where l: "ex_login = (m, c, True)" "mgr_good ns_inv ns_view m ex_table" "conn_wf m c" by (rule ex_login_spec)
  obtain m' c' where d: "dispatch_ns (NamespaceStorage_ops ''pw'') ex_engine m c = (m', c')" by fastforce
  from dispatch_isolates [OF l(2) ex_healthy l(3) d] l(1) d show ?thesis by blast
qed

text \<open>
  C36.  \<^bold>\<open>A deleted tenant becomes an administrator.\<close>  When the namespace of a connection is deleted, the next command
  of the connection runs in the default namespace, still authenticated: it passes \<^verbatim>\<open>AuthRequired\<close>, and \<^verbatim>\<open>NAMESPACE\<close> commands
  are not answered with the error for users without the server's password.
\<close>

theorem deleted_tenant_administers:
  assumes "mgr_good ns_inv ns_view m tbl" "next_number tbl < 2 ^ 64 - 1" "conn_wf m c" "conn_ns_meta c = Some p" "cached (ns_view tbl) m p"
    and "mgr_Del (NamespaceStorage_ops requirepass) e m (conn_ns c) = (m1, True)" "healthy e1"
    and "dispatch_ns (NamespaceStorage_ops requirepass) e1 m1 c = (m2, c2)"
    and "args \<noteq> []" "requirepass \<noteq> []" "length ns \<le> 255" "ns \<noteq> []" "ns \<noteq> kDefaultNamespace" "draw_token {requirepass} randoms = Some t"
  shows "authenticated c2 \<and> conn_ns c2 = kDefaultNamespace \<and> conn_ns_id c2 = [] \<and> \<not> AuthRequired requirepass c2 args \<and>
    NamespaceCommand_Execute False requirepass (NamespaceStorage_ops requirepass) e2 e3 randoms l ''add'' ns m2 c2 =
      (let (m3, success) = mgr_Add (NamespaceStorage_ops requirepass) e2 m2 ns t
       in Some (m3, if success then NsString (token_ToString t) else NsError ''ERR the namespace already exists''))"
proof -
  let ?I = "NamespaceStorage_ops requirepass" and ?d = "metas m ! p"
  obtain tbl1 where g: "mgr_good ns_inv ns_view m1 tbl1" "del_spec (ns_view tbl) (conn_ns c) True (ns_view tbl1)"
    using persistent.mgr_Del_good [OF assms(1,2,6)] by blast
  have inv: "ns_inv tbl" using assms(1) by (simp add: mgr_good_def)
  have c: "conn_ns c = meta_ns_name ?d" "authenticated c" "p < length (metas m)" using assms(3,4) by (simp_all add: conn_wf_def)
  have m1: "metas m1 = metas m" using assms(6) by (auto simp: mgr_Del_def Let_def split: option.splits prod.splits if_splits)
  have own: "ns_view tbl (conn_ns c) = Some (token_bytes (meta_token ?d), meta_encoded_id ?d, meta_epoch ?d)"
    using assms(5) c(1) by (simp add: cached_def)
  have gone: "ns_view tbl1 ns' \<noteq> Some (token_bytes (meta_token (metas m1 ! p)), i, ep)" for ns' i ep
    using g(2) table_one_owner [OF inv own, of ns'] unfolding m1 del_spec_def by (auto split: if_splits)
  have "conn_wf m1 c" using assms(4) c m1 by (simp add: conn_wf_def)
  from persistent.demoted [OF g(1) assms(7,4) this gone assms(8)]
  have "c2 = c\<lparr>conn_ns := kDefaultNamespace, conn_ns_id := [], conn_ns_meta := None\<rparr>" .
  then show ?thesis using c(2) assms(9-14) by (simp add: AuthRequired_def NamespaceCommand_Execute_def)
qed

lemma ex_draw: "draw_token {''pw''} [replicate 16 (CHR ''x'')] = Some (GenerateRandomToken (replicate 16 (CHR ''x'')))"
proof -
  let ?b = "token_bytes (GenerateRandomToken (replicate 16 (CHR ''x'')))"
  have "length (Base64UrlEncode ?b) \<noteq> length ''pw''"
    using length_Base64UrlEncode [of ?b] by (simp add: GenerateRandomToken_def)
  then have "Base64UrlEncode ?b \<noteq> ''pw''" by metis
  then show ?thesis by (simp add: token_ToString_def GenerateRandomToken_def)
qed

theorem deleted_tenant_administers_witness:
  "\<exists>m c m1 m2 c2. ex_login = (m, c, True) \<and> mgr_Del (NamespaceStorage_ops ''pw'') ex_engine m ''a'' = (m1, True) \<and>
     dispatch_ns (NamespaceStorage_ops ''pw'') ex_engine m1 c = (m2, c2) \<and> authenticated c2 \<and> conn_ns c2 = kDefaultNamespace \<and>
     \<not> AuthRequired ''pw'' c2 [''namespace'', ''add'', ''b'']"
proof -
  let ?I = "NamespaceStorage_ops ''pw''"
  obtain i where v: "ns_view ex_table = [''a'' \<mapsto> (token_bytes ex_token, i, 1)]" "ns_inv ex_table" "next_number ex_table < 3"
    by (rule ex_table_spec)
  obtain m c p where l: "ex_login = (m, c, True)" "mgr_good ns_inv ns_view m ex_table" "conn_wf m c" "conn_ns_meta c = Some p"
      "cached (ns_view ex_table) m p" "conn_ns c = ''a''" by (rule ex_login_spec)
  obtain t1 where "storage_Del ex_engine ex_table ''a'' = (t1, True)" using healthy_Del [OF ex_healthy v(2), of "''a''"] v(1) by simp
  then obtain m1 where d: "mgr_Del ?I ex_engine m (conn_ns c) = (m1, True)"
    using l(2,6) by (auto simp: mgr_Del_def mgr_good_def NamespaceStorage_ops_def Let_def)
  obtain m2 c2 where c2: "dispatch_ns ?I ex_engine m1 c = (m2, c2)" by fastforce
  have n: "next_number ex_table < 2 ^ 64 - 1" using v(3) by simp
  have "authenticated c2 \<and> conn_ns c2 = kDefaultNamespace \<and> \<not> AuthRequired ''pw'' c2 [''namespace'', ''add'', ''b'']"
    using deleted_tenant_administers [OF l(2) n l(3-5) d ex_healthy c2 _ _ _ _ _ ex_draw, of "[''namespace'', ''add'', ''b'']" "''b''"]
    by (simp add: kDefaultNamespace_def)
  then show ?thesis using l(1) d [unfolded l(6)] c2 by blast
qed

text \<open>
  C37.  \<^bold>\<open>Flushing a namespace hides its keys at once.\<close>  A committed \<^verbatim>\<open>FLUSHDB\<close> of a tenant raises the epoch of its
  namespace by one in the table and in the shared metadata, changes no other namespace, marks the old epoch for the
  garbage collector, and leaves no old key reachable: the old prefix starts no key of the new one.
\<close>

theorem flush_hides:
  assumes "mgr_good ns_inv ns_view m tbl" "cached (ns_view tbl) m p" "meta_epoch (metas m ! p) + 1 < 2 ^ 64"
    and "ExecuteFlushDB_ns eng True m p tbl = (m', pending, FlushOk)"
  shows "\<exists>tbl' tok i ep. mgr_good ns_inv ns_view m' tbl' \<and> ns_view tbl (meta_ns_name (metas m ! p)) = Some (tok, i, ep) \<and>
    ns_view tbl' = (ns_view tbl)(meta_ns_name (metas m ! p) \<mapsto> (tok, i, ep + 1)) \<and> (i, ep) \<in> marked tbl' \<and>
    meta_epoch (metas m' ! p) = ep + 1 \<and>
    (\<forall>q q' k k'. MakePrefix i ep = Some q \<longrightarrow> MakePrefix i (ep + 1) = Some q' \<longrightarrow> q @ k \<noteq> q' @ k')"
proof -
  let ?d = "metas m ! p"
  obtain tbl' where f: "mgr_good ns_inv ns_view m' tbl'" "cached (ns_view tbl') m' p" "(meta_encoded_id ?d, meta_epoch ?d) \<in> marked tbl'"
    and v: "ns_view tbl' = (ns_view tbl)(meta_ns_name ?d \<mapsto> (token_bytes (meta_token ?d), meta_encoded_id ?d, meta_epoch ?d + 1))"
    using flush_commits [OF assms(1,2) refl assms(3,4)] by blast
  have own: "ns_view tbl (meta_ns_name ?d) = Some (token_bytes (meta_token ?d), meta_encoded_id ?d, meta_epoch ?d)"
    using assms(2) by (simp add: cached_def)
  have inv: "ns_inv tbl" using assms(1) by (simp add: mgr_good_def)
  have e: "meta_epoch (metas m' ! p) = meta_epoch ?d + 1"
    using assms(2-4) by (auto simp: ExecuteFlushDB_ns_def Let_def cached_def split: option.splits if_splits)
  have "q @ k \<noteq> q' @ k'" if "MakePrefix (meta_encoded_id ?d) (meta_epoch ?d) = Some q"
      "MakePrefix (meta_encoded_id ?d) (meta_epoch ?d + 1) = Some q'" for q q' k k'
    using MakePrefix_disjoint [OF _ _ _ _ view_plain(3) [OF inv own] assms(3) that] view_plain [OF inv own] by (metis n_not_Suc_n Suc_eq_plus1)
  then show ?thesis using f v own e by blast
qed

theorem flush_hides_witness:
  "\<exists>m c p m' pending. ex_login = (m, c, True) \<and> ExecuteFlushDB_ns ex_engine True m p ex_table = (m', pending, FlushOk) \<and>
     meta_epoch (metas m' ! p) = 2"
proof -
  obtain m c p where l: "ex_login = (m, c, True)" "mgr_good ns_inv ns_view m ex_table" "cached (ns_view ex_table) m p"
      "meta_epoch (metas m ! p) = 1" by (rule ex_login_spec)
  have w: "meta_epoch (metas m ! p) + 1 < 2 ^ 64" using l(4) by simp
  obtain m' pending where f: "ExecuteFlushDB_ns ex_engine True m p ex_table = (m', pending, FlushOk)"
    by (simp add: ExecuteFlushDB_ns_def Let_def) (simp add: ex_engine_def)
  have "meta_epoch (metas m' ! p) = meta_epoch (metas m ! p) + 1"
    using flush_hides [OF l(2,3) w f] l(3) by (auto simp: cached_def)
  then have "meta_epoch (metas m' ! p) = 2" using l(4) by simp
  then show ?thesis using l(1) f by blast
qed

section \<open>Garbage collection\<close>

text \<open>
  C38.  \<^bold>\<open>The collector spares the living.\<close>  Whatever happens during a round of the collector over records that are in
  the table, no namespace changes and no key of a namespace's present prefix is deleted.  The engine's range scan is
  only assumed to return keys of the table in the range.
\<close>

theorem collector_spares_live:
  assumes "ns_inv tbl" "scan_sound scan" "\<forall>r \<in> set rs. \<exists>i ep. fst r = g_key i ep \<and> (i, ep) \<in> marked tbl"
    and "gc_round scan rs (tbl, data) = Some (tbl', data')"
  shows "ns_inv tbl' \<and> ns_view tbl' = ns_view tbl \<and> set data' \<subseteq> set data \<and>
    (\<forall>ns tok i ep p u. ns_view tbl ns = Some (tok, i, ep) \<longrightarrow> MakePrefix i ep = Some p \<longrightarrow> p @ u \<in> set data \<longrightarrow> p @ u \<in> set data')"
proof -
  have "\<forall>r \<in> set rs. dead_key tbl (fst r)" using assms(3) marked_dead [OF assms(1)] by fastforce
  from round_spares_live [OF assms(2,1) this assms(4)] show ?thesis unfolding spares_live_def by simp
qed

text \<open>A scan that returns all keys of the range.\<close>

definition ex_scan :: scan where
  "ex_scan lo hi data = filter (\<lambda>k. \<not> bytes_less k lo \<and> bytes_less k hi) data"

lemma ex_scan_laws: "scan_sound ex_scan" "scan_complete ex_scan"
  by (auto simp: scan_sound_def scan_complete_def ex_scan_def in_range_keys_def filter_empty_conv)

text \<open>Collecting one record without failures.\<close>

lemma record_collected:
  assumes i: "B255_DELIMITER \<notin> set i" "ep < 2 ^ 64" "MakePrefix i ep = Some p"
    and scan: "scan_sound scan" "scan_complete scan" and evs: "Stopping \<notin> set evs" "ScanFailed \<notin> set evs"
    and n: "length data < length (filter (\<lambda>e. e = Scanned True) evs)"
  shows "\<exists>data'. gc_round scan [(g_key i ep, evs, True)] (tbl, data) = Some (tbl(g_key i ep := None), data') \<and> (\<forall>u. p @ u \<notin> set data')"
proof -
  note nx = MakePrefix_next [OF i(3)]
  have "card {k \<in> set data. \<exists>u. k = p @ u} \<le> card (set data)" by (intro card_mono) auto
  also have "\<dots> \<le> length data" by (rule card_length)
  finally have "card {k \<in> set data. \<exists>u. k = p @ u} < length (filter (\<lambda>e. e = Scanned True) evs)" using n by simp
  from clean_ends [OF scan nx evs this] obtain data' where c: "CleanPrefixKeys scan p data evs = Some (True, data')" by blast
  have "gc_prefix (g_key i ep) = Some p" using gc_prefix_g_key [OF i(1), of ep] i(2,3) by simp
  then show ?thesis using c clean_complete [OF c scan(2) nx] by (auto simp: gc_record_def DeleteGCRecord_def)
qed

theorem collector_spares_live_witness:
  "\<exists>tbl i p q tbl' data'. (i, 1) \<in> marked tbl \<and> ns_view tbl = [''a'' \<mapsto> (token_bytes ex_token, i, 2)] \<and>
     MakePrefix i 1 = Some p \<and> MakePrefix i 2 = Some q \<and>
     gc_round ex_scan [(g_key i 1, replicate 3 (Scanned True), True)] (tbl, [p @ ''k'', q @ ''k'']) = Some (tbl', data') \<and>
     q @ ''k'' \<in> set data' \<and> p @ ''k'' \<notin> set data'"
proof -
  obtain j where v: "ns_view ex_table = [''a'' \<mapsto> (token_bytes ex_token, j, 1)]" "ns_inv ex_table" by (rule ex_table_spec)
  have e: "ns_view ex_table ''a'' = Some (token_bytes ex_token, j, 1)" using v(1) by simp
  let ?t = "ex_table(e_key j \<mapsto> to_string (int (1 + 1)), g_key j 1 \<mapsto> ''1'')"
  have n: "tokens ex_table (token_bytes ex_token) = Some j" "1 = stored_number (epochs ex_table j)"
    using e by (simp_all add: view_Some [OF v(2)])
  have s: "stored_number (Some (to_string (int (1 + 1)))) = 2" by (rule trans [OF stored_number_to_string]) simp_all
  have t: "ns_inv ?t" "ns_view ?t = [''a'' \<mapsto> (token_bytes ex_token, j, 2)]" "(j, 1) \<in> marked ?t"
    using inv_flushed [OF v(2) n, of "''1''"] view_flushed [OF v(2) e s, of 1 "''1''"] v(1) by simp_all
  obtain p q where pq: "MakePrefix j 1 = Some p" "MakePrefix j 2 = Some q" using MakePrefix_total [of 1 j] MakePrefix_total [of 2 j] by auto
  note plain = view_plain [OF v(2) e]
  let ?r = "[(g_key j 1, replicate 3 (Scanned True), True)]" and ?data = "[p @ ''k'', q @ ''k'']"
  obtain data' where r: "gc_round ex_scan ?r (?t, ?data) = Some (?t(g_key j 1 := None), data')" "\<forall>u. p @ u \<notin> set data'"
    using record_collected [OF plain(2,3) pq(1) ex_scan_laws, of "replicate 3 (Scanned True)" ?data ?t] by (auto simp: numeral_eq_Suc)
  have "\<forall>r \<in> set ?r. \<exists>i ep. fst r = g_key i ep \<and> (i, ep) \<in> marked ?t" using t(3) by auto
  note live = collector_spares_live [OF t(1) ex_scan_laws(1) this r(1)]
  have "ns_view ?t ''a'' = Some (token_bytes ex_token, j, 2)" using t(2) by simp
  with live pq(2) have "q @ ''k'' \<in> set ?data \<longrightarrow> q @ ''k'' \<in> set data'" by blast
  then have "q @ ''k'' \<in> set data'" by simp
  then show ?thesis using t(2,3) pq r by blast
qed

text \<open>
  C39.  \<^bold>\<open>What is deleted is collected.\<close>  When the engine reports no failure, deleting a namespace succeeds and leaves a
  record of its prefix; a round of the collector over that record then ends, provided the server is not stopped, no
  scan fails and enough deletions commit (failed ones only delay it), and afterwards the namespace, the record and
  every key of the namespace are gone.
\<close>

theorem deleted_is_collected:
  assumes "ns_inv tbl" "healthy eng" "ns_view tbl ns = Some (tok, i, ep)" "scan_sound scan" "scan_complete scan"
    and "Stopping \<notin> set evs" "ScanFailed \<notin> set evs" "length data < length (filter (\<lambda>e. e = Scanned True) evs)"
  shows "\<exists>tbl1 tbl2 data' p. storage_Del eng tbl ns = (tbl1, True) \<and> (i, ep) \<in> marked tbl1 \<and> MakePrefix i ep = Some p \<and>
    gc_round scan [(g_key i ep, evs, True)] (tbl1, data) = Some (tbl2, data') \<and>
    ns_view tbl2 = (ns_view tbl)(ns := None) \<and> (i, ep) \<notin> marked tbl2 \<and> (\<forall>u. p @ u \<notin> set data')"
proof -
  note d = healthy_Del [OF assms(2,1,3)] and plain = view_plain [OF assms(1,3)]
  let ?t = "tbl(g_key i ep \<mapsto> ''1'', n_key ns := None, t_key tok := None, i_key i := None, e_key i := None)"
  obtain p where p: "MakePrefix i ep = Some p" using MakePrefix_total [OF plain(3)] by blast
  obtain data' where r: "gc_round scan [(g_key i ep, evs, True)] (?t, data) = Some (?t(g_key i ep := None), data')" "\<forall>u. p @ u \<notin> set data'"
    using record_collected [OF plain(2,3) p assms(4-8), of ?t] by blast
  have "ns_view ?t = (ns_view tbl)(ns := None)" using storage_Del_spec [OF assms(1) d] by (simp add: del_spec_def)
  then have "ns_view (?t(g_key i ep := None)) = (ns_view tbl)(ns := None)" by (simp only: view_unmark)
  moreover have "(i, ep) \<in> marked ?t" "(i, ep) \<notin> marked (?t(g_key i ep := None))" by simp_all
  ultimately show ?thesis using d p r by blast
qed

theorem deleted_is_collected_witness:
  "\<exists>i tbl1 tbl2 data' p. storage_Del ex_engine ex_table ''a'' = (tbl1, True) \<and> MakePrefix i 1 = Some p \<and>
     gc_round ex_scan [(g_key i 1, [Again, Scanned False, Scanned True, Scanned True], True)] (tbl1, [''k'']) = Some (tbl2, data') \<and>
     ns_view tbl2 = Map.empty"
proof -
  obtain j where v: "ns_view ex_table = [''a'' \<mapsto> (token_bytes ex_token, j, 1)]" "ns_inv ex_table" by (rule ex_table_spec)
  have "ns_view ex_table ''a'' = Some (token_bytes ex_token, j, 1)" using v(1) by simp
  from deleted_is_collected [OF v(2) ex_healthy this ex_scan_laws, of "[Again, Scanned False, Scanned True, Scanned True]" "[''k'']"] v(1)
  show ?thesis by simp blast
qed

section \<open>Prefixes and tokens\<close>

text \<open>
  C40.  \<^bold>\<open>A prefix is one interval of keys, and a token one text.\<close>  The keys between the prefix of a namespace's epoch
  and its successor are exactly the keys that start with the prefix; \<^verbatim>\<open>Parse\<close> gives the id, the epoch and the user key
  back; and a text is a valid token exactly if it is the text of sixteen bytes, which it then gives back.
\<close>

theorem prefix_interval:
  assumes "i \<noteq> []" "B255_DELIMITER \<notin> set i" "ep < 2 ^ 64"
  shows "\<exists>p. MakePrefix i ep = Some p \<and>
    (\<forall>k. (\<not> bytes_less k p \<and> bytes_less k (MakePrefixNext p)) = (\<exists>u. k = p @ u)) \<and>
    (\<forall>u. Parse (p @ u) = Some (i, ep, u)) \<and>
    (\<forall>s. token_valid (FromBase64Url s) = (\<exists>t. token_wf t \<and> token_valid t \<and> s = token_ToString t \<and> FromBase64Url s = t))"
proof -
  obtain p where p: "MakePrefix i ep = Some p" using MakePrefix_total [OF assms(3)] by blast
  have "token_valid (FromBase64Url s) = (\<exists>t. token_wf t \<and> token_valid t \<and> s = token_ToString t \<and> FromBase64Url s = t)" for s
  proof
    assume "token_valid (FromBase64Url s)"
    then obtain bs where "Base64UrlDecode s 16 = Some bs" "FromBase64Url s = \<lparr>token_bytes = bs, token_valid = True\<rparr>"
      by (auto simp: FromBase64Url_def NamespaceToken_def split: if_splits option.splits)
    then show "\<exists>t. token_wf t \<and> token_valid t \<and> s = token_ToString t \<and> FromBase64Url s = t"
      by (auto simp: token_wf_def token_ToString_def Base64_canonical)
  qed auto
  then show ?thesis
    using p prefix_range [OF MakePrefix_next [OF p]] Parse_MakePrefix [OF assms p] by blast
qed

theorem prefix_interval_witness:
  "\<exists>p. MakePrefix ''ab'' 7 = Some p \<and> Parse (p @ ''key'') = Some (''ab'', 7, ''key'')"
proof -
  have "B255_DELIMITER \<notin> set ''ab''" by (simp add: B255_DELIMITER_def)
  from prefix_interval [OF _ this, of 7] show ?thesis by auto
qed

section \<open>A race\<close>

text \<open>
  \<^verbatim>\<open>GetMetadataByToken\<close> reads the store before it takes the lock of the cache.  When the namespace is deleted in between,
  the metadata are published after the deletion has cleared the cache: from then on every lookup of the dead token
  succeeds without asking the store.
\<close>

theorem stale_publish:
  assumes "mgr_good ns_inv ns_view m tbl" "next_number tbl < 2 ^ 64 - 1" "token_metadata m (token_bytes t) = None"
    and "ns_view tbl ns = Some (token_bytes t, i, ep)" "mgr_Del (NamespaceStorage_ops requirepass) e m ns = (m1, True)"
    and "publish t (ns, i, ep) m1 = (m2, r)"
  shows "\<exists>p tbl2. r = Some p \<and> mgr_storage m2 = Some tbl2 \<and> \<not> token_used (ns_view tbl2) (token_bytes t) \<and>
    (\<forall>e'. GetMetadataByToken (NamespaceStorage_ops requirepass) e' m2 t = (m2, Some p))"
proof -
  obtain tbl1 where g: "mgr_good ns_inv ns_view m1 tbl1" "del_spec (ns_view tbl) ns True (ns_view tbl1)"
    using persistent.mgr_Del_good [OF assms(1,2,5)] by blast
  have inv: "ns_inv tbl" using assms(1) by (simp add: mgr_good_def)
  have free: "\<not> token_used (ns_view tbl1) (token_bytes t)"
    using g(2) table_one_owner [OF inv assms(4)] by (auto simp: token_used_def del_spec_def split: if_splits)
  have "token_metadata m1 (token_bytes t) = None"
  proof (cases "token_metadata m1 (token_bytes t)")
    case (Some p)
    then show ?thesis using free mgr_invD(1,2) [of "ns_view tbl1" m1 _ p] g(1) by (fastforce simp: mgr_good_def cached_def token_used_def)
  qed
  then have "r = Some (length (metas m1))" "mgr_storage m2 = Some tbl1" "token_metadata m2 (token_bytes t) = Some (length (metas m1))"
    using assms(6) g(1) by (auto simp: publish_def Let_def mgr_good_def)
  then show ?thesis using free by (simp add: GetMetadataByToken_def)
qed

text \<open>
  Inside a transaction \<^verbatim>\<open>FLUSHDB\<close> raises the epoch in the shared metadata before the transaction commits.  If it is
  aborted, the metadata and the table disagree: the keys of the namespace are hidden although nothing was flushed.
\<close>

theorem flush_in_transaction_diverges:
  assumes "mgr_good ns_inv ns_view m tbl" "cached (ns_view tbl) m p" "meta_epoch (metas m ! p) + 1 < 2 ^ 64"
    and "ExecuteFlushDB_ns eng False m p tbl = (m', pending, FlushOk)"
  shows "mgr_storage m' = Some tbl \<and> \<not> mgr_inv (ns_view tbl) m'"
proof -
  let ?d = "metas m ! p"
  have m': "m' = m\<lparr>metas := (metas m)[p := ?d\<lparr>meta_epoch := meta_epoch ?d + 1\<rparr>]\<rparr>"
    using assms(3,4) by (auto simp: ExecuteFlushDB_ns_def Let_def split: option.splits)
  have "\<not> cached (ns_view tbl) m' p" using assms(2) by (auto simp: cached_def m')
  moreover have "token_metadata m' (token_bytes (meta_token ?d)) = Some p" using assms(2) by (simp add: m' cached_def)
  ultimately show ?thesis using assms(1) mgr_invD(1) by (fastforce simp: mgr_good_def m')
qed

end
