(* ===== verification/StringMatch.thy ===== *)
theory StringMatch
  imports Encoding
begin

text \<open>
  Glob patterns (\<^verbatim>\<open>redis_string_match.cpp\<close>): the matcher with its early exit from nested stars, against the meaning of
  a pattern as a list of tokens.  The pattern is a pointer with a length; the function reads bytes behind the pattern,
  so the memory after it is part of the model.
\<close>

section \<open>The matcher\<close>

text \<open>A byte as the signed \<^verbatim>\<open>char\<close>, and whether a byte of the pattern is the byte of the string.\<close>

definition schar :: "char \<Rightarrow> int" where
  "schar c = (if bcode c < (128 :: nat) then int (bcode c) else int (bcode c) - 256)"

definition same_char :: "bool \<Rightarrow> char \<Rightarrow> char \<Rightarrow> bool" where
  "same_char nocase p c = (if nocase then tolower p = tolower c else p = c)"

definition in_char_range :: "bool \<Rightarrow> char \<Rightarrow> char \<Rightarrow> char \<Rightarrow> bool" where
  "in_char_range nocase a b c =
     (let (start, finish) = (if schar a > schar b then (b, a) else (a, b));
          f = (if nocase then tolower else (\<lambda>x. x))
      in schar (f start) \<le> schar (f c) \<and> schar (f c) \<le> schar (f finish))"

text \<open>
  The memory from the pattern pointer on and the remaining length; \<open>None\<close> is a read outside of the memory.  The loop
  over a bracket returns the memory and length at the byte before the next token, and whether the byte matched.
\<close>

fun bracket_loop :: "bool \<Rightarrow> char \<Rightarrow> bytes \<Rightarrow> int \<Rightarrow> bool \<Rightarrow> (bytes \<times> int \<times> bool) option" where
  "bracket_loop nocase c [] n match = None"
| "bracket_loop nocase c (x # mem) n match =
     (if x = CHR 0x5C \<and> n \<ge> 2
      then (case mem of
              [] \<Rightarrow> None
            | y # mem' \<Rightarrow> bracket_loop nocase c mem' (n - 2) (if y = c then True else match))
      else if x = CHR '']'' then Some (mem, n - 1, match)
      else if n = 0 then Some (x # mem, n, match)
      else if n \<ge> 3 \<and> (case mem of y # _ \<Rightarrow> y = CHR ''-'' | [] \<Rightarrow> False)
      then (case mem of
              y # z # mem' \<Rightarrow> bracket_loop nocase c mem' (n - 3) (if in_char_range nocase x z c then True else match)
            | _ \<Rightarrow> None)
      else bracket_loop nocase c mem (n - 1) (if same_char nocase x c then True else match))"

text \<open>The loop \<^verbatim>\<open>while (patternLen && pattern[1] == '*')\<close>, which looks one byte ahead.\<close>

fun skip_stars :: "bytes \<Rightarrow> int \<Rightarrow> (bytes \<times> int) option" where
  "skip_stars (x # y # mem) n =
     (if n \<noteq> 0 \<and> y = CHR ''*'' then skip_stars (y # mem) (n - 1) else Some (x # y # mem, n))"
| "skip_stars mem n = (if n = 0 then Some (mem, n) else None)"

fun strip_stars :: "bytes \<Rightarrow> int \<Rightarrow> int option" where
  "strip_stars [] n = None"
| "strip_stars (x # mem) n = (if x = CHR ''*'' then strip_stars mem (n - 1) else Some n)"

declare bracket_loop.simps [simp del]

lemma bracket_shrinks: "bracket_loop nc c mem n b = Some (mem', n', r) \<Longrightarrow> length mem' \<le> length mem"
proof (induction mem arbitrary: n b rule: length_induct)
  case (1 mem)
  have IH: "length mem' \<le> length m" if "bracket_loop nc c m k d = Some (mem', n', r)" "length m < length mem" for m k d
    using 1(1) that by blast
  show ?case
  proof (cases mem)
    case (Cons x m)
    from 1(2) show ?thesis
      unfolding Cons bracket_loop.simps(2) [of nc c x m]
      by (auto simp: Cons split: if_splits list.splits dest!: IH)
  qed (use 1(2) in \<open>simp add: bracket_loop.simps\<close>)
qed

lemma skip_shrinks: "skip_stars mem n = Some (mem', n') \<Longrightarrow> length mem' \<le> length mem"
proof (induction mem n rule: skip_stars.induct)
  case (1 x y mem n)
  then show ?case by (cases "n \<noteq> 0 \<and> y = CHR ''*''") auto
qed (auto split: if_splits)

text \<open>
  \<open>match_impl\<close> is \<^verbatim>\<open>stringmatchlen_impl\<close>, \<open>match_loop\<close> its main loop and \<open>star_loop\<close> the loop of a star; the second component
  is \<^verbatim>\<open>*skipLongerMatches\<close>.
\<close>

definition bracket :: "bool \<Rightarrow> char \<Rightarrow> bytes \<Rightarrow> int \<Rightarrow> (bytes \<times> int \<times> bool) option" where
  "bracket nocase c mem n =
     (case mem of
        [] \<Rightarrow> None
      | y # mem' \<Rightarrow>
          if y = CHR ''^'' then map_option (\<lambda>(m, k, match). (m, k, \<not> match)) (bracket_loop nocase c mem' (n - 1) False)
          else bracket_loop nocase c mem n False)"

lemma bracket_less: "bracket nc c mem n = Some (mem', n', r) \<Longrightarrow> length mem' \<le> length mem"
  by (auto simp: bracket_def split: list.splits if_splits dest!: bracket_shrinks)

function match_impl :: "bool \<Rightarrow> bytes \<Rightarrow> int \<Rightarrow> bytes \<Rightarrow> bool \<Rightarrow> (bool \<times> bool) option"
  and match_loop :: "bool \<Rightarrow> bytes \<Rightarrow> int \<Rightarrow> bytes \<Rightarrow> bool \<Rightarrow> (bool \<times> bool) option"
  and star_loop :: "bool \<Rightarrow> bytes \<Rightarrow> int \<Rightarrow> bytes \<Rightarrow> bool \<Rightarrow> (bool \<times> bool) option"
  and match_next :: "bool \<Rightarrow> bytes \<Rightarrow> int \<Rightarrow> bytes \<Rightarrow> bool \<Rightarrow> (bool \<times> bool) option" where
  "match_impl nocase mem n s skip =
     (if list_all (\<lambda>c. c = CHR ''*'') (take (nat n) mem) then Some (True, skip)
      else match_loop nocase mem n s skip)"
| "match_loop nocase mem n s skip =
     (if n = 0 \<or> s = [] then Some (n = 0 \<and> s = [], skip)
      else case mem of
        [] \<Rightarrow> None
      | x # mem1 \<Rightarrow>
          if x = CHR ''*'' then
            (case skip_stars mem n of
               None \<Rightarrow> None
             | Some (mem2, n2) \<Rightarrow>
                 if n2 = 1 then Some (True, skip)
                 else if mem2 = [] then None
                 else star_loop nocase (tl mem2) (n2 - 1) s skip)
          else if x = CHR ''?'' then match_next nocase mem1 (n - 1) (tl s) skip
          else if x = CHR ''['' then
            (case bracket nocase (hd s) mem1 (n - 1) of
               None \<Rightarrow> None
             | Some (mem2, n2, match) \<Rightarrow> if match then match_next nocase mem2 n2 (tl s) skip else Some (False, skip))
          else if x = CHR 0x5C \<and> n \<ge> 2 then
            (if mem1 = [] then None
             else if same_char nocase (hd mem1) (hd s) then match_next nocase (tl mem1) (n - 2) (tl s) skip
             else Some (False, skip))
          else if same_char nocase x (hd s) then match_next nocase mem1 (n - 1) (tl s) skip
          else Some (False, skip))"
| "star_loop nocase mem n s skip =
     (if s = [] then Some (False, True)
      else case match_impl nocase mem n s skip of
             None \<Rightarrow> None
           | Some (r, skip') \<Rightarrow>
               if r then Some (True, skip') else if skip' then Some (False, skip') else star_loop nocase mem n (tl s) skip')"
| "match_next nocase mem n s skip =
     (if s = [] then map_option (\<lambda>n'. (n' = 0, skip)) (strip_stars mem n) else match_loop nocase mem n s skip)"
  by pat_completeness auto
termination
  by (relation "measures [\<lambda>x. case x of Inl (Inl (_, m, _)) \<Rightarrow> length m | Inl (Inr (_, m, _)) \<Rightarrow> length m
      | Inr (Inl (_, m, _)) \<Rightarrow> length m | Inr (Inr (_, m, _)) \<Rightarrow> length m,
    \<lambda>x. case x of Inl (Inl (_, _, _, s, _)) \<Rightarrow> length s | Inl (Inr (_, _, _, s, _)) \<Rightarrow> length s
      | Inr (Inl (_, _, _, s, _)) \<Rightarrow> length s | Inr (Inr (_, _, _, s, _)) \<Rightarrow> length s,
    \<lambda>x. case x of Inl (Inl _) \<Rightarrow> 1 | Inl (Inr _) \<Rightarrow> 0 | Inr (Inl _) \<Rightarrow> 2 | Inr (Inr _) \<Rightarrow> 1]")
    (auto dest!: skip_shrinks bracket_less simp: less_Suc_eq_le neq_Nil_conv)

declare match_impl.simps [simp del] match_loop.simps [simp del] star_loop.simps [simp del] match_next.simps [simp del]

definition stringmatchlen :: "bytes \<Rightarrow> bytes \<Rightarrow> bytes \<Rightarrow> bool \<Rightarrow> bool option" where
  "stringmatchlen pattern behind s nocase =
     map_option fst (match_impl nocase (pattern @ behind) (int (length pattern)) s False)"

definition stringcomp :: "bytes \<Rightarrow> bytes \<Rightarrow> bool \<Rightarrow> bool" where
  "stringcomp s pattern nocase \<longleftrightarrow>
     length pattern = length s \<and>
     list_all (\<lambda>(p, c). if nocase then tolower p = tolower c else p = c) (zip pattern s)"

section \<open>The meaning of a pattern\<close>

datatype class_item = Escaped char | Between char char | One char

datatype glob_token = TStar | TAny | TClass bool "class_item list" | TLit char

fun class_items :: "bytes \<Rightarrow> class_item list \<times> bytes" where
  "class_items [] = ([], [])"
| "class_items (x # p) =
     (if x = CHR 0x5C \<and> p \<noteq> [] then (let (is, r) = class_items (tl p) in (Escaped (hd p) # is, r))
      else if x = CHR '']'' then ([], p)
      else if length p \<ge> 2 \<and> hd p = CHR ''-'' then (let (is, r) = class_items (drop 2 p) in (Between x (p ! 1) # is, r))
      else (let (is, r) = class_items p in (One x # is, r)))"

declare class_items.simps [simp del]

lemma class_items_shrinks: "class_items p = (is, r) \<Longrightarrow> length r \<le> length p"
proof (induction p arbitrary: "is" r rule: length_induct)
  case (1 p)
  have IH: "length r \<le> length q" if "class_items q = (js, r)" "length q < length p" for q js
    using 1(1) that by blast
  show ?case
  proof (cases p)
    case (Cons x q)
    from 1(2) show ?thesis
      unfolding Cons class_items.simps(2) by (auto simp: Cons split: if_splits prod.splits dest!: IH)
  qed (use 1(2) in \<open>simp add: class_items.simps\<close>)
qed

definition glob_class :: "bytes \<Rightarrow> glob_token \<times> bytes" where
  "glob_class p = (if p \<noteq> [] \<and> hd p = CHR ''^'' then (let (is, r) = class_items (tl p) in (TClass True is, r))
     else (let (is, r) = class_items p in (TClass False is, r)))"

lemma glob_class_shrinks: "glob_class p = (t, r) \<Longrightarrow> length r \<le> length p"
  by (auto simp: glob_class_def split: if_splits prod.splits dest!: class_items_shrinks)

function glob_tokens :: "bytes \<Rightarrow> glob_token list" where
  "glob_tokens [] = []"
| "glob_tokens (x # p) =
     (if x = CHR ''*'' then TStar # glob_tokens p
      else if x = CHR ''?'' then TAny # glob_tokens p
      else if x = CHR ''['' then (let (t, r) = glob_class p in t # glob_tokens r)
      else if x = CHR 0x5C \<and> p \<noteq> [] then TLit (hd p) # glob_tokens (tl p)
      else TLit x # glob_tokens p)"
  by pat_completeness auto
termination by (relation "measure length") (auto dest!: sym [of "(_, _)"] glob_class_shrinks simp: less_Suc_eq_le)

declare glob_tokens.simps [simp del]

fun item_matches :: "bool \<Rightarrow> char \<Rightarrow> class_item \<Rightarrow> bool" where
  "item_matches nocase c (Escaped x) = (x = c)"
| "item_matches nocase c (Between a b) = in_char_range nocase a b c"
| "item_matches nocase c (One x) = same_char nocase x c"

fun token_matches :: "bool \<Rightarrow> glob_token \<Rightarrow> char \<Rightarrow> bool" where
  "token_matches nocase TStar c = False"
| "token_matches nocase TAny c = True"
| "token_matches nocase (TClass neg is) c = (list_ex (item_matches nocase c) is \<noteq> neg)"
| "token_matches nocase (TLit x) c = same_char nocase x c"

text \<open>A star stands for any bytes, every other token for one.\<close>

fun glob :: "bool \<Rightarrow> glob_token list \<Rightarrow> bytes \<Rightarrow> bool" where
  "glob nocase [] s = (s = [])"
| "glob nocase (t # ts) s =
     (if t = TStar then list_ex (\<lambda>k. glob nocase ts (drop k s)) [0..<Suc (length s)]
      else case s of [] \<Rightarrow> False | c # s' \<Rightarrow> token_matches nocase t c \<and> glob nocase ts s')"

section \<open>The matcher computes the meaning\<close>

abbreviation NUL :: char where
  "NUL \<equiv> CHR 0x00"

text \<open>The steps of the loop over a bracket.\<close>

lemma bracket_steps:
  "n \<ge> 2 \<Longrightarrow> bracket_loop nc c (CHR 0x5C # y # m) n b = bracket_loop nc c m (n - 2) (b \<or> y = c)"
  "bracket_loop nc c (CHR '']'' # m) n b = Some (m, n - 1, b)"
  "bracket_loop nc c (NUL # m) 0 b = Some (NUL # m, 0, b)"
  "x \<noteq> CHR '']'' \<Longrightarrow> x \<noteq> CHR 0x5C \<Longrightarrow> n \<ge> 3 \<Longrightarrow>
     bracket_loop nc c (x # CHR ''-'' # z # m) n b = bracket_loop nc c m (n - 3) (b \<or> in_char_range nc x z c)"
  "x \<noteq> CHR '']'' \<Longrightarrow> \<not> (x = CHR 0x5C \<and> n \<ge> 2) \<Longrightarrow> n \<noteq> 0 \<Longrightarrow> \<not> (n \<ge> 3 \<and> y = CHR ''-'') \<Longrightarrow>
     bracket_loop nc c (x # y # m) n b = bracket_loop nc c (y # m) (n - 1) (b \<or> same_char nc x c)"
proof -
  have i: "(if p then True else b) = (b \<or> p)" for p by simp
  show "n \<ge> 2 \<Longrightarrow> bracket_loop nc c (CHR 0x5C # y # m) n b = bracket_loop nc c m (n - 2) (b \<or> y = c)"
    by (subst bracket_loop.simps(2)) (simp add: i)
  show "bracket_loop nc c (CHR '']'' # m) n b = Some (m, n - 1, b)" by (subst bracket_loop.simps(2)) simp
  show "bracket_loop nc c (NUL # m) 0 b = Some (NUL # m, 0, b)" by (subst bracket_loop.simps(2)) simp
  show "bracket_loop nc c (x # CHR ''-'' # z # m) n b = bracket_loop nc c m (n - 3) (b \<or> in_char_range nc x z c)"
    if "x \<noteq> CHR '']''" "x \<noteq> CHR 0x5C" "n \<ge> 3"
    using that by (subst bracket_loop.simps(2)) (simp add: i)
  show "bracket_loop nc c (x # y # m) n b = bracket_loop nc c (y # m) (n - 1) (b \<or> same_char nc x c)"
    if "x \<noteq> CHR '']''" "\<not> (x = CHR 0x5C \<and> n \<ge> 2)" "n \<noteq> 0" "\<not> (n \<ge> 3 \<and> y = CHR ''-'')"
    by (subst bracket_loop.simps(2)) (use that in \<open>auto simp: i\<close>)
qed

text \<open>Inside a bracket, with a zero byte behind the pattern.\<close>

lemma bracket_loop_items:
  assumes "class_items p = (is, r)"
  shows "bracket_loop nc c (p @ NUL # t) (int (length p)) b = Some (r @ NUL # t, int (length r), b \<or> list_ex (item_matches nc c) is)"
  using assms
proof (induction p arbitrary: b "is" r rule: length_induct)
  case (1 p)
  have IH: "bracket_loop nc c (q @ NUL # t) (int (length q)) b = Some (r @ NUL # t, int (length r), b \<or> list_ex (item_matches nc c) js)"
    if "length q < length p" "class_items q = (js, r)" for q js b r
    using 1(1) that by blast
  show ?case
  proof (cases p)
    case Nil
    then show ?thesis using 1(2) by (simp add: class_items.simps bracket_steps)
  next
    case (Cons x q)
    consider (esc) "x = CHR 0x5C" "q \<noteq> []" | (close) "x = CHR '']''"
      | (range) "x \<noteq> CHR '']''" "\<not> (x = CHR 0x5C \<and> q \<noteq> [])" "length q \<ge> 2" "hd q = CHR ''-''"
      | (one) "x \<noteq> CHR '']''" "\<not> (x = CHR 0x5C \<and> q \<noteq> [])" "\<not> (length q \<ge> 2 \<and> hd q = CHR ''-'')"
      by blast
    then show ?thesis
    proof cases
      case esc
      then obtain y q' where q: "q = y # q'" by (cases q) auto
      obtain js where "class_items q' = (js, r)" "is = Escaped y # js"
        using 1(2) esc by (auto simp: Cons q class_items.simps(2) [of _ "y # q'"] split: prod.splits)
      then show ?thesis using IH [of q' js r "b \<or> y = c"] esc by (simp add: Cons q bracket_steps)
    next
      case close
      then have "is = []" "r = q" using 1(2) by (auto simp: Cons class_items.simps(2))
      then show ?thesis using close by (simp add: Cons bracket_steps)
    next
      case range
      then obtain z q' where q: "q = CHR ''-'' # z # q'" by (cases q; cases "tl q") auto
      obtain js where "class_items q' = (js, r)" "is = Between x z # js"
        using 1(2) range by (auto simp: Cons q class_items.simps(2) [of x] split: prod.splits)
      then show ?thesis using IH [of q' js r "b \<or> in_char_range nc x z c"] range
        by (simp add: Cons q bracket_steps)
    next
      case one
      obtain js where "class_items q = (js, r)" "is = One x # js"
        using 1(2) one by (auto simp: Cons class_items.simps(2) [of x] split: prod.splits if_splits)
      then show ?thesis using IH [of q js r "b \<or> same_char nc x c"] one
        by (cases q) (auto simp: Cons bracket_steps)
    qed
  qed
qed

abbreviation allstar :: "bytes \<Rightarrow> bool" where
  "allstar p \<equiv> list_all (\<lambda>c. c = CHR ''*'') p"

lemma glob_star: "glob nc (TStar # ts) s \<longleftrightarrow> (\<exists>k \<le> length s. glob nc ts (drop k s))"
  by (auto simp: list_ex_iff less_Suc_eq_le simp del: upt_Suc)

lemma glob_star_any: "glob nc (TStar # ts) s \<longleftrightarrow> (\<exists>k. glob nc ts (drop k s))"
  unfolding glob_star by (metis drop_all nat_le_linear order_refl)

lemma glob_star_star: "glob nc (TStar # TStar # ts) s \<longleftrightarrow> glob nc (TStar # ts) s"
  unfolding glob_star_any [of nc "TStar # ts"] unfolding glob_star_any
  by (metis drop_0 drop_drop)

lemma glob_tokens_star [simp]: "glob_tokens (CHR ''*'' # p) = TStar # glob_tokens p" "glob_tokens [] = []"
  by (simp_all add: glob_tokens.simps)

lemma glob_stars: "glob nc (TStar # glob_tokens (dropWhile (\<lambda>c. c = CHR ''*'') p)) s \<longleftrightarrow> glob nc (TStar # glob_tokens p) s"
  by (induction p arbitrary: s) (auto simp del: glob.simps simp: glob_star_star)

text \<open>One token that is not a star.\<close>

lemma match_step:
  assumes "x \<noteq> CHR ''*''"
  obtains t r where "glob_tokens (x # p) = t # glob_tokens r" "t \<noteq> TStar" "length r \<le> length p"
    and "\<And>c s. match_loop nc (x # p @ NUL # u) (int (length (x # p))) (c # s) skip =
      (if token_matches nc t c then match_next nc (r @ NUL # u) (int (length r)) s skip else Some (False, skip))"
proof -
  consider (any) "x = CHR ''?''" | (bracket) "x = CHR ''[''" | (esc) "x = CHR 0x5C" "p \<noteq> []"
    | (lit) "x \<noteq> CHR ''?''" "x \<noteq> CHR ''[''" "\<not> (x = CHR 0x5C \<and> p \<noteq> [])" by blast
  then show thesis
  proof cases
    case any
    then show thesis by (intro that [of TAny p]) (simp_all add: glob_tokens.simps match_loop.simps)
  next
    case bracket
    show thesis
    proof (cases "p \<noteq> [] \<and> hd p = CHR ''^''")
      case True
      then obtain q where p: "p = CHR ''^'' # q" by (cases p) auto
      obtain js r where c: "class_items q = (js, r)" by (cases "class_items q")
      show thesis
        using class_items_shrinks [OF c] bracket_loop_items [OF c, of nc _ u False]
        by (intro that [of "TClass True js" r])
          (simp_all add: glob_tokens.simps bracket p glob_class_def c match_loop.simps bracket_def)
    next
      case False
      obtain js r where c: "class_items p = (js, r)" by (cases "class_items p")
      have "bracket nc d (p @ NUL # u) (int (length p)) = bracket_loop nc d (p @ NUL # u) (int (length p)) False" for d
        using False by (cases p) (auto simp: bracket_def)
      then show thesis
        using False class_items_shrinks [OF c] bracket_loop_items [OF c, of nc _ u False]
        by (intro that [of "TClass False js" r]) (auto simp: glob_tokens.simps bracket glob_class_def c match_loop.simps)
    qed
  next
    case esc
    then obtain y q where "p = y # q" by (cases p) auto
    then show thesis using esc by (intro that [of "TLit y" q]) (simp_all add: glob_tokens.simps match_loop.simps)
  next
    case lit
    then show thesis using assms
      by (intro that [of "TLit x" p]) (auto simp: glob_tokens.simps match_loop.simps)
  qed
qed

lemma skip_stars_run:
  "skip_stars (CHR ''*'' # p @ NUL # u) (int (length p) + 1) =
     (let q = dropWhile (\<lambda>c. c = CHR ''*'') p in Some (CHR ''*'' # q @ NUL # u, int (length q) + 1))"
proof (induction p)
  case (Cons x p)
  then show ?case by (cases "x = CHR ''*''") (simp_all add: Let_def algebra_simps)
qed simp

lemma strip_stars_run: "strip_stars (p @ NUL # u) n = Some (n - int (length p) + int (length (dropWhile (\<lambda>c. c = CHR ''*'') p)))"
  by (induction p arbitrary: n) auto

lemma dropWhile_allstar: "dropWhile (\<lambda>c. c = CHR ''*'') p = [] \<longleftrightarrow> allstar p"
  by (induction p) auto

lemma glob_empty: "glob nc (glob_tokens p) [] \<longleftrightarrow> allstar p"
proof (induction p)
  case (Cons x p)
  show ?case
  proof (cases "x = CHR ''*''")
    case True
    then show ?thesis using Cons by (simp add: glob_star del: glob.simps)
  next
    case False
    then show ?thesis by (rule match_step [of x p undefined undefined undefined]) (use False in auto)
  qed
qed simp

text \<open>A failed search for what follows a star fails in every later part of the string as well.\<close>

lemma glob_star_later: "\<not> glob nc (TStar # ts) s \<Longrightarrow> \<not> glob nc (TStar # ts) (drop k s)"
  unfolding glob_star_any by (simp add: drop_drop)

definition hopeless :: "bool \<Rightarrow> bytes \<Rightarrow> bytes \<Rightarrow> bool" where
  "hopeless nc p s \<longleftrightarrow> (\<forall>k. \<not> glob nc (glob_tokens p) (drop k s))"

definition computes :: "bool \<Rightarrow> bytes \<Rightarrow> bytes \<Rightarrow> (bool \<times> bool) option \<Rightarrow> bool" where
  "computes nc p s res \<longleftrightarrow>
     (\<exists>skip. res = Some (glob nc (glob_tokens p) s, skip) \<and> (skip \<and> \<not> glob nc (glob_tokens p) s \<longrightarrow> hopeless nc p s))"

lemma star_loop_computes:
  assumes q: "\<not> allstar q" and IH: "\<And>s. s \<noteq> [] \<Longrightarrow> computes nc q s (match_loop nc (q @ NUL # u) (int (length q)) s False)"
  shows "\<exists>skip. star_loop nc (q @ NUL # u) (int (length q)) s False = Some (glob nc (TStar # glob_tokens q) s, skip)"
proof (induction s)
  case Nil
  show ?case using q by (intro exI [of _ True]) (simp add: star_loop.simps glob_star glob_empty del: glob.simps)
next
  case (Cons c s)
  have i: "match_impl nc (q @ NUL # u) (int (length q)) (c # s) False = match_loop nc (q @ NUL # u) (int (length q)) (c # s) False"
    using q by (simp add: match_impl.simps)
  obtain skip where m: "match_loop nc (q @ NUL # u) (int (length q)) (c # s) False = Some (glob nc (glob_tokens q) (c # s), skip)"
    "skip \<and> \<not> glob nc (glob_tokens q) (c # s) \<longrightarrow> hopeless nc q (c # s)"
    using IH [of "c # s"] by (auto simp: computes_def)
  have step: "glob nc (TStar # glob_tokens q) (c # s) \<longleftrightarrow> glob nc (glob_tokens q) (c # s) \<or> glob nc (TStar # glob_tokens q) s"
    unfolding glob_star_any by (metis drop_0 drop_Suc_Cons not0_implies_Suc)
  show ?case
  proof (cases "glob nc (glob_tokens q) (c # s) \<or> \<not> skip")
    case True
    then show ?thesis using Cons m(1) i step by (auto simp: star_loop.simps [of nc _ _ "c # s"] simp del: glob.simps)
  next
    case False
    then have "\<not> glob nc (TStar # glob_tokens q) (c # s)" using m(2) unfolding glob_star_any hopeless_def by blast
    then show ?thesis using False m(1) i by (auto simp: star_loop.simps [of nc _ _ "c # s"] simp del: glob.simps)
  qed
qed

lemma match_next_computes:
  assumes "s \<noteq> [] \<Longrightarrow> computes nc r s (match_loop nc (r @ NUL # u) (int (length r)) s False)"
  shows "computes nc r s (match_next nc (r @ NUL # u) (int (length r)) s False)"
proof (cases "s = []")
  case True
  then show ?thesis
    by (auto simp: match_next.simps strip_stars_run computes_def glob_empty list_all_iff)
qed (use assms in \<open>simp add: match_next.simps\<close>)

lemma glob_allstar: "allstar p \<Longrightarrow> p \<noteq> [] \<Longrightarrow> glob nc (glob_tokens p) s"
proof (induction p)
  case (Cons x p)
  have "glob nc (TStar # glob_tokens p) s"
    unfolding glob_star_any using Cons(2) by (intro exI [of _ "length s"]) (simp add: glob_empty)
  then show ?case using Cons(2) by (simp del: glob.simps)
qed simp

text \<open>A run of stars and what follows it.\<close>

lemma match_loop_star:
  fixes p u
  defines "q \<equiv> dropWhile (\<lambda>c. c = CHR ''*'') p"
  assumes "s \<noteq> []"
  shows "match_loop nc (CHR ''*'' # p @ NUL # u) (int (length p) + 1) s False =
    (if q = [] then Some (True, False) else star_loop nc (q @ NUL # u) (int (length q)) s False)"
  using assms(2) skip_stars_run [of p u] unfolding q_def [symmetric]
  by (simp add: match_loop.simps [of nc "CHR ''*'' # _"] Let_def del: skip_stars.simps)

lemma match_star_computes:
  assumes s: "s \<noteq> []"
    and IH: "\<And>q s. length q \<le> length p \<Longrightarrow> s \<noteq> [] \<Longrightarrow> computes nc q s (match_loop nc (q @ NUL # u) (int (length q)) s False)"
  shows "computes nc (CHR ''*'' # p) s (match_loop nc (CHR ''*'' # p @ NUL # u) (int (length p) + 1) s False)"
proof (cases "allstar p")
  case True
  then have "glob nc (glob_tokens (CHR ''*'' # p)) s" by (intro glob_allstar) auto
  then show ?thesis using True match_loop_star [OF s, of nc p u]
    by (auto simp: computes_def list_all_iff simp del: glob.simps)
next
  case False
  let ?q = "dropWhile (\<lambda>c. c = CHR ''*'') p"
  have n: "?q \<noteq> []" using False by (auto simp: list_all_iff)
  then have "hd ?q \<noteq> CHR ''*''" by (rule hd_dropWhile)
  then have q: "\<not> allstar ?q" using n by (cases ?q) auto
  obtain skip where "star_loop nc (?q @ NUL # u) (int (length ?q)) s False = Some (glob nc (TStar # glob_tokens ?q) s, skip)"
    using star_loop_computes [OF q, of nc u s] IH [OF length_dropWhile_le] by blast
  then have "match_loop nc (CHR ''*'' # p @ NUL # u) (int (length p) + 1) s False = Some (glob nc (TStar # glob_tokens p) s, skip)"
    using match_loop_star [OF s, of nc p u] n glob_stars [of nc p s] by (auto simp del: glob.simps)
  then show ?thesis using glob_star_later [of nc "glob_tokens p" s]
    by (simp add: computes_def hopeless_def del: glob.simps)
qed

lemma match_loop_computes:
  assumes "s \<noteq> []"
  shows "computes nc p s (match_loop nc (p @ NUL # u) (int (length p)) s False)"
  using assms
proof (induction p arbitrary: s rule: length_induct)
  case (1 p)
  show ?case
  proof (cases p)
    case Nil
    then show ?thesis using 1(2) by (auto simp: computes_def match_loop.simps)
  next
    case (Cons x p')
    obtain c s' where s: "s = c # s'" using 1(2) by (cases s) auto
    show ?thesis
    proof (cases "x = CHR ''*''")
      case True
      have "computes nc (CHR ''*'' # p') s (match_loop nc (CHR ''*'' # p' @ NUL # u) (int (length p') + 1) s False)"
        by (rule match_star_computes [OF 1(2)]) (use 1(1) in \<open>auto simp: Cons less_Suc_eq_le\<close>)
      then show ?thesis using True by (simp add: Cons add.commute)
    next
      case False
      obtain t r where t: "glob_tokens (x # p') = t # glob_tokens r" "t \<noteq> TStar" "length r \<le> length p'"
        and m: "match_loop nc (x # p' @ NUL # u) (int (length (x # p'))) (c # s') False =
          (if token_matches nc t c then match_next nc (r @ NUL # u) (int (length r)) s' False else Some (False, False))"
        using match_step [OF False, of p' nc u False] by metis
      have "computes nc r s' (match_next nc (r @ NUL # u) (int (length r)) s' False)"
        by (rule match_next_computes) (use 1(1) t(3) in \<open>auto simp: Cons less_Suc_eq_le\<close>)
      moreover have "hopeless nc (x # p') (c # s')" if h: "hopeless nc r s'"
        unfolding hopeless_def
      proof
        fix k
        have "drop k (c # s') = [] \<or> (\<exists>d. drop k (c # s') = d # drop k s')"
          by (cases "k < length (c # s')") (auto simp: Cons_nth_drop_Suc [symmetric])
        then show "\<not> glob nc (glob_tokens (x # p')) (drop k (c # s'))" using h t(1,2) by (auto simp: hopeless_def)
      qed
      ultimately show ?thesis unfolding Cons s append_Cons m using t(1,2) by (auto simp: computes_def hopeless_def)
    qed
  qed
qed

text \<open>
  For a pattern followed by a zero byte the matcher returns, reads no further than that byte, and accepts the strings
  the pattern stands for, the early exit included; the empty pattern accepts every string.
\<close>

lemma stringmatchlen_spec:
  "stringmatchlen pattern (NUL # u) s nocase = Some (pattern = [] \<or> glob nocase (glob_tokens pattern) s)"
proof (cases "allstar pattern")
  case True
  then show ?thesis using glob_allstar [OF True] by (auto simp: stringmatchlen_def match_impl.simps)
next
  case False
  then show ?thesis
    using match_loop_computes [of s nocase pattern u] glob_empty [of nocase pattern]
    by (cases "s = []") (auto simp: stringmatchlen_def match_impl.simps computes_def match_loop.simps [of nocase _ _ "[]"])
qed

text \<open>\<^verbatim>\<open>stringcomp\<close> is equality, up to the case of the letters.\<close>

lemma stringcomp_eq: "stringcomp s pattern nocase \<longleftrightarrow> (if nocase then map tolower s = map tolower pattern else s = pattern)"
proof -
  have m: "length p = length s \<and> list_all (\<lambda>(p, c). f p = f c) (zip p s) \<longleftrightarrow> map f s = map f p" for f :: "char \<Rightarrow> char" and p s
    by (induction p s rule: list_induct2') auto
  show ?thesis using m [of pattern s tolower] m [of pattern s "\<lambda>x. x"] by (auto simp: stringcomp_def)
qed

text \<open>
  (C28) A pattern followed by a zero byte is matched as a whole: the function returns, reads no further than that byte, and
  accepts exactly the strings the tokens of the pattern stand for, so the early exit from nested stars loses nothing; the
  empty pattern accepts every string.
\<close>

theorem stringmatchlen_glob:
  "stringmatchlen pattern (NUL # u) s nocase = Some (pattern = [] \<or> glob nocase (glob_tokens pattern) s)"
  by (rule stringmatchlen_spec)

end
