(* ===== verification/PubSub.thy ===== *)
theory PubSub
  imports StringMatch RedisBase "HOL-Library.AList" "HOL-Library.Multiset"
begin

text \<open>
  Publish and subscribe (\<^verbatim>\<open>pub_sub_manager.cpp\<close>, the subscriptions kept by a connection in
  \<^verbatim>\<open>redis_connection_context.cpp\<close>, and the handlers in \<^verbatim>\<open>redis_handler.cpp\<close>).  The manager holds the clients of every
  channel and of every pattern, each connection holds its own channels and patterns; both sides are kept in step under
  one lock, so every call of the manager is one step.  The destructor of a connection tests the connection's own sets before it takes the
  lock; only the commands of that connection change them, so the test and the call are one step too.  The manager treats channels and patterns alike, so the two tables with the
  sets of the connections are two values of one type, \<open>side\<close>.  A failed \<^verbatim>\<open>assert\<close> is \<open>None\<close>.
\<close>

section \<open>State\<close>

text \<open>
  A table is a \<^verbatim>\<open>flat_hash_map\<close> in its (unspecified) order of iteration; a client is the address of its connection.
\<close>

type_synonym table = "(bytes \<times> nat list) list"

record side =
  subs :: table
  joined :: "nat \<Rightarrow> bytes list"

record pub_sub =
  chans :: side
  pats :: side
  flushed :: "(nat \<times> reply list) list"

definition PubSubManager :: pub_sub where
  "PubSubManager = \<lparr>chans = \<lparr>subs = [], joined = \<lambda>_. []\<rparr>, pats = \<lparr>subs = [], joined = \<lambda>_. []\<rparr>, flushed = []\<rparr>"

definition clients_of :: "side \<Rightarrow> bytes \<Rightarrow> nat list" where
  "clients_of s k = (case map_of (subs s) k of None \<Rightarrow> [] | Some cs \<Rightarrow> cs)"

definition SubscriptionsCount :: "pub_sub \<Rightarrow> nat \<Rightarrow> int" where
  "SubscriptionsCount ps c = to_signed 32 (int (length (joined (chans ps) c) + length (joined (pats ps) c)))"

text \<open>The reply is written to the connection and submitted to its socket.\<close>

definition FlushOutput :: "nat \<Rightarrow> reply list \<Rightarrow> pub_sub \<Rightarrow> pub_sub" where
  "FlushOutput c out ps = ps\<lparr>flushed := flushed ps @ [(c, out)]\<rparr>"

definition notice :: "bytes \<Rightarrow> reply \<Rightarrow> int \<Rightarrow> reply list" where
  "notice what name n = [OnArrayStart 3, OnString what, name, OnInt n, OnArrayEnd]"

section \<open>One side\<close>

text \<open>
  The connection's own set, with its assertions: the name is new when it is added and present when it is removed.
\<close>

definition ctx_add :: "bytes \<Rightarrow> nat \<Rightarrow> (nat \<Rightarrow> bytes list) \<Rightarrow> (nat \<Rightarrow> bytes list) option" where
  "ctx_add k c j = (if k \<in> set (j c) then None else Some (j(c := j c @ [k])))"

definition ctx_remove :: "bytes \<Rightarrow> nat \<Rightarrow> (nat \<Rightarrow> bytes list) \<Rightarrow> (nat \<Rightarrow> bytes list) option" where
  "ctx_remove k c j = (if k \<in> set (j c) then Some (j(c := remove1 k (j c))) else None)"

definition side_add :: "bytes \<Rightarrow> nat \<Rightarrow> side \<Rightarrow> side option" where
  "side_add k c s =
     (let cs = clients_of s k in
      if c \<in> set cs then Some s
      else map_option (\<lambda>j. \<lparr>subs = AList.update k (cs @ [c]) (subs s), joined = j\<rparr>) (ctx_add k c (joined s)))"

definition side_drop :: "bytes \<Rightarrow> nat \<Rightarrow> side \<Rightarrow> side option" where
  "side_drop k c s =
     (case map_of (subs s) k of
        None \<Rightarrow> Some s
      | Some cs \<Rightarrow>
          if c \<in> set cs then
            (let cs' = remove1 c cs;
                 t = (if cs' = [] then AList.delete k (subs s) else AList.update k cs' (subs s))
             in map_option (\<lambda>j. \<lparr>subs = t, joined = j\<rparr>) (ctx_remove k c (joined s)))
          else Some s)"

text \<open>
  The walk over the table that unsubscribes a client from everything, with the reply for every name it leaves (given the
  number of names the client still has on this side), and \<^verbatim>\<open>absl::erase_if\<close> of the names nobody subscribes to.
\<close>

fun side_walk :: "nat \<Rightarrow> (bytes \<Rightarrow> nat \<Rightarrow> reply list) \<Rightarrow> table \<Rightarrow> (nat \<Rightarrow> bytes list) \<Rightarrow>
    (table \<times> (nat \<Rightarrow> bytes list) \<times> reply list list) option" where
  "side_walk c rep [] j = Some ([], j, [])"
| "side_walk c rep ((k, cs) # t) j =
     (if c \<in> set cs then
        (case ctx_remove k c j of
           None \<Rightarrow> None
         | Some j' \<Rightarrow>
             map_option (\<lambda>(t', j'', out). ((k, remove1 c cs) # t', j'', rep k (length (j' c)) # out)) (side_walk c rep t j'))
      else map_option (\<lambda>(t', j'', out). ((k, cs) # t', j'', out)) (side_walk c rep t j))"

definition erase_empty :: "table \<Rightarrow> table" where
  "erase_empty t = filter (\<lambda>(k, cs). cs \<noteq> []) t"

definition side_erase :: "nat \<Rightarrow> side \<Rightarrow> side" where
  "side_erase c s = s\<lparr>subs := erase_empty (map (\<lambda>(k, cs). (k, remove1 c cs)) (subs s))\<rparr>"

section \<open>The manager\<close>

definition SubscribeChannel :: "bytes \<Rightarrow> nat \<Rightarrow> pub_sub \<Rightarrow> pub_sub option" where
  "SubscribeChannel chan c ps = map_option (\<lambda>s. ps\<lparr>chans := s\<rparr>) (side_add chan c (chans ps))"

definition UnsubscribeChannel :: "bytes \<Rightarrow> nat \<Rightarrow> pub_sub \<Rightarrow> pub_sub option" where
  "UnsubscribeChannel chan c ps = map_option (\<lambda>s. ps\<lparr>chans := s\<rparr>) (side_drop chan c (chans ps))"

definition SubscribePattern :: "bytes \<Rightarrow> nat \<Rightarrow> pub_sub \<Rightarrow> pub_sub option" where
  "SubscribePattern pattern c ps = map_option (\<lambda>s. ps\<lparr>pats := s\<rparr>) (side_add pattern c (pats ps))"

definition UnsubscribePattern :: "bytes \<Rightarrow> nat \<Rightarrow> pub_sub \<Rightarrow> pub_sub option" where
  "UnsubscribePattern pattern c ps = map_option (\<lambda>s. ps\<lparr>pats := s\<rparr>) (side_drop pattern c (pats ps))"

text \<open>The loop over the names of a command: a call, then a reply with the number of subscriptions.\<close>

fun each :: "(bytes \<Rightarrow> nat \<Rightarrow> pub_sub \<Rightarrow> pub_sub option) \<Rightarrow> bytes \<Rightarrow> bytes list \<Rightarrow> nat \<Rightarrow> pub_sub \<Rightarrow> pub_sub option" where
  "each call what [] c ps = Some ps"
| "each call what (k # ks) c ps =
     (case call k c ps of
        None \<Rightarrow> None
      | Some ps' \<Rightarrow> each call what ks c (FlushOutput c (notice what (OnString k) (SubscriptionsCount ps' c)) ps'))"

definition Subscribe :: "bytes list \<Rightarrow> nat \<Rightarrow> pub_sub \<Rightarrow> pub_sub option" where
  "Subscribe cs c ps = each SubscribeChannel ''subscribe'' cs c ps"

definition PSubscribe :: "bytes list \<Rightarrow> nat \<Rightarrow> pub_sub \<Rightarrow> pub_sub option" where
  "PSubscribe patterns c ps = each SubscribePattern ''psubscribe'' patterns c ps"

text \<open>Unsubscribing without names: the walk, and a reply without a name when there was nothing to leave.\<close>

datatype kind = Chan | Pat

fun side_of :: "kind \<Rightarrow> pub_sub \<Rightarrow> side" where
  "side_of Chan ps = chans ps"
| "side_of Pat ps = pats ps"

fun put_side :: "kind \<Rightarrow> side \<Rightarrow> pub_sub \<Rightarrow> pub_sub" where
  "put_side Chan s ps = ps\<lparr>chans := s\<rparr>"
| "put_side Pat s ps = ps\<lparr>pats := s\<rparr>"

fun other :: "kind \<Rightarrow> kind" where
  "other Chan = Pat"
| "other Pat = Chan"

definition left_all :: "bytes \<Rightarrow> nat \<Rightarrow> reply list list \<Rightarrow> pub_sub \<Rightarrow> pub_sub" where
  "left_all what c out ps =
     fold (FlushOutput c) (if out = [] then [notice what OnNil (SubscriptionsCount ps c)] else out) ps"

definition leave_everything :: "kind \<Rightarrow> bytes \<Rightarrow> nat \<Rightarrow> pub_sub \<Rightarrow> pub_sub option" where
  "leave_everything kd what c ps =
     map_option (\<lambda>(t, j, out). left_all what c out (put_side kd \<lparr>subs = erase_empty t, joined = j\<rparr> ps))
       (side_walk c (\<lambda>k n. notice what (OnString k) (to_signed 32 (int (n + length (joined (side_of (other kd) ps) c)))))
          (subs (side_of kd ps)) (joined (side_of kd ps)))"

definition Unsubscribe :: "bytes list \<Rightarrow> nat \<Rightarrow> pub_sub \<Rightarrow> pub_sub option" where
  "Unsubscribe cs c ps =
     (if cs = [] then leave_everything Chan ''unsubscribe'' c ps else each UnsubscribeChannel ''unsubscribe'' cs c ps)"

definition PUnsubscribe :: "bytes list \<Rightarrow> nat \<Rightarrow> pub_sub \<Rightarrow> pub_sub option" where
  "PUnsubscribe patterns c ps =
     (if patterns = [] then leave_everything Pat ''punsubscribe'' c ps else each UnsubscribePattern ''punsubscribe'' patterns c ps)"

definition UnsubscribeAll :: "nat \<Rightarrow> pub_sub \<Rightarrow> pub_sub" where
  "UnsubscribeAll c ps = ps\<lparr>chans := side_erase c (chans ps), pats := side_erase c (pats ps)\<rparr>"

text \<open>\<^verbatim>\<open>Publish\<close>: the clients of the channel, then those of every matching pattern; \<open>None\<close> is a bad read of a pattern.\<close>

definition message :: "bytes \<Rightarrow> bytes \<Rightarrow> reply list" where
  "message chan msg = [OnArrayStart 3, OnString ''message'', OnString chan, OnString msg, OnArrayEnd]"

definition pmessage :: "bytes \<Rightarrow> bytes \<Rightarrow> bytes \<Rightarrow> reply list" where
  "pmessage pattern chan msg =
     [OnArrayStart 4, OnString ''pmessage'', OnString pattern, OnString chan, OnString msg, OnArrayEnd]"

fun publish_to :: "nat list \<Rightarrow> reply list \<Rightarrow> int \<times> pub_sub \<Rightarrow> int \<times> pub_sub" where
  "publish_to [] out (received, ps) = (received, ps)"
| "publish_to (c # cs) out (received, ps) = publish_to cs out (received + 1, FlushOutput c out ps)"

fun publish_patterns :: "table \<Rightarrow> bytes \<Rightarrow> bytes \<Rightarrow> int \<times> pub_sub \<Rightarrow> (int \<times> pub_sub) option" where
  "publish_patterns [] chan msg acc = Some acc"
| "publish_patterns ((pattern, cs) # t) chan msg acc =
     (case stringmatchlen pattern [NUL] chan False of
        None \<Rightarrow> None
      | Some b \<Rightarrow> publish_patterns t chan msg (if b then publish_to cs (pmessage pattern chan msg) acc else acc))"

definition Publish :: "bytes \<Rightarrow> bytes \<Rightarrow> pub_sub \<Rightarrow> (int \<times> pub_sub) option" where
  "Publish chan msg ps =
     publish_patterns (subs (pats ps)) chan msg (publish_to (clients_of (chans ps) chan) (message chan msg) (0, ps))"

section \<open>Connections and handlers\<close>

definition new_connection :: "nat \<Rightarrow> pub_sub \<Rightarrow> pub_sub" where
  "new_connection c ps =
     ps\<lparr>chans := (chans ps)\<lparr>joined := (joined (chans ps))(c := [])\<rparr>, pats := (pats ps)\<lparr>joined := (joined (pats ps))(c := [])\<rparr>\<rparr>"

definition destroy :: "nat \<Rightarrow> pub_sub \<Rightarrow> pub_sub" where
  "destroy c ps = (if joined (chans ps) c \<noteq> [] \<or> joined (pats ps) c \<noteq> [] then UnsubscribeAll c ps else ps)"

text \<open>The handlers get the words after the name of the command; the second component is what they put into the reply.\<close>

datatype handler = SubscribeHandler | UnsubscribeHandler | PSubscribeHandler | PUnsubscribeHandler | PublishHandler

fun Run :: "handler \<Rightarrow> bytes list \<Rightarrow> nat \<Rightarrow> pub_sub \<Rightarrow> (pub_sub \<times> reply list) option" where
  "Run SubscribeHandler args c ps =
     (if args = [] then Some (ps, [OnError ''ERR wrong number of arguments for 'subscribe' command''])
      else map_option (\<lambda>ps'. (ps', [])) (Subscribe args c ps))"
| "Run UnsubscribeHandler args c ps = map_option (\<lambda>ps'. (ps', [])) (Unsubscribe args c ps)"
| "Run PSubscribeHandler args c ps =
     (if args = [] then Some (ps, [OnError ''ERR wrong number of arguments for 'psubscribe' command''])
      else map_option (\<lambda>ps'. (ps', [])) (PSubscribe args c ps))"
| "Run PUnsubscribeHandler args c ps = map_option (\<lambda>ps'. (ps', [])) (PUnsubscribe args c ps)"
| "Run PublishHandler args c ps =
     (case args of
        [chan, msg] \<Rightarrow> map_option (\<lambda>(received, ps'). (ps', [OnInt received])) (Publish chan msg ps)
      | _ \<Rightarrow> Some (ps, [OnError ''ERR wrong number of arguments for 'publish' command'']))"

section \<open>The two views of a side agree\<close>

definition tab_ok :: "table \<Rightarrow> bool" where
  "tab_ok t \<longleftrightarrow> distinct (map fst t) \<and> (\<forall>(k, cs) \<in> set t. cs \<noteq> [] \<and> distinct cs)"

definition names_of :: "side \<Rightarrow> nat \<Rightarrow> bytes set" where
  "names_of s c = {k. c \<in> set (clients_of s k)}"

text \<open>The table and the sets of the live connections \<open>A\<close> say the same, and no client outside \<open>A\<close> is in the table.\<close>

definition side_inv :: "nat set \<Rightarrow> side \<Rightarrow> bool" where
  "side_inv A s \<longleftrightarrow> tab_ok (subs s) \<and> (\<forall>c. distinct (joined s c)) \<and>
     (\<forall>c. names_of s c = (if c \<in> A then set (joined s c) else {}))"

lemma clients_distinct: "tab_ok (subs s) \<Longrightarrow> distinct (clients_of s k)"
  by (auto simp: tab_ok_def clients_of_def split: option.split dest!: map_of_SomeD)

lemma clients_update: "clients_of \<lparr>subs = AList.update k cs t, joined = j\<rparr> l = (if l = k then cs else clients_of \<lparr>subs = t, joined = j'\<rparr> l)"
  by (simp add: clients_of_def update_conv)

lemma clients_delete: "clients_of \<lparr>subs = AList.delete k t, joined = j\<rparr> l = (if l = k then [] else clients_of \<lparr>subs = t, joined = j'\<rparr> l)"
  by (simp add: clients_of_def delete_conv)

lemma tab_ok_iff: "tab_ok t \<longleftrightarrow> distinct (map fst t) \<and> (\<forall>k cs. map_of t k = Some cs \<longrightarrow> cs \<noteq> [] \<and> distinct cs)"
  by (fastforce simp: tab_ok_def)

lemma tab_ok_update: "tab_ok t \<Longrightarrow> cs \<noteq> [] \<Longrightarrow> distinct cs \<Longrightarrow> tab_ok (AList.update k cs t)"
  by (auto simp: tab_ok_iff distinct_update update_conv split: if_splits)

lemma tab_ok_delete: "tab_ok t \<Longrightarrow> tab_ok (AList.delete k t)"
  by (auto simp: tab_ok_def AList.delete_eq distinct_map_filter)

lemma side_cases: obtains t j where "s = \<lparr>subs = t, joined = j\<rparr>"
  by (cases s)

lemma side_add_ok:
  assumes "side_inv A s" "c \<in> A"
  obtains s' where "side_add k c s = Some s'" "side_inv A s'" "names_of s' = (names_of s)(c := insert k (names_of s c))"
proof (cases "c \<in> set (clients_of s k)")
  case True
  then show thesis using assms by (intro that [of s]) (auto simp: side_add_def names_of_def fun_eq_iff)
next
  case False
  obtain t j where s: "s = \<lparr>subs = t, joined = j\<rparr>" by (rule side_cases)
  let ?s = "\<lparr>subs = AList.update k (clients_of s k @ [c]) t, joined = j(c := j c @ [k])\<rparr>"
  have j: "k \<notin> set (j c)" using assms False by (force simp: side_inv_def names_of_def s)
  have n: "names_of ?s = (names_of s)(c := insert k (names_of s c))"
    by (auto simp: names_of_def fun_eq_iff s clients_update [where j' = j] split: if_splits)
  moreover have "side_inv A ?s"
    using assms False j tab_ok_update [of t "clients_of s k @ [c]" k] clients_distinct [of s k] unfolding side_inv_def n
    by (auto simp: s)
  moreover have "side_add k c s = Some ?s" using False j by (simp add: side_add_def ctx_add_def s)
  ultimately show thesis by (intro that)
qed

lemma side_drop_ok:
  assumes "side_inv A s" "c \<in> A"
  obtains s' where "side_drop k c s = Some s'" "side_inv A s'" "names_of s' = (names_of s)(c := names_of s c - {k})"
proof (cases "c \<in> set (clients_of s k)")
  case False
  then show thesis using assms
    by (intro that [of s]) (auto simp: side_drop_def names_of_def fun_eq_iff clients_of_def split: option.split)
next
  case True
  obtain t j where s: "s = \<lparr>subs = t, joined = j\<rparr>" by (rule side_cases)
  obtain cs where m: "map_of t k = Some cs" "clients_of s k = cs"
    using True by (cases "map_of t k") (auto simp: clients_of_def s)
  let ?t = "if remove1 c cs = [] then AList.delete k t else AList.update k (remove1 c cs) t"
  let ?s = "\<lparr>subs = ?t, joined = j(c := remove1 k (j c))\<rparr>"
  have d: "distinct cs" "c \<in> set cs" "tab_ok t" using assms True clients_distinct [of s k] unfolding m(2) by (auto simp: side_inv_def s)
  have j: "k \<in> set (j c)" using assms True by (force simp: side_inv_def names_of_def s)
  have "set (clients_of ?s l) = (if l = k then set cs - {c} else set (clients_of s l))" for l
    unfolding set_remove1_eq [OF d(1), symmetric] by (simp add: s clients_update [where j' = j] clients_delete [where j' = j])
  then have n: "names_of ?s = (names_of s)(c := names_of s c - {k})"
    using m(2) by (auto simp: names_of_def fun_eq_iff split: if_splits)
  moreover have "tab_ok ?t" using d by (auto intro: tab_ok_update tab_ok_delete)
  then have "side_inv A ?s" using assms unfolding side_inv_def n by (auto simp: s)
  moreover have "side_drop k c s = Some ?s" using d j m by (simp add: side_drop_def ctx_remove_def s Let_def)
  ultimately show thesis by (intro that)
qed

text \<open>The walk that leaves everything.\<close>

fun leave_replies :: "(bytes \<Rightarrow> nat \<Rightarrow> reply list) \<Rightarrow> bytes list \<Rightarrow> bytes list \<Rightarrow> reply list list" where
  "leave_replies rep [] xs = []"
| "leave_replies rep (k # ks) xs = rep k (length (remove1 k xs)) # leave_replies rep ks (remove1 k xs)"

abbreviation held :: "nat \<Rightarrow> table \<Rightarrow> bytes list" where
  "held c t \<equiv> map fst (filter (\<lambda>(k, cs). c \<in> set cs) t)"

lemma side_walk_run:
  "distinct (map fst t) \<Longrightarrow> distinct (j c) \<Longrightarrow> set (held c t) \<subseteq> set (j c) \<Longrightarrow>
   side_walk c rep t j = Some (map (\<lambda>(k, cs). (k, remove1 c cs)) t, j(c := fold remove1 (held c t) (j c)), leave_replies rep (held c t) (j c))"
proof (induction t arbitrary: j)
  case (Cons p t)
  obtain k cs where p: "p = (k, cs)" by (cases p)
  show ?case
  proof (cases "c \<in> set cs")
    case True
    have "set (held c t) \<subseteq> set (remove1 k (j c))" using Cons.prems p by (fastforce simp: image_iff)
    then have "side_walk c rep t (j(c := remove1 k (j c))) = Some (map (\<lambda>(k, cs). (k, remove1 c cs)) t,
        j(c := fold remove1 (held c t) (remove1 k (j c))), leave_replies rep (held c t) (remove1 k (j c)))"
      by (subst Cons.IH) (use Cons.prems in auto)
    then show ?thesis using Cons.prems True p by (simp add: ctx_remove_def fun_upd_def)
  next
    case False
    then show ?thesis using Cons.IH [of j] Cons.prems p by (simp add: remove1_idem)
  qed
qed simp

lemma fold_remove1: "distinct xs \<Longrightarrow> set (fold remove1 ks xs) = set xs - set ks"
  by (induction ks arbitrary: xs) auto

lemma map_of_remove1: "map_of (map (\<lambda>(k, cs). (k, remove1 c cs)) t) k = map_option (remove1 c) (map_of t k)"
  by (induction t) auto

lemma map_of_erase_empty: "distinct (map fst t) \<Longrightarrow>
    map_of (erase_empty t) k = (case map_of t k of None \<Rightarrow> None | Some cs \<Rightarrow> if cs = [] then None else Some cs)"
  by (simp add: erase_empty_def map_of_filter_entries split: option.split)

lemma erased_table:
  assumes "tab_ok (subs s)"
  shows "tab_ok (erase_empty (map (\<lambda>(k, cs). (k, remove1 c cs)) (subs s)))"
    and "names_of \<lparr>subs = erase_empty (map (\<lambda>(k, cs). (k, remove1 c cs)) (subs s)), joined = j\<rparr> = (names_of s)(c := {})"
proof -
  let ?t = "map (\<lambda>(k, cs). (k, remove1 c cs)) (subs s)"
  have d: "distinct (map fst ?t)" using assms by (simp add: tab_ok_def case_prod_beta comp_def)
  then have e: "distinct (map fst (erase_empty ?t))" unfolding erase_empty_def by (rule distinct_map_filter)
  then show "tab_ok (erase_empty ?t)" using assms
    by (auto simp: tab_ok_iff map_of_erase_empty [OF d] map_of_remove1 split: option.splits if_splits)
  have "set (clients_of \<lparr>subs = erase_empty ?t, joined = j\<rparr> k) = set (clients_of s k) - {c}" for k
  proof (cases "map_of (subs s) k")
    case (Some cs)
    have "clients_of \<lparr>subs = erase_empty ?t, joined = j\<rparr> k = remove1 c cs"
      using Some by (simp add: clients_of_def map_of_erase_empty [OF d] map_of_remove1)
    moreover have "distinct cs" using clients_distinct [OF assms, of k] Some by (simp add: clients_of_def)
    ultimately show ?thesis using Some by (simp add: clients_of_def)
  qed (simp add: clients_of_def map_of_erase_empty [OF d] map_of_remove1)
  then show "names_of \<lparr>subs = erase_empty ?t, joined = j\<rparr> = (names_of s)(c := {})"
    by (auto simp: names_of_def fun_eq_iff)
qed

lemma in_names: "k \<in> names_of s c \<longleftrightarrow> (\<exists>cs. map_of (subs s) k = Some cs \<and> c \<in> set cs)"
  by (cases "map_of (subs s) k") (auto simp: names_of_def clients_of_def)

lemma held_names:
  assumes "tab_ok (subs s)"
  shows "distinct (held c (subs s))" "set (held c (subs s)) = names_of s c"
proof -
  show "distinct (held c (subs s))" using assms by (simp add: tab_ok_def distinct_map_filter)
  have "distinct (map fst (subs s))" using assms by (simp add: tab_ok_def)
  then have "k \<in> set (held c (subs s)) \<longleftrightarrow> (\<exists>cs. map_of (subs s) k = Some cs \<and> c \<in> set cs)" for k
    by (force simp: image_iff)
  then show "set (held c (subs s)) = names_of s c" using in_names by blast
qed

lemma side_walk_ok:
  assumes s: "side_inv A s" and c: "c \<in> A"
  obtains t j ks where "side_walk c rep (subs s) (joined s) = Some (t, j, leave_replies rep ks (joined s c))"
    "side_inv A \<lparr>subs = erase_empty t, joined = j\<rparr>" "names_of \<lparr>subs = erase_empty t, joined = j\<rparr> = (names_of s)(c := {})"
    "distinct ks" "set ks = names_of s c"
proof -
  let ?ks = "held c (subs s)" and ?t = "map (\<lambda>(k, cs). (k, remove1 c cs)) (subs s)"
  let ?j = "(joined s)(c := fold remove1 ?ks (joined s c))"
  have t: "tab_ok (subs s)" "distinct (joined s c)" "names_of s c = set (joined s c)"
    using s c by (simp_all add: side_inv_def)
  have k: "distinct ?ks" "set ?ks = names_of s c" using held_names [OF t(1)] by blast+
  then have e: "fold remove1 ?ks (joined s c) = []" using fold_remove1 [OF t(2), of ?ks] t(3) by simp
  note n = erased_table [OF t(1), of c]
  have "side_inv A \<lparr>subs = erase_empty ?t, joined = ?j\<rparr>"
    using s n(1) unfolding side_inv_def n(2) e by (auto simp: side_inv_def)
  moreover have "side_walk c rep (subs s) (joined s) = Some (?t, ?j, leave_replies rep ?ks (joined s c))"
    using side_walk_run [of "subs s" "joined s" c rep] t k by (simp add: tab_ok_def)
  ultimately show thesis using n(2) k by (intro that) auto
qed

section \<open>What publish and subscribe promise\<close>

text \<open>
  The specification knows only which names each client is subscribed to, and everything that was sent.
\<close>

record spec =
  names :: "kind \<Rightarrow> nat \<Rightarrow> bytes set"
  sent :: "(nat \<times> reply list) list"

definition set_names :: "kind \<Rightarrow> nat \<Rightarrow> bytes set \<Rightarrow> spec \<Rightarrow> spec" where
  "set_names kd c X a = a\<lparr>names := (names a)(kd := (names a kd)(c := X))\<rparr>"

definition join :: "kind \<Rightarrow> bytes \<Rightarrow> nat \<Rightarrow> spec \<Rightarrow> spec" where
  "join kd k c a = set_names kd c (insert k (names a kd c)) a"

definition leave :: "kind \<Rightarrow> bytes \<Rightarrow> nat \<Rightarrow> spec \<Rightarrow> spec" where
  "leave kd k c a = set_names kd c (names a kd c - {k}) a"

definition spec_count :: "spec \<Rightarrow> nat \<Rightarrow> int" where
  "spec_count a c = to_signed 32 (int (card (names a Chan c) + card (names a Pat c)))"

definition spec_say :: "bytes \<Rightarrow> reply \<Rightarrow> nat \<Rightarrow> spec \<Rightarrow> spec" where
  "spec_say what name c a = a\<lparr>sent := sent a @ [(c, notice what name (spec_count a c))]\<rparr>"

fun spec_each :: "(bytes \<Rightarrow> nat \<Rightarrow> spec \<Rightarrow> spec) \<Rightarrow> bytes \<Rightarrow> bytes list \<Rightarrow> nat \<Rightarrow> spec \<Rightarrow> spec" where
  "spec_each f what [] c a = a"
| "spec_each f what (k # ks) c a = spec_each f what ks c (spec_say what (OnString k) c (f k c a))"

text \<open>A pattern accepts a channel when it is empty or when the channel is one of the strings it stands for.\<close>

definition accepts :: "bytes \<Rightarrow> bytes \<Rightarrow> bool" where
  "accepts p chan \<longleftrightarrow> p = [] \<or> glob False (glob_tokens p) chan"

definition audience :: "spec \<Rightarrow> bytes \<Rightarrow> bytes \<Rightarrow> (nat \<times> reply list) set" where
  "audience a chan msg = {(d, message chan msg) | d. chan \<in> names a Chan d} \<union>
     {(d, pmessage p chan msg) | d p. p \<in> names a Pat d \<and> accepts p chan}"

inductive spec_run :: "handler \<Rightarrow> bytes list \<Rightarrow> nat \<Rightarrow> spec \<Rightarrow> spec \<Rightarrow> reply list \<Rightarrow> bool" where
  subscribe: "args \<noteq> [] \<Longrightarrow> spec_run SubscribeHandler args c a (spec_each (join Chan) ''subscribe'' args c a) []"
| psubscribe: "args \<noteq> [] \<Longrightarrow> spec_run PSubscribeHandler args c a (spec_each (join Pat) ''psubscribe'' args c a) []"
| unsubscribe: "args \<noteq> [] \<Longrightarrow> spec_run UnsubscribeHandler args c a (spec_each (leave Chan) ''unsubscribe'' args c a) []"
| punsubscribe: "args \<noteq> [] \<Longrightarrow> spec_run PUnsubscribeHandler args c a (spec_each (leave Pat) ''punsubscribe'' args c a) []"
| unsubscribe_all: "distinct ks \<Longrightarrow> set ks = names a Chan c \<Longrightarrow> ks \<noteq> [] \<Longrightarrow>
    spec_run UnsubscribeHandler [] c a (spec_each (leave Chan) ''unsubscribe'' ks c a) []"
| punsubscribe_all: "distinct ks \<Longrightarrow> set ks = names a Pat c \<Longrightarrow> ks \<noteq> [] \<Longrightarrow>
    spec_run PUnsubscribeHandler [] c a (spec_each (leave Pat) ''punsubscribe'' ks c a) []"
| unsubscribe_none: "names a Chan c = {} \<Longrightarrow> spec_run UnsubscribeHandler [] c a (spec_say ''unsubscribe'' OnNil c a) []"
| punsubscribe_none: "names a Pat c = {} \<Longrightarrow> spec_run PUnsubscribeHandler [] c a (spec_say ''punsubscribe'' OnNil c a) []"
| publish: "distinct out \<Longrightarrow> set out = audience a chan msg \<Longrightarrow>
    spec_run PublishHandler [chan, msg] c a (a\<lparr>sent := sent a @ out\<rparr>) [OnInt (int (length out))]"
| no_channel: "spec_run SubscribeHandler [] c a a [OnError ''ERR wrong number of arguments for 'subscribe' command'']"
| no_pattern: "spec_run PSubscribeHandler [] c a a [OnError ''ERR wrong number of arguments for 'psubscribe' command'']"
| bad_publish: "length args \<noteq> 2 \<Longrightarrow>
    spec_run PublishHandler args c a a [OnError ''ERR wrong number of arguments for 'publish' command'']"

section \<open>The manager implements it\<close>

definition ps_abs :: "pub_sub \<Rightarrow> spec" where
  "ps_abs ps = \<lparr>names = \<lambda>kd. names_of (side_of kd ps), sent = flushed ps\<rparr>"

definition ps_inv :: "nat set \<Rightarrow> pub_sub \<Rightarrow> bool" where
  "ps_inv A ps \<longleftrightarrow> (\<forall>kd. side_inv A (side_of kd ps))"

lemma ps_inv_iff: "ps_inv A ps \<longleftrightarrow> side_inv A (chans ps) \<and> side_inv A (pats ps)"
  unfolding ps_inv_def by (metis kind.exhaust side_of.simps)

lemma side_put [simp]: "side_of kd (put_side kd' s ps) = (if kd = kd' then s else side_of kd ps)"
  by (cases kd; cases kd') auto

lemma flushed_put [simp]: "flushed (put_side kd s ps) = flushed ps"
  by (cases kd) auto

lemma ps_inv_put: "ps_inv A ps \<Longrightarrow> side_inv A s \<Longrightarrow> ps_inv A (put_side kd s ps)"
  by (simp add: ps_inv_def)

lemma abs_put: "names_of s = (names_of (side_of kd ps))(c := X) \<Longrightarrow> ps_abs (put_side kd s ps) = set_names kd c X (ps_abs ps)"
  by (auto simp: ps_abs_def set_names_def fun_eq_iff)

lemma side_flush [simp]: "side_of kd (ps\<lparr>flushed := out\<rparr>) = side_of kd ps"
  by (cases kd) auto

lemma abs_flush [simp]: "ps_abs (ps\<lparr>flushed := out\<rparr>) = (ps_abs ps)\<lparr>sent := out\<rparr>" "sent (ps_abs ps) = flushed ps"
  by (simp_all add: ps_abs_def)

lemma ps_inv_flush [simp]: "ps_inv A (ps\<lparr>flushed := out\<rparr>) = ps_inv A ps"
  by (simp add: ps_inv_def)

lemma fold_FlushOutput: "fold (FlushOutput c) outs ps = ps\<lparr>flushed := flushed ps @ map (Pair c) outs\<rparr>"
  by (induction outs arbitrary: ps) (auto simp: FlushOutput_def)

lemma names_card: "side_inv A s \<Longrightarrow> c \<in> A \<Longrightarrow> card (names_of s c) = length (joined s c)"
  by (simp add: side_inv_def distinct_card)

lemma count_abs: "ps_inv A ps \<Longrightarrow> c \<in> A \<Longrightarrow> SubscriptionsCount ps c = spec_count (ps_abs ps) c"
  by (simp add: SubscriptionsCount_def spec_count_def ps_inv_iff ps_abs_def names_card [of A])

lemma each_ok:
  assumes "\<And>k ps. ps_inv A ps \<Longrightarrow> \<exists>ps'. call k c ps = Some ps' \<and> ps_inv A ps' \<and> ps_abs ps' = f k c (ps_abs ps)"
    and "ps_inv A ps" "c \<in> A"
  shows "\<exists>ps'. each call what ks c ps = Some ps' \<and> ps_inv A ps' \<and> ps_abs ps' = spec_each f what ks c (ps_abs ps)"
  using assms(2)
proof (induction ks arbitrary: ps)
  case (Cons k ks)
  obtain ps1 where p: "call k c ps = Some ps1" "ps_inv A ps1" "ps_abs ps1 = f k c (ps_abs ps)" using assms(1) Cons.prems by blast
  let ?ps = "FlushOutput c (notice what (OnString k) (SubscriptionsCount ps1 c)) ps1"
  have "ps_abs ?ps = spec_say what (OnString k) c (f k c (ps_abs ps))" "ps_inv A ?ps"
    using p(2) assms(3) by (simp_all add: FlushOutput_def spec_say_def count_abs flip: p(3))
  then show ?case using Cons.IH [of ?ps] p(1) by auto
qed simp

lemma sub_call_ok:
  assumes "ps_inv A ps" "c \<in> A"
  shows "\<exists>ps'. map_option (\<lambda>s. put_side kd s ps) (side_add k c (side_of kd ps)) = Some ps' \<and> ps_inv A ps' \<and> ps_abs ps' = join kd k c (ps_abs ps)"
    and "\<exists>ps'. map_option (\<lambda>s. put_side kd s ps) (side_drop k c (side_of kd ps)) = Some ps' \<and> ps_inv A ps' \<and> ps_abs ps' = leave kd k c (ps_abs ps)"
proof -
  have s: "side_inv A (side_of kd ps)" using assms(1) by (simp add: ps_inv_def)
  show "\<exists>ps'. map_option (\<lambda>s. put_side kd s ps) (side_add k c (side_of kd ps)) = Some ps' \<and> ps_inv A ps' \<and> ps_abs ps' = join kd k c (ps_abs ps)"
    by (rule side_add_ok [OF s assms(2), of k]) (auto simp: ps_inv_put assms join_def abs_put ps_abs_def [of ps])
  show "\<exists>ps'. map_option (\<lambda>s. put_side kd s ps) (side_drop k c (side_of kd ps)) = Some ps' \<and> ps_inv A ps' \<and> ps_abs ps' = leave kd k c (ps_abs ps)"
    by (rule side_drop_ok [OF s assms(2), of k]) (auto simp: ps_inv_put assms leave_def abs_put ps_abs_def [of ps])
qed

lemma set_names_simps [simp]:
  "names (set_names kd c X a) kd' d = (if kd' = kd \<and> d = c then X else names a kd' d)"
  "sent (set_names kd c X a) = sent a"
  "set_names kd c X (set_names kd c Y a) = set_names kd c X a"
  "set_names kd c X (a\<lparr>sent := l\<rparr>) = (set_names kd c X a)\<lparr>sent := l\<rparr>"
  by (auto simp: set_names_def)

lemma spec_count_other: "spec_count a c = to_signed 32 (int (card (names a kd c) + card (names a (other kd) c)))"
  by (cases kd) (simp_all add: spec_count_def add.commute)

lemma leave_each:
  assumes "m = card (names a (other kd) c)" "distinct xs" "set xs = names a kd c" "distinct ks" "set ks \<subseteq> set xs"
  shows "spec_each (leave kd) what ks c a = (set_names kd c (names a kd c - set ks) a)
    \<lparr>sent := sent a @ map (Pair c) (leave_replies (\<lambda>k n. notice what (OnString k) (to_signed 32 (int (n + m)))) ks xs)\<rparr>"
  using assms
proof (induction ks arbitrary: a xs)
  case Nil
  then show ?case by (simp add: set_names_def)
next
  case (Cons k ks)
  let ?xs = "remove1 k xs" and ?b = "spec_say what (OnString k) c (leave kd k c a)"
  have o: "other kd \<noteq> kd" by (cases kd) auto
  have n: "names (leave kd k c a) kd c = set ?xs" "names (leave kd k c a) (other kd) c = names a (other kd) c"
    using Cons.prems o by (auto simp: leave_def)
  have "card (set ?xs) = length ?xs" by (intro distinct_card distinct_remove1 Cons.prems(2))
  then have b: "?b = (leave kd k c a)\<lparr>sent := sent a @ [(c, notice what (OnString k) (to_signed 32 (int (length ?xs + m))))]\<rparr>"
    using Cons.prems(1) n by (simp add: spec_say_def spec_count_other [of _ c kd] leave_def)
  have "spec_each (leave kd) what ks c ?b = (set_names kd c (names ?b kd c - set ks) ?b)
    \<lparr>sent := sent ?b @ map (Pair c) (leave_replies (\<lambda>k n. notice what (OnString k) (to_signed 32 (int (n + m)))) ks ?xs)\<rparr>"
    by (rule Cons.IH) (use Cons.prems n b in auto)
  moreover have "names a kd c - insert k (set ks) = names ?b kd c - set ks" using n(1) b Cons.prems(2,3) by auto
  ultimately show ?case using b by (simp add: leave_def [of kd k c a])
qed

lemma leave_everything_ok:
  assumes "ps_inv A ps" "c \<in> A"
  obtains ps' where "leave_everything kd what c ps = Some ps'" "ps_inv A ps'"
    "names (ps_abs ps) kd c = {} \<and> ps_abs ps' = spec_say what OnNil c (ps_abs ps) \<or>
     (\<exists>ks. ks \<noteq> [] \<and> distinct ks \<and> set ks = names (ps_abs ps) kd c \<and> ps_abs ps' = spec_each (leave kd) what ks c (ps_abs ps))"
proof -
  let ?s = "side_of kd ps"
  let ?rep = "\<lambda>k n. notice what (OnString k) (to_signed 32 (int (n + length (joined (side_of (other kd) ps) c))))"
  have s: "side_inv A ?s" "side_inv A (side_of (other kd) ps)" using assms(1) by (simp_all add: ps_inv_def)
  obtain t j ks where w: "side_walk c ?rep (subs ?s) (joined ?s) = Some (t, j, leave_replies ?rep ks (joined ?s c))"
    "side_inv A \<lparr>subs = erase_empty t, joined = j\<rparr>" "names_of \<lparr>subs = erase_empty t, joined = j\<rparr> = (names_of ?s)(c := {})"
    and ks: "distinct ks" "set ks = names_of ?s c"
    using side_walk_ok [OF s(1) assms(2), of ?rep] by metis
  let ?p = "put_side kd \<lparr>subs = erase_empty t, joined = j\<rparr> ps" and ?out = "leave_replies ?rep ks (joined ?s c)"
  have p: "ps_inv A ?p" "ps_abs ?p = set_names kd c {} (ps_abs ps)"
    using ps_inv_put [OF assms(1) w(2)] abs_put [OF w(3)] by auto
  have r: "leave_everything kd what c ps = Some (left_all what c ?out ?p)" unfolding leave_everything_def w(1) by simp
  have o: "?out = [] \<longleftrightarrow> ks = []" by (cases ks) auto
  show thesis
  proof (rule that [OF r])
    show "ps_inv A (left_all what c ?out ?p)" using p(1) by (simp add: left_all_def fold_FlushOutput)
    show "names (ps_abs ps) kd c = {} \<and> ps_abs (left_all what c ?out ?p) = spec_say what OnNil c (ps_abs ps) \<or>
      (\<exists>ks. ks \<noteq> [] \<and> distinct ks \<and> set ks = names (ps_abs ps) kd c \<and>
         ps_abs (left_all what c ?out ?p) = spec_each (leave kd) what ks c (ps_abs ps))"
    proof (cases "ks = []")
      case True
      then have e: "names (ps_abs ps) kd c = {}" using ks by (simp add: ps_abs_def)
      then have "set_names kd c {} (ps_abs ps) = ps_abs ps" by (simp add: set_names_def fun_upd_idem)
      then show ?thesis using e True p assms(2) count_abs [OF p(1) assms(2)]
        by (simp add: left_all_def FlushOutput_def spec_say_def)
    next
      case False
      have m: "card (names (ps_abs ps) (other kd) c) = length (joined (side_of (other kd) ps) c)"
        using names_card [OF s(2) assms(2)] by (simp add: ps_abs_def)
      have "spec_each (leave kd) what ks c (ps_abs ps) = (set_names kd c {} (ps_abs ps))\<lparr>sent := sent (ps_abs ps) @ map (Pair c) ?out\<rparr>"
        using leave_each [OF m [symmetric], of "joined ?s c" ks what] s(1) ks assms(2) by (simp add: ps_abs_def side_inv_def)
      then show ?thesis using False o p(2) ks
        by (intro disjI2 exI [of _ ks]) (simp add: left_all_def fold_FlushOutput, simp add: ps_abs_def)
    qed
  qed
qed

text \<open>Publishing.\<close>

definition by_pattern :: "bytes \<Rightarrow> bytes \<Rightarrow> table \<Rightarrow> (nat \<times> reply list) list" where
  "by_pattern chan msg t =
     concat (map (\<lambda>(p, cs). if accepts p chan then map (\<lambda>c. (c, pmessage p chan msg)) cs else []) t)"

lemma publish_to_run:
  "publish_to cs out (n, ps) = (n + int (length cs), ps\<lparr>flushed := flushed ps @ map (\<lambda>c. (c, out)) cs\<rparr>)"
  by (induction cs arbitrary: n ps) (auto simp: FlushOutput_def)

lemma publish_patterns_run:
  "publish_patterns t chan msg (n, ps) =
     Some (n + int (length (by_pattern chan msg t)), ps\<lparr>flushed := flushed ps @ by_pattern chan msg t\<rparr>)"
proof (induction t arbitrary: n ps)
  case (Cons x t)
  then show ?case
    by (cases x) (auto simp: by_pattern_def stringmatchlen_spec accepts_def publish_to_run)
qed (simp add: by_pattern_def)

lemma pmessage_inject [simp]: "pmessage p chan msg = pmessage q chan msg \<longleftrightarrow> p = q" "message chan msg \<noteq> pmessage p chan msg"
  by (simp_all add: pmessage_def message_def)

lemma set_by_pattern:
  assumes "tab_ok (subs s)"
  shows "set (by_pattern chan msg (subs s)) = {(d, pmessage p chan msg) | d p. p \<in> names_of s d \<and> accepts p chan}"
proof -
  have d: "distinct (map fst (subs s))" using assms by (simp add: tab_ok_def)
  show ?thesis unfolding in_names map_of_eq_Some_iff [OF d] by (fastforce simp: by_pattern_def)
qed

lemma distinct_by_pattern: "tab_ok t \<Longrightarrow> distinct (by_pattern chan msg t)"
proof (induction t)
  case (Cons x t)
  obtain p cs where x: "x = (p, cs)" by (cases x)
  have t: "tab_ok t" "p \<notin> fst ` set t" "distinct cs" using Cons.prems by (auto simp: tab_ok_def x)
  have "r \<noteq> pmessage p chan msg" if "(d, r) \<in> set (by_pattern chan msg t)" for d r
    using that t(2) by (force simp: by_pattern_def image_iff split: if_splits)
  moreover have "by_pattern chan msg (x # t) = (if accepts p chan then map (\<lambda>c. (c, pmessage p chan msg)) cs else []) @ by_pattern chan msg t"
    by (simp add: by_pattern_def x)
  ultimately show ?case using Cons.IH [OF t(1)] t(3) by (auto simp: distinct_map inj_on_def)
qed (simp add: by_pattern_def)

lemma Publish_ok:
  assumes "ps_inv A ps"
  obtains out where "Publish chan msg ps = Some (int (length out), ps\<lparr>flushed := flushed ps @ out\<rparr>)"
    "distinct out" "set out = audience (ps_abs ps) chan msg"
proof -
  let ?m = "map (\<lambda>c. (c, message chan msg)) (clients_of (chans ps) chan)" and ?p = "by_pattern chan msg (subs (pats ps))"
  have t: "tab_ok (subs (chans ps))" "tab_ok (subs (pats ps))" using assms by (simp_all add: ps_inv_iff side_inv_def)
  have "Publish chan msg ps = Some (int (length (?m @ ?p)), ps\<lparr>flushed := flushed ps @ (?m @ ?p)\<rparr>)"
    by (simp add: Publish_def publish_to_run publish_patterns_run)
  moreover have "set (?m @ ?p) = audience (ps_abs ps) chan msg"
    by (auto simp: audience_def ps_abs_def set_by_pattern [OF t(2)] names_of_def)
  moreover have "distinct (?m @ ?p)"
    using clients_distinct [OF t(1)] distinct_by_pattern [OF t(2)] set_by_pattern [OF t(2)]
    by (auto simp: distinct_map inj_on_def)
  ultimately show thesis using that by blast
qed

lemma Run_ok:
  assumes "ps_inv A ps" "c \<in> A"
  shows "\<exists>ps' out. Run h args c ps = Some (ps', out) \<and> ps_inv A ps' \<and> spec_run h args c (ps_abs ps) (ps_abs ps') out"
proof (cases h)
  case SubscribeHandler
  have "\<exists>ps'. Subscribe args c ps = Some ps' \<and> ps_inv A ps' \<and> ps_abs ps' = spec_each (join Chan) ''subscribe'' args c (ps_abs ps)"
    unfolding Subscribe_def
    by (rule each_ok [OF _ assms]) (use sub_call_ok(1) [OF _ assms(2), where kd = Chan] in \<open>simp add: SubscribeChannel_def\<close>)
  then show ?thesis using assms(1) SubscribeHandler no_channel subscribe [of args] by (cases "args = []") auto
next
  case PSubscribeHandler
  have "\<exists>ps'. PSubscribe args c ps = Some ps' \<and> ps_inv A ps' \<and> ps_abs ps' = spec_each (join Pat) ''psubscribe'' args c (ps_abs ps)"
    unfolding PSubscribe_def
    by (rule each_ok [OF _ assms]) (use sub_call_ok(1) [OF _ assms(2), where kd = Pat] in \<open>simp add: SubscribePattern_def\<close>)
  then show ?thesis using assms(1) PSubscribeHandler no_pattern psubscribe [of args] by (cases "args = []") auto
next
  case UnsubscribeHandler
  have n: "\<exists>ps'. each UnsubscribeChannel ''unsubscribe'' args c ps = Some ps' \<and> ps_inv A ps' \<and>
      ps_abs ps' = spec_each (leave Chan) ''unsubscribe'' args c (ps_abs ps)"
    by (rule each_ok [OF _ assms]) (use sub_call_ok(2) [OF _ assms(2), where kd = Chan] in \<open>simp add: UnsubscribeChannel_def\<close>)
  show ?thesis
  proof (cases "args = []")
    case True
    obtain ps' where "leave_everything Chan ''unsubscribe'' c ps = Some ps'" "ps_inv A ps'"
      "spec_run UnsubscribeHandler [] c (ps_abs ps) (ps_abs ps') []"
      by (rule leave_everything_ok [OF assms, of Chan "''unsubscribe''"]) (metis spec_run.unsubscribe_all spec_run.unsubscribe_none)
    then show ?thesis using True UnsubscribeHandler by (auto simp: Unsubscribe_def)
  next
    case False
    then show ?thesis using n UnsubscribeHandler unsubscribe [OF False] by (auto simp: Unsubscribe_def)
  qed
next
  case PUnsubscribeHandler
  have n: "\<exists>ps'. each UnsubscribePattern ''punsubscribe'' args c ps = Some ps' \<and> ps_inv A ps' \<and>
      ps_abs ps' = spec_each (leave Pat) ''punsubscribe'' args c (ps_abs ps)"
    by (rule each_ok [OF _ assms]) (use sub_call_ok(2) [OF _ assms(2), where kd = Pat] in \<open>simp add: UnsubscribePattern_def\<close>)
  show ?thesis
  proof (cases "args = []")
    case True
    obtain ps' where "leave_everything Pat ''punsubscribe'' c ps = Some ps'" "ps_inv A ps'"
      "spec_run PUnsubscribeHandler [] c (ps_abs ps) (ps_abs ps') []"
      by (rule leave_everything_ok [OF assms, of Pat "''punsubscribe''"]) (metis spec_run.punsubscribe_all spec_run.punsubscribe_none)
    then show ?thesis using True PUnsubscribeHandler by (auto simp: PUnsubscribe_def)
  next
    case False
    then show ?thesis using n PUnsubscribeHandler punsubscribe [OF False] by (auto simp: PUnsubscribe_def)
  qed
next
  case PublishHandler
  show ?thesis
  proof (cases "length args = 2")
    case True
    then obtain chan msg where a: "args = [chan, msg]" by (auto simp: length_Suc_conv numeral_2_eq_2)
    obtain out where "Publish chan msg ps = Some (int (length out), ps\<lparr>flushed := flushed ps @ out\<rparr>)"
      "distinct out" "set out = audience (ps_abs ps) chan msg"
      by (rule Publish_ok [OF assms(1)])
    then show ?thesis using publish [of out "ps_abs ps" chan msg c] assms(1) PublishHandler a by simp
  next
    case False
    then have "Run h args c ps = Some (ps, [OnError ''ERR wrong number of arguments for 'publish' command''])"
      unfolding PublishHandler by (simp split: list.split) auto
    then show ?thesis using bad_publish [OF False] assms(1) PublishHandler by simp
  qed
qed

section \<open>Connections that come and go\<close>

inductive reach :: "nat set \<Rightarrow> pub_sub \<Rightarrow> bool" where
  start: "reach {} PubSubManager"
| connect: "reach A ps \<Longrightarrow> c \<notin> A \<Longrightarrow> reach (insert c A) (new_connection c ps)"
| command: "reach A ps \<Longrightarrow> c \<in> A \<Longrightarrow> Run h args c ps = Some (ps', out) \<Longrightarrow> reach A ps'"
| close: "reach A ps \<Longrightarrow> c \<in> A \<Longrightarrow> reach (A - {c}) (destroy c ps)"

lemma names_joined [simp]: "names_of (s\<lparr>joined := j\<rparr>) = names_of s"
  by (simp add: names_of_def clients_of_def fun_eq_iff)

lemma connect_inv: "ps_inv A ps \<Longrightarrow> c \<notin> A \<Longrightarrow> ps_inv (insert c A) (new_connection c ps)"
  by (auto simp: ps_inv_iff side_inv_def new_connection_def)

lemma connect_abs: "ps_abs (new_connection c ps) = ps_abs ps"
proof -
  have "names_of (side_of kd (new_connection c ps)) = names_of (side_of kd ps)" for kd
    by (cases kd) (simp_all add: new_connection_def)
  then show ?thesis by (simp add: ps_abs_def new_connection_def)
qed

lemma side_erase_ok:
  assumes "side_inv A s"
  shows "side_inv (A - {c}) (side_erase c s)" "names_of (side_erase c s) = (names_of s)(c := {})"
proof -
  have t: "tab_ok (subs s)" using assms by (simp add: side_inv_def)
  have "side_erase c s = \<lparr>subs = erase_empty (map (\<lambda>(k, cs). (k, remove1 c cs)) (subs s)), joined = joined s\<rparr>"
    by (cases s) (simp add: side_erase_def)
  then show n: "names_of (side_erase c s) = (names_of s)(c := {})" using erased_table(2) [OF t] by simp
  show "side_inv (A - {c}) (side_erase c s)"
    using assms erased_table(1) [OF t, of c] unfolding side_inv_def n by (auto simp: side_erase_def)
qed

text \<open>The test before the cleanup is enough: a connection without names of its own is in no table.\<close>

lemma destroy_ok:
  assumes "ps_inv A ps" "c \<in> A"
  shows "ps_inv (A - {c}) (destroy c ps)"
    and "ps_abs (destroy c ps) = set_names Chan c {} (set_names Pat c {} (ps_abs ps))"
proof -
  have s: "side_inv A (chans ps)" "side_inv A (pats ps)" using assms(1) by (simp_all add: ps_inv_iff)
  show "ps_inv (A - {c}) (destroy c ps)"
  proof (cases "joined (chans ps) c \<noteq> [] \<or> joined (pats ps) c \<noteq> []")
    case True
    then show ?thesis using side_erase_ok(1) [OF s(1)] side_erase_ok(1) [OF s(2)]
      by (simp add: destroy_def UnsubscribeAll_def ps_inv_iff)
  next
    case False
    then show ?thesis using s by (auto simp: destroy_def ps_inv_iff side_inv_def)
  qed
  have "names_of (side_of kd (destroy c ps)) = (names_of (side_of kd ps))(c := {})" for kd
  proof (cases "joined (chans ps) c \<noteq> [] \<or> joined (pats ps) c \<noteq> []")
    case True
    then show ?thesis using side_erase_ok(2) [OF s(1)] side_erase_ok(2) [OF s(2)]
      by (cases kd) (simp_all add: destroy_def UnsubscribeAll_def)
  next
    case False
    then show ?thesis using s assms(2) by (cases kd) (auto simp: destroy_def side_inv_def fun_eq_iff)
  qed
  moreover have "flushed (destroy c ps) = flushed ps" by (simp add: destroy_def UnsubscribeAll_def)
  moreover have "kd = Chan \<or> kd = Pat" for kd by (cases kd) auto
  ultimately show "ps_abs (destroy c ps) = set_names Chan c {} (set_names Pat c {} (ps_abs ps))"
    by (auto simp: ps_abs_def set_names_def fun_eq_iff)
qed

lemma reach_inv: "reach A ps \<Longrightarrow> ps_inv A ps"
proof (induction rule: reach.induct)
  case start
  then show ?case by (auto simp: PubSubManager_def ps_inv_iff side_inv_def tab_ok_def names_of_def clients_of_def)
next
  case (command A ps c h args ps' out)
  then show ?case using Run_ok [of A ps c h args] by auto
qed (auto intro: connect_inv destroy_ok(1))

lemma spec_each_log:
  assumes "\<And>k a. sent (f k c a) = sent a"
  shows "\<exists>new. sent (spec_each f what ks c a) = sent a @ new \<and> fst ` set new \<subseteq> {c}"
proof (induction ks arbitrary: a)
  case (Cons k ks)
  obtain new where "sent (spec_each f what (k # ks) c a) = sent (spec_say what (OnString k) c (f k c a)) @ new" "fst ` set new \<subseteq> {c}"
    using Cons [of "spec_say what (OnString k) c (f k c a)"] by auto
  then show ?case using assms by (auto simp: spec_say_def)
qed simp

lemma spec_run_log:
  assumes "spec_run h args c a a' out"
  shows "\<exists>new. sent a' = sent a @ new \<and> fst ` set new \<subseteq> insert c {d. \<exists>kd. names a kd d \<noteq> {}}"
proof -
  have e: "\<exists>new. sent (spec_each f what ks c a) = sent a @ new \<and> fst ` set new \<subseteq> insert c {d. \<exists>kd. names a kd d \<noteq> {}}"
    if "f = join kd \<or> f = leave kd" for f kd what ks
  proof -
    have "sent (f k c b) = sent b" for k b using that by (auto simp: join_def leave_def)
    then obtain new where "sent (spec_each f what ks c a) = sent a @ new" "fst ` set new \<subseteq> {c}"
      using spec_each_log [of f c what ks a] by blast
    then show ?thesis by blast
  qed
  show ?thesis
    using assms
  proof cases
    case (publish out chan msg)
    have "fst ` audience a chan msg \<subseteq> insert c {d. \<exists>kd. names a kd d \<noteq> {}}" unfolding audience_def by fastforce
    then show ?thesis using publish by (intro exI [of _ out]) auto
  qed (auto simp: spec_say_def intro: e)
qed

section \<open>Theorems\<close>

text \<open>
  (C13) Publish and subscribe implements its specification: in every state reached by connections that come, run commands
  and go, every handler returns (no assertion fails and no read is out of range) and does what the specification says, the
  replies with the number of subscriptions included; a message goes exactly once to every client of the channel and once
  to a client for every pattern of it that accepts the channel, and the answer is the number of messages; closing a
  connection removes it from every table.
\<close>

theorem pub_sub_refines:
  assumes "reach A ps" "c \<in> A"
  shows "(\<exists>ps' out. Run h args c ps = Some (ps', out) \<and> spec_run h args c (ps_abs ps) (ps_abs ps') out) \<and>
    ps_abs (destroy c ps) = set_names Chan c {} (set_names Pat c {} (ps_abs ps))"
  using Run_ok [OF reach_inv [OF assms(1)] assms(2)] destroy_ok(2) [OF reach_inv [OF assms(1)] assms(2)] by blast

theorem pub_sub_refines_witness:
  "reach {1} (new_connection 1 PubSubManager) \<and>
   (\<exists>ps' out. Run PSubscribeHandler [''a*''] 1 (new_connection 1 PubSubManager) = Some (ps', out) \<and>
      spec_run PSubscribeHandler [''a*''] 1 (ps_abs (new_connection 1 PubSubManager)) (ps_abs ps') out)"
  using pub_sub_refines [of "{1}" "new_connection 1 PubSubManager" 1 PSubscribeHandler "[''a*'']"]
    connect [OF start, of 1] by simp

text \<open>
  (C18) Only live connections are in the tables, so a command writes only to live connections: a client that has gone is
  never used again.
\<close>

theorem no_dangling_client:
  assumes "reach A ps"
  shows "(d \<in> set (clients_of (side_of kd ps) k) \<longrightarrow> d \<in> A) \<and>
    (c \<in> A \<and> Run h args c ps = Some (ps', out) \<longrightarrow> (\<exists>new. flushed ps' = flushed ps @ new \<and> fst ` set new \<subseteq> A))"
proof -
  have n: "names_of (side_of kd ps) d = {}" if "d \<notin> A" for kd d
    using reach_inv [OF assms] that by (simp add: ps_inv_def side_inv_def)
  have "\<exists>new. flushed ps' = flushed ps @ new \<and> fst ` set new \<subseteq> A" if c: "c \<in> A" "Run h args c ps = Some (ps', out)"
  proof -
    have "spec_run h args c (ps_abs ps) (ps_abs ps') out" using Run_ok [OF reach_inv [OF assms] c(1), of h args] c(2) by simp
    then obtain new where "flushed ps' = flushed ps @ new" "fst ` set new \<subseteq> insert c {d. \<exists>kd. names (ps_abs ps) kd d \<noteq> {}}"
      using spec_run_log [of h args c "ps_abs ps" "ps_abs ps'" out] by auto
    then show ?thesis using n c(1) unfolding ps_abs_def by fastforce
  qed
  then show ?thesis using n [of d kd] by (auto simp: names_of_def)
qed

theorem no_dangling_client_witness:
  "reach {1} (new_connection 1 PubSubManager) \<and>
   (\<exists>ps' out. Run SubscribeHandler [''a''] 1 (new_connection 1 PubSubManager) = Some (ps', out) \<and>
     (\<exists>new. flushed ps' = new \<and> fst ` set new \<subseteq> {1}))"
  using no_dangling_client [of "{1}" "new_connection 1 PubSubManager" 0 Chan "[]" 1 SubscribeHandler "[''a'']"]
    connect [OF start, of 1]
  by (simp add: new_connection_def PubSubManager_def Subscribe_def SubscribeChannel_def side_add_def ctx_add_def
      clients_of_def FlushOutput_def)

end
