(* ===== verification/ScanCursor.thy ===== *)
theory ScanCursor
  imports StringMatch RedisBase "HOL-Library.AList" "HOL-Library.Word"
begin

text \<open>
  The cursors a connection keeps (\<^verbatim>\<open>redis_connection_context.cpp\<close>): the cache of the last hundred cursor texts by hash,
  with a queue of pointers into the nodes of the map, and the bucket cursor of each database.
\<close>

unbundle bit_operations_syntax

section \<open>The cache of cursor texts\<close>

text \<open>
  A node of \<^verbatim>\<open>scan_cursors\<close> has an address, a key, a text and a number of uses; the queue holds addresses.  Following an
  address that is not allocated is \<open>None\<close>.  A new node gets an address the allocator chooses.
\<close>

record scan_cache =
  nodes :: "(nat \<times> u64 \<times> bytes \<times> int) list"
  queue :: "nat list"

definition fnv :: "bytes \<Rightarrow> u64" where
  "fnv cursor = fold (\<lambda>c hash. (hash XOR word_of_int (schar c)) * 1099511628211) cursor 14695981039346656037"

definition find_node :: "u64 \<Rightarrow> (nat \<times> u64 \<times> bytes \<times> int) list \<Rightarrow> (nat \<times> u64 \<times> bytes \<times> int) option" where
  "find_node k ns = find (\<lambda>(a, k', c, n). k' = k) ns"

definition cache_emplace :: "nat \<Rightarrow> bytes \<Rightarrow> scan_cache \<Rightarrow> scan_cache" where
  "cache_emplace addr cursor cc =
     (case find_node (fnv cursor) (nodes cc) of
        None \<Rightarrow> \<lparr>nodes = nodes cc @ [(addr, fnv cursor, cursor, 1)], queue = queue cc @ [addr]\<rparr>
      | Some (a, k, c, n) \<Rightarrow> \<lparr>nodes = AList.update a (k, cursor, n + 1) (nodes cc), queue = queue cc @ [a]\<rparr>)"

definition cache_evict :: "scan_cache \<Rightarrow> scan_cache option" where
  "cache_evict cc =
     (case queue cc of
        [] \<Rightarrow> Some cc
      | p # q \<Rightarrow>
          if length (queue cc) \<le> 100 then Some cc
          else case map_of (nodes cc) p of
                 None \<Rightarrow> None
               | Some (k, c, n) \<Rightarrow>
                   Some \<lparr>nodes = (if n > 1 then AList.update p (k, c, n - 1) (nodes cc)
                                 else filter (\<lambda>(a, k', _). k' \<noteq> k) (nodes cc)), queue = q\<rparr>)"

definition CacheScanCursor :: "nat \<Rightarrow> bytes \<Rightarrow> scan_cache \<Rightarrow> (u64 \<times> scan_cache) option" where
  "CacheScanCursor addr cursor cc = map_option (Pair (fnv cursor)) (cache_evict (cache_emplace addr cursor cc))"

definition FindScanCursor :: "u64 \<Rightarrow> scan_cache \<Rightarrow> bytes option" where
  "FindScanCursor cursor_id cc = map_option (\<lambda>(a, k, c, n). c) (find_node cursor_id (nodes cc))"

section \<open>What the cache holds\<close>

text \<open>
  The window \<open>w\<close> is the cursors the queue stands for, oldest first.  A node counts the cursors of the window with its key
  and keeps the latest of them.
\<close>

definition node_ok :: "bytes list \<Rightarrow> u64 \<Rightarrow> bytes \<Rightarrow> int \<Rightarrow> bool" where
  "node_ok w k c n \<longleftrightarrow> n = int (count_list (map fnv w) k) \<and> n > 0 \<and> find (\<lambda>s. fnv s = k) (rev w) = Some c"

definition nodes_ok :: "(nat \<rightharpoonup> u64 \<times> bytes \<times> int) \<Rightarrow> bytes list \<Rightarrow> bool" where
  "nodes_ok M w \<longleftrightarrow> (\<forall>a k c n. M a = Some (k, c, n) \<longrightarrow> node_ok w k c n \<and> (\<forall>b c' n'. M b = Some (k, c', n') \<longrightarrow> b = a))"

definition linked :: "(nat \<rightharpoonup> u64 \<times> bytes \<times> int) \<Rightarrow> nat list \<Rightarrow> bytes list \<Rightarrow> bool" where
  "linked M q w \<longleftrightarrow> list_all2 (\<lambda>a s. \<exists>c n. M a = Some (fnv s, c, n)) q w"

definition cache_ok :: "scan_cache \<Rightarrow> bytes list \<Rightarrow> bool" where
  "cache_ok cc w \<longleftrightarrow> distinct (map fst (nodes cc)) \<and> nodes_ok (map_of (nodes cc)) w \<and> linked (map_of (nodes cc)) (queue cc) w"

lemma find_node_Some: "distinct (map fst ns) \<Longrightarrow> find_node k ns = Some (a, k', c, n) \<Longrightarrow> k' = k \<and> map_of ns a = Some (k, c, n)"
  by (auto simp: find_node_def find_Some_iff) (metis nth_mem)

lemma find_node_None: "find_node k ns = None \<Longrightarrow> map_of ns a \<noteq> Some (k, c, n)"
  by (auto simp: find_node_def find_None_iff dest: map_of_SomeD)

lemma find_append: "find P (xs @ ys) = (case find P xs of None \<Rightarrow> find P ys | Some x \<Rightarrow> Some x)"
  by (induction xs) auto

lemma count_list_pos: "0 < count_list xs x \<longleftrightarrow> x \<in> set xs"
  by (metis count_list_0_iff gr_zeroI less_numeral_extra(3))

lemma node_ok_snoc:
  "node_ok w k c n \<Longrightarrow> k \<noteq> fnv s \<Longrightarrow> node_ok (w @ [s]) k c n"
  "node_ok w (fnv s) c n \<Longrightarrow> node_ok (w @ [s]) (fnv s) s (n + 1)"
  by (auto simp: node_ok_def)

lemma node_ok_tl:
  "node_ok (s # w) k c n \<Longrightarrow> k \<noteq> fnv s \<Longrightarrow> node_ok w k c n"
  "node_ok (s # w) (fnv s) c n \<Longrightarrow> n > 1 \<Longrightarrow> node_ok w (fnv s) c (n - 1)"
  by (auto simp: node_ok_def find_append find_None_iff count_list_pos split: option.splits)

lemma window_node: "linked M q w \<Longrightarrow> s \<in> set w \<Longrightarrow> \<exists>a c n. M a = Some (fnv s, c, n)"
  unfolding linked_def by (induction rule: list_all2_induct) auto

lemma linked_mono:
  "linked M q w \<Longrightarrow> (\<And>a s c n. s \<in> set w \<Longrightarrow> M a = Some (fnv s, c, n) \<Longrightarrow> \<exists>c n. M' a = Some (fnv s, c, n)) \<Longrightarrow> linked M' q w"
  unfolding linked_def by (erule list.rel_mono_strong) blast

lemma linked_snoc: "linked M q w \<Longrightarrow> M a = Some (fnv s, c, n) \<Longrightarrow> linked M (q @ [a]) (w @ [s])"
  by (simp add: linked_def list_all2_appendI)

lemma nodes_new:
  assumes ok: "nodes_ok M w" "linked M q w" and a: "M a = None" and k: "\<And>b c n. M b \<noteq> Some (fnv s, c, n)"
  shows "nodes_ok (M(a \<mapsto> (fnv s, s, 1))) (w @ [s])" "linked (M(a \<mapsto> (fnv s, s, 1))) (q @ [a]) (w @ [s])"
proof -
  have "fnv s \<notin> set (map fnv w)" using window_node [OF ok(2)] k by (metis imageE set_map)
  then have "node_ok (w @ [s]) (fnv s) s 1" by (auto simp: node_ok_def count_list_0_iff)
  moreover have "k \<noteq> fnv s \<and> node_ok (w @ [s]) k c n" if "M b = Some (k, c, n)" for b k c n
    using that assms(4) ok(1) node_ok_snoc(1) [of w k c n s] unfolding nodes_ok_def by blast
  ultimately show "nodes_ok (M(a \<mapsto> (fnv s, s, 1))) (w @ [s])"
    using ok(1) unfolding nodes_ok_def by (auto split: if_splits)
  show "linked (M(a \<mapsto> (fnv s, s, 1))) (q @ [a]) (w @ [s])"
    by (rule linked_snoc, rule linked_mono [OF ok(2)]) (use a in auto)
qed

lemma nodes_again:
  assumes ok: "nodes_ok M w" "linked M q w" and a: "M a = Some (fnv s, c, n)"
  shows "nodes_ok (M(a \<mapsto> (fnv s, s, n + 1))) (w @ [s])" "linked (M(a \<mapsto> (fnv s, s, n + 1))) (q @ [a]) (w @ [s])"
proof -
  have u: "b = a" if "M b = Some (fnv s, c', n')" for b c' n' using ok(1) a that unfolding nodes_ok_def by metis
  have "node_ok (w @ [s]) (fnv s) s (n + 1)" using ok(1) a node_ok_snoc(2) unfolding nodes_ok_def by blast
  moreover have "node_ok (w @ [s]) k' c' n'" if "M b = Some (k', c', n')" "k' \<noteq> fnv s" for b k' c' n'
    using that ok(1) node_ok_snoc(1) unfolding nodes_ok_def by blast
  ultimately show "nodes_ok (M(a \<mapsto> (fnv s, s, n + 1))) (w @ [s])"
    using ok(1) u unfolding nodes_ok_def by (auto split: if_splits) metis
  show "linked (M(a \<mapsto> (fnv s, s, n + 1))) (q @ [a]) (w @ [s])"
    by (rule linked_snoc, rule linked_mono [OF ok(2)]) (use a in auto)
qed

lemma nodes_less:
  assumes ok: "nodes_ok M (s # w)" "linked M (p # q) (s # w)" and p: "M p = Some (fnv s, c, n)" "n > 1"
  shows "nodes_ok (M(p \<mapsto> (fnv s, c, n - 1))) w" "linked (M(p \<mapsto> (fnv s, c, n - 1))) q w"
proof -
  have u: "b = p" if "M b = Some (fnv s, c', n')" for b c' n' using ok(1) p(1) that unfolding nodes_ok_def by metis
  have "node_ok w (fnv s) c (n - 1)" using ok(1) p node_ok_tl(2) unfolding nodes_ok_def by blast
  moreover have "node_ok w k' c' n'" if "M b = Some (k', c', n')" "k' \<noteq> fnv s" for b k' c' n'
    using that ok(1) node_ok_tl(1) unfolding nodes_ok_def by blast
  ultimately show "nodes_ok (M(p \<mapsto> (fnv s, c, n - 1))) w"
    using ok(1) u unfolding nodes_ok_def by (auto split: if_splits) metis
  have "linked M q w" using ok(2) by (simp add: linked_def)
  then show "linked (M(p \<mapsto> (fnv s, c, n - 1))) q w" by (rule linked_mono) (use p in auto)
qed

lemma nodes_drop:
  assumes ok: "nodes_ok M (s # w)" "linked M (p # q) (s # w)" and p: "M p = Some (fnv s, c, n)" "\<not> n > 1"
  shows "nodes_ok (M(p := None)) w" "linked (M(p := None)) q w"
proof -
  have u: "b = p" if "M b = Some (fnv s, c', n')" for b c' n' using ok(1) p(1) that unfolding nodes_ok_def by metis
  have "node_ok w k' c' n'" if "M b = Some (k', c', n')" "k' \<noteq> fnv s" for b k' c' n'
    using that ok(1) node_ok_tl(1) unfolding nodes_ok_def by blast
  then show "nodes_ok (M(p := None)) w"
    using ok(1) u unfolding nodes_ok_def by (auto split: if_splits) metis
  have "n = int (count_list (map fnv (s # w)) (fnv s))" using ok(1) p(1) unfolding nodes_ok_def node_ok_def by blast
  then have "fnv s \<notin> set (map fnv w)" using p(2) count_list_pos [of "map fnv w" "fnv s"] by auto
  moreover have "linked M q w" using ok(2) by (simp add: linked_def)
  ultimately show "linked (M(p := None)) q w" by (elim linked_mono) (use p in auto)
qed

lemma cache_emplace_ok:
  assumes ok: "cache_ok cc w" and fresh: "addr \<notin> fst ` set (nodes cc)"
  shows "cache_ok (cache_emplace addr cursor cc) (w @ [cursor])"
proof (cases "find_node (fnv cursor) (nodes cc)")
  case None
  let ?M = "map_of (nodes cc)"
  have o: "nodes_ok ?M w" "linked ?M (queue cc) w" "distinct (map fst (nodes cc))" and f: "?M addr = None"
    using ok fresh by (auto simp: cache_ok_def map_of_eq_None_iff)
  have m: "map_of (nodes cc @ [(addr, fnv cursor, cursor, 1)]) = ?M(addr \<mapsto> (fnv cursor, cursor, 1))"
    using f by (auto simp: fun_eq_iff map_add_def split: option.split)
  show ?thesis using nodes_new [OF o(1,2) f find_node_None [OF None]] o(3) fresh None unfolding cache_ok_def
    by (simp add: cache_emplace_def m del: map_of_append)
next
  case (Some x)
  obtain a c n where x: "x = (a, fnv cursor, c, n)" "map_of (nodes cc) a = Some (fnv cursor, c, n)"
    using find_node_Some [of "nodes cc" "fnv cursor"] Some ok unfolding cache_ok_def by (metis prod_cases4)
  then show ?thesis using nodes_again [of "map_of (nodes cc)" w "queue cc", OF _ _ x(2)] ok Some unfolding cache_ok_def
    by (simp add: cache_emplace_def update_conv' distinct_update)
qed

lemma cache_evict_ok:
  assumes ok: "cache_ok cc w"
  obtains cc' where "cache_evict cc = Some cc'" "cache_ok cc' (if length w \<le> 100 then w else tl w)"
proof -
  have o: "nodes_ok (map_of (nodes cc)) w" "linked (map_of (nodes cc)) (queue cc) w" "distinct (map fst (nodes cc))"
    using ok by (simp_all add: cache_ok_def)
  have l: "length (queue cc) = length w" using o(2) by (auto simp: linked_def dest: list_all2_lengthD)
  show thesis
  proof (cases "length w \<le> 100")
    case True
    then have "cache_evict cc = Some cc" using l by (cases "queue cc") (simp_all add: cache_evict_def)
    then show thesis using that True ok by simp
  next
    case long: False
    then obtain s t where w: "w = s # t" by (cases w) auto
    then obtain p q c n where q: "queue cc = p # q" "map_of (nodes cc) p = Some (fnv s, c, n)"
      using o(2) by (auto simp: linked_def list_all2_Cons2)
    note o' = o(1) [unfolded w] o(2) [unfolded w q(1)] q(2)
    show thesis
    proof (cases "n > 1")
      case True
      have "cache_ok \<lparr>nodes = AList.update p (fnv s, c, n - 1) (nodes cc), queue = q\<rparr> t"
        using nodes_less [OF o' True] o(3) by (simp add: cache_ok_def update_conv' distinct_update)
      then show thesis using that long True q l w by (simp add: cache_evict_def)
    next
      case False
      let ?ns = "filter (\<lambda>(a, k', _). k' \<noteq> fnv s) (nodes cc)"
      have u: "b = p" if "map_of (nodes cc) b = Some (fnv s, c', n')" for b c' n'
        using o'(1,3) that unfolding nodes_ok_def by metis
      have "map_of ?ns b = ((map_of (nodes cc))(p := None)) b" for b
        using u [of b] q(2) unfolding map_of_filter_entries [OF o(3)] by (cases "map_of (nodes cc) b") auto
      then have m: "map_of ?ns = (map_of (nodes cc))(p := None)" by (rule ext)
      have "cache_ok \<lparr>nodes = ?ns, queue = q\<rparr> t"
        using nodes_drop [OF o' False] distinct_map_filter [OF o(3)] unfolding cache_ok_def by (simp add: m)
      then show thesis using that long False q l w by (simp add: cache_evict_def)
    qed
  qed
qed

section \<open>Theorem\<close>

text \<open>The states of the cache, with the cursors cursor_history so far.\<close>

inductive cursor_history :: "scan_cache \<Rightarrow> bytes list \<Rightarrow> bool" where
  empty: "cursor_history \<lparr>nodes = [], queue = []\<rparr> []"
| cache: "cursor_history cc hist \<Longrightarrow> addr \<notin> fst ` set (nodes cc) \<Longrightarrow> CacheScanCursor addr cursor cc = Some (h, cc') \<Longrightarrow>
    cursor_history cc' (hist @ [cursor])"

abbreviation window :: "bytes list \<Rightarrow> bytes list" where
  "window hist \<equiv> drop (length hist - 100) hist"

lemma CacheScanCursor_ok:
  assumes "cache_ok cc (window hist)" "addr \<notin> fst ` set (nodes cc)"
  obtains cc' where "CacheScanCursor addr cursor cc = Some (fnv cursor, cc')" "cache_ok cc' (window (hist @ [cursor]))"
proof -
  obtain cc' where c: "cache_evict (cache_emplace addr cursor cc) = Some cc'"
    "cache_ok cc' (if length (window hist @ [cursor]) \<le> 100 then window hist @ [cursor] else tl (window hist @ [cursor]))"
    using cache_evict_ok [OF cache_emplace_ok [OF assms]] by metis
  have "(if length (window hist @ [cursor]) \<le> 100 then window hist @ [cursor] else tl (window hist @ [cursor])) = window (hist @ [cursor])"
  proof (cases "length hist \<ge> 100")
    case True
    then have "Suc (length hist) - 100 = Suc (length hist - 100)" "window hist \<noteq> []" by simp_all
    then show ?thesis using True by (simp add: drop_Suc tl_drop)
  qed simp
  then show thesis using that c by (simp add: CacheScanCursor_def)
qed

lemma cursor_history_ok: "cursor_history cc hist \<Longrightarrow> cache_ok cc (window hist)"
proof (induction rule: cursor_history.induct)
  case (cache cc hist addr cursor h cc')
  then show ?case using CacheScanCursor_ok [OF cache.IH cache.hyps(2), of cursor] by auto
qed (simp add: cache_ok_def nodes_ok_def linked_def)

lemma find_cached:
  assumes "cache_ok cc w"
  shows "FindScanCursor h cc = find (\<lambda>s. fnv s = h) (rev w)"
proof (cases "find_node h (nodes cc)")
  case None
  have "fnv s \<noteq> h" if "s \<in> set w" for s
    using window_node [of "map_of (nodes cc)" "queue cc" w s] find_node_None [OF None] assms that unfolding cache_ok_def by blast
  then show ?thesis using None by (auto simp: FindScanCursor_def find_None_iff eq_commute [of None])
next
  case (Some x)
  obtain a k c n where x: "x = (a, k, c, n)" by (metis prod_cases4)
  have "map_of (nodes cc) a = Some (h, c, n)"
    using find_node_Some [of "nodes cc" h] Some x assms unfolding cache_ok_def by blast
  then have "node_ok w h c n" using assms unfolding cache_ok_def nodes_ok_def by blast
  then show ?thesis using Some x by (simp add: FindScanCursor_def node_ok_def)
qed

text \<open>
  (C21) The cache of scan cursors is safe and exact: after any history, caching another cursor follows no pointer to a freed
  node, and an id finds the latest of the last hundred cursors that have it as their hash, and nothing else.
\<close>

theorem scan_cursor_cache:
  assumes "cursor_history cc hist" "addr \<notin> fst ` set (nodes cc)"
  shows "(\<exists>cc'. CacheScanCursor addr cursor cc = Some (fnv cursor, cc')) \<and>
    FindScanCursor h cc = find (\<lambda>s. fnv s = h) (rev (drop (length hist - 100) hist))"
  using CacheScanCursor_ok [OF cursor_history_ok [OF assms(1)] assms(2)] find_cached [OF cursor_history_ok [OF assms(1)]] by blast

theorem scan_cursor_cache_witness:
  "cursor_history \<lparr>nodes = [(7, fnv ''k1'', ''k1'', 1)], queue = [7]\<rparr> [''k1''] \<and>
   FindScanCursor (fnv ''k1'') \<lparr>nodes = [(7, fnv ''k1'', ''k1'', 1)], queue = [7]\<rparr> = Some ''k1''"
proof -
  have c: "cursor_history \<lparr>nodes = [(7, fnv ''k1'', ''k1'', 1)], queue = [7]\<rparr> [''k1'']"
    using cache [OF empty, of 7 "''k1''"]
    by (simp add: CacheScanCursor_def cache_emplace_def cache_evict_def find_node_def)
  show ?thesis using scan_cursor_cache [OF c, of 8 "''k2''" "fnv ''k1''"] c by simp
qed

section \<open>The bucket cursor of a database\<close>

text \<open>
  One cursor is kept for each database, with a running number; the state of the scan itself is the engine's.
\<close>

record 's bucket_scan_cursor =
  cursor_id :: u64
  scan_obj_type :: "redis_object_type option"
  cmd_pattern :: bytes
  cache_idx :: nat
  cached_keys :: "bytes list"
  save_point :: 's

record 's scan_ctx =
  db_id :: int
  scan_cursor_cnt :: u64
  bucket_scan_cursors :: "(int \<times> 's bucket_scan_cursor) list"

definition CreateBucketScanCursor :: "'s bucket_scan_cursor \<Rightarrow> 's scan_ctx \<Rightarrow> u64 \<times> 's scan_ctx" where
  "CreateBucketScanCursor scan_cursor ctx =
     (let scan_cursor_id = scan_cursor_cnt ctx + 1 in
      (scan_cursor_id, ctx\<lparr>scan_cursor_cnt := scan_cursor_id,
         bucket_scan_cursors := AList.update (db_id ctx) (scan_cursor\<lparr>cursor_id := scan_cursor_id\<rparr>) (bucket_scan_cursors ctx)\<rparr>))"

definition RemoveBucketScanCursor :: "'s scan_ctx \<Rightarrow> 's scan_ctx" where
  "RemoveBucketScanCursor ctx = ctx\<lparr>bucket_scan_cursors := AList.delete (db_id ctx) (bucket_scan_cursors ctx)\<rparr>"

text \<open>Without a cursor \<^verbatim>\<open>assert(false)\<close> comes before the \<^verbatim>\<open>return 0\<close>.\<close>

definition UpdateBucketScanCursor :: "'s scan_ctx \<Rightarrow> (u64 \<times> 's scan_ctx) option" where
  "UpdateBucketScanCursor ctx =
     (case map_of (bucket_scan_cursors ctx) (db_id ctx) of
        None \<Rightarrow> None
      | Some cur \<Rightarrow>
          let scan_cursor_id = scan_cursor_cnt ctx + 1 in
          Some (scan_cursor_id, ctx\<lparr>scan_cursor_cnt := scan_cursor_id,
            bucket_scan_cursors := AList.update (db_id ctx) (cur\<lparr>cursor_id := scan_cursor_id\<rparr>) (bucket_scan_cursors ctx)\<rparr>))"

definition FindBucketScanCursor :: "u64 \<Rightarrow> 's scan_ctx \<Rightarrow> 's bucket_scan_cursor option" where
  "FindBucketScanCursor cid ctx =
     (case map_of (bucket_scan_cursors ctx) (db_id ctx) of
        None \<Rightarrow> None
      | Some cur \<Rightarrow> if cursor_id cur \<noteq> cid then None else Some cur)"

text \<open>Only the latest number of a database finds its cursor; other databases keep theirs.\<close>

lemma bucket_cursor_laws:
  "CreateBucketScanCursor cur ctx = (cid, ctx') \<Longrightarrow>
     FindBucketScanCursor i ctx' = (if i = cid then Some (cur\<lparr>cursor_id := cid\<rparr>) else None)"
  "CreateBucketScanCursor cur ctx = (cid, ctx') \<Longrightarrow> d \<noteq> db_id ctx \<Longrightarrow>
     FindBucketScanCursor i (ctx'\<lparr>db_id := d\<rparr>) = FindBucketScanCursor i (ctx\<lparr>db_id := d\<rparr>)"
  "FindBucketScanCursor i ctx = Some cur \<Longrightarrow> UpdateBucketScanCursor ctx = Some (cid, ctx') \<Longrightarrow>
     FindBucketScanCursor j ctx' = (if j = cid then Some (cur\<lparr>cursor_id := cid\<rparr>) else None)"
  "FindBucketScanCursor i (RemoveBucketScanCursor ctx) = None"
  by (auto simp: CreateBucketScanCursor_def FindBucketScanCursor_def UpdateBucketScanCursor_def RemoveBucketScanCursor_def
      Let_def update_conv delete_conv split: option.splits if_splits)

end
