(* ===== verification/ZsetParse.thy ===== *)
theory ZsetParse
  imports ZsetCommands StringMatch
begin

text \<open>
  The parsers of the sorted set commands (\<^verbatim>\<open>src/redis_command.cpp\<close>, \<^verbatim>\<open>ParseZAddCommand\<close> to \<^verbatim>\<open>ParseZIncrByCommand\<close>): the
  arguments of a request become a key and a command, or an error.  A parser is \<open>None\<close> where the code reads an argument
  that is not there or the first byte of an empty one.  The library's \<^verbatim>\<open>strtod\<close> is a parameter, which gives a value and
  how much of the text it read; so is \<^verbatim>\<open>cstr\<close>, the text up to the next zero byte in the memory that starts at an argument.
\<close>

type_synonym 'c parsed = "(bytes + bytes \<times> 'c) option"

abbreviation parse_error :: "bytes \<Rightarrow> 'c parsed" where
  "parse_error msg \<equiv> Some (Inl msg)"

abbreviation parse_fail :: "rd_err \<Rightarrow> 'c parsed" where
  "parse_fail e \<equiv> Some (Inl (redis_get_error_messages e))"

abbreviation parse_ok :: "bytes list \<Rightarrow> 'c \<Rightarrow> 'c parsed" where
  "parse_ok args c \<equiv> Some (Inr (args ! 1, c))"

definition wrong_number :: "bytes \<Rightarrow> 'c parsed" where
  "wrong_number name = parse_error (''ERR wrong number of arguments for '' @ [CHR 0x27] @ name @ [CHR 0x27] @ '' command'')"

section \<open>Numbers\<close>

abbreviation infinity :: u64 where "infinity \<equiv> 0x7FF0000000000000"
abbreviation minus_infinity :: u64 where "minus_infinity \<equiv> 0xFFF0000000000000"

definition string2double :: "(bytes \<Rightarrow> u64 \<times> nat) \<Rightarrow> bytes \<Rightarrow> u64 option" where
  "string2double strtod s =
     (if s = ''-inf'' then Some minus_infinity
      else if s = ''+inf'' then Some infinity
      else let (v, n) = strtod (takeWhile (\<lambda>c. c \<noteq> CHR 0x00) s) in
           if s = [] \<or> isspace (hd s) \<or> n \<noteq> length s \<or> dbl_nan v then None else Some v)"

definition zadd_score :: "(bytes \<Rightarrow> u64 \<times> nat) \<Rightarrow> bytes \<Rightarrow> u64 option" where
  "zadd_score strtod a =
     (if a = ''+inf'' \<or> a = ''inf'' then Some infinity
      else if a = ''-inf'' then Some minus_infinity
      else string2double strtod a)"

text \<open>The number is narrowed to \<^verbatim>\<open>int\<close>.  The outer option is the read of \<^verbatim>\<open>sv[0]\<close>.\<close>

definition GetIntFromSv :: "bytes \<Rightarrow> (bool \<times> int option) option" where
  "GetIntFromSv sv =
     (if sv = ''inf'' \<or> sv = ''+inf'' \<or> sv = ''-inf'' then Some (False, None)
      else case sv of
             [] \<Rightarrow> None
           | c # rest \<Rightarrow>
               if c = CHR ''('' then Some (True, map_option (to_signed 32) (string2ll rest))
               else Some (False, map_option (to_signed 32) (string2ll sv)))"

definition GetDoubleFromSv :: "(bytes \<Rightarrow> u64 \<times> nat) \<Rightarrow> bytes \<Rightarrow> (bool \<times> u64 option) option" where
  "GetDoubleFromSv strtod sv =
     (case sv of
        [] \<Rightarrow> None
      | c # rest \<Rightarrow>
          if c = CHR ''(''
          then Some (True, if sv = ''inf'' \<or> sv = ''+inf'' then Some infinity
                           else if sv = ''-inf'' then Some minus_infinity
                           else string2double strtod rest)
          else Some (False, if sv = ''inf'' \<or> sv = ''+inf'' then Some infinity
                            else if sv = ''-inf'' then Some minus_infinity
                            else string2double strtod sv))"

text \<open>Whether the bound is excluded, its text and whether it is one of the two signs.\<close>

definition GetEloqStringFromSv :: "bytes \<Rightarrow> (bool \<times> eloq_string \<times> bool) option option" where
  "GetEloqStringFromSv sv =
     (if sv = ''-'' \<or> sv = ''+'' then Some (Some (True, NullView, True))
      else case sv of
             [] \<Rightarrow> None
           | c # rest \<Rightarrow>
               if c = CHR ''('' then Some (Some (True, View rest, False))
               else if c = CHR ''['' then Some (Some (False, View rest, False))
               else Some None)"

section \<open>ZADD and ZINCRBY\<close>

definition zadd_option :: "bytes \<Rightarrow> nat option" where
  "zadd_option a =
     (if stringcomp a ''xx'' True then Some 2
      else if stringcomp a ''nx'' True then Some 1
      else if stringcomp a ''gt'' True then Some 3
      else if stringcomp a ''lt'' True then Some 4
      else if stringcomp a ''ch'' True then Some 5
      else if stringcomp a ''incr'' True then Some 0
      else None)"

text \<open>The options, up to the last argument; the remaining arguments.\<close>

fun zadd_options :: "nat \<Rightarrow> bytes list \<Rightarrow> nat \<times> bytes list" where
  "zadd_options flags (a # b # rest) =
     (case zadd_option a of
        Some n \<Rightarrow> zadd_options (Bit_Operations.set_bit n flags) (b # rest)
      | None \<Rightarrow> (flags, a # b # rest))"
| "zadd_options flags xs = (flags, xs)"

fun zadd_pairs :: "(bytes \<Rightarrow> u64 \<times> nat) \<Rightarrow> bytes list \<Rightarrow> zelem list option" where
  "zadd_pairs strtod (a # b # rest) =
     do { num \<leftarrow> zadd_score strtod a; es \<leftarrow> zadd_pairs strtod rest; Some ((num, View b) # es) }"
| "zadd_pairs strtod _ = Some []"

definition ParseZAddCommand :: "(bytes \<Rightarrow> u64 \<times> nat) \<Rightarrow> bytes list \<Rightarrow> zset_cmd parsed" where
  "ParseZAddCommand strtod args =
     (if length args < 4 then wrong_number ''zadd''
      else let (flags, rest) = zadd_options 0 (drop 2 args) in
           if z_XX flags \<and> z_NX flags then parse_fail RD_ERR_XX_NX
           else if z_NX flags \<and> (z_GT flags \<or> z_LT flags) then parse_fail RD_ERR_LT_GT_NX
           else if z_GT flags \<and> z_LT flags then parse_fail RD_ERR_LT_GT_NX
           else if odd (length rest) then parse_fail RD_ERR_SYNTAX
           else case zadd_pairs strtod rest of
                  None \<Rightarrow> parse_fail RD_ERR_FLOAT_VALUE
                | Some elements \<Rightarrow>
                    if elements = [] then parse_fail RD_ERR_SYNTAX
                    else if z_INCR flags
                    then if length elements > 1 then parse_fail RD_ERR_SYNTAX
                         else parse_ok args (ZAdd flags (ZPair (hd elements)) False)
                    else parse_ok args (ZAdd flags (ZVector elements) False))"

definition ParseZIncrByCommand :: "(bytes \<Rightarrow> u64 \<times> nat) \<Rightarrow> bytes list \<Rightarrow> zset_cmd parsed" where
  "ParseZIncrByCommand strtod args =
     (if length args \<noteq> 4 then wrong_number ''zincrby''
      else case zadd_score strtod (args ! 2) of
             None \<Rightarrow> parse_error ''ERR value is not a valid float''
           | Some num \<Rightarrow> parse_ok args (ZAdd 1 (ZPair (num, View (args ! 3))) False))"

section \<open>The other commands that write\<close>

text \<open>The first of equal arguments stays.\<close>

fun dedup :: "bytes list \<Rightarrow> bytes list \<Rightarrow> bytes list" where
  "dedup seen [] = []"
| "dedup seen (a # as) = (if a \<in> set seen then dedup seen as else a # dedup (a # seen) as)"

definition ParseZRemCommand :: "bytes list \<Rightarrow> zset_cmd parsed" where
  "ParseZRemCommand args =
     (if length args < 3 then wrong_number ''zrem'' else parse_ok args (ZRem (map View (dedup [] (drop 2 args)))))"

definition ParseZPopCommand :: "bool \<Rightarrow> bytes list \<Rightarrow> zset_cmd parsed" where
  "ParseZPopCommand popmin args =
     (if length args < 2 \<or> length args > 3 then wrong_number (if popmin then ''zpopmin'' else ''zpopmax'')
      else if length args = 2 then parse_ok args (ZPop popmin 1)
      else case string2ll (args ! 2) of
             None \<Rightarrow> parse_fail RD_ERR_POSITIVE_INVALID
           | Some n \<Rightarrow> if n < 0 then parse_fail RD_ERR_POSITIVE_INVALID else parse_ok args (ZPop popmin n))"

text \<open>The two bounds of a range; the error is the one of the kind of range.\<close>

definition int_bounds :: "bytes \<Rightarrow> bytes \<Rightarrow> (rd_err + zrange_spec) option" where
  "int_bounds a b =
     do { (mn, st) \<leftarrow> GetIntFromSv a; (mx, en) \<leftarrow> GetIntFromSv b;
          Some (case (st, en) of
                  (Some s, Some e) \<Rightarrow>
                    Inr (ZRangeSpec_default\<lparr>opt_start := ZBInt s, opt_end := ZBInt e, minex := mn, maxex := mx\<rparr>)
                | _ \<Rightarrow> Inl RD_ERR_DIGITAL_INVALID) }"

definition double_bounds :: "(bytes \<Rightarrow> u64 \<times> nat) \<Rightarrow> bytes \<Rightarrow> bytes \<Rightarrow> (rd_err + zrange_spec) option" where
  "double_bounds strtod a b =
     do { (mn, st) \<leftarrow> GetDoubleFromSv strtod a; (mx, en) \<leftarrow> GetDoubleFromSv strtod b;
          Some (case (st, en) of
                  (Some s, Some e) \<Rightarrow>
                    Inr (ZRangeSpec_default\<lparr>opt_start := ZBDouble s, opt_end := ZBDouble e, minex := mn, maxex := mx\<rparr>)
                | _ \<Rightarrow> Inl RD_ERR_MIN_MAX_NOT_FLOAT) }"

definition string_bounds :: "bytes \<Rightarrow> bytes \<Rightarrow> (rd_err + zrange_spec) option" where
  "string_bounds a b =
     (if a = ''+'' \<or> b = ''-'' then Some (Inr (ZRangeSpec_default\<lparr>null := True\<rparr>))
      else do { st \<leftarrow> GetEloqStringFromSv a; en \<leftarrow> GetEloqStringFromSv b;
                Some (case (st, en) of
                        (Some (mn, s, ng), Some (mx, e, ps)) \<Rightarrow>
                          Inr \<lparr>null = False, minex = mn, maxex = mx, negative = ng, positive = ps,
                               opt_start = ZBStr s, opt_end = ZBStr e\<rparr>
                      | _ \<Rightarrow> Inl RD_ERR_MIN_MAX_NOT_STRING) })"

definition with_bounds :: "(rd_err + zrange_spec) option \<Rightarrow> bytes list \<Rightarrow> (zrange_spec \<Rightarrow> zset_cmd) \<Rightarrow> zset_cmd parsed" where
  "with_bounds spec args f =
     map_option (case_sum (\<lambda>e. Inl (redis_get_error_messages e)) (\<lambda>s. Inr (args ! 1, f s))) spec"

definition ParseZRemRangeElement :: "(bytes \<Rightarrow> u64 \<times> nat) \<Rightarrow> bytes list \<Rightarrow> zrange_type \<Rightarrow> (rd_err + zrange_spec) option" where
  "ParseZRemRangeElement strtod args range_type =
     (case range_type of
        ZRANGE_SCORE \<Rightarrow> double_bounds strtod (args ! 2) (args ! 3)
      | ZRANGE_LEX \<Rightarrow> string_bounds (args ! 2) (args ! 3)
      | ZRANGE_RANK \<Rightarrow> int_bounds (args ! 2) (args ! 3)
      | ZRANGE_AUTO \<Rightarrow> None)"

definition ParseZRemRangeCommand :: "(bytes \<Rightarrow> u64 \<times> nat) \<Rightarrow> bytes list \<Rightarrow> zset_cmd parsed" where
  "ParseZRemRangeCommand strtod args =
     (if length args < 4 then wrong_number ''zremrangeby...''
      else do { ty \<leftarrow> (if hd args = ''zremrangebyscore'' then Some ZRANGE_SCORE
                       else if hd args = ''zremrangebylex'' then Some ZRANGE_LEX
                       else if hd args = ''zremrangebyrank'' then Some ZRANGE_RANK else None);
                with_bounds (ParseZRemRangeElement strtod args ty) args (ZRemRange ty) })"

section \<open>The commands that read\<close>

definition ParseZScoreCommand :: "bytes list \<Rightarrow> zset_cmd parsed" where
  "ParseZScoreCommand args = (if length args \<noteq> 3 then wrong_number ''zscore'' else parse_ok args (ZScore (View (args ! 2))))"

definition ParseZMScoreCommand :: "bytes list \<Rightarrow> zset_cmd parsed" where
  "ParseZMScoreCommand args =
     (if length args < 3 then wrong_number ''zmscore'' else parse_ok args (ZMScore (map View (drop 2 args))))"

definition ParseZCardCommand :: "bytes list \<Rightarrow> zset_cmd parsed" where
  "ParseZCardCommand args = (if length args \<noteq> 2 then wrong_number ''zcount'' else parse_ok args ZCard)"

text \<open>Two arguments pass the test, and then the third is read.\<close>

definition ParseZRankCommand :: "bool \<Rightarrow> bytes list \<Rightarrow> zset_cmd parsed" where
  "ParseZRankCommand is_rev args =
     (if length args < 2 \<or> length args > 4 then wrong_number (if is_rev then ''zrevrank'' else ''zrank'')
      else if length args = 4 \<and> \<not> stringcomp (args ! 3) ''withscore'' True then parse_error ''ERR syntax error''
      else if length args = 2 then None
      else parse_ok args (ZRank (View (args ! 2)) is_rev (length args = 4)))"

definition ParseZCountCommand :: "(bytes \<Rightarrow> u64 \<times> nat) \<Rightarrow> bytes list \<Rightarrow> zset_cmd parsed" where
  "ParseZCountCommand strtod args =
     (if length args \<noteq> 4 then wrong_number ''zcount''
      else with_bounds (double_bounds strtod (args ! 2) (args ! 3)) args ZCountOf)"

definition ParseZLexCountCommand :: "bytes list \<Rightarrow> zset_cmd parsed" where
  "ParseZLexCountCommand args =
     (if length args \<noteq> 4 then wrong_number ''zlexcount''
      else with_bounds (string_bounds (args ! 2) (args ! 3)) args ZLexCount)"

text \<open>The options of the range commands, from the fifth argument on.\<close>

definition ZRangeConstraint_default :: zrange_constraint where
  "ZRangeConstraint_default = \<lparr>opt_withscores = False, opt_offset = 0, opt_limit = -1, rangetype = ZRANGE_AUTO,
     direction = DIRECTION_AUTO\<rparr>"

fun zrange_options :: "(bytes \<Rightarrow> bytes) \<Rightarrow> bytes \<Rightarrow> zrange_constraint \<Rightarrow> bytes list \<Rightarrow> (rd_err + zrange_constraint) option" where
  "zrange_options cstr name constr [] = Some (Inr constr)"
| "zrange_options cstr name constr (a # rest) =
     (if stringcomp (cstr a) ''withscores'' True
      then if name = ''zrangestore'' then Some (Inl RD_ERR_SYNTAX)
           else zrange_options cstr name (constr\<lparr>opt_withscores := True\<rparr>) rest
      else if stringcomp (cstr a) ''limit'' True \<and> length rest \<ge> 2
      then do { (_, off) \<leftarrow> GetIntFromSv (rest ! 0); (_, lim) \<leftarrow> GetIntFromSv (rest ! 1);
                (case (off, lim) of
                   (Some m, Some n) \<Rightarrow>
                     zrange_options cstr name (constr\<lparr>opt_offset := m, opt_limit := n\<rparr>) (drop 2 rest)
                 | _ \<Rightarrow> Some (Inl RD_ERR_DIGITAL_INVALID)) }
      else if direction constr = DIRECTION_AUTO \<and> stringcomp (cstr a) ''rev'' True
      then if name = ''zrangebyscore'' then Some (Inl RD_ERR_SYNTAX)
           else zrange_options cstr name (constr\<lparr>direction := DIRECTION_REVERSE\<rparr>) rest
      else if rangetype constr = ZRANGE_AUTO \<and> stringcomp (cstr a) ''bylex'' True
      then zrange_options cstr name (constr\<lparr>rangetype := ZRANGE_LEX\<rparr>) rest
      else if rangetype constr = ZRANGE_AUTO \<and> stringcomp (cstr a) ''byscore'' True
      then zrange_options cstr name (constr\<lparr>rangetype := ZRANGE_SCORE\<rparr>) rest
      else Some (Inl RD_ERR_SYNTAX))"

definition zrange_defaults :: "zrange_constraint \<Rightarrow> zrange_constraint" where
  "zrange_defaults constr =
     constr\<lparr>direction := (if direction constr = DIRECTION_AUTO then DIRECTION_FORWARD else direction constr),
            rangetype := (if rangetype constr = ZRANGE_AUTO then ZRANGE_RANK else rangetype constr)\<rparr>"

definition ParseZrangeElement :: "(bytes \<Rightarrow> bytes) \<Rightarrow> (bytes \<Rightarrow> u64 \<times> nat) \<Rightarrow> bytes list \<Rightarrow> zrange_constraint \<Rightarrow>
    (rd_err + zrange_constraint \<times> zrange_spec) option" where
  "ParseZrangeElement cstr strtod args constr0 =
     do { opts \<leftarrow> zrange_options cstr (hd args) constr0 (drop 4 args);
          (case opts of
             Inl e \<Rightarrow> Some (Inl e)
           | Inr constr1 \<Rightarrow>
               (let constr = zrange_defaults constr1;
                    swapped = (dir_reverse constr \<and> (rangetype constr = ZRANGE_SCORE \<or> rangetype constr = ZRANGE_LEX));
                    a = args ! (if swapped then 3 else 2); b = args ! (if swapped then 2 else 3)
                in if opt_limit constr \<noteq> -1 \<and> rangetype constr = ZRANGE_RANK then Some (Inl RD_ERR_LIMIT)
                   else if opt_withscores constr \<and> rangetype constr = ZRANGE_LEX then Some (Inl RD_ERR_WITHSCORE_BYLEX)
                   else map_option (map_sum (\<lambda>e. e) (Pair constr))
                          (case rangetype constr of
                             ZRANGE_SCORE \<Rightarrow> double_bounds strtod a b
                           | ZRANGE_LEX \<Rightarrow> string_bounds a b
                           | _ \<Rightarrow> int_bounds a b))) }"

text \<open>The commands differ in the number of arguments they take and in what they preset.\<close>

definition zrange_parser :: "(bytes \<Rightarrow> bytes) \<Rightarrow> (bytes \<Rightarrow> u64 \<times> nat) \<Rightarrow> zrange_type \<Rightarrow> zrange_direction \<Rightarrow> bytes list \<Rightarrow>
    zset_cmd parsed" where
  "zrange_parser cstr strtod ty dir args =
     map_option (case_sum (\<lambda>e. Inl (redis_get_error_messages e))
                   (\<lambda>(constr, spec). Inr (args ! 1, ZRange constr spec False)))
       (ParseZrangeElement cstr strtod args (ZRangeConstraint_default\<lparr>rangetype := ty, direction := dir\<rparr>))"

definition ParseZRangeCommand :: "(bytes \<Rightarrow> bytes) \<Rightarrow> (bytes \<Rightarrow> u64 \<times> nat) \<Rightarrow> bytes list \<Rightarrow> zset_cmd parsed" where
  "ParseZRangeCommand cstr strtod args =
     (if length args < 4 then wrong_number ''zrange'' else zrange_parser cstr strtod ZRANGE_AUTO DIRECTION_AUTO args)"

definition ParseZRangeByRankCommand :: "(bytes \<Rightarrow> bytes) \<Rightarrow> (bytes \<Rightarrow> u64 \<times> nat) \<Rightarrow> bytes list \<Rightarrow> zset_cmd parsed" where
  "ParseZRangeByRankCommand cstr strtod args =
     (if length args < 4 then wrong_number ''zrangebyrank'' else zrange_parser cstr strtod ZRANGE_RANK DIRECTION_AUTO args)"

definition ParseZRangeByScoreCommand :: "(bytes \<Rightarrow> bytes) \<Rightarrow> (bytes \<Rightarrow> u64 \<times> nat) \<Rightarrow> bytes list \<Rightarrow> zset_cmd parsed" where
  "ParseZRangeByScoreCommand cstr strtod args =
     (if length args < 4 then wrong_number ''zrangebyscore'' else zrange_parser cstr strtod ZRANGE_SCORE DIRECTION_AUTO args)"

definition ParseZRangeByLexCommand :: "(bytes \<Rightarrow> bytes) \<Rightarrow> (bytes \<Rightarrow> u64 \<times> nat) \<Rightarrow> bytes list \<Rightarrow> zset_cmd parsed" where
  "ParseZRangeByLexCommand cstr strtod args =
     (if length args < 4 then wrong_number ''zrangebylex'' else zrange_parser cstr strtod ZRANGE_LEX DIRECTION_AUTO args)"

definition ParseZRevRangeCommand :: "(bytes \<Rightarrow> bytes) \<Rightarrow> (bytes \<Rightarrow> u64 \<times> nat) \<Rightarrow> bytes list \<Rightarrow> zset_cmd parsed" where
  "ParseZRevRangeCommand cstr strtod args =
     (if length args < 4 \<or> length args > 5 then wrong_number ''zrevrange''
      else zrange_parser cstr strtod ZRANGE_RANK DIRECTION_REVERSE args)"

definition ParseZRevRangeByScoreCommand :: "(bytes \<Rightarrow> bytes) \<Rightarrow> (bytes \<Rightarrow> u64 \<times> nat) \<Rightarrow> bytes list \<Rightarrow> zset_cmd parsed" where
  "ParseZRevRangeByScoreCommand cstr strtod args =
     (if length args < 4 then wrong_number ''zrevrangebyscore''
      else zrange_parser cstr strtod ZRANGE_SCORE DIRECTION_REVERSE args)"

definition ParseZRevRangeByLexCommand :: "(bytes \<Rightarrow> bytes) \<Rightarrow> (bytes \<Rightarrow> u64 \<times> nat) \<Rightarrow> bytes list \<Rightarrow> zset_cmd parsed" where
  "ParseZRevRangeByLexCommand cstr strtod args =
     (if length args < 4 then wrong_number ''zrevrangebylex''
      else zrange_parser cstr strtod ZRANGE_LEX DIRECTION_REVERSE args)"

section \<open>What the parsers promise\<close>

lemma zadd_option_bit: "zadd_option a = Some n \<Longrightarrow> n \<le> 5"
  by (auto simp: zadd_option_def split: if_splits)

lemma zflag_set: "zflag m (Bit_Operations.set_bit n flags) \<longleftrightarrow> m = n \<or> zflag m flags"
  by (simp add: zflag_def flip: bit_iff_odd) (auto simp: bit_set_bit_iff)

lemma zadd_options_clear: "zadd_options flags xs = (flags', rest) \<Longrightarrow> \<not> z_ForceClear flags \<Longrightarrow> \<not> z_ForceClear flags'"
  by (induction flags xs rule: zadd_options.induct)
     (auto simp: zflag_set dest: zadd_option_bit split: option.splits)

lemma zadd_options_rest: "zadd_options flags xs = (flags', rest) \<Longrightarrow> \<exists>k. rest = drop k xs"
  by (induction flags xs rule: zadd_options.induct)
     (auto split: option.splits intro: exI [of _ 0], metis drop_Suc_Cons)

lemma string2double_nan: "string2double strtod s = Some d \<Longrightarrow> \<not> dbl_nan d"
  by (auto simp: string2double_def Let_def split_beta split: if_splits) (simp_all add: dbl_nan_def)

lemma zadd_pairs_scores:
  "zadd_pairs strtod xs = Some es \<Longrightarrow>
   list_all (\<lambda>e. \<not> dbl_nan (fst e)) es \<and> (\<exists>bs. map snd es = map View bs \<and> subseq bs xs)"
proof (induction strtod xs arbitrary: es rule: zadd_pairs.induct)
  case (1 strtod a b rest)
  then obtain num es' where e: "zadd_score strtod a = Some num" "zadd_pairs strtod rest = Some es'"
      "es = (num, View b) # es'"
    by (auto simp: bind_eq_Some_conv)
  then obtain bs where "map snd es' = map View bs" "subseq bs rest" using "1.IH" [OF e(1,2)] by blast
  moreover have "\<not> dbl_nan num" using e(1) string2double_nan
    by (auto simp: zadd_score_def split: if_splits) (simp_all add: dbl_nan_def)
  ultimately show ?case using "1.IH" [OF e(1,2)] e(3)
    by (auto intro!: exI [of _ "b # bs"])
qed auto

text \<open>Arguments whose lengths fit into the 32 bits of an image and add up to less than the running length can hold.\<close>

definition args_fit :: "bytes list \<Rightarrow> bool" where
  "args_fit args \<longleftrightarrow> list_all (\<lambda>a. length a < 2 ^ 32) args \<and> zcost args < 2 ^ 62"

lemma zcost_sub: "subseq bs xs \<Longrightarrow> zcost bs \<le> zcost xs"
  using zcost_subseq [of bs xs "\<lambda>x. x"] by simp

lemma args_fit_sub: "subseq bs xs \<Longrightarrow> args_fit xs \<Longrightarrow> args_fit bs"
  using zcost_sub [of bs xs] set_nths_subset by (auto simp: args_fit_def list_all_iff subseq_conv_nths)

lemma arg_ok_View [simp]: "arg_ok (View b) \<longleftrightarrow> length b < 2 ^ 32"
  by (simp add: arg_ok_def es_short_def)

lemma views_ok:
  assumes "list_all (\<lambda>e. \<not> dbl_nan (fst e)) es" "map snd es = map View bs" "args_fit bs"
  shows "zelems_ok es" "ZAdd_elements flags z es \<noteq> None"
proof -
  have v: "\<exists>b \<in> set bs. snd e = View b" if "e \<in> set es" for e
    using that assms(2) by (metis image_iff list.set_map)
  have "map snd (bare es) = map StringView (map snd es)" by (simp add: split_beta comp_def)
  then have "map snd (bare es) = bs" unfolding assms(2) by (simp add: comp_def)
  then show "zelems_ok es" using v assms(1,3) by (fastforce simp: zelems_ok_def args_fit_def list_all_iff)
  have "list_all (\<lambda>e. es_type (snd e) \<noteq> ST_Stack) es" using v by (fastforce simp: list_all_iff)
  then show "ZAdd_elements flags z es \<noteq> None" using zadd_loop_defined by (simp add: ZAdd_elements_def)
qed

lemma subseq_drop: "subseq (drop k xs) xs"
  by (metis list_emb_append2 subseq_order.order_refl append_take_drop_id)

lemma parsed_zadd:
  assumes "ParseZAddCommand strtod args = Some (Inr (key, c))" "args_fit args"
  shows "\<exists>flags els. c = ZAdd flags els False \<and> key = args ! 1 \<and> zset_ok c z"
proof -
  obtain flags rest es where p: "zadd_options 0 (drop 2 args) = (flags, rest)" "zadd_pairs strtod rest = Some es" "es \<noteq> []"
      "zflags_ok flags" "key = args ! 1"
      "c = ZAdd flags (if z_INCR flags then ZPair (hd es) else ZVector es) False" "z_INCR flags \<longrightarrow> length es = 1"
    using assms(1)
    by (auto simp: ParseZAddCommand_def wrong_number_def zflags_ok_def split: prod.splits if_splits option.splits)
       (metis Suc_lessI length_greater_0_conv)+
  have c: "\<not> z_ForceClear flags" using zadd_options_clear [OF p(1)] by (simp add: zflag_def)
  obtain bs where b: "list_all (\<lambda>e. \<not> dbl_nan (fst e)) es" "map snd es = map View bs" "subseq bs rest"
    using zadd_pairs_scores [OF p(2)] by blast
  have "subseq rest args"
    using zadd_options_rest [OF p(1)] subseq_drop by (metis drop_drop)
  then have fit: "args_fit bs" using b(3) assms(2) args_fit_sub subseq_order.trans by blast
  note v = views_ok(1) [OF b(1,2) fit] views_ok(2) [OF b(1,2) fit, of flags z]
  have "arg_ok (snd (hd es)) \<and> \<not> dbl_nan (fst (hd es))"
    using v(1) p(3) by (cases es) (simp_all add: zelems_ok_def)
  then show ?thesis using p(4-7) c v by simp
qed

lemma parsed_zincrby:
  assumes "ParseZIncrByCommand strtod args = Some (Inr (key, c))" "args_fit args"
  shows "\<exists>flags els. c = ZAdd flags els False \<and> key = args ! 1 \<and> zset_ok c z"
proof -
  have len: "length args = 4" using assms(1) by (auto simp: ParseZIncrByCommand_def wrong_number_def split: if_splits)
  then obtain num where n: "zadd_score strtod (args ! 2) = Some num" "key = args ! 1"
      "c = ZAdd 1 (ZPair (num, View (args ! 3))) False"
    using assms(1) by (auto simp: ParseZIncrByCommand_def split: option.splits)
  have "length (args ! 3) < 2 ^ 32" using assms(2) len by (simp add: args_fit_def list_all_length)
  moreover have "\<not> dbl_nan num" using n(1) string2double_nan
    by (auto simp: zadd_score_def split: if_splits) (simp_all add: dbl_nan_def)
  ultimately show ?thesis using n by (simp add: zflags_ok_def zflag_def)
qed

lemma dedup_distinct: "distinct (dedup seen as) \<and> set (dedup seen as) = set as - set seen"
  by (induction seen as rule: dedup.induct) auto

lemma StringView_View: "map StringView (map View bs) = bs"
  by (simp add: comp_def)

lemma parsed_zrem:
  assumes "ParseZRemCommand args = Some (Inr (key, c))"
  shows "\<exists>es. c = ZRem es \<and> key = args ! 1 \<and> distinct (map StringView es) \<and> StringView ` set es = set (drop 2 args)"
proof -
  have c: "c = ZRem (map View (dedup [] (drop 2 args)))" "key = args ! 1"
    using assms by (auto simp: ParseZRemCommand_def wrong_number_def split: if_splits)
  then show ?thesis
    using dedup_distinct [of "[]" "drop 2 args"] by (simp add: comp_def image_image)
qed

lemma parsed_zpop:
  "ParseZPopCommand popmin args = Some (Inr (key, c)) \<Longrightarrow> \<exists>n. c = ZPop popmin n \<and> key = args ! 1 \<and> 0 \<le> n"
  by (auto simp: ParseZPopCommand_def wrong_number_def split: if_splits option.splits)

text \<open>A parsed range has a meaning unless its two score bounds cross or its last rank is the least \<^verbatim>\<open>int\<close>.\<close>

lemma GetDoubleFromSv_nan: "GetDoubleFromSv strtod sv = Some (ex, Some d) \<Longrightarrow> \<not> dbl_nan d"
  by (auto simp: GetDoubleFromSv_def string2double_nan split: list.splits if_splits) (simp_all add: dbl_nan_def)

lemma double_bounds_spec:
  assumes "double_bounds strtod a b = Some (Inr spec)"
  shows "\<exists>s e. get_doubles spec = Some (s, e) \<and> \<not> dbl_nan s \<and> \<not> dbl_nan e \<and> \<not> null spec"
proof -
  obtain mn st mx en where g: "GetDoubleFromSv strtod a = Some (mn, st)" "GetDoubleFromSv strtod b = Some (mx, en)"
    using assms by (cases "GetDoubleFromSv strtod a"; cases "GetDoubleFromSv strtod b") (auto simp: double_bounds_def)
  with assms obtain s e where v: "st = Some s" "en = Some e"
    by (cases st; cases en) (simp_all add: double_bounds_def)
  then show ?thesis
    using assms g GetDoubleFromSv_nan [of strtod a mn s] GetDoubleFromSv_nan [of strtod b mx e]
    by (auto simp: double_bounds_def get_doubles.simps ZRangeSpec_default_def)
qed

lemma string_bounds_spec:
  assumes "string_bounds a b = Some (Inr spec)"
  shows "null spec \<or> get_strs spec \<noteq> None"
proof (cases "a = ''+'' \<or> b = ''-''")
  case True
  then show ?thesis using assms by (auto simp: string_bounds_def)
next
  case False
  then obtain st en where g: "GetEloqStringFromSv a = Some st" "GetEloqStringFromSv b = Some en"
    using assms by (cases "GetEloqStringFromSv a"; cases "GetEloqStringFromSv b") (auto simp: string_bounds_def)
  with assms False obtain s e where v: "st = Some s" "en = Some e"
    by (cases st; cases en) (auto simp: string_bounds_def)
  then show ?thesis
    using assms g False by (cases s; cases e) (auto simp: string_bounds_def get_strs.simps)
qed

lemma to_signed_range: "is_i32 (to_signed 32 x)"
  using pos_mod_bound [of "2 ^ 32" x] pos_mod_sign [of "2 ^ 32" x] by (auto simp: to_signed_def is_i32_def Let_def)

lemma GetIntFromSv_range: "GetIntFromSv sv = Some (ex, Some n) \<Longrightarrow> is_i32 n"
  by (auto simp: GetIntFromSv_def to_signed_range split: list.splits if_splits)

lemma int_bounds_spec:
  assumes "int_bounds a b = Some (Inr spec)"
  shows "\<exists>s e. get_ints spec = Some (s, e) \<and> is_i32 s \<and> is_i32 e \<and> \<not> null spec"
proof -
  obtain mn st mx en where g: "GetIntFromSv a = Some (mn, st)" "GetIntFromSv b = Some (mx, en)"
    using assms by (cases "GetIntFromSv a"; cases "GetIntFromSv b") (auto simp: int_bounds_def)
  with assms obtain s e where v: "st = Some s" "en = Some e"
    by (cases st; cases en) (simp_all add: int_bounds_def)
  then show ?thesis
    using assms g GetIntFromSv_range [of a mn s] GetIntFromSv_range [of b mx e]
    by (auto simp: int_bounds_def get_ints.simps ZRangeSpec_default_def)
qed

definition meets :: "zrange_type \<Rightarrow> zrange_spec \<Rightarrow> znode list \<Rightarrow> bool" where
  "meets ty spec xs \<longleftrightarrow>
     (case ty of
        ZRANGE_SCORE \<Rightarrow> (case get_doubles spec of Some (a, b) \<Rightarrow> \<not> score_crossed spec a b xs | None \<Rightarrow> False)
      | ZRANGE_RANK \<Rightarrow> (case get_ints spec of Some (a, b) \<Rightarrow> b \<noteq> - (2 ^ 31) | None \<Rightarrow> False)
      | _ \<Rightarrow> True)"

lemma parsed_range_ok:
  assumes "(case ty of ZRANGE_SCORE \<Rightarrow> double_bounds strtod a b | ZRANGE_LEX \<Rightarrow> string_bounds a b
            | ZRANGE_RANK \<Rightarrow> int_bounds a b | ZRANGE_AUTO \<Rightarrow> None) = Some (Inr spec)" "meets ty spec xs"
  shows "zrange_ok ty spec xs"
proof (cases ty)
  case ZRANGE_SCORE
  then show ?thesis using assms double_bounds_spec [of strtod a b spec] by (auto simp: zrange_ok_def meets_def)
next
  case ZRANGE_LEX
  then show ?thesis using assms string_bounds_spec [of a b spec] by (auto simp: zrange_ok_def)
next
  case ZRANGE_RANK
  then show ?thesis using assms int_bounds_spec [of a b spec] by (auto simp: zrange_ok_def meets_def is_i32_def)
qed (use assms in simp)

end
