(* ===== verification/ZsetProps.thy ===== *)
theory ZsetProps
  imports Examples ZsetParse
begin

text \<open>
  The properties of the sorted set commands: what the commands that write commit, what the reads by rank, score and name
  answer, and that the parsers hand over nothing else than commands of the contract.
\<close>

section \<open>Commands that change nothing\<close>

text \<open>A removal that fails would have removed nothing.\<close>

lemma zset_fail_removes_nothing:
  assumes "zset_state z" "rvalue ob = VZset z" "zset_ok c z"
    and "zset_ExecuteOn dtoa c ob = Some (c', r, EFail)" "case c of ZAdd _ _ _ \<Rightarrow> False | _ \<Rightarrow> True"
  shows "zset_effect c z z"
proof -
  have wf: "zset_wf z" using assms(1) by (simp add: zset_state_def)
  show ?thesis
  proof (cases c)
    case (ZRem es)
    then have "length (filter (\<lambda>n. name_of n \<in> StringView ` set es) (z_ordered_set z)) = 0"
      using assms(2-4) zrem_execution [OF wf, of es]
      by (auto simp: zset_exec_defs Execute_ZRem_def Let_def split: if_splits)
    then show ?thesis using ZRem by (simp add: filter_empty_conv filter_id_conv)
  next
    case (ZPop mn n)
    then have "n = 0" using assms(2-4) by (auto simp: zset_exec_defs Execute_ZPop_def Let_def split: if_splits)
    then show ?thesis using ZPop by simp
  next
    case (ZRemRange ty spec)
    then have "zrange_list ty spec (z_ordered_set z) = []"
      using assms(2-4) zremrange_counts [OF assms(1), of ty spec]
      by (auto simp: zset_exec_defs Execute_ZRemRange_def split: if_splits)
    then show ?thesis using ZRemRange by simp
  qed (use assms(5) in auto)
qed

section \<open>The commands that write\<close>

text \<open>
  (C11) A sorted set command within its contract runs and answers one value.  When it decides to write or to delete, its
  commit leaves a well formed sorted set on which it had its effect: for \<^verbatim>\<open>ZADD\<close> the scores that the options let through,
  one after the other, for \<^verbatim>\<open>ZINCRBY\<close> the rounded sum, for the removals the other members in their order.  It says delete
  exactly when no member is left, the object is then removed, and otherwise keeps its time to live.  A removal that
  fails would have removed nothing.
\<close>

theorem zset_commands_refine:
  assumes "zset_state z" "rvalue ob = VZset z" "zset_ok c z"
  shows "\<exists>c' r d. zset_ExecuteOn dtoa c ob = Some (c', r, d) \<and> replies (zset_OutputResult c' r) \<and>
    (d = EWrite \<or> d = EDelete \<longrightarrow>
       (\<exists>z'. zset_state z' \<and> zset_effect c z z' \<and> (d = EDelete \<longleftrightarrow> z_ordered_set z' = []) \<and>
          zset_CommitOn c' ob = (if z_ordered_set z' = [] then CRemove else CKeep (ob\<lparr>rvalue := VZset z'\<rparr>)))) \<and>
    (d = EFail \<and> (case c of ZAdd _ _ _ \<Rightarrow> False | _ \<Rightarrow> True) \<longrightarrow> zset_effect c z z)"
proof -
  obtain c' r d where e: "zset_ExecuteOn dtoa c ob = Some (c', r, d)"
    using zset_executes [OF assms, of dtoa] by auto
  show ?thesis
    using e zset_replies [OF assms(3) e] zset_command_commits [OF assms e, unfolded zset_commits_def]
      zset_fail_removes_nothing [OF assms, of dtoa c' r]
    by blast
qed

theorem zset_commands_refine_witness:
  "\<exists>c' z'. zset_CommitOn c' (object (VZset ex_zset) (Some 5)) = CKeep (object (VZset z') (Some 5)) \<and>
     map name_of (z_ordered_set z') = [''c''] \<and> zset_state z'"
proof -
  let ?ob = "object (VZset ex_zset) (Some 5)"
  have x: "zset_ExecuteOn (\<lambda>_. ''1'') (ZPop True 2) ?ob = Some (c', r, d) \<Longrightarrow> d = EWrite" for c' r d
    by (auto simp: zset_exec_defs Execute_ZPop_def ex_zset_def)
  show ?thesis
    using zset_commands_refine [of ex_zset ?ob "ZPop True 2" "\<lambda>_. ''1''"] ex_zset_state(1) x
    by (fastforce simp: ex_zset_def)
qed

section \<open>The commands that read\<close>

text \<open>The nodes a range selects, in the order and in the part that the constraint asks for.\<close>

definition range_nodes :: "zrange_constraint \<Rightarrow> zrange_spec \<Rightarrow> znode list \<Rightarrow> znode list" where
  "range_nodes constr spec xs =
     (if rangetype constr = ZRANGE_RANK then zrange_list ZRANGE_RANK spec (turned (dir_reverse constr) xs)
      else page (opt_offset constr) (opt_limit constr) (turned (dir_reverse constr) (zrange_list (rangetype constr) spec xs)))"

text \<open>
  (C19) A range read on a sorted set with a member answers exactly the members that its bounds select, in the asked direction, cut to
  offset and limit (-1 is no limit, below it nothing is answered); \<^verbatim>\<open>ZCOUNT\<close> and \<^verbatim>\<open>ZLEXCOUNT\<close> answer their number.  The
  bounds are of the kind the range is by, scores are no NaN, the last rank is not the least 32-bit integer; the
  offset is not negative, and a range by rank has neither offset nor limit, which the code asserts.  Two more inputs that the
  parser accepts are outside, and the last parts say what the code does there.  With two excluded equal score bounds
  at the score of a member the first position lies behind the last one: \<^verbatim>\<open>ZCOUNT\<close> has no result.  With a negative
  offset the code steps back from the first position of the range: it answers members in front of the range, or leaves the set
  where there are too few.
\<close>

theorem zrange_answers:
  assumes "zset_state z" "rvalue ob = VZset z"
  shows "(zset_ok (ZRange constr spec m) z \<longrightarrow>
      zset_ExecuteOn dtoa (ZRange constr spec m) ob = Some (ZRange constr spec m, RedisZsetResult\<lparr>zr_err := RD_OK,
        zr_result := ZStrs (members_of dtoa (opt_withscores constr) (range_nodes constr spec (z_ordered_set z)))\<rparr>, ERead)) \<and>
    (zset_ok (ZCountOf spec) z \<and> get_doubles spec = Some (s, e) \<longrightarrow>
      zset_ExecuteOn dtoa (ZCountOf spec) ob = Some (ZCountOf spec, RedisZsetResult\<lparr>zr_err := RD_OK,
        zr_result := ZInt (int (length (filter (score_in spec s e) (z_ordered_set z))))\<rparr>, ERead)) \<and>
    (zset_ok (ZLexCount spec) z \<longrightarrow>
      zset_ExecuteOn dtoa (ZLexCount spec) ob = Some (ZLexCount spec, RedisZsetResult\<lparr>zr_err := RD_OK,
        zr_result := ZInt (int (length (zrange_list ZRANGE_LEX spec (z_ordered_set z))))\<rparr>, ERead)) \<and>
    (get_doubles spec = Some (s, e) \<and> \<not> dbl_nan s \<and> \<not> dbl_nan e \<and> score_crossed spec s e (z_ordered_set z) \<longrightarrow>
      zset_ExecuteOn dtoa (ZCountOf spec) ob = None) \<and>
    (0 < k \<and> i \<le> j \<longrightarrow> EmplaceForwardElements (z_ordered_set z) i j (- int k) (-1) =
       (if k \<le> i then Some (take (j - i + k) (drop (i - k) (z_ordered_set z)), 0, -1) else None))"
proof (intro conjI impI)
  show "EmplaceForwardElements (z_ordered_set z) i j (- int k) (-1) =
       (if k \<le> i then Some (take (j - i + k) (drop (i - k) (z_ordered_set z)), 0, -1) else None)"
    if "0 < k \<and> i \<le> j"
    using that by (auto simp: EmplaceForwardElements_def dist_def limited_def Let_def nat_diff_distrib add.commute)
  have ok: "nodes_ok (z_ordered_set z)" using assms(1) by (simp add: zset_state_def zset_wf_def)
  show "zset_ExecuteOn dtoa (ZCountOf spec) ob = None"
    if "get_doubles spec = Some (s, e) \<and> \<not> dbl_nan s \<and> \<not> dbl_nan e \<and> score_crossed spec s e (z_ordered_set z)"
    using score_range_crossed [OF ok, of spec s e] that assms(2)
    by (auto simp: zset_exec_defs Execute_ZCount_def ZCount_def range_size_def dist_def)
qed (use assms zrange_answer [OF assms(1), of constr spec m dtoa] zcounts [OF assms(1), of spec] in
      \<open>simp_all add: zset_exec_defs Execute_ZRange_def Execute_ZLexCount_def Execute_ZCount_def range_nodes_def zrange_list_def\<close>)

theorem zrange_answers_witness:
  "zset_ExecuteOn (\<lambda>_. ''1'')
     (ZRange \<lparr>opt_withscores = False, opt_offset = 0, opt_limit = -1, rangetype = ZRANGE_RANK, direction = DIRECTION_REVERSE\<rparr>
        (ZRangeSpec_default\<lparr>opt_end := ZBInt 1\<rparr>) False) (object (VZset ex_zset) None) =
   Some (ZRange \<lparr>opt_withscores = False, opt_offset = 0, opt_limit = -1, rangetype = ZRANGE_RANK, direction = DIRECTION_REVERSE\<rparr>
        (ZRangeSpec_default\<lparr>opt_end := ZBInt 1\<rparr>) False,
      RedisZsetResult\<lparr>zr_err := RD_OK, zr_result := ZStrs [Clone (Stack ''c''), Clone (Stack ''b'')]\<rparr>, ERead)"
proof -
  let ?a = "\<lparr>opt_withscores = False, opt_offset = 0, opt_limit = -1, rangetype = ZRANGE_RANK, direction = DIRECTION_REVERSE\<rparr>"
  let ?spec = "ZRangeSpec_default\<lparr>opt_end := ZBInt 1\<rparr>"
  have g: "get_ints ?spec = Some (0, 1)" by (simp add: get_ints.simps ZRangeSpec_default_def)
  then have "zset_ok (ZRange ?a ?spec False) ex_zset" by (simp add: zrange_ok_def) (simp add: ex_zset_def)
  then show ?thesis
    using zrange_answers [OF ex_zset_state(1), of "object (VZset ex_zset) None"] g
    by (simp add: range_nodes_def zrange_list_def turned_def members_of_def)
       (simp add: ex_zset_def rank_in_def nths_Cons)
qed

section \<open>From the text of a request\<close>

lemma parsed_zremrange:
  assumes "ParseZRemRangeCommand strtod args = Some (Inr (key, c))"
  obtains ty spec where "c = ZRemRange ty spec" "key = args ! 1" "\<And>xs. meets ty spec xs \<Longrightarrow> zrange_ok ty spec xs"
proof -
  obtain ty where "with_bounds (ParseZRemRangeElement strtod args ty) args (ZRemRange ty) = Some (Inr (key, c))"
    using assms by (auto simp: ParseZRemRangeCommand_def wrong_number_def bind_eq_Some_conv split: if_splits)
  then obtain out where o: "ParseZRemRangeElement strtod args ty = Some out"
      "case_sum (\<lambda>e. Inl (redis_get_error_messages e)) (\<lambda>s. Inr (args ! 1, ZRemRange ty s)) out = Inr (key, c)"
    by (auto simp: with_bounds_def simp del: One_nat_def)
  then obtain spec where "ParseZRemRangeElement strtod args ty = Some (Inr spec)" "c = ZRemRange ty spec" "key = args ! 1"
    by (cases out) auto
  then show thesis
    using that [of ty spec] parsed_range_ok [where ty = ty and strtod = strtod and a = "args ! 2" and b = "args ! 3" and spec = spec]
    by (simp add: ParseZRemRangeElement_def)
qed

text \<open>
  (C26) What the parsers of the writing commands make of a request is within the contract: \<^verbatim>\<open>ZADD\<close> and \<^verbatim>\<open>ZINCRBY\<close> for every
  sorted set, the removals for every sorted set with a member, where a removal by range must not have crossing bounds.  So
  the command runs on the object under its key, and what it then writes is its effect.
\<close>

theorem parsed_writes_apply:
  assumes "ParseZAddCommand strtod args = Some (Inr (key, c)) \<or> ParseZIncrByCommand strtod args = Some (Inr (key, c)) \<or>
      z_ordered_set z \<noteq> [] \<and>
      (ParseZRemCommand args = Some (Inr (key, c)) \<or> ParseZPopCommand popmin args = Some (Inr (key, c)) \<or>
       ParseZRemRangeCommand strtod args = Some (Inr (key, c)) \<and>
       (case c of ZRemRange ty spec \<Rightarrow> meets ty spec (z_ordered_set z) | _ \<Rightarrow> True))"
    and "args_fit args" "zset_state z" "rvalue ob = VZset z"
  shows "key = args ! 1 \<and> (\<exists>c' r d. zset_ExecuteOn dtoa c ob = Some (c', r, d) \<and>
    (d = EWrite \<or> d = EDelete \<longrightarrow>
       (\<exists>z'. zset_state z' \<and> zset_effect c z z' \<and>
          zset_CommitOn c' ob = (if z_ordered_set z' = [] then CRemove else CKeep (ob\<lparr>rvalue := VZset z'\<rparr>)))))"
proof -
  have range: "key = args ! 1 \<and> zset_ok c z"
    if p: "ParseZRemRangeCommand strtod args = Some (Inr (key, c))" "z_ordered_set z \<noteq> []"
      and q: "case c of ZRemRange ty spec \<Rightarrow> meets ty spec (z_ordered_set z) | _ \<Rightarrow> True"
  proof (rule parsed_zremrange [OF p(1)])
    fix ty spec
    assume "c = ZRemRange ty spec" "key = args ! 1" "\<And>xs. meets ty spec xs \<Longrightarrow> zrange_ok ty spec xs"
    then show ?thesis using p(2) q by simp
  qed
  have c: "key = args ! 1 \<and> zset_ok c z"
    using assms(1)
  proof (elim disjE conjE)
    assume "ParseZAddCommand strtod args = Some (Inr (key, c))"
    then show ?thesis using parsed_zadd [of strtod args key c z] assms(2) by blast
  next
    assume "ParseZIncrByCommand strtod args = Some (Inr (key, c))"
    then show ?thesis using parsed_zincrby [of strtod args key c z] assms(2) by blast
  next
    assume "ParseZRemCommand args = Some (Inr (key, c))" "z_ordered_set z \<noteq> []"
    then show ?thesis using parsed_zrem [of args key c] by auto
  next
    assume "ParseZPopCommand popmin args = Some (Inr (key, c))" "z_ordered_set z \<noteq> []"
    then show ?thesis using parsed_zpop [of popmin args key c] by auto
  qed (rule range)
  then obtain c' r d where e: "zset_ExecuteOn dtoa c ob = Some (c', r, d)"
    using zset_executes [OF assms(3,4), of c dtoa] by auto
  show ?thesis
    using c e zset_command_commits [OF assms(3,4) conjunct2 [OF c] e, unfolded zset_commits_def] by blast
qed

lemma ex_zadd_parsed:
  "ParseZAddCommand (\<lambda>s. (0x3FF8000000000000, length s)) [''zadd'', ''k'', ''1.5'', ''m''] =
     Some (Inr (''k'', ZAdd 0 (ZVector [(0x3FF8000000000000, View ''m'')]) False))"
  by (simp add: ParseZAddCommand_def zadd_option_def stringcomp_def zflag_def zadd_score_def string2double_def isspace_def
      dbl_nan_def)

theorem parsed_writes_apply_witness:
  "\<exists>c' r d. zset_ExecuteOn (\<lambda>_. ''1'') (ZAdd 0 (ZVector [(0x3FF8000000000000, View ''m'')]) False) (object (VZset ex_zset) None) =
       Some (c', r, d) \<and> d = EWrite \<and>
     (\<exists>z'. zset_CommitOn c' (object (VZset ex_zset) None) = CKeep (object (VZset z') None) \<and> zset_state z' \<and>
        scores z' ''m'' = Some 0x3FF8000000000000)"
proof -
  let ?c = "ZAdd 0 (ZVector [(0x3FF8000000000000, View ''m'')]) False" and ?ob = "object (VZset ex_zset) None"
  have fit: "args_fit [''zadd'', ''k'', ''1.5'', ''m'']" by (simp add: args_fit_def zcost_def)
  have none: "scores ex_zset ''m'' = None" by (simp add: scores_def ex_zset_def)
  have x: "d = EWrite" if "zset_ExecuteOn (\<lambda>_. ''1'') ?c ?ob = Some (c', r, d)" for c' r d
    using that none
    by (auto simp: zset_exec_defs Execute_ZAdd_def ZAdd_elements_def zadd_decide_def ZAdd_plain_def zflag_def scores_def
        changed_state_def write_or_fail_def ex_zset_def MAX_OBJECT_SIZE_def es_length_def)
  have e: "fst (zadd_all 0 (scores ex_zset) [(0x3FF8000000000000, ''m'')]) ''m'' = Some 0x3FF8000000000000"
    using none by (simp add: zadd_one_def zflag_def)
  obtain c' r d where p: "zset_ExecuteOn (\<lambda>_. ''1'') ?c ?ob = Some (c', r, d)"
      "d = EWrite \<or> d = EDelete \<longrightarrow> (\<exists>z'. zset_state z' \<and> zset_effect ?c ex_zset z' \<and>
         zset_CommitOn c' ?ob = (if z_ordered_set z' = [] then CRemove else CKeep (?ob\<lparr>rvalue := VZset z'\<rparr>)))"
    using parsed_writes_apply [OF disjI1 [OF ex_zadd_parsed] fit ex_zset_state(1), of ?ob "\<lambda>_. ''1''"] by auto
  then obtain z' where z': "zset_state z'" "zset_effect ?c ex_zset z'"
      "zset_CommitOn c' ?ob = (if z_ordered_set z' = [] then CRemove else CKeep (?ob\<lparr>rvalue := VZset z'\<rparr>))"
    using x [OF p(1)] by blast
  have m: "scores z' ''m'' = Some 0x3FF8000000000000" using z'(2) e by simp
  then have "z_ordered_set z' \<noteq> []" using scores_empty [of z'] z'(1) by (auto simp: zset_state_def)
  then show ?thesis using p(1) x [OF p(1)] z'(1,3) m by auto
qed

end
