(* ===== verification/Spec2Isabelle.thy ===== *)
theory Spec2Isabelle
  imports StringProps CollectionProps NamespaceProps PubSub ScanCursor ZsetProps
begin

text \<open>
  \<^bold>\<open>EloqKV: objects, commands and the command log.\<close>

  EloqKV is a server for the Redis protocol.  A request is parsed into a \<^emph>\<open>command\<close>; the transaction engine
  (a separate repository) finds the object of the key, calls \<^verbatim>\<open>ExecuteOn\<close>, which answers from the object without
  changing it and says whether the command writes, logs the image that \<^verbatim>\<open>Serialize\<close> makes of a writing command and
  then calls \<^verbatim>\<open>CommitOn\<close>, which changes the object or returns a null pointer to delete the key.  Replaying the log
  reads each image with \<^verbatim>\<open>CreateTxCommand\<close> and calls \<^verbatim>\<open>CommitOn\<close>.  \<^verbatim>\<open>OutputResult\<close> turns the stored result into the
  reply.  Objects have images of their own, with a variant of each class that carries an expiry time.

  \<^bold>\<open>Theories, in the order of the code.\<close>
  \<^item> \<open>Prelude\<close>: bytes, little endian numbers at their widths, readers as functions into \<open>option\<close>, the locale
    \<open>codec\<close> of a writer with a reader that undoes it, and the index conventions of Redis ranges.
  \<^item> \<open>EloqString\<close>: \<^verbatim>\<open>eloq_string.cpp\<close>, a string on the stack, on the heap with its allocated size, or a view.
  \<^item> \<open>RedisBase\<close>: \<^verbatim>\<open>redis_errors.cpp\<close> with the whole message table, the command numbers, the reply interface.
  \<^item> \<open>StringNum\<close>: \<^verbatim>\<open>redis_string_num.h\<close>, the integer part.
  \<^item> \<open>FlatMap\<close>: the hash map of the objects as entries in iteration order; the locale \<open>dictionary\<close> states what
    the hash object relies on.
  \<^item> \<open>ListObject\<close>, \<open>HashObject\<close>, \<open>SetObject\<close>, \<open>StringObject\<close> (with \<open>Bits\<close>), \<open>ZsetObject\<close>: \<^verbatim>\<open>redis_<type>_object.cpp/.h\<close>.
    Each has the fields as a record, one function for each \<^verbatim>\<open>Execute\<close> and \<^verbatim>\<open>Commit\<close> method, both writers and the reader
    of the image, the invariant that the running length is the length of the image, and the value the
    object stands for.  \<open>RandSelect\<close> is \<^verbatim>\<open>eloq_algorithm.cpp\<close>.
  \<^item> \<open>RedisObject\<close>: objects of every type with or without a time to live, reading an image of any class, and the
    commands that work on all types.
  \<^item> \<open>Command\<close>: the contract between a command and the engine.  The locale \<open>object_command\<close> has the execute and
    commit functions of a family with its invariant; \<open>ttl_keeping_command\<close> extends it by keeping the expiry;
    both have lemmas on whole histories of commands.
  \<^item> \<open>ListCommands\<close>, \<open>HashCommands\<close>, \<open>SetCommands\<close>, \<open>StringCommands\<close>: \<^verbatim>\<open>redis_command.cpp/.h\<close>, four methods of every command,
    an abstract operation for each writing command, the interpretations of the locales, images and replies.
  \<^item> \<open>ZsetOps\<close>: the methods of \<^verbatim>\<open>RedisZsetObject\<close> (\<^verbatim>\<open>redis_zset_object.cpp\<close>), with the sum of two doubles computed on their bit
    patterns.  \<open>ZsetLaws\<close> and \<open>ZsetAdd\<close>: the ordered set as a sorted list, what ranges select, what each commit leaves.
    \<open>ZsetCommands\<close>: the commands, as for the other families.  \<open>ZsetParse\<close>: their parsers.
  \<^item> \<open>ReadBack\<close>: the command that an image gives back, with copies of the strings, for each family, and that it commits
    the same change.  \<open>TxCommand\<close>: one type of all commands, \<^verbatim>\<open>RedisTableSchema::CreateTxCommand\<close>, the log and its replay.
  \<^item> \<open>Encoding\<close>: \<^verbatim>\<open>b255.cpp\<close> and \<^verbatim>\<open>base64url.h\<close>.  \<open>Namespace\<close>: prefixes of keys and tokens (\<^verbatim>\<open>namespace/prefix.h\<close>, \<^verbatim>\<open>token.h\<close>,
    \<^verbatim>\<open>context.h\<close>).
  \<^item> \<open>NamespaceStorage\<close>: \<^verbatim>\<open>namespace/storage.cpp\<close>, each call as the sequence of its requests in a transaction that may
    fail at any of them; an inductive relation of the changes of the table and its invariant.
  \<^item> \<open>NamespaceGc\<close>: \<^verbatim>\<open>namespace/gc.cpp\<close>.  \<open>NamespaceManager\<close>: \<^verbatim>\<open>namespace/manager.cpp\<close>; the interface \<^verbatim>\<open>INamespaceStorage\<close> is a record
    of functions and the locale \<open>namespace_store\<close>, interpreted on the transactional store and on the one in memory.
  \<^item> \<open>NamespaceService\<close>: \<^verbatim>\<open>AUTH\<close>, \<^verbatim>\<open>NAMESPACE\<close>, \<^verbatim>\<open>FLUSHDB\<close> in a namespace, and the start of command dispatch.
  \<^item> \<open>StringMatch\<close>: \<^verbatim>\<open>redis_string_match.cpp\<close>, the matcher and the meaning of a pattern as tokens.
  \<^item> \<open>PubSub\<close>: \<^verbatim>\<open>pub_sub_manager.cpp\<close>, the subscriptions of a connection and their handlers, against a specification that knows
    only who is subscribed to what and what was sent.
  \<^item> \<open>ScanCursor\<close>: the scan cursors of a connection (\<^verbatim>\<open>redis_connection_context.cpp\<close>).
  \<^item> \<open>Examples\<close>, \<open>StringProps\<close>, \<open>CollectionProps\<close>, \<open>ZsetProps\<close>, \<open>NamespaceProps\<close> and this theory: the properties.

  \<^bold>\<open>How the code corresponds.\<close>  A method that reads is a function of the object and the former result; one that
  writes returns the new object.  Sizes are 64-bit words and wrap; counts and indices are \<open>int\<close> with the
  conversions to their width written out.  Moving out of a string leaves the empty stack string.  A branch
  that the language leaves undefined, a failed assertion and a failed \<^verbatim>\<open>std::get\<close> are \<open>None\<close> or \<open>CUndefined\<close>; the commits of
  lists and sorted sets assert the size of what they leave.  Assertions on a count that \<^verbatim>\<open>Execute\<close> is given, and those of hash and string commits that repeat a test of \<^verbatim>\<open>Execute\<close>, are not part of the functions but
  conditions of the theorems.
  The clock, the random source, the number of buckets of a hash set, the codes of the engine's block operations
  and the padding bytes of a structure are parameters.  The digits of a double (\<^verbatim>\<open>fpconv_dtoa\<close>), \<^verbatim>\<open>strtod\<close> and the memory
  behind an argument of a request are parameters too.  So are the outcomes of the engine's transactions on the table of
  namespaces and its range scan.

  \<^bold>\<open>What is shown.\<close>  C1 to C4 and C11: each writing command within its contract does to the value what its abstract operation
  says and keeps the invariant.  C5: replaying the log of a key, until it is deleted, reaches the same object.  C6, C7, C29: images of commands and objects.
  C8, C9: invariants along histories.  C10: the options of \<^verbatim>\<open>EXPIRE\<close>.  C12, C14 to C17, C20:
  counters, bits, bit fields, the text of integers and \<^verbatim>\<open>SET\<close>.  C19, C22 to C25, C27: reads, random selection, the two
  image writers.  C26: requests that write a sorted set, from their text to the object.  C28: the matcher accepts what a pattern means.  C13, C18: publish and subscribe delivers as specified and
  only to live connections.  C21: the cache of scan cursors.  C30, C31: replies and wrong types.  C32 to C40: the stores of namespaces implement a map, the cache of the manager follows the
  store, connections in different namespaces share no key of a table, flushing hides keys at once, the collector deletes dead keys
  and no others.  C1 (the size test of \<^verbatim>\<open>LMOVE\<close>, large counts of \<^verbatim>\<open>LREM\<close>), C19, C20, C30, C34 and C36 also show where the code departs from what it means to do.

  \<^bold>\<open>Bounds.\<close>  The probing loop of the random draw has fuel equal to the size of the range, which C25
  shows to be enough.  The loops over the scores of a range by name have fuel equal to the number of members, since every
  turn passes one; C19 and C11 show it to be enough.  The loop of the garbage collector and the drawing of tokens run along a list of what happens in
  their turns and are \<open>None\<close> when it ends too early; C39 says how long a list is enough.  All other loops are structural recursion on the data.

  \<^bold>\<open>Not modelled.\<close>  Commands that compute with the text of floating point numbers (\<^verbatim>\<open>INCRBYFLOAT\<close>, \<^verbatim>\<open>HINCRBYFLOAT\<close>), whose
  conversions are the library's; \<^verbatim>\<open>SCAN\<close> and its variants for one key and \<^verbatim>\<open>ZRANDMEMBER\<close>; multi-key commands, whose steps
  the engine drives; the parsers of requests other than those of sorted sets; the Lua interpreter, configuration,
  networking, \<^verbatim>\<open>DUMP\<close>/\<^verbatim>\<open>RESTORE\<close> and the vector index.
\<close>

section \<open>Commands refine operations on abstract values\<close>

text \<open>
  (C1) A list command within its contract \<^const>\<open>list_ok\<close>, run on a list object of the store, does to the list of byte
  strings what \<^const>\<open>list_apply\<close> says, keeps the object's size bookkeeping and bound, keeps its time to live, and deletes the
  key exactly when the list becomes empty.  The contract: the arguments are valid strings of less than \<open>2 ^ 32\<close> bytes, for a
  push at least one and of less than \<open>2 ^ 62\<close> bytes together; a pop has a count that is not negative, a blocking pop that
  takes elements a positive one; a command that does not create the list finds an element.  Two limits of the contract are settled by themselves.  The pushing half of \<^verbatim>\<open>LMOVE\<close>, whose test forgets
  the length field, fails the assertion of its commit when the element does not fit.  \<^verbatim>\<open>LREM\<close> with a count of any size
  removes as many occurrences as the count narrowed to 32 bits allows, which is what the contract's 32-bit counts ask for.
\<close>

theorem list_commands_refine:
  assumes "list_state l"
  shows "(list_ok c (elems l) \<and> list_ExecuteOn c (object (VList l) t) = (c', r, d) \<longrightarrow>
       (d = EWrite \<longrightarrow> (\<exists>l'. list_CommitOn c' (object (VList l) t) = CKeep (object (VList l') t) \<and>
            list_state l' \<and> elems l' = list_apply c (elems l) \<and> elems l' \<noteq> [])) \<and>
       (d = EDelete \<longrightarrow> list_CommitOn c' (object (VList l) t) = CRemove \<and> list_apply c (elems l) = [])) \<and>
    (arg_ok e \<and> unat MAX_OBJECT_SIZE < 5 + bcosts (elems l) + bcost (StringView e) \<longrightarrow>
       list_CommitOn (LMovePush left e m) (object (VList l) t) = CUndefined) \<and>
    (\<exists>l'. list_state l' \<and> elems l' = lrem_cut (to_signed 32 \<bar>n\<bar>) n (StringView e) (elems l) \<and>
       list_CommitOn (LRem n e) (object (VList l) t) = (if elems l' = [] then CRemove else CKeep (object (VList l') t)))"
proof (intro conjI)
  show "list_ok c (elems l) \<and> list_ExecuteOn c (object (VList l) t) = (c', r, d) \<longrightarrow>
       (d = EWrite \<longrightarrow> (\<exists>l'. list_CommitOn c' (object (VList l) t) = CKeep (object (VList l') t) \<and>
            list_state l' \<and> elems l' = list_apply c (elems l) \<and> elems l' \<noteq> [])) \<and>
       (d = EDelete \<longrightarrow> list_CommitOn c' (object (VList l) t) = CRemove \<and> list_apply c (elems l) = [])"
    using list_command_commits [OF assms, of "object (VList l) t" c c' r d] by (auto simp: commits_def)
  show "arg_ok e \<and> unat MAX_OBJECT_SIZE < 5 + bcosts (elems l) + bcost (StringView e) \<longrightarrow>
       list_CommitOn (LMovePush left e m) (object (VList l) t) = CUndefined"
    using move_push_commits [OF assms, of e "object (VList l) t" left m] by auto
  have "(object (VList l) t)\<lparr>rvalue := VList l'\<rparr> = object (VList l') t" for l' by simp
  then show "\<exists>l'. list_state l' \<and> elems l' = lrem_cut (to_signed 32 \<bar>n\<bar>) n (StringView e) (elems l) \<and>
       list_CommitOn (LRem n e) (object (VList l) t) = (if elems l' = [] then CRemove else CKeep (object (VList l') t))"
    using rem_leaves [OF assms, of "object (VList l) t" n e] by (simp only: redis_object.select_convs simp_thms)
qed

theorem list_commands_refine_witness:
  "\<exists>l'. list_CommitOn (RPush [Stack ''c'']) (object (VList ex_list) (Some 5)) = CKeep (object (VList l') (Some 5)) \<and>
     list_state l' \<and> elems l' = [''a'', ''b'', ''c'']"
proof -
  have "list_ExecuteOn (RPush [Stack ''c'']) (object (VList ex_list) (Some 5)) =
      (RPush [Stack ''c''], RedisListResult\<lparr>lr_err := RD_OK, lr_ret := 3\<rparr>, EWrite)"
    by (simp add: list_exec_defs Execute_RPush_def ex_list_def cost_def costs_def lsize_def RedisListResult_def
        es_length_def write_or_fail_def MAX_OBJECT_SIZE_def)
  then show ?thesis
    using list_commands_refine [of ex_list "RPush [Stack ''c'']" "Some 5" "RPush [Stack ''c'']"
        "RedisListResult\<lparr>lr_err := RD_OK, lr_ret := 3\<rparr>" EWrite, THEN conjunct1] ex_list_state
    by (auto simp: pushes_ok_def arg_ok_def es_short_def bcosts_def bcost_def)
qed

text \<open>
  (C2) Every hash command refines an operation on finite maps from field names to values: \<^verbatim>\<open>HSET\<close> assigns
  in order, \<^verbatim>\<open>HDEL\<close> removes, \<^verbatim>\<open>HINCRBY\<close> stores the decimal form of the sum, \<^verbatim>\<open>HSETNX\<close> assigns once; the
  key goes when the last field goes.
\<close>

theorem hash_commands_refine:
  assumes "hash_state h" "hash_ok c (hfields h)" "hash_ExecuteOn c (object (VHash h) t) = (c', r, d)"
  shows "(d = EWrite \<longrightarrow> (\<exists>h'. hash_CommitOn c' (object (VHash h) t) = CKeep (object (VHash h') t) \<and>
            hash_state h' \<and> hfields h' = hash_apply c (hfields h) \<and> hfields h' \<noteq> Map.empty)) \<and>
         (d = EDelete \<longrightarrow> hash_CommitOn c' (object (VHash h) t) = CRemove \<and> hash_apply c (hfields h) = Map.empty)"
  using hash_command_commits [OF assms(1) _ assms(2,3)] by (auto simp: hash_commits_def)

theorem hash_commands_refine_witness:
  "hash_CommitOn (HDel [Stack ''f'']) (object (VHash ex_hash) None) = CRemove"
proof -
  have "hash_ExecuteOn (HDel [Stack ''f'']) (object (VHash ex_hash) None) =
      (HDel [Stack ''f''], RedisHashResult\<lparr>hr_err := RD_OK, hr_result := HInt 1\<rparr>, EDelete)"
    by (simp add: hash_exec_defs Execute_HDel_def ex_hash_def fm_find_def es_eq_def RedisHashResult_def)
  then show ?thesis
    using hash_commands_refine [of ex_hash "HDel [Stack ''f'']" None] ex_hash_state by auto
qed

text \<open>
  (C3) A set command, run on a set object of the store, refines an operation on finite sets and keeps the time to
  live; the key goes when the last member goes; what \<^verbatim>\<open>SPOP\<close> removes is what it drew when it ran, whatever the random
  source delivers.  The arguments are valid strings of less than \<open>2 ^ 62\<close> bytes together and, as the parsers leave them, different from each other; \<^verbatim>\<open>SPOP\<close> has no
  negative count; only \<^verbatim>\<open>SADD\<close> may find the set empty.  The \<^verbatim>\<open>SADD\<close> that replaces, which stores the result of a set
  operation, is the second part: on an object of any type it leaves a set of its arguments without a time to live,
  deletes the key when it has none, and fails when their cost is over the limit.
\<close>

theorem set_commands_refine:
  assumes "set_state s"
  shows "(set_ok c (members s) \<and> set_ExecuteOn buckets rnd c (object (VSet s) t) = (c', r, d) \<longrightarrow>
       (d = EWrite \<longrightarrow> (\<exists>s'. set_CommitOn c' (object (VSet s) t) = CKeep (object (VSet s') t) \<and>
            set_state s' \<and> members s' = set_apply c' (members s) \<and> members s' \<noteq> {})) \<and>
       (d = EDelete \<longrightarrow> set_CommitOn c' (object (VSet s) t) = CRemove \<and> set_apply c' (members s) = {})) \<and>
    (adds_ok es \<and> set_ExecuteOn buckets rnd (SAdd True es m) ob = (c', r, d) \<longrightarrow>
       (if es = [] then d = EDelete \<and> set_CommitOn c' ob = CRemove
        else if (\<Sum>b \<leftarrow> map StringView es. 8 + length b) > unat MAX_OBJECT_SIZE then d = EFail
        else d = EWrite \<and> (\<exists>s'. set_CommitOn c' ob = CKeep (object (VSet s') None) \<and> set_state s' \<and>
               members s' = StringView ` set es)))"
proof (intro conjI impI)
  assume a: "set_ok c (members s) \<and> set_ExecuteOn buckets rnd c (object (VSet s) t) = (c', r, d)"
  obtain s' where s': "set_state s'" "members s' = set_apply c' (members s)"
      "set_CommitOn c' (object (VSet s) t) = (if members s' = {} then CRemove else CKeep (object (VSet s') t))"
      "d = EDelete \<longleftrightarrow> set_apply c' (members s) = {}" if "d = EWrite \<or> d = EDelete"
    using set_command_commits [OF assms, of "object (VSet s) t" c buckets rnd c' r d] a by (fastforce simp: set_commits_def)
  show "\<exists>s'. set_CommitOn c' (object (VSet s) t) = CKeep (object (VSet s') t) \<and>
            set_state s' \<and> members s' = set_apply c' (members s) \<and> members s' \<noteq> {}" if "d = EWrite"
    by (intro exI [of _ s']) (use s' that in simp_all)
  show "set_CommitOn c' (object (VSet s) t) = CRemove" "set_apply c' (members s) = {}" if "d = EDelete"
    using s' that by simp_all
next
  assume a: "adds_ok es \<and> set_ExecuteOn buckets rnd (SAdd True es m) ob = (c', r, d)"
  have "d = EDelete \<and> set_CommitOn c' ob = CRemove" if "es = []"
    using a that by (auto simp: SAdd_ExecuteOn_def SAdd_CommitOn_def)
  then show "if es = [] then d = EDelete \<and> set_CommitOn c' ob = CRemove
        else if (\<Sum>b \<leftarrow> map StringView es. 8 + length b) > unat MAX_OBJECT_SIZE then d = EFail
        else d = EWrite \<and> (\<exists>s'. set_CommitOn c' ob = CKeep (object (VSet s') None) \<and> set_state s' \<and>
               members s' = StringView ` set es)"
    using a sadd_force [of es buckets rnd m ob c' r d] by auto
qed

theorem set_commands_refine_witness:
  "\<exists>s'. set_CommitOn (SRem [Stack ''x'']) (object (VSet ex_set) None) = CKeep (object (VSet s') None) \<and>
     members s' = {''y''}"
proof -
  have "set_ExecuteOn 8 (\<lambda>_. 0) (SRem [Stack ''x'']) (object (VSet ex_set) None) =
      (SRem [Stack ''x''], RedisHashSetResult\<lparr>sr_err := RD_OK, sr_ret := 1\<rparr>, EWrite)"
    by (simp add: set_exec_defs Execute_SRem_def ex_set_def hs_mem_def es_eq_def RedisHashSetResult_def)
  then show ?thesis
    using set_commands_refine [of ex_set "SRem [Stack ''x'']" 8 "\<lambda>_. 0" None "SRem [Stack ''x'']"
        "RedisHashSetResult\<lparr>sr_err := RD_OK, sr_ret := 1\<rparr>" EWrite, THEN conjunct1] ex_set_state by auto
qed

text \<open>
  (C4) Every string command that decides to write produces the string that \<^const>\<open>string_apply\<close> says, in an
  object that holds a proper string within the size bound, with the time to live of \<^const>\<open>string_ttl\<close>:
  \<^verbatim>\<open>SET\<close> clears or replaces it unless \<^verbatim>\<open>KEEPTTL\<close>, \<^verbatim>\<open>GETEX\<close> sets or removes it, all others keep it.
\<close>

theorem string_commands_refine:
  assumes "string_state s" "string_ok c s" "string_ExecuteOn c (object (VString s) t) = (c', r, EWrite)"
  shows "\<exists>s'. string_CommitOn c' (object (VString s) t) = CKeep (object (VString s') (string_ttl c t)) \<and>
     string_state s' \<and> \<not> is_null (str_obj s') \<and> sval s' = string_apply c (sval s)"
  using string_command_commits [OF assms(1) _ assms(2,3)] by (auto simp: string_commits_def)

theorem string_commands_refine_witness:
  "\<exists>s'. string_CommitOn (IntOp 1) (object (VString ex_string) (Some 9)) = CKeep (object (VString s') (Some 9)) \<and>
     sval s' = ''42''"
proof -
  have "string_ExecuteOn (IntOp 1) (object (VString ex_string) (Some 9)) =
      (IntOp 1, Some (IRes (RedisIntResult\<lparr>ir_val := 42, ir_err := RD_OK\<rparr>)), EWrite)"
    by (simp add: string_exec_defs Execute_IntOp_def ex_string_def ex_numbers int_op_overflows_def LLONG_MIN_def LLONG_MAX_def
        to_signed_def success_or_fail_def)
  moreover have "string_apply (IntOp 1) ''41'' = ''42''" by (simp add: int_of_def ex_numbers)
  ultimately show ?thesis
    using string_commands_refine [of ex_string "IntOp 1" "Some 9"] ex_string_state
    by (auto simp: is_i64_def)
qed

section \<open>The log and the images\<close>

text \<open>
  (C5) The log is a faithful account: commands of all families run on an object, and reading back and committing the
  images they left, without running \<^verbatim>\<open>ExecuteOn\<close> again, leads from the same object to the same object, for every clock
  and every random draw.  The strings of a command may be views of the request: what is read back has copies, and
  commits the same change.  Commands that read or fail leave nothing in the log and are under no condition.  One that
  writes is within the contract of its family (\<^const>\<open>cmd_ok\<close>), has numbers that fit their fields, and leaves an object: the
  account is of one key until it is deleted.  Outside it are \<^verbatim>\<open>SET\<close> on an object of another type, where replay loses the value
  (C20), the \<^verbatim>\<open>ZADD\<close> that replaces, and \<^verbatim>\<open>RECOVER\<close>, which the engine commits without running it.  The codes of \<^verbatim>\<open>BlockOperation\<close> are the engine's; all that is asked of them is that
  they fit a byte and can be told apart.
\<close>

theorem log_replay:
  assumes "logged code pad ob cs log ob'" "object_state ob"
    and "\<And>op. of_code (code op) = Some op" "\<And>op. code op < 256" "length pad = 4"
  shows "replay of_code log ob = Some ob' \<and> object_state ob'"
  using assms by (rule replay_logged)

definition ex_code :: "block_operation \<Rightarrow> nat" where
  "ex_code op = (case op of NoBlock \<Rightarrow> 0 | PopBlock \<Rightarrow> 1 | PopNoBlock \<Rightarrow> 2 | BlockLock \<Rightarrow> 3 | PopElement \<Rightarrow> 4)"

definition ex_of_code :: "nat \<Rightarrow> block_operation option" where
  "ex_of_code n = (if n = 0 then Some NoBlock else if n = 1 then Some PopBlock else if n = 2 then Some PopNoBlock
     else if n = 3 then Some BlockLock else if n = 4 then Some PopElement else None)"

lemma ex_codes: "ex_of_code (ex_code op) = Some op" "ex_code op < 256"
  by (cases op; simp add: ex_code_def ex_of_code_def)+

lemma ex_object_state: "object_state (object (VString ex_string) None)" "object_state (object (VList ex_list) None)"
  by (simp_all add: object_state_def ex_string_state ex_list_state)

lemma ex_append_runs:
  "\<exists>ob'. logged ex_code (replicate 4 CHR 0x00) (object (VString ex_string) None)
     [StringCmd (Append (View ''!'')), StringCmd Get] [Append_Serialize (View ''!'') []] ob'"
proof -
  let ?ob = "object (VString ex_string) None" and ?s = "CommitAppend ex_string (View ''!'')"
  have arg: "arg_ok (View ''!'')" "carried (View ''!'')"
    by (simp_all add: arg_ok_def carried_def es_short_def)
  have w: "cmd_ExecuteOn 0 0 (\<lambda>_. 0) (\<lambda>_. []) (StringCmd (Append (View ''!''))) ?ob = (StringCmd (Append (View ''!'')), EWrite)"
    by (simp add: string_exec_defs Execute_Append_def ex_string_def string_SerializedLength_def HasTTL_def
        es_length_def MAX_OBJECT_SIZE_def success_or_fail_def)
  have c: "cmd_CommitOn (StringCmd (Append (View ''!''))) ?ob = CKeep (object (VString ?s) None)"
    by (simp add: Append_CommitOn_def commit_string_def)
  have r: "cmd_ExecuteOn 0 0 (\<lambda>_. 0) (\<lambda>_. []) (StringCmd Get) (object (VString ?s) None) = (StringCmd Get, ERead)"
    by (simp add: string_exec_defs)
  have l: "logged ex_code (replicate 4 CHR 0x00) (object (VString ?s) None) [StringCmd Get] [] (object (VString ?s) None)"
    by (rule logged_read [OF r _ logged_Nil]) simp
  have "logged ex_code (replicate 4 CHR 0x00) ?ob [StringCmd (Append (View ''!'')), StringCmd Get]
      [cmd_Serialize ex_code (replicate 4 CHR 0x00) (StringCmd (Append (View ''!'')))] (object (VString ?s) None)"
    by (rule logged_write [OF _ _ _ w c l]) (simp_all add: arg ex_string_def)
  then show ?thesis by auto
qed

theorem log_replay_witness:
  "\<exists>ob'. logged ex_code (replicate 4 CHR 0x00) (object (VString ex_string) None)
       [StringCmd (Append (View ''!'')), StringCmd Get] [Append_Serialize (View ''!'') []] ob' \<and>
     replay ex_of_code [Append_Serialize (View ''!'') []] (object (VString ex_string) None) = Some ob'"
  using ex_append_runs log_replay [OF _ ex_object_state(1) ex_codes] by fastforce



text \<open>
  (C7) An object of any of the five types, with or without a time to live, is read back from its image
  as an object with the same content and the same time to live, which again satisfies the invariant of
  its class.
\<close>

theorem object_image_roundtrip:
  assumes "robj_inv ob"
  shows "\<exists>ob'. DeserializeObject (robj_Serialize ob [] @ rest) = Some (ob', rest) \<and> rttl ob' = rttl ob \<and>
     content (rvalue ob') = content (rvalue ob) \<and> robj_inv ob'"
proof -
  have "value_inv (rvalue ob)" using assms by (simp add: robj_inv_def)
  then show ?thesis
    using assms DeserializeObject_spec [OF assms, of rest] content_fresh value_inv_fresh
    by (simp add: robj_inv_def)
qed

theorem object_image_roundtrip_witness:
  "\<exists>ob'. DeserializeObject (robj_Serialize (object (VList ex_list) (Some 77)) [] @ ''tail'') = Some (ob', ''tail'') \<and>
     rttl ob' = Some 77 \<and> content (rvalue ob') = CList [''a'', ''b'']"
proof -
  have "robj_inv (object (VList ex_list) (Some 77))"
    using ex_list_state by (simp add: robj_inv_def list_state_inv)
  from object_image_roundtrip [OF this, of "''tail''"] show ?thesis by (auto simp: ex_list_state)
qed

section \<open>Invariants along histories\<close>

lemma history_single:
  "\<lbrakk>ok c ob; ex c ob = (c', r, EWrite); cm c' ob = CKeep ob'\<rbrakk> \<Longrightarrow> history ex cm ok ob [c] ob'"
  by (rule history_Cons) (assumption+, rule history_Nil)



text \<open>
  (C9) Along every sequence of string commands that decide to write, other than \<^verbatim>\<open>SET\<close>, \<^verbatim>\<open>GETEX\<close> and \<^verbatim>\<open>BITFIELD\<close>, the object
  holds an owned string whose image stays within the limit, and its time to live never changes.  \<^verbatim>\<open>BITFIELD\<close> is left out
  because it grows the string without a test of the size.  The contract of the others: valid arguments of less than \<open>2 ^ 32\<close> bytes, offsets
  below \<open>2 ^ 62\<close>, increments of 64 bits, and a string that is not null for those that do not create it.
\<close>

theorem string_history_invariant:
  assumes "history string_ExecuteOn string_CommitOn (\<lambda>c ob. keeps_ttl c \<and> tests_size c \<and> string_object_ok c (rvalue ob)) ob cs ob'"
    and "string_object_inv (rvalue ob)"
  shows "\<exists>s. rvalue ob' = VString s \<and> string_inv s \<and> length (string_Serialize s []) \<le> unat MAX_OBJECT_SIZE \<and>
     rttl ob' = rttl ob \<and> (cs \<noteq> [] \<longrightarrow> \<not> is_null (str_obj s))"
proof -
  have i: "string_object_inv (rvalue ob') \<and> (cs \<noteq> [] \<longrightarrow> \<not> string_object_null (rvalue ob'))" "rttl ob' = rttl ob"
    using in_place.history_keeps [OF assms] in_place.history_ttl [OF assms] by simp_all
  then obtain s where s: "rvalue ob' = VString s" "string_state s" by (cases "rvalue ob'") auto
  then have "length (string_Serialize s []) = 5 + length (sval s)"
    by (simp add: string_Serialize_def string_state_def string_inv_short sval_def)
  with i s show ?thesis by (auto simp: string_state_def)
qed

theorem string_history_invariant_witness:
  "\<exists>ob'. history string_ExecuteOn string_CommitOn (\<lambda>c ob. keeps_ttl c \<and> tests_size c \<and> string_object_ok c (rvalue ob))
       (object (VString ex_string) (Some 9)) [Append (Stack ''0'')] ob' \<and> rttl ob' = Some 9"
proof -
  let ?ob = "object (VString ex_string) (Some 9)" and ?s = "CommitAppend ex_string (Stack ''0'')"
  have x: "string_ExecuteOn (Append (Stack ''0'')) ?ob = (Append (Stack ''0''),
      Some (SRes (RedisStringResult\<lparr>st_err := RD_OK, st_int := 3\<rparr>)), EWrite)"
    by (simp add: string_exec_defs Execute_Append_def ex_string_def string_SerializedLength_def HasTTL_def slength_def
        es_length_def MAX_OBJECT_SIZE_def success_or_fail_def)
  have c: "string_CommitOn (Append (Stack ''0'')) ?ob = CKeep (object (VString ?s) (Some 9))"
    by (simp add: Append_CommitOn_def commit_string_def)
  have "history string_ExecuteOn string_CommitOn (\<lambda>c ob. keeps_ttl c \<and> tests_size c \<and> string_object_ok c (rvalue ob)) ?ob
      [Append (Stack ''0'')] (object (VString ?s) (Some 9))"
    by (rule history_single, simp add: arg_ok_def es_short_def, rule x, rule c)
  then show ?thesis
    using string_history_invariant [of ?ob "[Append (Stack ''0'')]" "object (VString ?s) (Some 9)"] ex_string_state by auto
qed

section \<open>Time to live\<close>

text \<open>The rule of the \<^verbatim>\<open>EXPIRE\<close> options: each option is one condition, and all must hold.\<close>

definition expire_rule :: "nat \<Rightarrow> bool \<Rightarrow> bool \<Rightarrow> bool \<Rightarrow> bool \<Rightarrow> nat option \<Rightarrow> bool" where
  "expire_rule ts nx xx gt lt ttl \<longleftrightarrow>
     (nx \<longrightarrow> ttl = None) \<and> (xx \<longrightarrow> ttl \<noteq> None) \<and>
     (gt \<longrightarrow> (case ttl of None \<Rightarrow> False | Some old \<Rightarrow> ts > old)) \<and>
     (lt \<longrightarrow> (case ttl of None \<Rightarrow> True | Some old \<Rightarrow> ts < old))"

definition expire_flags :: "bool \<Rightarrow> bool \<Rightarrow> bool \<Rightarrow> bool \<Rightarrow> nat" where
  "expire_flags nx xx gt lt = (if nx then EXPIRE_NX else 0) + (if xx then EXPIRE_XX else 0) +
     (if gt then EXPIRE_GT else 0) + (if lt then EXPIRE_LT else 0)"

text \<open>
  (C10) For every combination of options that the parser accepts except \<^verbatim>\<open>XX GT\<close>, \<^verbatim>\<open>EXPIRE\<close> sets the time of
  an object that has not expired exactly when all the options' conditions hold.
\<close>

theorem expire_follows_rule:
  assumes "\<not> (nx \<and> (xx \<or> gt \<or> lt))" "\<not> (gt \<and> lt)" "\<not> (xx \<and> gt)" "case ttl of None \<Rightarrow> True | Some old \<Rightarrow> old > now"
  shows "will_set_ttl now ts (expire_flags nx xx gt lt) ttl = expire_rule ts nx xx gt lt ttl"
  using assms
  by (cases nx; cases xx; cases gt; cases lt; cases ttl)
     (simp_all add: will_set_ttl_def expire_rule_def expire_flags_def EXPIRE_NX_def EXPIRE_XX_def EXPIRE_GT_def EXPIRE_LT_def
       del: add_2_eq_Suc add_2_eq_Suc')

theorem expire_follows_rule_witness:
  "will_set_ttl 10 30 (expire_flags False False True False) (Some 20) \<and>
   \<not> will_set_ttl 10 15 (expire_flags False False True False) (Some 20)"
  using expire_follows_rule [of False False True False 10 "Some 20" 30]
    expire_follows_rule [of False False True False 10 "Some 20" 15]
  by (simp add: expire_rule_def)

text \<open>
  With \<^verbatim>\<open>XX GT\<close> the \<^verbatim>\<open>GT\<close> condition is not tested: a time earlier than the current one replaces it.
\<close>

theorem expire_xx_gt_ignores_gt:
  assumes "now < old"
  shows "will_set_ttl now ts (expire_flags False True True False) (Some old)"
  using assms by (simp add: will_set_ttl_def expire_flags_def EXPIRE_XX_def EXPIRE_GT_def EXPIRE_LT_def)

theorem expire_xx_gt_ignores_gt_witness:
  "will_set_ttl 10 15 (expire_flags False True True False) (Some 20) \<and> \<not> expire_rule 15 False True True False (Some 20)"
  using expire_xx_gt_ignores_gt [of 10 20 15] by (simp add: expire_rule_def)



section \<open>Replies and errors\<close>





end
